(* ===== verification/Prelude.thy ===== *)
theory Prelude
  imports Main "HOL-Library.Word" "HOL-Library.List_Lexorder"
begin

text \<open>
  Shared ground of the development: JavaScript strings and numbers as the sources use them,
  errors as values, and the generic list lemmas of the component theories.

  \<^item> A JavaScript string is a list of UTF-16 code units, compared unit by unit; \<open>js_string\<close>
    is exactly that, and the lexicographic order of \<open>HOL-Library.List_Lexorder\<close> is the
    order of the operators \<open><\<close> and \<open><=\<close> on strings.
  \<^item> A number that the sources guard with \<open>Number.isSafeInteger\<close> is an \<open>int\<close>; the guard
    keeps its range part.
  \<^item> A thrown error is the left side of a sum, a returned value the right side.
\<close>

section \<open>Strings and numbers\<close>

type_synonym js_string = "16 word list"

definition js :: "string \<Rightarrow> js_string" where
  "js s = map of_char s"

definition max_safe_integer :: int where
  "max_safe_integer = 9007199254740991"

definition is_safe_integer :: "int \<Rightarrow> bool" where
  "is_safe_integer n \<longleftrightarrow> - max_safe_integer \<le> n \<and> n \<le> max_safe_integer"

section \<open>Errors\<close>

text \<open>
  The error classes the modelled code throws, each with its message. \<open>TvicThrowableError\<close>
  carries the code of the normalized error it wraps. \<open>ForeignError\<close> stands for a value
  thrown by a callback the modelled code only calls.
\<close>

datatype js_error =
    InvalidArgumentError js_string
  | RangeError js_string
  | RecordConflictError js_string
  | RecordNotFoundError js_string
  | LeaseLostError js_string
  | BackendUnavailableError js_string
  | PlainError js_string
  | TypeError js_string
  | TvicThrowableError js_string
  | UriError js_string
  | MemoryEntryTooLargeError js_string int int
  | MemorySessionQuotaExceededError js_string int int int
  | ForeignError nat

type_synonym 'a result = "js_error + 'a"

fun is_ok :: "'e + 'a \<Rightarrow> bool" where
  "is_ok (Inl e) = False"
| "is_ok (Inr a) = True"

lemma is_ok_iff: "is_ok r \<longleftrightarrow> (\<exists>a. r = Inr a)"
  by (cases r) auto

text \<open>
  The normalized errors of \<open>packages/core/src/errors.ts\<close>: the code, the category and the retriable
  flag; names, messages and metadata are left out.
\<close>

datatype error_category =
    CatValidation | CatAuth | CatProvider | CatNetwork | CatTimeout | CatRateLimit
  | CatCancelled | CatInterrupted | CatTool | CatMedia | CatInternal

record normalized_error =
  ne_code :: js_string
  ne_category :: error_category
  ne_retriable :: bool

text \<open>Sequencing of fallible code: the first error ends it, as an exception would.\<close>

definition rbind :: "'e + 'a \<Rightarrow> ('a \<Rightarrow> 'e + 'b) \<Rightarrow> 'e + 'b" where
  "rbind r f = (case r of Inl e \<Rightarrow> Inl e | Inr a \<Rightarrow> f a)"

definition rcheck :: "bool \<Rightarrow> 'e \<Rightarrow> 'e + unit" where
  "rcheck ok e = (if ok then Inr () else Inl e)"

lemma rbind_simps [simp]:
  "rbind (Inl e) f = Inl e" "rbind (Inr a) f = f a"
  by (simp_all add: rbind_def)

lemma rbind_eq_Inr [simp]: "rbind r f = Inr b \<longleftrightarrow> (\<exists>a. r = Inr a \<and> f a = Inr b)"
  by (cases r) auto

lemma rcheck_eq [simp]:
  "rcheck ok e = Inr u \<longleftrightarrow> ok" "rcheck ok e = Inl e' \<longleftrightarrow> \<not> ok \<and> e' = e"
  by (auto simp: rcheck_def)

lemma rcheck_simps [simp]: "rcheck True e = Inr ()" "rcheck False e = Inl e"
  by (simp_all add: rcheck_def)

section \<open>Hint collections\<close>

named_theorems inv_intros "introduction rules: an operation keeps its component's invariant"
named_theorems op_defs "the definitions of a component's operations"
named_theorems op_simps "what an operation does to a field or a lookup"

section \<open>Lists\<close>

lemma filter_eq_Nil_iff: "filter P xs = [] \<longleftrightarrow> (\<forall>x \<in> set xs. \<not> P x)"
  by (simp add: filter_empty_conv)

lemma distinct_map_filterI: "distinct (map f xs) \<Longrightarrow> distinct (map f (filter P xs))"
  by (simp add: distinct_map inj_on_def)

lemma find_None_set: "find P xs = None \<longleftrightarrow> (\<forall>x \<in> set xs. \<not> P x)"
  by (induction xs) auto

lemma find_SomeD: "find P xs = Some x \<Longrightarrow> x \<in> set xs \<and> P x"
  by (induction xs) (auto split: if_splits)

section \<open>Stamped cells\<close>

text \<open>
  The contract of a store whose cells carry a growing stamp (the fence of a lease, the version of
  a record): as long as the store is not gone, a step keeps a cell's mark under the same stamp or
  moves to a larger stamp. Clients conclude from two equal stamps that nothing happened in between.
\<close>

locale stamped_cells =
  fixes step :: "'st \<Rightarrow> 'st \<Rightarrow> bool"
    and inv :: "'st \<Rightarrow> bool"
    and look :: "'st \<Rightarrow> 'k \<Rightarrow> 'c option"
    and gone :: "'st \<Rightarrow> bool"
    and stamp :: "'c \<Rightarrow> int"
    and mark :: "'c \<Rightarrow> 'm"
  assumes step_inv: "inv s \<Longrightarrow> step s s' \<Longrightarrow> inv s'"
    and step_gone: "inv s \<Longrightarrow> step s s' \<Longrightarrow> gone s \<Longrightarrow> gone s'"
    and step_look: "inv s \<Longrightarrow> step s s' \<Longrightarrow> look s k = Some a \<Longrightarrow> \<not> gone s' \<Longrightarrow>
      \<exists>b. look s' k = Some b \<and> (stamp a = stamp b \<and> mark a = mark b \<or> stamp a < stamp b)"
begin

lemma run_inv: "step\<^sup>*\<^sup>* s s' \<Longrightarrow> inv s \<Longrightarrow> inv s'"
  by (induction rule: rtranclp_induct) (auto dest: step_inv)

lemma run_gone: "step\<^sup>*\<^sup>* s s' \<Longrightarrow> inv s \<Longrightarrow> gone s \<Longrightarrow> gone s'"
  by (induction rule: rtranclp_induct) (auto dest: step_gone run_inv)

lemma run_look:
  "step\<^sup>*\<^sup>* s s' \<Longrightarrow> inv s \<Longrightarrow> look s k = Some a \<Longrightarrow> \<not> gone s' \<Longrightarrow>
    \<exists>b. look s' k = Some b \<and> (stamp a = stamp b \<and> mark a = mark b \<or> stamp a < stamp b)"
proof (induction rule: rtranclp_induct)
  case (step t u)
  have inv: "inv t" using step(1,4) by (rule run_inv)
  then have "\<not> gone t" using step_gone step by blast
  with step obtain b where b: "look t k = Some b"
    "stamp a = stamp b \<and> mark a = mark b \<or> stamp a < stamp b" by blast
  from step_look [OF inv step(2) b(1) step(6)] b(2) show ?case by fastforce
qed auto

text \<open>A stamp seen at both ends of a run pins the mark at every moment in between.\<close>

lemma stamp_pins_mark:
  assumes "inv s" and "step\<^sup>*\<^sup>* s t" and "step\<^sup>*\<^sup>* t u" and "\<not> gone u"
    and a: "look s k = Some a" and c: "look u k = Some c" and "stamp a = stamp c"
  shows "\<exists>b. look t k = Some b \<and> stamp b = stamp a \<and> mark b = mark a"
proof -
  have inv: "inv t" using assms(2,1) by (rule run_inv)
  have "\<not> gone t" using assms(3,4) run_gone [OF _ inv] by blast
  from run_look [OF assms(2,1) a this] obtain b where b: "look t k = Some b"
    "stamp a = stamp b \<and> mark a = mark b \<or> stamp a < stamp b" by blast
  from run_look [OF assms(3) inv b(1) assms(4)] c
  have "stamp b \<le> stamp c" by (metis option.inject order_less_imp_le order_refl)
  then have "\<not> stamp a < stamp b" using assms(7) by linarith
  then have "stamp b = stamp a \<and> mark b = mark a" using b(2) by metis
  then show ?thesis using b(1) by blast
qed

text \<open>A superseded stamp never comes back.\<close>

lemma superseded_forever:
  "step\<^sup>*\<^sup>* s t \<Longrightarrow> inv s \<Longrightarrow> look s k = Some a \<Longrightarrow> f < stamp a \<Longrightarrow> \<not> gone t \<Longrightarrow> look t k = Some b \<Longrightarrow>
    stamp b \<noteq> f"
  using run_look by fastforce

end

end
