(* ===== verification/Audio_Codec.thy ===== *)
theory Audio_Codec
  imports Prelude
begin

text \<open>
  Edge audio conversion of \<open>packages/media/src/audio-codec.ts\<close>: mu-law bytes to and from
  16-bit little-endian PCM, the mono PCM16 format guard and the splitting of a buffer into
  frames. A byte array is an \<open>8 word list\<close>; a sample is the \<open>int\<close> the JavaScript code
  computes with, and \<open>set_int16_le\<close>, \<open>get_int16_le\<close> are the \<open>DataView\<close> accessors with
  their wrap-around. The bitwise operators act on \<open>int\<close>, which agrees with the 32-bit
  operators of JavaScript on the values that occur here.
\<close>

unbundle bit_operations_syntax

section \<open>Formats\<close>

datatype audio_encoding = pcm_s16le | pcm_s16be | pcm_f32le

record audio_format =
  encoding :: audio_encoding
  sampleRateHz :: int
  channels :: int
  frameDurationMs :: "int option"

definition is_sample_rate_hz :: "int \<Rightarrow> bool" where
  "is_sample_rate_hz r \<longleftrightarrow> r \<in> set [8000, 16000, 22050, 24000, 44100, 48000]"

definition is_reconstructable_audio_format :: "audio_format \<Rightarrow> bool" where
  "is_reconstructable_audio_format f \<longleftrightarrow>
     encoding f = pcm_s16le \<and> channels f = 1 \<and> is_sample_rate_hz (sampleRateHz f)
     \<and> (case frameDurationMs f of None \<Rightarrow> True | Some d \<Rightarrow> 0 < d)"

definition assert_pcm16le_format :: "audio_format \<Rightarrow> unit result" where
  "assert_pcm16le_format f =
     (if encoding f \<noteq> pcm_s16le then Inl (TvicThrowableError (js ''media.audio_format_invalid''))
      else if channels f \<noteq> 1 then Inl (TvicThrowableError (js ''media.audio_format_invalid''))
      else Inr ())"

section \<open>DataView accessors\<close>

definition set_int16_le :: "int \<Rightarrow> 8 word list" where
  "set_int16_le v = [word_of_int v, word_of_int (v div 256)]"

definition get_int16_le :: "8 word \<Rightarrow> 8 word \<Rightarrow> int" where
  "get_int16_le lo hi =
     (let u = uint lo + 256 * uint hi in if u < 32768 then u else u - 65536)"

section \<open>Samples\<close>

definition mulaw_bias :: int where "mulaw_bias = 0x84"

definition mulaw_clip :: int where "mulaw_clip = 32635"

definition decode_mulaw_sample :: "int \<Rightarrow> int" where
  "decode_mulaw_sample sample =
     (let value = NOT sample AND 0xff;
          sign = value AND 0x80;
          exponent = drop_bit 4 value AND 0x07;
          mantissa = value AND 0x0f;
          decoded = push_bit (nat exponent) (push_bit 3 mantissa + mulaw_bias) - mulaw_bias
      in if sign \<noteq> 0 then - decoded else decoded)"

fun exponent_loop :: "nat \<Rightarrow> int \<Rightarrow> int \<Rightarrow> nat" where
  "exponent_loop 0 m pcm = 0"
| "exponent_loop (Suc e) m pcm =
     (if pcm AND m = 0 then exponent_loop e (drop_bit 1 m) pcm else Suc e)"

definition encode_mulaw_sample :: "int \<Rightarrow> int" where
  "encode_mulaw_sample sample =
     (let clipped = max (- mulaw_clip) (min mulaw_clip sample);
          sign = (if clipped < 0 then 0x80 else 0x00);
          pcm = (if clipped < 0 then - clipped else clipped) + mulaw_bias;
          exponent = exponent_loop 7 0x4000 pcm;
          mantissa = drop_bit (exponent + 3) pcm AND 0x0f
      in NOT ((sign OR push_bit 4 (int exponent)) OR mantissa) AND 0xff)"

section \<open>Buffers\<close>

definition pcm16_bytes_per_sample :: int where "pcm16_bytes_per_sample = 2"

definition mulaw_to_pcm16le :: "8 word list \<Rightarrow> 8 word list" where
  "mulaw_to_pcm16le mulaw =
     concat (map (\<lambda>b. set_int16_le (decode_mulaw_sample (uint b))) mulaw)"

fun pcm16le_to_mulaw :: "8 word list \<Rightarrow> 8 word list" where
  "pcm16le_to_mulaw (lo # hi # rest) =
     word_of_int (encode_mulaw_sample (get_int16_le lo hi)) # pcm16le_to_mulaw rest"
| "pcm16le_to_mulaw _ = []"

definition frame_count_for_pcm16le :: "8 word list \<Rightarrow> nat" where
  "frame_count_for_pcm16le bytes = length bytes div 2"

text \<open>
  \<open>Math.round\<close> of an integer over 1000 (halves up). The frame loop is only entered with a
  positive frame size; the guard \<open>0 < bytes_per_frame\<close> makes the recursion total and is
  discharged by \<open>bytes_per_frame_pos\<close> for every format that passes the guard.
\<close>

definition round_div_1000 :: "int \<Rightarrow> int" where
  "round_div_1000 x = (2 * x + 1000) div 2000"

definition bytes_per_frame :: "audio_format \<Rightarrow> int \<Rightarrow> nat" where
  "bytes_per_frame f frame_duration_ms =
     nat (max 1 (round_div_1000 (sampleRateHz f * frame_duration_ms))
            * pcm16_bytes_per_sample * channels f)"

function split_from :: "8 word list \<Rightarrow> nat \<Rightarrow> nat \<Rightarrow> 8 word list list" where
  "split_from bytes n offset =
     (if offset < length bytes \<and> 0 < n
      then take (min (length bytes) (offset + n) - offset) (drop offset bytes)
             # split_from bytes n (offset + n)
      else [])"
  by pat_completeness auto
termination
  by (relation "measure (\<lambda>(bytes, n, offset). length bytes - offset)") auto

declare split_from.simps [simp del]

definition split_pcm16le_frames ::
    "8 word list \<Rightarrow> audio_format \<Rightarrow> int \<Rightarrow> 8 word list list result" where
  "split_pcm16le_frames bytes f frame_duration_ms =
     (case assert_pcm16le_format f of
        Inl e \<Rightarrow> Inl e
      | Inr _ \<Rightarrow> Inr (split_from bytes (bytes_per_frame f frame_duration_ms) 0))"

section \<open>Exponents, mantissas and cells\<close>

text \<open>
  A magnitude \<open>p\<close> is at least 132, so the loop stops at the exponent of its top bit; the
  mantissa is the next four bits. Decoding the byte with these fields gives the midpoint of
  the quantisation cell.
\<close>

lemma and_top_bit_eq_0_iff:
  fixes p :: int
  assumes "0 \<le> p" and "p < 2 ^ Suc k"
  shows "p AND 2 ^ k = 0 \<longleftrightarrow> p < 2 ^ k"
proof -
  have "p = take_bit (Suc k) p" using assms by (metis take_bit_int_eq_self)
  also have "\<dots> = 2 ^ k * of_bool (bit p k) + take_bit k p"
    by (simp only: take_bit_Suc_from_most)
  finally have split: "p = 2 ^ k * of_bool (bit p k) + take_bit k p" .
  have low: "0 \<le> take_bit k p" "take_bit k p < 2 ^ k"
    by simp_all
  have "bit p k \<longleftrightarrow> 2 ^ k \<le> p"
  proof (cases "bit p k")
    case True
    with split low(1) show ?thesis by (metis (full_types) le_add_same_cancel1 mult.right_neutral of_bool_eq(2))
  next
    case False
    with split low(2) show ?thesis by simp
  qed
  then show ?thesis by (auto simp: and_exp_eq_0_iff_not_bit)
qed

lemma exponent_loop_bounds:
  assumes "2 ^ 7 \<le> p" and "p < 2 ^ (e + 8)"
  shows "2 ^ (exponent_loop e (2 ^ (e + 7)) p + 7) \<le> p
    \<and> p < 2 ^ (exponent_loop e (2 ^ (e + 7)) p + 8) \<and> exponent_loop e (2 ^ (e + 7)) p \<le> e"
  using assms
proof (induction e)
  case (Suc e)
  have and0: "p AND 2 ^ (Suc e + 7) = 0 \<longleftrightarrow> p < 2 ^ (Suc e + 7)"
    by (rule and_top_bit_eq_0_iff) (use Suc.prems in \<open>simp_all\<close>)
  have half: "drop_bit 1 (2 ^ (Suc e + 7) :: int) = 2 ^ (e + 7)"
    by (simp add: drop_bit_exp_eq)
  show ?case
  proof (cases "p < 2 ^ (Suc e + 7)")
    case True
    then show ?thesis
      using Suc and0 half by (simp add: algebra_simps le_Suc_eq del: power_Suc)
  next
    case False
    then show ?thesis using Suc.prems and0 half by (simp add: algebra_simps)
  qed
qed auto


lemma decode_of_fields:
  assumes "e \<le> 7" and "0 \<le> m" and "m < 16" and "s = 0 \<or> s = 0x80"
  shows "decode_mulaw_sample (NOT ((s OR push_bit 4 (int e)) OR m) AND 0xff)
     = (if s = 0 then 1 else -1) * (2 ^ e * (8 * m + 132) - 132)"
proof -
  have "\<forall>e \<in> set [0..<8]. \<forall>m\<in>set [0..15]. \<forall>s\<in>{0,0x80}.
     decode_mulaw_sample (NOT ((s OR push_bit 4 (int e)) OR m) AND 0xff)
       = (if s = 0 then 1 else -1) * (2 ^ e * (8 * m + 132) - 132)"
    by code_simp
  moreover have "e \<in> set [0..<8]" "m \<in> set [0..15]" using assms by auto
  ultimately show ?thesis using assms(4) by blast
qed

definition magnitude :: "int \<Rightarrow> int" where
  "magnitude s = \<bar>max (- mulaw_clip) (min mulaw_clip s)\<bar> + mulaw_bias"

lemma magnitude_bounds: "2 ^ 7 \<le> magnitude s" "magnitude s < 2 ^ 15"
  by (auto simp: magnitude_def mulaw_clip_def mulaw_bias_def)

definition cell :: "int \<Rightarrow> nat" where
  "cell s = exponent_loop 7 0x4000 (magnitude s)"

lemma cell_bounds:
  "2 ^ (cell s + 7) \<le> magnitude s" "magnitude s < 2 ^ (cell s + 8)" "cell s \<le> 7"
  using exponent_loop_bounds [of "magnitude s" 7] magnitude_bounds [of s]
  by (auto simp: cell_def)

lemma div_exp_less:
  fixes p :: int
  assumes "p < 2 ^ (e + k)"
  shows "p div 2 ^ e < 2 ^ k"
proof (rule ccontr)
  assume "\<not> p div 2 ^ e < 2 ^ k"
  then have "2 ^ e * 2 ^ k \<le> 2 ^ e * (p div 2 ^ e)" by simp
  also have "\<dots> \<le> p" using pos_mod_sign [of "2 ^ e" p] by (simp add: minus_mod_eq_mult_div [symmetric])
  finally show False using assms by (simp add: power_add)
qed

lemma mantissa_eq:
  assumes "2 ^ (e + 7) \<le> p" and "p < (2::int) ^ (e + 8)"
  shows "drop_bit (e + 3) p AND 0x0f = p div 2 ^ (e + 3) - 16"
proof -
  have "drop_bit (e + 3) p AND 0x0f = (p div 2 ^ (e + 3)) mod 16"
    using take_bit_eq_mask [of 4 "drop_bit (e + 3) p"]
    by (simp add: take_bit_eq_mod drop_bit_eq_div mask_eq_exp_minus_1)
  moreover have "16 \<le> p div 2 ^ (e + 3)"
    using zdiv_mono1 [OF assms(1), of "2 ^ (e + 3)"] by (simp add: power_add)
  moreover have "p div 2 ^ (e + 3) < 32"
    using div_exp_less [of p "e + 3" 5] assms(2) by (simp add: algebra_simps)
  moreover have "x mod 16 = x - 16" if "16 \<le> x" "x < 32" for x :: int
    using that by presburger
  ultimately show ?thesis by metis
qed

lemma mantissa_bounds:
  assumes "2 ^ (e + 7) \<le> p" and "p < (2::int) ^ (e + 8)"
  shows "0 \<le> p div 2 ^ (e + 3) - 16" "p div 2 ^ (e + 3) - 16 < 16"
  using zdiv_mono1 [OF assms(1), of "2 ^ (e + 3)"] div_exp_less [of p "e + 3" 5] assms(2)
  by (auto simp: power_add algebra_simps)

lemma decode_encode:
  "decode_mulaw_sample (encode_mulaw_sample s) =
     (if s < 0 then -1 else 1) *
       (2 ^ (cell s + 3) * (magnitude s div 2 ^ (cell s + 3)) + 2 ^ (cell s + 2) - mulaw_bias)"
proof -
  let ?c = "max (- mulaw_clip) (min mulaw_clip s)"
  have neg: "?c < 0 \<longleftrightarrow> s < 0" by (auto simp: mulaw_clip_def)
  have mag: "(if s < 0 then - ?c else ?c) + mulaw_bias = magnitude s"
    using neg by (simp add: magnitude_def abs_if)
  have enc: "encode_mulaw_sample s =
      (NOT (((if s < 0 then 0x80 else 0x00) OR push_bit 4 (int (cell s)))
          OR (magnitude s div 2 ^ (cell s + 3) - 16)) AND 0xff)"
    unfolding encode_mulaw_sample_def Let_def neg mag
    by (simp only: cell_def [symmetric] mantissa_eq [OF cell_bounds(1,2)])
  show ?thesis
    unfolding enc using mantissa_bounds [OF cell_bounds(1,2), of s] cell_bounds(3) [of s]
    by (subst decode_of_fields) (auto simp: mulaw_bias_def power_add algebra_simps)
qed

lemma exponent_unique:
  assumes "2 ^ (a + 7) \<le> (p::int)" "p < 2 ^ (a + 8)" "2 ^ (b + 7) \<le> p" "p < 2 ^ (b + 8)"
  shows "a = b"
proof -
  have "(2::int) ^ (a + 7) < 2 ^ (b + 8)" "(2::int) ^ (b + 7) < 2 ^ (a + 8)"
    using assms by linarith+
  then show ?thesis by (simp only: power_strict_increasing_iff) 
qed


lemma exponent_loop_eq:
  assumes "2 ^ (e + 7) \<le> p" "p < 2 ^ (e + 8)" "e \<le> 7"
  shows "exponent_loop 7 0x4000 p = e"
proof -
  have "(2::int) ^ 7 \<le> 2 ^ (e + 7)" "(2::int) ^ (e + 8) \<le> 2 ^ 15"
    using assms(3) by (intro power_increasing; simp)+
  then have "2 ^ 7 \<le> p" "p < 2 ^ (7 + 8)" using assms(1,2) by auto
  from exponent_loop_bounds [OF this] have
    "2 ^ (exponent_loop 7 0x4000 p + 7) \<le> p" "p < 2 ^ (exponent_loop 7 0x4000 p + 8)"
    by auto
  then show ?thesis using assms(1,2) by (rule exponent_unique)
qed

lemma midpoint_table:
  "\<forall>e \<in> set [0..<8]. \<forall>m \<in> set [0..15].
     0 \<le> 2 ^ e * (8 * m + 132) - (132::int) \<and> 2 ^ e * (8 * m + 132) - 132 \<le> mulaw_clip
     \<and> 2 ^ (e + 7) \<le> 2 ^ e * (8 * m + 132) \<and> 2 ^ e * (8 * m + 132) < 2 ^ (e + 8)
     \<and> 2 ^ e * (8 * m + 132) div 2 ^ (e + 3) = m + 16
     \<and> (2 ^ e * (8 * m + 132) = 132 \<longrightarrow> e = 0 \<and> m = 0)"
  by code_simp

lemma encode_of_midpoint:
  fixes m :: int
  assumes "e \<le> 7" and "0 \<le> m" and "m < 16" and "neg \<Longrightarrow> e \<noteq> 0 \<or> m \<noteq> 0"
  shows "encode_mulaw_sample ((if neg then -1 else 1) * (2 ^ e * (8 * m + 132) - 132))
     = (NOT (((if neg then 0x80 else 0) OR push_bit 4 (int e)) OR m) AND 0xff)"
proof -
  let ?p = "2 ^ e * (8 * m + 132)"
  let ?v = "(if neg then -1 else 1) * (?p - 132)"
  have "e \<in> set [0..<8]" "m \<in> set [0..15]" using assms(1-3) by auto
  then have t: "0 \<le> ?p - 132" "?p - 132 \<le> mulaw_clip" "2 ^ (e + 7) \<le> ?p" "?p < 2 ^ (e + 8)"
     "?p div 2 ^ (e + 3) = m + 16" "?p = 132 \<longrightarrow> e = 0 \<and> m = 0"
    using midpoint_table by blast+
  have c: "max (- mulaw_clip) (min mulaw_clip ?v) = ?v" using t(1,2) by auto
  have neg: "?v < 0 \<longleftrightarrow> neg" using t(1,6) assms(4) by auto
  have mag: "(if neg then - ?v else ?v) + mulaw_bias = ?p" by (simp add: mulaw_bias_def)
  have "exponent_loop 7 0x4000 ?p = e"
    by (rule exponent_loop_eq) (use t(3,4) assms(1) in auto)
  then show ?thesis
    unfolding encode_mulaw_sample_def Let_def c neg mag
    using mantissa_eq [OF t(3,4)] t(5) by simp
qed

lemma byte_fields_table:
  "\<forall>n \<in> set [0..255]. let v = NOT n AND 0xff; e = drop_bit 4 v AND 7; m = v AND 15 in
     n = (NOT (((if v AND 0x80 \<noteq> 0 then 0x80 else 0) OR push_bit 4 e) OR m) AND 0xff)
     \<and> 0 \<le> e \<and> e \<le> 7 \<and> 0 \<le> m \<and> m < 16 \<and> (v AND 0x80 \<noteq> 0 \<and> e = 0 \<and> m = 0 \<longrightarrow> n = (127::int))"
  by code_simp

section \<open>Quantisation error and byte round trip\<close>


text \<open>
  Decoding a mu-law byte and encoding the sample gives the byte back, except for the negative
  zero 0x7f, which comes back as the positive zero 0xff.
\<close>

lemma byte_fields:
  fixes b :: "8 word"
  obtains e m neg where "e \<le> 7" "0 \<le> m" "m < 16" "neg \<and> e = 0 \<and> m = 0 \<longrightarrow> uint b = 127"
    "uint b = (NOT (((if neg then 0x80 else 0) OR push_bit 4 (int e)) OR m) AND 0xff)"
    "decode_mulaw_sample (uint b) = (if neg then -1 else 1) * (2 ^ e * (8 * m + 132) - 132)"
proof -
  define v e m where "v = (NOT (uint b) AND 0xff)" and "e = drop_bit 4 v AND 7" and "m = v AND 15"
  let ?neg = "v AND 0x80 \<noteq> 0"
  have "uint b \<in> set [0..255]" using uint_bounded [of b] by auto
  then have f: "0 \<le> e" "e \<le> 7" "0 \<le> m" "m < 16" "?neg \<and> e = 0 \<and> m = 0 \<Longrightarrow> uint b = 127"
    and b: "uint b = (NOT (((if ?neg then 0x80 else 0) OR push_bit 4 e) OR m) AND 0xff)"
    using byte_fields_table unfolding Let_def v_def e_def m_def by blast+
  have "decode_mulaw_sample (uint b) = (if ?neg then -1 else 1) * (2 ^ nat e * (8 * m + 132) - 132)"
    unfolding decode_mulaw_sample_def Let_def v_def [symmetric] e_def [symmetric] m_def [symmetric]
    by (simp add: push_bit_eq_mult mulaw_bias_def algebra_simps)
  with f b show ?thesis by (intro that [of "nat e" m ?neg]) (auto simp: nat_le_iff)
qed

lemma mulaw_byte_roundtrip:
  "encode_mulaw_sample (decode_mulaw_sample (uint b)) = (if b = 0x7f then 0xff else uint b)"
  for b :: "8 word"
proof (cases "uint b = 127")
  case True
  have "encode_mulaw_sample (decode_mulaw_sample 127) = 255" by code_simp
  moreover have "b = 0x7f" using True by (intro word_uint_eqI) simp
  ultimately show ?thesis by simp
next
  case False
  obtain e m neg where f: "e \<le> 7" "0 \<le> m" "m < 16" "neg \<and> e = 0 \<and> m = 0 \<longrightarrow> uint b = 127"
    and b: "uint b = (NOT (((if neg then 0x80 else 0) OR push_bit 4 (int e)) OR m) AND 0xff)"
    and dec: "decode_mulaw_sample (uint b) = (if neg then -1 else 1) * (2 ^ e * (8 * m + 132) - 132)"
    using byte_fields [of b] by metis
  have "encode_mulaw_sample (decode_mulaw_sample (uint b)) = uint b"
    unfolding dec by (subst encode_of_midpoint) (use f False b in auto)
  then show ?thesis using False by auto
qed

lemma decode_range:
  "- 32635 \<le> decode_mulaw_sample (uint b)" "decode_mulaw_sample (uint b) \<le> 32635"
  for b :: "8 word"
proof -
  obtain e m neg where f: "e \<le> 7" "0 \<le> m" "m < 16"
    and dec: "decode_mulaw_sample (uint b) = (if neg then -1 else 1) * (2 ^ e * (8 * m + 132) - 132)"
    using byte_fields [of b] by metis
  have "e \<in> set [0..<8]" "m \<in> set [0..15]" using f by auto
  then have "0 \<le> 2 ^ e * (8 * m + 132) - 132" "2 ^ e * (8 * m + 132) - 132 \<le> 32635"
    using midpoint_table unfolding mulaw_clip_def by blast+
  then show "- 32635 \<le> decode_mulaw_sample (uint b)" "decode_mulaw_sample (uint b) \<le> 32635"
    unfolding dec by auto
qed

section \<open>Buffers of samples\<close>

lemma get_set_int16_le:
  assumes "- 32768 \<le> v" "v < 32768"
  shows "get_int16_le (word_of_int v) (word_of_int (v div 256)) = v"
proof -
  have "uint (word_of_int v :: 8 word) = v mod 256"
    and "uint (word_of_int (v div 256) :: 8 word) = v div 256 mod 256"
    by (simp_all add: uint_word_of_int)
  moreover define q where "q = v div 256"
  moreover have v: "v = 256 * q + v mod 256" and r: "0 \<le> v mod 256" "v mod 256 < 256"
    by (simp_all add: q_def)
  moreover have q: "- 128 \<le> q" "q < 128" using v r assms by linarith+
  moreover have "q mod 256 = (if 0 \<le> q then q else q + 256)"
    using mod_pos_pos_trivial [of q 256] mod_pos_pos_trivial [of "q + 256" 256] q by simp
  ultimately show ?thesis unfolding get_int16_le_def Let_def by (auto split: if_splits)
qed

lemma length_mulaw_to_pcm16le: "length (mulaw_to_pcm16le xs) = 2 * length xs"
  by (induction xs) (auto simp: mulaw_to_pcm16le_def set_int16_le_def)

lemma length_pcm16le_to_mulaw: "length (pcm16le_to_mulaw xs) = frame_count_for_pcm16le xs"
  by (induction xs rule: pcm16le_to_mulaw.induct) (auto simp: frame_count_for_pcm16le_def)

text \<open>
  Property C6: the buffer conversions keep one sample per byte: converting mu-law bytes to PCM16
  and back returns the same bytes, with negative zeros normalised.
\<close>

theorem mulaw_buffer_roundtrip:
  "pcm16le_to_mulaw (mulaw_to_pcm16le xs) = map (\<lambda>b. if b = 0x7f then 0xff else b) xs
    \<and> length (mulaw_to_pcm16le xs) = 2 * length xs"
proof -
  have step: "word_of_int (encode_mulaw_sample (get_int16_le
      (word_of_int (decode_mulaw_sample (uint b))) (word_of_int (decode_mulaw_sample (uint b) div 256))))
      = (if b = 0x7f then 0xff else b)" for b :: "8 word"
    using decode_range [of b] by (subst get_set_int16_le) (auto simp: mulaw_byte_roundtrip)
  have "pcm16le_to_mulaw (mulaw_to_pcm16le xs) = map (\<lambda>b. if b = 0x7f then 0xff else b) xs"
    by (induction xs) (auto simp: mulaw_to_pcm16le_def set_int16_le_def step)
  then show ?thesis by (simp add: length_mulaw_to_pcm16le)
qed

section \<open>Frames\<close>

lemma bytes_per_frame_pos: "0 < channels f \<Longrightarrow> 2 \<le> bytes_per_frame f d"
proof -
  assume "0 < channels f"
  then have "1 * 1 \<le> max 1 (round_div_1000 (sampleRateHz f * d)) * channels f"
    by (intro mult_mono) auto
  then show ?thesis
    by (simp add: bytes_per_frame_def pcm16_bytes_per_sample_def algebra_simps)
qed

lemma split_from_props:
  assumes "0 < n"
  shows "concat (split_from bytes n offset) = drop offset bytes
    \<and> (\<forall>fr \<in> set (butlast (split_from bytes n offset)). length fr = n)
    \<and> (\<forall>fr \<in> set (split_from bytes n offset). fr \<noteq> [] \<and> length fr \<le> n)"
  using assms
proof (induction bytes n offset rule: split_from.induct)
  case (1 bytes n offset)
  show ?case
  proof (cases "offset < length bytes")
    case False
    then show ?thesis by (simp add: split_from.simps [of bytes n offset])
  next
    case True
    let ?fr = "take (min (length bytes) (offset + n) - offset) (drop offset bytes)"
    have eq: "split_from bytes n offset = ?fr # split_from bytes n (offset + n)"
      using True 1(2) by (simp add: split_from.simps [of bytes n offset])
    have fr: "?fr = take n (drop offset bytes)" by (simp add: min_def)
    have nil: "split_from bytes n (offset + n) = [] \<longleftrightarrow> length bytes \<le> offset + n"
      using 1(2) by (simp add: split_from.simps [of bytes n "offset + n"])
    have "drop offset bytes = ?fr @ drop (offset + n) bytes"
      unfolding fr by (metis append_take_drop_id drop_drop add.commute)
    moreover have "?fr \<noteq> []" "length ?fr \<le> n" using True 1(2) by auto
    moreover have "length ?fr = n" if "split_from bytes n (offset + n) \<noteq> []"
      using that nil by auto
    moreover note IH = 1(1) [OF conjI [OF True 1(2)] 1(2)]
    ultimately show ?thesis unfolding eq by (simp del: length_take)
  qed
qed

text \<open>
  Splitting a PCM16 buffer into frames loses nothing: the frames concatenate to the
  buffer, every frame but the last has exactly the frame size, none is empty or longer, and a
  format that is not mono PCM16 is rejected.
\<close>

theorem split_pcm16le_frames_spec:
  "case split_pcm16le_frames bytes f d of
     Inl e \<Rightarrow> \<not> (encoding f = pcm_s16le \<and> channels f = 1)
   | Inr frames \<Rightarrow> encoding f = pcm_s16le \<and> channels f = 1 \<and> concat frames = bytes
       \<and> list_all (\<lambda>fr. length fr = bytes_per_frame f d) (butlast frames)
       \<and> list_all (\<lambda>fr. fr \<noteq> [] \<and> length fr \<le> bytes_per_frame f d) frames"
proof (cases "encoding f = pcm_s16le \<and> channels f = 1")
  case True
  then have "0 < bytes_per_frame f d" using bytes_per_frame_pos [of f d] by auto
  from split_from_props [OF this, of bytes 0] True show ?thesis
    by (simp add: split_pcm16le_frames_def assert_pcm16le_format_def list_all_iff)
next
  case False
  then show ?thesis
    by (auto simp: split_pcm16le_frames_def assert_pcm16le_format_def)
qed

end
