(* ===== verification/Async_Queue.thy ===== *)
theory Async_Queue
  imports Prelude "HOL-Library.Sublist"
begin

text \<open>
  The bounded single-consumer queue of \<open>packages/media/src/async-queue.ts\<close>. A pending
  \<open>next()\<close> is a waiter; resolving or rejecting its promise is an output of
  the operation that does it. The code after \<open>await this.#next()\<close> runs in a later microtask, so
  it is an operation of its own (\<open>after_next\<close>), which other operations may precede. The overflow
  callback is represented by its outcome: it runs at most once, because it fails the queue.
\<close>

section \<open>State\<close>

datatype overflow_outcome = Returns "js_error option" | Throws "js_error option"

datatype 'a settlement = Resolved 'a | Done | Rejected js_error

text \<open>A promise is named by the iterator whose \<open>next()\<close> made it and a call number.\<close>

type_synonym promise = "nat \<times> nat"

record 'a async_queue =
  q_values :: "'a list"
  q_waiters :: "promise list"
  q_closed :: bool
  q_failed :: bool
  q_claimed :: bool
  q_error :: js_error
  q_max_buffered :: "int option"
  q_on_overflow :: "overflow_outcome option"
  q_unsettled :: "nat set"
  q_next_iterator :: nat

definition default_max_buffered :: int where "default_max_buffered = 1024"

definition consumer_error :: js_error where
  "consumer_error = PlainError (js ''async_queue.consumer_already_claimed'')"

definition overflow_error :: js_error where
  "overflow_error = PlainError (js ''AsyncQueue overflow'')"

text \<open>
  The constructor: \<open>max_buffered\<close> is \<open>None\<close> when the option is absent, \<open>Some None\<close> for
  \<open>Infinity\<close> and \<open>Some (Some n)\<close> for a number.
\<close>

definition new_queue ::
    "int option option \<Rightarrow> overflow_outcome option \<Rightarrow> 'a async_queue result" where
  "new_queue max_buffered on_overflow =
     (let m = (case max_buffered of None \<Rightarrow> Some default_max_buffered | Some b \<Rightarrow> b) in
      if (case m of None \<Rightarrow> False | Some n \<Rightarrow> \<not> is_safe_integer n \<or> n < 1)
      then Inl (RangeError (js ''AsyncQueue maxBuffered must be a positive safe integer''))
      else Inr \<lparr>q_values = [], q_waiters = [], q_closed = False, q_failed = False,
                q_claimed = False, q_error = PlainError [], q_max_buffered = m,
                q_on_overflow = on_overflow, q_unsettled = {}, q_next_iterator = 0\<rparr>)"

section \<open>Operations\<close>

text \<open>Each operation returns the new state and the promises it settles, in order.\<close>

definition fail_queue ::
    "js_error \<Rightarrow> 'a async_queue \<Rightarrow> 'a async_queue \<times> (promise \<times> 'a settlement) list" where
  "fail_queue e q =
     (if q_closed q then (q, [])
      else (q\<lparr>q_error := e, q_failed := True, q_closed := True, q_values := [], q_waiters := []\<rparr>,
            map (\<lambda>w. (w, Rejected e)) (q_waiters q)))"

definition close_queue ::
    "'a async_queue \<Rightarrow> 'a async_queue \<times> (promise \<times> 'a settlement) list" where
  "close_queue q =
     (if q_closed q then (q, [])
      else (q\<lparr>q_closed := True, q_waiters := []\<rparr>, map (\<lambda>w. (w, Done)) (q_waiters q)))"

fun overflow_value :: "overflow_outcome \<Rightarrow> js_error" where
  "overflow_value (Returns r) = (case r of Some e \<Rightarrow> e | None \<Rightarrow> overflow_error)"
| "overflow_value (Throws r) = (case r of Some e \<Rightarrow> e | None \<Rightarrow> overflow_error)"

definition is_full :: "'a async_queue \<Rightarrow> bool" where
  "is_full q = (case q_max_buffered q of None \<Rightarrow> False | Some n \<Rightarrow> n \<le> int (length (q_values q)))"

definition push_queue ::
    "'a \<Rightarrow> 'a async_queue \<Rightarrow> bool \<times> 'a async_queue \<times> (promise \<times> 'a settlement) list" where
  "push_queue v q =
     (if q_closed q then (False, q, [])
      else case q_waiters q of
        w # ws \<Rightarrow> (True, q\<lparr>q_waiters := ws\<rparr>, [(w, Resolved v)])
      | [] \<Rightarrow>
          if is_full q then
            (case q_on_overflow q of
               Some f \<Rightarrow> (False, fail_queue (overflow_value f) q)
             | None \<Rightarrow> (False, q, []))
          else (True, q\<lparr>q_values := q_values q @ [v]\<rparr>, []))"

definition claim_iterator :: "'a async_queue \<Rightarrow> (nat \<times> 'a async_queue) result" where
  "claim_iterator q =
     (if q_claimed q then Inl consumer_error
      else let i = q_next_iterator q in
        Inr (i, q\<lparr>q_claimed := True, q_unsettled := insert i (q_unsettled q),
                  q_next_iterator := Suc i\<rparr>))"

definition release :: "nat \<Rightarrow> 'a async_queue \<Rightarrow> 'a async_queue" where
  "release i q =
     (if i \<in> q_unsettled q then q\<lparr>q_unsettled := q_unsettled q - {i}, q_claimed := False\<rparr> else q)"

text \<open>The private \<open>#next\<close>: the promise \<open>w\<close> is settled at once or left waiting.\<close>

definition next_queue ::
    "promise \<Rightarrow> 'a async_queue \<Rightarrow> 'a async_queue \<times> (promise \<times> 'a settlement) list" where
  "next_queue w q =
     (if q_failed q then (q, [(w, Rejected (q_error q))])
      else case q_values q of
        v # vs \<Rightarrow> (q\<lparr>q_values := vs\<rparr>, [(w, Resolved v)])
      | [] \<Rightarrow> if q_closed q then (q, [(w, Done)])
              else (q\<lparr>q_waiters := q_waiters q @ [w]\<rparr>, []))"

fun after_next :: "nat \<Rightarrow> 'a settlement \<Rightarrow> 'a async_queue \<Rightarrow> 'a async_queue" where
  "after_next i (Resolved v) q = q"
| "after_next i Done q = release i q"
| "after_next i (Rejected e) q = release i q"

definition return_queue ::
    "nat \<Rightarrow> 'a async_queue \<Rightarrow> 'a async_queue \<times> (promise \<times> 'a settlement) list" where
  "return_queue i q =
     (let (q', out) = close_queue (q\<lparr>q_values := []\<rparr>) in (release i q', out))"

definition throw_queue ::
    "nat \<Rightarrow> js_error option \<Rightarrow> 'a async_queue \<Rightarrow> 'a async_queue \<times> (promise \<times> 'a settlement) list" where
  "throw_queue i err q =
     (let (q', out) = (case err of None \<Rightarrow> close_queue (q\<lparr>q_values := []\<rparr>)
                       | Some e \<Rightarrow> fail_queue e (q\<lparr>q_values := []\<rparr>))
      in (release i q', out))"

lemmas queue_defs [op_defs] =
  fail_queue_def close_queue_def push_queue_def claim_iterator_def release_def next_queue_def
  return_queue_def throw_queue_def

section \<open>The queue and its environment\<close>

text \<open>
  The world adds what the environment sees: the settled promises whose continuation has not run
  yet, the values accepted by \<open>push\<close>, the values delivered to the consumer, and whether a
  failure or a consumer's \<open>return\<close>/\<open>throw\<close> threw buffered values away. Producers and
  consumers act in any order.
\<close>

record 'a queue_world =
  w_queue :: "'a async_queue"
  w_inbox :: "(promise \<times> 'a settlement) list"
  w_accepted :: "'a list"
  w_delivered :: "'a list"
  w_discarded :: bool

fun delivered_by :: "(promise \<times> 'a settlement) list \<Rightarrow> 'a list" where
  "delivered_by [] = []"
| "delivered_by ((p, Resolved v) # out) = v # delivered_by out"
| "delivered_by ((p, s) # out) = delivered_by out"

definition observe ::
    "'a async_queue \<times> (promise \<times> 'a settlement) list \<Rightarrow> 'a queue_world \<Rightarrow> 'a queue_world" where
  "observe r w = w\<lparr>w_queue := fst r, w_inbox := w_inbox w @ snd r,
                   w_delivered := w_delivered w @ delivered_by (snd r)\<rparr>"

inductive queue_step :: "'a queue_world \<Rightarrow> 'a queue_world \<Rightarrow> bool" where
  push: "push_queue v (w_queue w) = (ok, r) \<Longrightarrow>
    queue_step w (observe r (w\<lparr>w_accepted := w_accepted w @ (if ok then [v] else []),
      w_discarded := (w_discarded w \<or> \<not> q_failed (w_queue w) \<and> q_failed (fst r))\<rparr>))"
| fail: "queue_step w (observe (fail_queue e (w_queue w))
    (w\<lparr>w_discarded := (w_discarded w \<or> \<not> q_closed (w_queue w))\<rparr>))"
| close: "queue_step w (observe (close_queue (w_queue w)) w)"
| claim: "claim_iterator (w_queue w) = Inr (i, q') \<Longrightarrow> queue_step w (w\<lparr>w_queue := q'\<rparr>)"
| next_value: "i < q_next_iterator (w_queue w) \<Longrightarrow>
    queue_step w (observe (next_queue (i, k) (w_queue w)) w)"
| continue: "w_inbox w = xs @ ((i, k), s) # ys \<Longrightarrow>
    queue_step w (w\<lparr>w_queue := after_next i s (w_queue w), w_inbox := xs @ ys\<rparr>)"
| return_value: "i < q_next_iterator (w_queue w) \<Longrightarrow>
    queue_step w (observe (return_queue i (w_queue w)) (w\<lparr>w_discarded := True\<rparr>))"
| throw_error: "i < q_next_iterator (w_queue w) \<Longrightarrow>
    queue_step w (observe (throw_queue i err (w_queue w)) (w\<lparr>w_discarded := True\<rparr>))"

definition start_world :: "'a async_queue \<Rightarrow> 'a queue_world" where
  "start_world q = \<lparr>w_queue = q, w_inbox = [], w_accepted = [], w_delivered = [],
                    w_discarded = False\<rparr>"

inductive queue_reachable :: "'a queue_world \<Rightarrow> bool" where
  start: "new_queue m f = Inr q \<Longrightarrow> queue_reachable (start_world q)"
| step: "queue_reachable w \<Longrightarrow> queue_step w w' \<Longrightarrow> queue_reachable w'"

section \<open>Invariant\<close>

definition within_bound :: "'a async_queue \<Rightarrow> bool" where
  "within_bound q \<longleftrightarrow>
     (\<forall>n. q_max_buffered q = Some n \<longrightarrow> 1 \<le> n \<and> int (length (q_values q)) \<le> n)"

definition one_consumer :: "'a async_queue \<Rightarrow> bool" where
  "one_consumer q \<longleftrightarrow> (if q_claimed q then \<exists>i < q_next_iterator q. q_unsettled q = {i}
                      else q_unsettled q = {})"

definition queue_inv :: "'a async_queue \<Rightarrow> bool" where
  "queue_inv q \<longleftrightarrow> within_bound q \<and> one_consumer q
     \<and> (q_values q = [] \<or> q_waiters q = []) \<and> (q_closed q \<longrightarrow> q_waiters q = [])
     \<and> (q_failed q \<longrightarrow> q_closed q \<and> q_values q = [])
     \<and> (0 < q_next_iterator q \<longrightarrow> q_claimed q \<or> q_closed q)"

definition ends :: "'a settlement \<Rightarrow> bool" where
  "ends s \<longleftrightarrow> (case s of Resolved v \<Rightarrow> False | _ \<Rightarrow> True)"

definition world_inv :: "'a queue_world \<Rightarrow> bool" where
  "world_inv w \<longleftrightarrow> queue_inv (w_queue w)
     \<and> (\<forall>(p, s) \<in> set (w_inbox w). ends s \<longrightarrow> q_closed (w_queue w))
     \<and> prefix (w_delivered w @ q_values (w_queue w)) (w_accepted w)
     \<and> (\<not> w_discarded w \<longrightarrow> w_delivered w @ q_values (w_queue w) = w_accepted w)
     \<and> (\<not> q_closed (w_queue w) \<longrightarrow> \<not> w_discarded w)"

lemma delivered_by_append [simp]: "delivered_by (xs @ ys) = delivered_by xs @ delivered_by ys"
  by (induction xs rule: delivered_by.induct) auto

lemma delivered_by_const [simp]:
  "delivered_by (map (\<lambda>w. (w, Done)) ws) = []" "delivered_by (map (\<lambda>w. (w, Rejected e)) ws) = []"
  by (induction ws) auto

lemma new_queue_inv: "new_queue m f = Inr q \<Longrightarrow> world_inv (start_world q)"
  by (auto simp: new_queue_def world_inv_def start_world_def queue_inv_def within_bound_def
      one_consumer_def Let_def split: if_splits option.splits)

lemmas queue_inv_defs = queue_inv_def within_bound_def one_consumer_def

lemma fail_queue_inv [inv_intros]: "queue_inv q \<Longrightarrow> queue_inv (fst (fail_queue e q))"
  by (auto simp: queue_inv_defs fail_queue_def split: option.splits)

lemma close_queue_inv [inv_intros]: "queue_inv q \<Longrightarrow> queue_inv (fst (close_queue q))"
  by (auto simp: queue_inv_defs close_queue_def split: option.splits)

lemma drop_values_inv [inv_intros]: "queue_inv q \<Longrightarrow> queue_inv (q\<lparr>q_values := []\<rparr>)"
  by (auto simp: queue_inv_defs split: option.splits)

lemma release_inv [inv_intros]: "queue_inv q \<Longrightarrow> q_closed q \<Longrightarrow> queue_inv (release i q)"
  by (auto simp: queue_inv_defs release_def split: if_splits)

lemma accept_inv: 
  "queue_inv q \<Longrightarrow> \<not> q_closed q \<Longrightarrow> q_waiters q = [] \<Longrightarrow> \<not> is_full q \<Longrightarrow>
    queue_inv (q\<lparr>q_values := q_values q @ [v]\<rparr>)"
  by (auto simp: queue_inv_defs is_full_def split: option.splits)

lemma serve_inv:
  "queue_inv q \<Longrightarrow> q_waiters q = w # ws \<Longrightarrow> queue_inv (q\<lparr>q_waiters := ws\<rparr>)"
  by (auto simp: queue_inv_defs)

lemma push_queue_inv [inv_intros]: "queue_inv q \<Longrightarrow> queue_inv (fst (snd (push_queue v q)))"
  by (auto simp: push_queue_def accept_inv serve_inv fail_queue_inv split: list.splits option.splits)

lemma claim_iterator_inv [inv_intros]:
  "queue_inv q \<Longrightarrow> claim_iterator q = Inr (i, q') \<Longrightarrow> queue_inv q'"
  by (auto simp: queue_inv_defs claim_iterator_def Let_def split: if_splits)

lemma next_queue_inv [inv_intros]: "queue_inv q \<Longrightarrow> queue_inv (fst (next_queue w q))"
  by (auto simp: queue_inv_defs next_queue_def split: list.splits option.splits)

lemma closes [simp]:
  "q_closed (fst (close_queue q))" "q_closed (fst (fail_queue e q))"
  by (simp_all add: close_queue_def fail_queue_def)

lemma return_queue_inv [inv_intros]: "queue_inv q \<Longrightarrow> queue_inv (fst (return_queue i q))"
  by (simp add: return_queue_def split_beta release_inv close_queue_inv drop_values_inv)

lemma throw_queue_inv [inv_intros]: "queue_inv q \<Longrightarrow> queue_inv (fst (throw_queue i err q))"
  by (cases err) (simp_all add: throw_queue_def split_beta release_inv close_queue_inv fail_queue_inv drop_values_inv)

lemma release_fields [simp]:
  "q_values (release i q) = q_values q" "q_closed (release i q) = q_closed q"
  "q_failed (release i q) = q_failed q"
  by (simp_all add: release_def)

lemma after_next_fields [simp]:
  "q_values (after_next i s q) = q_values q" "q_closed (after_next i s q) = q_closed q"
  by (cases s; simp)+

lemma after_next_inv [inv_intros]: "queue_inv q \<Longrightarrow> (ends s \<Longrightarrow> q_closed q) \<Longrightarrow> queue_inv (after_next i s q)"
  by (cases s) (simp_all add: ends_def release_inv)

text \<open>Closing operations only end; they deliver nothing.\<close>

lemma fail_queue_out [op_simps]:
  "delivered_by (snd (fail_queue e q)) = []"
  "q_values (fst (fail_queue e q)) = (if q_closed q then q_values q else [])"
  by (simp_all add: fail_queue_def)

lemma close_queue_out [op_simps]:
  "delivered_by (snd (close_queue q)) = []" "q_values (fst (close_queue q)) = q_values q"
  by (simp_all add: close_queue_def)


lemma next_queue_out [op_simps]:
  "queue_inv q \<Longrightarrow> delivered_by (snd (next_queue w q)) @ q_values (fst (next_queue w q)) = q_values q"
  by (auto simp: next_queue_def queue_inv_def split: list.splits)

lemma ends_out [op_simps]:
  "(p, s) \<in> set (snd (fail_queue e q)) \<Longrightarrow> q_closed (fst (fail_queue e q))"
  "(p, s) \<in> set (snd (close_queue q)) \<Longrightarrow> q_closed (fst (close_queue q))"
  "queue_inv q \<Longrightarrow> (p, s) \<in> set (snd (next_queue w q)) \<Longrightarrow> ends s \<Longrightarrow> q_closed (fst (next_queue w q))"
  "(p, s) \<in> set (snd (snd (push_queue v q))) \<Longrightarrow> ends s \<Longrightarrow> q_closed (fst (snd (push_queue v q)))"
  by (auto simp: next_queue_def push_queue_def fail_queue_def queue_inv_def ends_def split: list.splits if_splits option.splits)

lemma closed_mono [op_simps]:
  "q_closed q \<Longrightarrow> q_closed (fst (fail_queue e q))"
  "q_closed q \<Longrightarrow> q_closed (fst (close_queue q))"
  "q_closed (fst (next_queue w q)) = q_closed q"
  "q_closed q \<Longrightarrow> q_closed (fst (snd (push_queue v q)))"
  "claim_iterator q = Inr (i, q') \<Longrightarrow> q_closed q' = q_closed q \<and> q_values q' = q_values q"
  by (auto simp: next_queue_def push_queue_def claim_iterator_def Let_def split: list.splits if_splits)

lemma push_queue_out [op_simps]:
  assumes "push_queue v q = (ok, r)" "queue_inv q"
  shows "q_failed (fst r) = q_failed q \<Longrightarrow> delivered_by (snd r) @ q_values (fst r) = q_values q @ (if ok then [v] else [])"
    and "q_failed (fst r) \<noteq> q_failed q \<Longrightarrow> \<not> ok \<and> delivered_by (snd r) = [] \<and> q_values (fst r) = [] \<and> q_closed (fst r)"
    and "\<not> q_closed (fst r) \<Longrightarrow> q_failed (fst r) = q_failed q \<and> \<not> q_closed q"
  using assms by (auto simp: push_queue_def fail_queue_def queue_inv_def split: if_splits list.splits option.splits)

lemma observe_inv:
  assumes "world_inv w" and "queue_inv (fst r)"
    and "\<And>p s. (p, s) \<in> set (snd r) \<Longrightarrow> ends s \<Longrightarrow> q_closed (fst r)"
    and "q_closed (w_queue w) \<Longrightarrow> q_closed (fst r)"
    and "prefix (w_delivered w @ delivered_by (snd r) @ q_values (fst r)) acc"
    and "\<not> disc \<Longrightarrow> w_delivered w @ delivered_by (snd r) @ q_values (fst r) = acc"
    and "disc \<Longrightarrow> q_closed (fst r)"
  shows "world_inv (observe r (w\<lparr>w_accepted := acc, w_discarded := disc\<rparr>))"
  using assms by (auto simp: world_inv_def observe_def)

lemma observe_closing:
  assumes "world_inv w" and "queue_inv (fst r)" and "q_closed (fst r)" and "delivered_by (snd r) = []"
    and "q_values (fst r) = []"
  shows "world_inv (observe r (w\<lparr>w_discarded := True\<rparr>))"
  using observe_inv [of w r "w_accepted w" True] assms
  by (auto simp: world_inv_def dest: append_prefixD)

lemma queue_step_inv: "queue_step w w' \<Longrightarrow> world_inv w \<Longrightarrow> world_inv w'"
proof (induction rule: queue_step.induct)
  case (push v w ok r)
  note r = push_queue_out [OF push(1)] and inv = push(2) [unfolded world_inv_def]
  have r': "r = snd (push_queue v (w_queue w))" using push(1) by simp
  show ?case
  proof (rule observe_inv [OF push(2)], goal_cases)
    case 4
    have "prefix (w_delivered w @ q_values (w_queue w) @ (if ok then [v] else [])) (w_accepted w @ (if ok then [v] else []))"
    proof (cases ok)
      case True
      then have "\<not> q_closed (w_queue w)" using push(1) by (auto simp: push_queue_def split: if_splits)
      then show ?thesis using inv by simp
    qed (use inv in simp)
    moreover have "prefix (w_delivered w) (w_accepted w)" using inv by (auto dest: append_prefixD)
    ultimately show ?case using r(1,2) inv by (cases "q_failed (fst r) = q_failed (w_queue w)") simp_all
  next
    case 5
    then have "q_failed (fst r) = q_failed (w_queue w)" "\<not> w_discarded w"
      using inv push(1) by (auto simp: push_queue_def fail_queue_def queue_inv_def split: if_splits list.splits option.splits)
    then show ?case using r(1) inv by simp
  next
    case 6
    then show ?case using r(3) inv by (cases "q_closed (fst r)") auto
  next
    case 1 then show ?case using inv r' by (simp add: push_queue_inv)
  next
    case 2 then show ?case using r' ends_out(4) by simp
  next
    case 3 then show ?case using r' closed_mono(4) by simp
  qed
next
  case (fail w e)
  show ?case
  proof (cases "q_closed (w_queue w)")
    case True
    then show ?thesis using fail by (simp add: fail_queue_def observe_def)
  next
    case False
    have "world_inv (observe (fail_queue e (w_queue w)) (w\<lparr>w_discarded := True\<rparr>))"
      by (rule observe_closing) (use fail False in \<open>simp_all add: world_inv_def fail_queue_inv fail_queue_out\<close>)
    then show ?thesis using False by simp
  qed
next
  case (close w)
  have "world_inv (observe (close_queue (w_queue w))
    (w\<lparr>w_accepted := w_accepted w, w_discarded := w_discarded w\<rparr>))"
    by (rule observe_inv) (use close in \<open>simp_all add: world_inv_def close_queue_inv close_queue_out\<close>)
  then show ?case by simp
next
  case (claim w i q')
  then show ?case by (auto simp: world_inv_def op_simps inv_intros)
next
  case (next_value i w k)
  let ?r = "next_queue (i, k) (w_queue w)"
  have inv: "queue_inv (w_queue w)" using next_value by (simp add: world_inv_def)
  have "world_inv (observe ?r (w\<lparr>w_accepted := w_accepted w, w_discarded := w_discarded w\<rparr>))"
    by (rule observe_inv)
      (use next_value inv in \<open>auto simp: world_inv_def next_queue_inv next_queue_out closed_mono dest: ends_out(3) [OF inv]\<close>)
  then show ?case by simp
next
  case (continue w xs i k s ys)
  then have "ends s \<Longrightarrow> q_closed (w_queue w)" "queue_inv (w_queue w)" by (auto simp: world_inv_def)
  then have "queue_inv (after_next i s (w_queue w))" by (intro after_next_inv)
  then show ?case using continue by (simp add: world_inv_def)
next
  case (return_value i w)
  show ?case 
    by (rule observe_closing) (use return_value in \<open>auto simp: world_inv_def op_simps inv_intros return_queue_def split_beta\<close>)
next
  case (throw_error i w err)
  show ?case 
    by (rule observe_closing) (use throw_error in \<open>auto simp: world_inv_def op_simps inv_intros throw_queue_def split_beta split: option.splits\<close>)
qed

lemma queue_reachable_inv: "queue_reachable w \<Longrightarrow> world_inv w"
  by (induction rule: queue_reachable.induct) (auto intro: new_queue_inv queue_step_inv)

section \<open>What the queue promises\<close>

text \<open>
  Property C3: values reach the consumer in the order the producer pushed them, none twice; and as
  long as nothing failed and no consumer returned or threw, every accepted value is delivered or
  still buffered, also after the producer's close.
\<close>

theorem queue_delivers_in_order:
  assumes "queue_reachable w"
  shows "prefix (w_delivered w) (w_accepted w)
    \<and> (w_discarded w \<or> w_delivered w @ q_values (w_queue w) = w_accepted w)"
  using queue_reachable_inv [OF assms] by (auto simp: world_inv_def dest: append_prefixD)

text \<open>
  The buffer never exceeds its bound, a value is never buffered past a waiting
  consumer, closing leaves no consumer waiting, and a new iterator is admitted only when none is
  live: the first one, or one made after the queue closed.
\<close>

theorem queue_bounded_single_consumer:
  assumes "queue_reachable w" and "w_queue w = q"
  shows "(\<forall>n. q_max_buffered q = Some n \<longrightarrow> int (length (q_values q)) \<le> n)
    \<and> (q_values q = [] \<or> q_waiters q = []) \<and> (q_closed q \<longrightarrow> q_waiters q = [])
    \<and> (q_claimed q \<longleftrightarrow> q_unsettled q \<noteq> {}) \<and> card (q_unsettled q) \<le> 1
    \<and> (is_ok (claim_iterator q) \<longrightarrow> q_unsettled q = {} \<and> (q_next_iterator q = 0 \<or> q_closed q))"
  using queue_reachable_inv [OF assms(1)] assms(2)
  by (auto simp: world_inv_def queue_inv_defs claim_iterator_def Let_def split: if_splits)

section \<open>A run\<close>

text \<open>A queue of capacity one: one value is pushed, the consumer claims the queue and reads it.\<close>

definition example_queue :: "nat async_queue" where
  "example_queue = \<lparr>q_values = [], q_waiters = [], q_closed = False, q_failed = False,
     q_claimed = False, q_error = PlainError [], q_max_buffered = Some 1, q_on_overflow = None,
     q_unsettled = {}, q_next_iterator = 0\<rparr>"

definition example_world :: "nat queue_world" where
  "example_world = \<lparr>w_queue = example_queue\<lparr>q_claimed := True, q_unsettled := {0}, q_next_iterator := 1\<rparr>,
     w_inbox = [((0, 0), Resolved 7)], w_accepted = [7], w_delivered = [7], w_discarded = False\<rparr>"

lemma example_reachable: "queue_reachable example_world"
proof -
  let ?w0 = "start_world example_queue"
  let ?w1 = "?w0\<lparr>w_queue := example_queue\<lparr>q_values := [7]\<rparr>, w_accepted := [7]\<rparr>"
  let ?w2 = "?w1\<lparr>w_queue := (example_queue\<lparr>q_values := [7], q_claimed := True, q_unsettled := {0},
     q_next_iterator := 1\<rparr>)\<rparr>"
  have "new_queue (Some (Some 1)) None = Inr example_queue"
    by (simp add: new_queue_def example_queue_def is_safe_integer_def max_safe_integer_def)
  then have "queue_reachable ?w0" by (rule queue_reachable.start)
  moreover have "queue_step ?w0 ?w1"
    using queue_step.push [of 7 ?w0 True "(example_queue\<lparr>q_values := [7]\<rparr>, [])"]
    by (simp add: push_queue_def is_full_def start_world_def observe_def example_queue_def)
  moreover have "queue_step ?w1 ?w2"
    using queue_step.claim [of ?w1 0 "w_queue ?w2"]
    by (simp add: claim_iterator_def start_world_def example_queue_def)
  moreover have "queue_step ?w2 example_world"
    using queue_step.next_value [of 0 ?w2 0]
    by (simp add: next_queue_def start_world_def observe_def example_queue_def example_world_def)
  ultimately show ?thesis by (blast intro: queue_reachable.step)
qed

theorem queue_delivers_in_order_witness:
  "prefix (w_delivered example_world) [7] \<and> w_delivered example_world = [7]"
  using queue_delivers_in_order [OF example_reachable] by (simp add: example_world_def)

theorem queue_bounded_single_consumer_witness:
  "q_unsettled (w_queue example_world) = {0} \<and> \<not> is_ok (claim_iterator (w_queue example_world))"
  using queue_bounded_single_consumer [OF example_reachable refl]
  by (simp add: example_world_def claim_iterator_def)

end
