(* ===== verification/Leases.thy ===== *)
theory Leases
  imports Prelude
begin

text \<open>
  Session leases: the argument checks of \<open>packages/core/src/dal.ts\<close> and the class
  \<open>InMemorySessionLeaseStore\<close> of \<open>packages/dal/src/in-memory-stores.ts\<close>. Every method of the
  class runs without an \<open>await\<close>, so it is one atomic operation. The clock reading and the
  random generation id are arguments. An operation that throws leaves the store as it was, so an
  error result carries no state.
\<close>

section \<open>Argument checks\<close>

definition max_recovery_page_size :: int where "max_recovery_page_size = 1000"

definition assert_lease_ttl_ms :: "int \<Rightarrow> unit result" where
  "assert_lease_ttl_ms ttl = rcheck (is_safe_integer ttl \<and> 1 \<le> ttl)
     (InvalidArgumentError (js ''Lease TTL must be a positive safe integer in milliseconds''))"

definition assert_lease_fence :: "int \<Rightarrow> unit result" where
  "assert_lease_fence fence = rcheck (is_safe_integer fence \<and> 1 \<le> fence)
     (InvalidArgumentError (js ''Lease fence must be a positive safe integer''))"

definition assert_lease_timestamp_ms :: "int \<Rightarrow> unit result" where
  "assert_lease_timestamp_ms t = rcheck (is_safe_integer t \<and> 0 \<le> t)
     (InvalidArgumentError
        (js ''Lease timestamp must be a non-negative safe integer in milliseconds''))"

definition safe_lease_expiry_at :: "int \<Rightarrow> int \<Rightarrow> int result" where
  "safe_lease_expiry_at now ttl =
     rbind (assert_lease_ttl_ms ttl) (\<lambda>_.
     rbind (assert_lease_timestamp_ms now) (\<lambda>_.
     if max_safe_integer - ttl < now
     then Inl (InvalidArgumentError
            (js ''Lease expiry must be a non-negative safe integer timestamp''))
     else Inr (now + ttl)))"

definition assert_recovery_page_size :: "int \<Rightarrow> unit result" where
  "assert_recovery_page_size limit =
     rcheck (is_safe_integer limit \<and> 1 \<le> limit \<and> limit \<le> max_recovery_page_size)
       (RangeError (js ''Recovery page size must be an integer from 1 to 1000''))"

lemma safe_lease_expiry_at_Inr:
  "safe_lease_expiry_at now ttl = Inr e \<longleftrightarrow>
     e = now + ttl \<and> 1 \<le> ttl \<and> 0 \<le> now \<and> now + ttl \<le> max_safe_integer"
  by (auto simp: safe_lease_expiry_at_def assert_lease_ttl_ms_def assert_lease_timestamp_ms_def
      is_safe_integer_def max_safe_integer_def)

section \<open>State\<close>

record lease =
  l_session :: js_string
  l_holder :: js_string
  l_fence :: int
  l_generation :: js_string
  l_acquired_at :: int
  l_renewed_at :: int
  l_expires_at :: int

record candidate =
  c_session :: js_string
  c_fence :: int
  c_generation :: js_string

record lease_store =
  ls_leases :: "js_string \<rightharpoonup> lease"
  ls_ids :: "js_string list"
  ls_acked :: "js_string \<rightharpoonup> js_string"
  ls_closed :: bool

definition new_lease_store :: lease_store where
  "new_lease_store = \<lparr>ls_leases = Map.empty, ls_ids = [], ls_acked = Map.empty, ls_closed = False\<rparr>"

section \<open>Operations\<close>

definition assert_open :: "lease_store \<Rightarrow> unit result" where
  "assert_open st = rcheck (\<not> ls_closed st) (PlainError (js ''SessionLeaseStore is closed''))"

definition read_now_ms :: "int \<Rightarrow> int result" where
  "read_now_ms now = rbind (assert_lease_timestamp_ms now) (\<lambda>_. Inr now)"

text \<open>The loop of \<open>#upperBoundLeaseId\<close> over the half-open range from \<open>low\<close> to \<open>high\<close>.\<close>

function upper_bound_loop :: "js_string list \<Rightarrow> js_string \<Rightarrow> nat \<Rightarrow> nat \<Rightarrow> nat" where
  "upper_bound_loop ids x low high =
     (if low < high then
        (let middle = (low + high) div 2 in
         if ids ! middle \<le> x then upper_bound_loop ids x (middle + 1) high
         else upper_bound_loop ids x low middle)
      else low)"
  by pat_completeness auto
termination
  by (relation "measure (\<lambda>(ids, x, low, high). high - low)") auto

declare upper_bound_loop.simps [simp del]

definition upper_bound_lease_id :: "lease_store \<Rightarrow> js_string \<Rightarrow> nat" where
  "upper_bound_lease_id st x = upper_bound_loop (ls_ids st) x 0 (length (ls_ids st))"

definition insert_lease_id :: "js_string \<Rightarrow> lease_store \<Rightarrow> lease_store" where
  "insert_lease_id sid st =
     (let index = upper_bound_lease_id st sid
      in st\<lparr>ls_ids := take index (ls_ids st) @ sid # drop index (ls_ids st)\<rparr>)"

definition live_at :: "int \<Rightarrow> lease \<Rightarrow> bool" where
  "live_at now l \<longleftrightarrow> now < l_expires_at l"

text \<open>The second half of \<open>acquire\<close>: a fresh grant with the next fence.\<close>

definition grant_lease ::
    "js_string \<Rightarrow> js_string \<Rightarrow> int \<Rightarrow> int \<Rightarrow> js_string \<Rightarrow> lease_store
      \<Rightarrow> (lease option \<times> lease_store) result" where
  "grant_lease sid holder ttl now uuid st =
     (let current = ls_leases st sid;
          current_fence = (case current of None \<Rightarrow> 0 | Some c \<Rightarrow> l_fence c) in
      if \<not> is_safe_integer current_fence \<or> current_fence < 0 \<or> max_safe_integer \<le> current_fence
      then Inl (BackendUnavailableError
             (js ''In-memory lease fence exhausted the safe integer range''))
      else rbind (safe_lease_expiry_at now ttl) (\<lambda>expires.
        let l = \<lparr>l_session = sid, l_holder = holder, l_fence = current_fence + 1,
                 l_generation = uuid, l_acquired_at = now, l_renewed_at = now,
                 l_expires_at = expires\<rparr>;
            st' = (if current = None then insert_lease_id sid st else st)
        in Inr (Some l, st'\<lparr>ls_leases := (ls_leases st')(sid \<mapsto> l)\<rparr>)))"

definition acquire ::
    "js_string \<Rightarrow> js_string \<Rightarrow> int \<Rightarrow> int \<Rightarrow> js_string \<Rightarrow> lease_store
      \<Rightarrow> (lease option \<times> lease_store) result" where
  "acquire sid holder ttl now uuid st =
     rbind (assert_open st) (\<lambda>_.
     rbind (assert_lease_ttl_ms ttl) (\<lambda>_.
     rbind (read_now_ms now) (\<lambda>now.
     case ls_leases st sid of
       Some current \<Rightarrow>
         if live_at now current
         then Inr (if l_holder current = holder then Some current else None, st)
         else grant_lease sid holder ttl now uuid st
     | None \<Rightarrow> grant_lease sid holder ttl now uuid st)))"

definition renew ::
    "js_string \<Rightarrow> js_string \<Rightarrow> int \<Rightarrow> int \<Rightarrow> js_string \<Rightarrow> int \<Rightarrow> lease_store
      \<Rightarrow> (lease option \<times> lease_store) result" where
  "renew sid holder fence ttl generation now st =
     rbind (assert_open st) (\<lambda>_.
     rbind (assert_lease_fence fence) (\<lambda>_.
     rbind (assert_lease_ttl_ms ttl) (\<lambda>_.
     rbind (read_now_ms now) (\<lambda>now.
     case ls_leases st sid of
       None \<Rightarrow> Inr (None, st)
     | Some current \<Rightarrow>
         if l_holder current \<noteq> holder \<or> l_fence current \<noteq> fence
            \<or> l_generation current \<noteq> generation \<or> \<not> live_at now current
         then Inr (None, st)
         else rbind (safe_lease_expiry_at now ttl) (\<lambda>expires.
           let renewed = current\<lparr>l_renewed_at := now, l_expires_at := expires\<rparr>
           in Inr (Some renewed, st\<lparr>ls_leases := (ls_leases st)(sid \<mapsto> renewed)\<rparr>))))))"

text \<open>\<open>release\<close> reads the clock only for a lease it matches.\<close>

definition release_lease ::
    "js_string \<Rightarrow> js_string \<Rightarrow> int \<Rightarrow> js_string \<Rightarrow> int \<Rightarrow> lease_store \<Rightarrow> lease_store result" where
  "release_lease sid holder fence generation now st =
     rbind (assert_open st) (\<lambda>_.
     rbind (assert_lease_fence fence) (\<lambda>_.
     case ls_leases st sid of
       None \<Rightarrow> Inr st
     | Some current \<Rightarrow>
         if l_holder current = holder \<and> l_fence current = fence
            \<and> l_generation current = generation
         then rbind (read_now_ms now) (\<lambda>now.
           Inr (st\<lparr>ls_leases := (ls_leases st)(sid \<mapsto> current\<lparr>l_expires_at := now\<rparr>)\<rparr>))
         else Inr st))"

definition get_current :: "js_string \<Rightarrow> int \<Rightarrow> lease_store \<Rightarrow> lease option result" where
  "get_current sid now st =
     rbind (assert_open st) (\<lambda>_.
     case ls_leases st sid of
       None \<Rightarrow> Inr None
     | Some current \<Rightarrow> rbind (read_now_ms now) (\<lambda>now.
         Inr (if live_at now current then Some current else None)))"

text \<open>
  A page of recovery candidates. The lease of a listed id is read with a non-null assertion; a
  missing one would fail as a \<open>TypeError\<close>, which the store's invariant excludes.
\<close>

fun page_candidates :: "lease_store \<Rightarrow> int \<Rightarrow> js_string list \<Rightarrow> candidate list result" where
  "page_candidates st now [] = Inr []"
| "page_candidates st now (sid # sids) =
     (case ls_leases st sid of
        None \<Rightarrow> Inl (TypeError (js ''lease is undefined''))
      | Some l \<Rightarrow> rbind (page_candidates st now sids) (\<lambda>cs.
          if live_at now l \<or> ls_acked st sid = Some (l_generation l) then Inr cs
          else Inr (\<lparr>c_session = sid, c_fence = l_fence l, c_generation = l_generation l\<rparr> # cs)))"

definition list_recovery_candidates ::
    "int \<Rightarrow> int \<Rightarrow> js_string option \<Rightarrow> lease_store
      \<Rightarrow> (candidate list \<times> js_string option) result" where
  "list_recovery_candidates now limit cursor st =
     rbind (assert_open st) (\<lambda>_.
     rbind (assert_recovery_page_size limit) (\<lambda>_.
     rbind (assert_lease_timestamp_ms now) (\<lambda>_.
     let start = (case cursor of None \<Rightarrow> 0 | Some c \<Rightarrow> upper_bound_lease_id st c);
         examined = take (nat limit) (drop start (ls_ids st))
     in rbind (page_candidates st now examined) (\<lambda>candidates.
       Inr (candidates,
            if examined \<noteq> [] \<and> start + length examined < length (ls_ids st)
            then Some (last examined) else None)))))"

definition acknowledge_recovery_candidate :: "candidate \<Rightarrow> int \<Rightarrow> lease_store \<Rightarrow> lease_store result" where
  "acknowledge_recovery_candidate c now st =
     rbind (assert_open st) (\<lambda>_.
     rbind (assert_lease_fence (c_fence c)) (\<lambda>_.
     case ls_leases st (c_session c) of
       None \<Rightarrow> Inr st
     | Some l \<Rightarrow>
         if l_fence l = c_fence c \<and> l_generation l = c_generation c
         then rbind (read_now_ms now) (\<lambda>now.
           if \<not> live_at now l
           then Inr (st\<lparr>ls_acked := (ls_acked st)(c_session c \<mapsto> l_generation l)\<rparr>)
           else Inr st)
         else Inr st))"

definition close_leases :: "lease_store \<Rightarrow> lease_store" where
  "close_leases st = st\<lparr>ls_closed := True, ls_leases := Map.empty, ls_ids := [], ls_acked := Map.empty\<rparr>"

lemmas lease_op_defs [op_defs] =
  grant_lease_def acquire_def renew_def release_lease_def get_current_def
  acknowledge_recovery_candidate_def close_leases_def

section \<open>The binary search\<close>

lemma upper_bound_loop_spec:
  assumes "sorted ids" and "low \<le> high" and "high \<le> length ids"
    and "\<forall>i < low. ids ! i \<le> x" and "\<forall>i. high \<le> i \<and> i < length ids \<longrightarrow> x < ids ! i"
  shows "upper_bound_loop ids x low high = length (takeWhile (\<lambda>y. y \<le> x) ids)"
  using assms
proof (induction ids x low high rule: upper_bound_loop.induct)
  case (1 ids x low high)
  let ?mid = "(low + high) div 2"
  show ?case
  proof (cases "low < high")
    case False
    then have "low = high" using 1(4) by simp
    moreover have "takeWhile (\<lambda>y. y \<le> x) ids = take low ids"
      by (rule takeWhile_eq_take_P_nth) (use 1(5-7) \<open>low = high\<close> in \<open>auto simp: not_le\<close>)
    ultimately show ?thesis using 1(5) by (simp add: upper_bound_loop.simps [of ids x high high])
  next
    case True
    then have mid: "low \<le> ?mid" "?mid < high" by auto
    show ?thesis
    proof (cases "ids ! ?mid \<le> x")
      case le: True
      have "\<forall>i < ?mid + 1. ids ! i \<le> x"
      proof (intro allI impI)
        fix i assume "i < ?mid + 1"
        then have "ids ! i \<le> ids ! ?mid"
          using sorted_nth_mono [OF 1(3), of i ?mid] mid 1(5) by auto
        then show "ids ! i \<le> x" using le by auto
      qed
      then show ?thesis
        using 1(1) [OF True refl le] 1(3-7) mid le True
        by (simp add: upper_bound_loop.simps [of ids x low high])
    next
      case gt: False
      have "\<forall>i. ?mid \<le> i \<and> i < length ids \<longrightarrow> x < ids ! i"
      proof (intro allI impI)
        fix i assume "?mid \<le> i \<and> i < length ids"
        then have "ids ! ?mid \<le> ids ! i" using sorted_nth_mono [OF 1(3), of ?mid i] by auto
        then show "x < ids ! i" using gt by auto
      qed
      then show ?thesis
        using 1(2) [OF True refl gt] 1(3-7) mid gt True
        by (simp add: upper_bound_loop.simps [of ids x low high])
    qed
  qed
qed

lemma upper_bound_lease_id_eq:
  "sorted (ls_ids st) \<Longrightarrow>
    upper_bound_lease_id st x = length (takeWhile (\<lambda>y. y \<le> x) (ls_ids st))"
  unfolding upper_bound_lease_id_def by (rule upper_bound_loop_spec) auto

lemma insert_at_upper_bound:
  fixes xs :: "js_string list"
  assumes "sorted xs" and "x \<notin> set xs"
  defines "lo \<equiv> takeWhile (\<lambda>y. y \<le> x) xs" and "hi \<equiv> dropWhile (\<lambda>y. y \<le> x) xs"
  shows "sorted (lo @ x # hi)" and "x \<notin> set lo" and "x \<notin> set hi"
proof -
  have low: "y \<le> x" if "y \<in> set lo" for y using that by (auto simp: lo_def dest: set_takeWhileD)
  have lohi: "lo @ hi = xs" by (simp add: lo_def hi_def)
  have hi: "x \<le> y" if y: "y \<in> set hi" for y
  proof (cases hi)
    case (Cons z zs)
    have "\<not> hd hi \<le> x" unfolding hi_def by (rule hd_dropWhile) (use Cons in \<open>simp add: hi_def\<close>)
    then have "x \<le> z" using Cons by simp
    moreover have "sorted hi" unfolding hi_def by (rule sorted_dropWhile [OF assms(1)])
    ultimately show ?thesis using y Cons by (auto intro: order_trans)
  qed (use y in simp)
  have "sorted (lo @ hi)" using assms(1) by (simp only: lohi)
  then show "sorted (lo @ x # hi)" using low hi by (auto simp: sorted_append)
  have "x \<notin> set (lo @ hi)" using assms(2) by (simp only: lohi not_False_eq_True)
  then show "x \<notin> set lo" "x \<notin> set hi" by auto
qed

definition ids_inv :: "lease_store \<Rightarrow> bool" where
  "ids_inv st \<longleftrightarrow> sorted (ls_ids st) \<and> distinct (ls_ids st) \<and> set (ls_ids st) = dom (ls_leases st)"

lemma insert_lease_id_ids:
  assumes "ids_inv st" and "ls_leases st sid = None"
  shows "ls_leases (insert_lease_id sid st) = ls_leases st"
    and "sorted (ls_ids (insert_lease_id sid st))" and "distinct (ls_ids (insert_lease_id sid st))"
    and "set (ls_ids (insert_lease_id sid st)) = insert sid (dom (ls_leases st))"
proof -
  let ?lo = "takeWhile (\<lambda>y. y \<le> sid) (ls_ids st)" and ?hi = "dropWhile (\<lambda>y. y \<le> sid) (ls_ids st)"
  have ids: "ls_ids (insert_lease_id sid st) = ?lo @ sid # ?hi"
    using assms(1) by (simp add: insert_lease_id_def Let_def upper_bound_lease_id_eq ids_inv_def
        takeWhile_eq_take [symmetric] dropWhile_eq_drop [symmetric])
  have new: "sid \<notin> set (ls_ids st)" using assms by (auto simp: ids_inv_def)
  have parts: "distinct (?lo @ ?hi)" "set (?lo @ ?hi) = dom (ls_leases st)"
    using assms(1) by (simp_all add: ids_inv_def del: distinct_append set_append)
  show "ls_leases (insert_lease_id sid st) = ls_leases st"
    by (simp add: insert_lease_id_def Let_def)
  show "sorted (ls_ids (insert_lease_id sid st))"
    unfolding ids using assms(1) new by (intro insert_at_upper_bound) (simp_all add: ids_inv_def)
  have "sorted (ls_ids st)" using assms(1) by (simp add: ids_inv_def)
  then show "distinct (ls_ids (insert_lease_id sid st))"
    unfolding ids using parts(1) [unfolded distinct_append] insert_at_upper_bound(2,3) [OF _ new]
    by auto
  show "set (ls_ids (insert_lease_id sid st)) = insert sid (dom (ls_leases st))"
    proof -
    have "set ?lo \<union> set ?hi = dom (ls_leases st)" using parts(2) by (simp only: set_append)
    then show ?thesis unfolding ids set_append list.set by blast
  qed
qed

definition lease_ok :: "js_string \<Rightarrow> lease \<Rightarrow> bool" where
  "lease_ok sid l \<longleftrightarrow> l_session l = sid \<and> 1 \<le> l_fence l \<and> l_fence l \<le> max_safe_integer
     \<and> 0 \<le> l_acquired_at l \<and> 0 \<le> l_expires_at l \<and> l_expires_at l \<le> max_safe_integer"

definition lease_inv :: "lease_store \<Rightarrow> bool" where
  "lease_inv st \<longleftrightarrow> ids_inv st \<and> (\<forall>sid l. ls_leases st sid = Some l \<longrightarrow> lease_ok sid l)
     \<and> dom (ls_acked st) \<subseteq> dom (ls_leases st)
     \<and> (ls_closed st \<longrightarrow> ls_leases st = Map.empty)"

lemma lease_inv_ids: "lease_inv st \<Longrightarrow> ids_inv st"
  by (simp add: lease_inv_def)

lemma new_lease_store_inv [inv_intros]: "lease_inv new_lease_store"
  by (simp add: lease_inv_def ids_inv_def new_lease_store_def)

lemma lease_inv_update:
  assumes "lease_inv st" and "ls_leases st sid = Some l" and "lease_ok sid l'"
  shows "lease_inv (st\<lparr>ls_leases := (ls_leases st)(sid \<mapsto> l')\<rparr>)"
proof -
  have "insert sid (dom (ls_leases st)) = dom (ls_leases st)" using assms(2) by auto
  then show ?thesis using assms by (auto simp: lease_inv_def ids_inv_def)
qed

lemma insert_lease_id_fields [op_simps]:
  "ls_leases (insert_lease_id sid st) = ls_leases st"
  "ls_acked (insert_lease_id sid st) = ls_acked st"
  "ls_closed (insert_lease_id sid st) = ls_closed st"
  by (simp_all add: insert_lease_id_def Let_def)

lemma lease_inv_insert:
  assumes "lease_inv st" and "ls_leases st sid = None" and "lease_ok sid l" and "\<not> ls_closed st"
  shows "lease_inv ((insert_lease_id sid st)\<lparr>ls_leases := (ls_leases st)(sid \<mapsto> l)\<rparr>)"
  using insert_lease_id_ids [OF lease_inv_ids [OF assms(1)] assms(2)] assms
  by (auto simp: lease_inv_def ids_inv_def op_simps)

text \<open>What each writing operation did, when it returned.\<close>

definition fence_of :: "lease_store \<Rightarrow> js_string \<Rightarrow> int" where
  "fence_of st sid = (case ls_leases st sid of None \<Rightarrow> 0 | Some c \<Rightarrow> l_fence c)"

definition put_lease :: "js_string \<Rightarrow> lease \<Rightarrow> lease_store \<Rightarrow> lease_store" where
  "put_lease sid l st =
     (if ls_leases st sid = None then insert_lease_id sid st else st)
       \<lparr>ls_leases := (ls_leases st)(sid \<mapsto> l)\<rparr>"

lemma put_lease_fields [op_simps]:
  "ls_leases (put_lease sid l st) = (ls_leases st)(sid \<mapsto> l)"
  "ls_closed (put_lease sid l st) = ls_closed st" "ls_acked (put_lease sid l st) = ls_acked st"
  by (simp_all add: put_lease_def insert_lease_id_fields)

lemma put_lease_inv [inv_intros]:
  "lease_inv st \<Longrightarrow> \<not> ls_closed st \<Longrightarrow> lease_ok sid l \<Longrightarrow> lease_inv (put_lease sid l st)"
  by (cases "ls_leases st sid") (auto simp: put_lease_def intro: lease_inv_insert lease_inv_update)

lemma grant_lease_cases:
  assumes "grant_lease sid holder ttl now uuid st = Inr (r, st')"
  obtains l where "r = Some l" and "st' = put_lease sid l st" and "l_session l = sid"
    and "l_holder l = holder" and "l_fence l = fence_of st sid + 1" and "l_generation l = uuid"
    and "l_acquired_at l = now" and "l_expires_at l = now + ttl" and "lease_ok sid l" and "1 \<le> ttl"
proof -
  let ?l = "\<lparr>l_session = sid, l_holder = holder, l_fence = fence_of st sid + 1, l_generation = uuid,
    l_acquired_at = now, l_renewed_at = now, l_expires_at = now + ttl\<rparr>"
  have "r = Some ?l" "st' = put_lease sid ?l st" "lease_ok sid ?l" "1 \<le> ttl"
    using assms by (auto simp: grant_lease_def Let_def safe_lease_expiry_at_Inr fence_of_def
      put_lease_def insert_lease_id_fields lease_ok_def split: if_splits option.splits)
  then show thesis by (intro that) simp_all
qed

lemma acquire_cases:
  assumes "acquire sid holder ttl now uuid st = Inr (r, st')"
  obtains (live) c where "ls_leases st sid = Some c" and "now < l_expires_at c"
      and "r = (if l_holder c = holder then Some c else None)" and "st' = st" and "\<not> ls_closed st"
  | (granted) "grant_lease sid holder ttl now uuid st = Inr (r, st')" and "\<not> ls_closed st"
      and "\<And>c. ls_leases st sid = Some c \<Longrightarrow> l_expires_at c \<le> now"
proof -
  have opened: "\<not> ls_closed st"
    and run: "(case ls_leases st sid of
       Some current \<Rightarrow> if live_at now current
         then Inr (if l_holder current = holder then Some current else None, st)
         else grant_lease sid holder ttl now uuid st
     | None \<Rightarrow> grant_lease sid holder ttl now uuid st) = Inr (r, st')"
    using assms by (auto simp: acquire_def assert_open_def read_now_ms_def)
  show thesis
  proof (cases "\<exists>c. ls_leases st sid = Some c \<and> live_at now c")
    case True
    then show thesis using run opened by (auto simp: live_at_def intro: live)
  next
    case False
    then have "grant_lease sid holder ttl now uuid st = Inr (r, st')"
      using run by (auto split: option.splits)
    then show thesis using opened False by (intro granted) (auto simp: live_at_def)
  qed
qed

lemma renew_cases:
  assumes "renew sid holder fence ttl generation now st = Inr (r, st')"
  obtains (stale) "r = None" and "st' = st"
      and "\<And>c. ls_leases st sid = Some c \<Longrightarrow> l_holder c \<noteq> holder \<or> l_fence c \<noteq> fence
                \<or> l_generation c \<noteq> generation \<or> l_expires_at c \<le> now"
  | (renewed) c where "ls_leases st sid = Some c" and "l_holder c = holder" and "l_fence c = fence"
      and "l_generation c = generation" and "now < l_expires_at c" and "0 \<le> now" and "1 \<le> ttl"
      and "now + ttl \<le> max_safe_integer" and "\<not> ls_closed st"
      and "r = Some (c\<lparr>l_renewed_at := now, l_expires_at := now + ttl\<rparr>)"
      and "st' = put_lease sid (c\<lparr>l_renewed_at := now, l_expires_at := now + ttl\<rparr>) st"
  using assms
  by (auto simp: renew_def assert_open_def read_now_ms_def live_at_def Let_def put_lease_def
      safe_lease_expiry_at_Inr not_less split: option.splits if_splits)

lemma release_lease_cases:
  assumes "release_lease sid holder fence generation now st = Inr st'"
  obtains (stale) "st' = st"
      and "\<And>c. ls_leases st sid = Some c \<Longrightarrow> l_holder c \<noteq> holder \<or> l_fence c \<noteq> fence
                \<or> l_generation c \<noteq> generation"
  | (released) c where "ls_leases st sid = Some c" and "l_holder c = holder" and "l_fence c = fence"
      and "l_generation c = generation" and "0 \<le> now" and "now \<le> max_safe_integer"
      and "\<not> ls_closed st" and "st' = put_lease sid (c\<lparr>l_expires_at := now\<rparr>) st"
  using assms
  by (auto simp: release_lease_def assert_open_def read_now_ms_def assert_lease_timestamp_ms_def
      is_safe_integer_def put_lease_def split: option.splits if_splits)

lemma lease_inv_ok: "lease_inv st \<Longrightarrow> ls_leases st sid = Some c \<Longrightarrow> lease_ok sid c"
  by (simp add: lease_inv_def)

lemma grant_lease_inv [inv_intros]:
  "grant_lease sid holder ttl now uuid st = Inr (r, st') \<Longrightarrow> lease_inv st \<Longrightarrow> \<not> ls_closed st
    \<Longrightarrow> lease_inv st'"
  by (auto elim!: grant_lease_cases intro: put_lease_inv)

lemma acquire_inv [inv_intros]:
  "acquire sid holder ttl now uuid st = Inr (r, st') \<Longrightarrow> lease_inv st \<Longrightarrow> lease_inv st'"
  by (auto elim!: acquire_cases intro: grant_lease_inv)

lemma renew_inv [inv_intros]:
  "renew sid holder fence ttl generation now st = Inr (r, st') \<Longrightarrow> lease_inv st \<Longrightarrow> lease_inv st'"
  by (erule renew_cases) (auto intro!: put_lease_inv dest: lease_inv_ok simp: lease_ok_def)

lemma release_lease_inv [inv_intros]:
  "release_lease sid holder fence generation now st = Inr st' \<Longrightarrow> lease_inv st \<Longrightarrow> lease_inv st'"
  by (erule release_lease_cases) (auto intro!: put_lease_inv dest: lease_inv_ok simp: lease_ok_def)

lemma acknowledge_inv [inv_intros]:
  "acknowledge_recovery_candidate c now st = Inr st' \<Longrightarrow> lease_inv st \<Longrightarrow> lease_inv st'"
  by (auto simp: acknowledge_recovery_candidate_def lease_inv_def ids_inv_def subset_iff dom_def
      split: option.splits if_splits)

lemma close_leases_inv [inv_intros]: "lease_inv st \<Longrightarrow> lease_inv (close_leases st)"
  by (simp add: close_leases_def lease_inv_def ids_inv_def)
section \<open>Runs of the store\<close>

text \<open>The store's clients call its methods in any order, with any clock reading and any uuid.\<close>

inductive lease_step :: "lease_store \<Rightarrow> lease_store \<Rightarrow> bool" where
  acquire: "acquire sid holder ttl now uuid st = Inr (r, st') \<Longrightarrow> lease_step st st'"
| renew: "renew sid holder fence ttl generation now st = Inr (r, st') \<Longrightarrow> lease_step st st'"
| release: "release_lease sid holder fence generation now st = Inr st' \<Longrightarrow> lease_step st st'"
| acknowledge: "acknowledge_recovery_candidate c now st = Inr st' \<Longrightarrow> lease_step st st'"
| close: "lease_step st (close_leases st)"

inductive lease_reachable :: "lease_store \<Rightarrow> bool" where
  start: "lease_reachable new_lease_store"
| step: "lease_reachable st \<Longrightarrow> lease_step st st' \<Longrightarrow> lease_reachable st'"

lemma lease_step_inv: "lease_step st st' \<Longrightarrow> lease_inv st \<Longrightarrow> lease_inv st'"
  by (induction rule: lease_step.induct) (auto intro: inv_intros)

lemma lease_reachable_inv': "lease_reachable st \<Longrightarrow> lease_inv st"
  by (induction rule: lease_reachable.induct) (auto intro: new_lease_store_inv lease_step_inv)

definition same_grant :: "lease \<Rightarrow> lease \<Rightarrow> bool" where
  "same_grant a b \<longleftrightarrow> l_session a = l_session b \<and> l_holder a = l_holder b \<and> l_fence a = l_fence b
     \<and> l_generation a = l_generation b \<and> l_acquired_at a = l_acquired_at b"

lemma same_grant_refl [simp]: "same_grant a a"
  and same_grant_trans: "same_grant a b \<Longrightarrow> same_grant b c \<Longrightarrow> same_grant a c"
  by (simp_all add: same_grant_def)

lemma same_grant_times [simp]:
  "same_grant c (c\<lparr>l_expires_at := t\<rparr>)" "same_grant c (c\<lparr>l_renewed_at := t', l_expires_at := t\<rparr>)"
  by (simp_all add: same_grant_def)

lemma put_lease_succeeds:
  assumes "ls_leases st sid = Some c" and "same_grant c l \<or> l_fence c < l_fence l"
    and "ls_leases st k = Some a"
  shows "\<exists>b. ls_leases (put_lease sid l st) k = Some b \<and> (same_grant a b \<or> l_fence a < l_fence b)"
  using assms by (cases "k = sid") (simp_all add: op_simps)

lemma acknowledge_fields:
  "acknowledge_recovery_candidate c now st = Inr st' \<Longrightarrow>
    ls_leases st' = ls_leases st \<and> ls_ids st' = ls_ids st \<and> ls_closed st' = ls_closed st"
  by (auto simp: acknowledge_recovery_candidate_def split: option.splits if_splits)

text \<open>One step keeps a grant, or replaces it under a larger fence, or the store was closed.\<close>

lemma lease_step_succession:
  "lease_step st st' \<Longrightarrow> ls_leases st k = Some a \<Longrightarrow> \<not> ls_closed st' \<Longrightarrow>
    \<exists>b. ls_leases st' k = Some b \<and> (same_grant a b \<or> l_fence a < l_fence b)"
proof (induction rule: lease_step.induct)
  case (acquire sid holder ttl now uuid st r st')
  from acquire(1) show ?case
  proof (cases rule: acquire_cases)
    case granted
    from granted(1) show ?thesis
    proof (cases rule: grant_lease_cases)
      case (1 l)
      then show ?thesis using acquire(2)
        by (cases "k = sid") (simp_all add: op_simps fence_of_def)
    qed
  qed (use acquire in simp)
next
  case (renew sid holder fence ttl generation now st r st')
  from renew(1) show ?case
    by (cases rule: renew_cases)
      (use renew in \<open>auto intro: put_lease_succeeds\<close>)
next
  case (release sid holder fence generation now st st')
  from release(1) show ?case
    by (cases rule: release_lease_cases)
      (use release in \<open>auto intro: put_lease_succeeds\<close>)
next
  case (acknowledge c now st st')
  then show ?case by (auto dest: acknowledge_fields)
next
  case (close st)
  then show ?case by (simp add: close_leases_def)
qed

lemma lease_step_closed: "lease_step st st' \<Longrightarrow> ls_closed st \<Longrightarrow> ls_closed st'"
  by (induction rule: lease_step.induct)
    (auto elim!: acquire_cases renew_cases release_lease_cases grant_lease_cases
      simp: op_simps close_leases_def dest: acknowledge_fields)

text \<open>
  A lease store is a store of cells stamped by their fences and marked by the grant: a step keeps
  the grant of a session or replaces it under a larger fence, until the store is closed.
\<close>

interpretation lease_grants: stamped_cells lease_step "\<lambda>_. True" ls_leases ls_closed l_fence
  "\<lambda>l. (l_session l, l_holder l, l_generation l, l_acquired_at l)"
proof unfold_locales
  fix s s' k a
  assume "lease_step s s'" and "ls_leases s k = Some a" and "\<not> ls_closed s'"
  from lease_step_succession [OF this]
  show "\<exists>b. ls_leases s' k = Some b \<and>
    (l_fence a = l_fence b \<and>
      (l_session a, l_holder a, l_generation a, l_acquired_at a)
        = (l_session b, l_holder b, l_generation b, l_acquired_at b) \<or> l_fence a < l_fence b)"
    by (auto simp: same_grant_def)
qed (auto dest: lease_step_closed)


section \<open>What the store promises\<close>

text \<open>
  Along any run of the store the fence of a session's lease never goes down, and a
  fence names one grant (session, holder, generation, acquisition time): seen at both ends of a
  run it was held at every moment in between.
\<close>

theorem lease_fence_names_one_grant:
  assumes "lease_step\<^sup>*\<^sup>* st mid" and "lease_step\<^sup>*\<^sup>* mid st'" and "\<not> ls_closed st'"
    and "ls_leases st sid = Some a" and "ls_leases st' sid = Some c"
  shows "l_fence a \<le> l_fence c
    \<and> (l_fence a = l_fence c \<longrightarrow> same_grant a c \<and> (\<exists>b. ls_leases mid sid = Some b \<and> same_grant a b))"
proof -
  have run: "lease_step\<^sup>*\<^sup>* st st'" using assms(1,2) by (rule rtranclp_trans)
  have "l_fence a = l_fence c \<Longrightarrow> \<exists>b. ls_leases mid sid = Some b \<and> same_grant a b"
    using lease_grants.stamp_pins_mark [OF TrueI assms] by (auto simp: same_grant_def)
  then show ?thesis
    using lease_grants.run_look [OF run TrueI assms(4,3)] assms(5) by (auto simp: same_grant_def)
qed

lemma takeover_fence:
  assumes "acquire sid holder ttl now uuid st = Inr (Some new, st')" and "ls_leases st sid = Some old"
    and "l_fence new \<noteq> l_fence old"
  shows "l_expires_at old \<le> now \<and> l_fence new = l_fence old + 1 \<and> l_holder new = holder
    \<and> l_generation new = uuid \<and> ls_leases st' sid = Some new"
  using assms(1)
proof (cases rule: acquire_cases)
  case (live c)
  then show ?thesis using assms(2,3) by (auto split: if_splits)
next
  case granted
  from granted(1) show ?thesis
    by (cases rule: grant_lease_cases) (use assms(2) granted in \<open>auto simp: op_simps fence_of_def\<close>)
qed

lemma stale_fence_noop:
  assumes "\<forall>b. ls_leases st sid = Some b \<longrightarrow> l_fence b \<noteq> f"
  shows "renew sid h f ttl g now st = Inr (r, st') \<Longrightarrow> r = None \<and> st' = st"
    and "release_lease sid h f g now st = Inr st' \<Longrightarrow> st' = st"
    and "c_session c = sid \<Longrightarrow> c_fence c = f \<Longrightarrow> acknowledge_recovery_candidate c now st = Inr st' \<Longrightarrow>
      st' = st"
  using assms
  by (auto elim!: renew_cases release_lease_cases simp: acknowledge_recovery_candidate_def
      split: option.splits if_splits)


text \<open>
  In every reachable store the session ids are sorted without duplicates and are
  exactly the sessions with a lease, every lease has its own session's id and a fence in the safe
  integer range, and only sessions with a lease are acknowledged.
\<close>

theorem lease_store_well_formed:
  assumes "lease_reachable st"
  shows "sorted (ls_ids st) \<and> distinct (ls_ids st) \<and> set (ls_ids st) = dom (ls_leases st)
    \<and> dom (ls_acked st) \<subseteq> dom (ls_leases st)
    \<and> (\<forall>sid l. ls_leases st sid = Some l \<longrightarrow> l_session l = sid \<and> 1 \<le> l_fence l \<and> is_safe_integer (l_fence l))"
proof -
  note inv = lease_reachable_inv' [OF assms]
  have "l_session l = sid \<and> 1 \<le> l_fence l \<and> is_safe_integer (l_fence l)"
    if "ls_leases st sid = Some l" for sid l
    using lease_inv_ok [OF inv that] by (simp add: lease_ok_def is_safe_integer_def max_safe_integer_def)
  then show ?thesis using inv by (simp add: lease_inv_def ids_inv_def)
qed

section \<open>Paging through the recovery candidates\<close>

definition recoverable :: "lease_store \<Rightarrow> int \<Rightarrow> js_string \<Rightarrow> bool" where
  "recoverable st now sid \<longleftrightarrow> (\<exists>l. ls_leases st sid = Some l \<and> \<not> live_at now l
     \<and> ls_acked st sid \<noteq> Some (l_generation l))"

definition candidate_of :: "lease_store \<Rightarrow> js_string \<Rightarrow> candidate" where
  "candidate_of st sid = (let l = the (ls_leases st sid) in
     \<lparr>c_session = sid, c_fence = l_fence l, c_generation = l_generation l\<rparr>)"

lemma page_candidates_eq:
  "set sids \<subseteq> dom (ls_leases st) \<Longrightarrow>
    page_candidates st now sids = Inr (map (candidate_of st) (filter (recoverable st now) sids))"
  by (induction sids) (auto simp: recoverable_def candidate_of_def)

text \<open>The reaper's loop: page after page, each from the last cursor, until there is none.\<close>

fun recovery_scan ::
    "nat \<Rightarrow> int \<Rightarrow> int \<Rightarrow> js_string option \<Rightarrow> lease_store \<Rightarrow> candidate list option result" where
  "recovery_scan 0 now limit cursor st = Inr None"
| "recovery_scan (Suc n) now limit cursor st =
     rbind (list_recovery_candidates now limit cursor st) (\<lambda>(page, next).
       case next of None \<Rightarrow> Inr (Some page)
       | Some c \<Rightarrow> rbind (recovery_scan n now limit (Some c) st) (\<lambda>rest.
           Inr (map_option (\<lambda>cs. page @ cs) rest)))"

lemma upper_bound_at:
  assumes "ids_inv st" and "k < length (ls_ids st)"
  shows "upper_bound_lease_id st (ls_ids st ! k) = Suc k"
proof -
  have sd: "sorted (ls_ids st)" "distinct (ls_ids st)" using assms(1) by (simp_all add: ids_inv_def)
  have "takeWhile (\<lambda>y. y \<le> ls_ids st ! k) (ls_ids st) = take (Suc k) (ls_ids st)"
  proof (rule takeWhile_eq_take_P_nth)
    fix i assume "i < Suc k" "i < length (ls_ids st)"
    then show "ls_ids st ! i \<le> ls_ids st ! k" using sorted_nth_mono [OF sd(1), of i k] assms(2) by simp
  next
    assume *: "Suc k < length (ls_ids st)"
    have "ls_ids st ! k < ls_ids st ! Suc k"
      using sorted_nth_mono [OF sd(1), of k "Suc k"] nth_eq_iff_index_eq [OF sd(2), of k "Suc k"] *
      by (simp add: order_less_le)
    then show "\<not> ls_ids st ! Suc k \<le> ls_ids st ! k" by (simp add: not_le)
  qed
  then show ?thesis using assms(2) by (simp add: upper_bound_lease_id_eq [OF sd(1)])
qed

lemma recovery_page:
  assumes "lease_inv st" and "\<not> ls_closed st" and "1 \<le> limit" and "limit \<le> 1000"
    and "0 \<le> now" and "now \<le> max_safe_integer"
    and start: "start = (case cursor of None \<Rightarrow> 0 | Some c \<Rightarrow> upper_bound_lease_id st c)"
  defines "page \<equiv> take (nat limit) (drop start (ls_ids st))"
  shows "list_recovery_candidates now limit cursor st =
    Inr (map (candidate_of st) (filter (recoverable st now) page),
      if start + nat limit < length (ls_ids st) then Some (ls_ids st ! (start + nat limit - 1)) else None)"
proof -
  have "set page \<subseteq> dom (ls_leases st)"
    using assms(1) by (auto simp: page_def lease_inv_def ids_inv_def dest: in_set_takeD in_set_dropD)
  then have "list_recovery_candidates now limit cursor st =
    Inr (map (candidate_of st) (filter (recoverable st now) page),
      if page \<noteq> [] \<and> start + length page < length (ls_ids st) then Some (last page) else None)"
    using assms(2-6) by (auto simp: list_recovery_candidates_def assert_open_def start [symmetric]
      page_def assert_recovery_page_size_def max_recovery_page_size_def Let_def
      assert_lease_timestamp_ms_def is_safe_integer_def max_safe_integer_def page_candidates_eq)
  moreover have "page \<noteq> [] \<and> start + length page < length (ls_ids st) \<longleftrightarrow>
      start + nat limit < length (ls_ids st)"
    using assms(3) by (auto simp: page_def)
  moreover have "last page = ls_ids st ! (start + nat limit - 1)"
    if "start + nat limit < length (ls_ids st)"
    using that assms(3) by (auto simp: page_def last_conv_nth)
  ultimately show ?thesis by simp
qed

lemma recovery_scan_from:
  assumes "lease_inv st" and "\<not> ls_closed st" and "1 \<le> limit" and "limit \<le> 1000"
    and "0 \<le> now" and "now \<le> max_safe_integer"
    and "start = (case cursor of None \<Rightarrow> 0 | Some c \<Rightarrow> upper_bound_lease_id st c)"
    and "length (ls_ids st) - start < n"
  shows "recovery_scan n now limit cursor st =
    Inr (Some (map (candidate_of st) (filter (recoverable st now) (drop start (ls_ids st)))))"
  using assms(7,8)
proof (induction n arbitrary: cursor start)
  case (Suc n)
  note page = recovery_page [OF assms(1-6) Suc(2)]
  show ?case
  proof (cases "start + nat limit < length (ls_ids st)")
    case True
    let ?c = "ls_ids st ! (start + nat limit - 1)"
    have up: "upper_bound_lease_id st ?c = start + nat limit"
      using upper_bound_at [OF lease_inv_ids [OF assms(1)]] True assms(3)
      by (cases "start + nat limit") auto
    have "recovery_scan n now limit (Some ?c) st = Inr (Some (map (candidate_of st)
        (filter (recoverable st now) (drop (start + nat limit) (ls_ids st)))))"
      by (rule Suc(1)) (use up Suc(3) True assms(3) in auto)
    moreover have "drop start (ls_ids st) =
        take (nat limit) (drop start (ls_ids st)) @ drop (start + nat limit) (ls_ids st)"
      by (metis append_take_drop_id drop_drop add.commute)
    ultimately show ?thesis
      using page True by (simp del: append_take_drop_id) (metis filter_append map_append)
  next
    case False
    then show ?thesis using page by simp
  qed
qed simp

text \<open>
  Property C2: starting with no cursor and following the cursors, the pages of
  \<open>listRecoveryCandidates\<close> end after at most one page per lease and give every expired,
  unacknowledged lease exactly once, in the order of the session ids, for every page size.
\<close>

theorem recovery_pages_complete:
  assumes "lease_reachable st" and "\<not> ls_closed st" and "1 \<le> limit" and "limit \<le> 1000"
    and "0 \<le> now" and "now \<le> max_safe_integer" and "length (ls_ids st) < n"
  shows "\<exists>cs. recovery_scan n now limit None st = Inr (Some cs)
    \<and> sorted (map c_session cs) \<and> distinct (map c_session cs)
    \<and> set cs = {\<lparr>c_session = sid, c_fence = l_fence l, c_generation = l_generation l\<rparr> | sid l.
        ls_leases st sid = Some l \<and> l_expires_at l \<le> now \<and> ls_acked st sid \<noteq> Some (l_generation l)}"
proof -
  let ?sids = "filter (recoverable st now) (ls_ids st)" and ?cs = "map (candidate_of st)"
  note inv = lease_reachable_inv' [OF assms(1)]
  have ids: "sorted (ls_ids st)" "distinct (ls_ids st)" "set (ls_ids st) = dom (ls_leases st)"
    using inv by (simp_all add: lease_inv_def ids_inv_def)
  have "recovery_scan n now limit None st = Inr (Some (?cs ?sids))"
    using recovery_scan_from [OF inv assms(2-6), of 0 None n] assms(7) by simp
  moreover have "map c_session (?cs ?sids) = ?sids"
    by (simp add: comp_def candidate_of_def Let_def)
  moreover have "set (?cs ?sids) = {\<lparr>c_session = sid, c_fence = l_fence l, c_generation = l_generation l\<rparr> | sid l.
        ls_leases st sid = Some l \<and> l_expires_at l \<le> now \<and> ls_acked st sid \<noteq> Some (l_generation l)}"
    using ids(3) by (force simp: candidate_of_def recoverable_def live_at_def Let_def image_iff not_less)
  ultimately show ?thesis using ids(1,2) by (metis sorted_wrt_filter distinct_filter)
qed
section \<open>A run\<close>

definition first_lease :: lease where
  "first_lease = \<lparr>l_session = [1], l_holder = [2], l_fence = 1, l_generation = [3],
     l_acquired_at = 0, l_renewed_at = 0, l_expires_at = 10\<rparr>"

definition second_lease :: lease where
  "second_lease = \<lparr>l_session = [1], l_holder = [4], l_fence = 2, l_generation = [5],
     l_acquired_at = 20, l_renewed_at = 20, l_expires_at = 30\<rparr>"

definition store_with :: "lease \<Rightarrow> lease_store" where
  "store_with l = \<lparr>ls_leases = [[1] \<mapsto> l], ls_ids = [[1]], ls_acked = Map.empty, ls_closed = False\<rparr>"

lemmas acquire_eval =
  acquire_def assert_open_def assert_lease_ttl_ms_def read_now_ms_def assert_lease_timestamp_ms_def
  is_safe_integer_def max_safe_integer_def grant_lease_def safe_lease_expiry_at_def live_at_def
  Let_def

lemma first_acquire:
  "acquire [1] [2] 10 0 [3] new_lease_store = Inr (Some first_lease, store_with first_lease)"
  by (simp add: acquire_eval new_lease_store_def store_with_def first_lease_def insert_lease_id_def
      upper_bound_lease_id_def upper_bound_loop.simps)

lemma second_acquire:
  "acquire [1] [4] 10 20 [5] (store_with first_lease) = Inr (Some second_lease, store_with second_lease)"
  by (simp add: acquire_eval store_with_def first_lease_def second_lease_def)

lemma store_with_reachable:
  "lease_reachable (store_with first_lease)" "lease_step (store_with first_lease) (store_with second_lease)"
  using lease_reachable.step [OF lease_reachable.start lease_step.acquire [OF first_acquire]]
    lease_step.acquire [OF second_acquire] by blast+

theorem lease_fence_names_one_grant_witness:
  "l_fence first_lease \<le> l_fence second_lease"
proof -
  have "lease_step\<^sup>*\<^sup>* (store_with first_lease) (store_with second_lease)"
    using store_with_reachable(2) by (rule r_into_rtranclp)
  from lease_fence_names_one_grant [OF rtranclp.rtrancl_refl this, of "[1]" first_lease second_lease]
  show ?thesis by (simp add: store_with_def)
qed


theorem lease_store_well_formed_witness: "sorted (ls_ids (store_with first_lease))"
  using lease_store_well_formed [OF store_with_reachable(1)] by simp

theorem recovery_pages_complete_witness:
  "\<exists>cs. recovery_scan 2 10 1 None (store_with first_lease) = Inr (Some cs)
    \<and> set cs = {\<lparr>c_session = [1], c_fence = 1, c_generation = [3]\<rparr>}"
  using recovery_pages_complete [OF store_with_reachable(1), of 1 10 2]
  by (auto simp: store_with_def first_lease_def max_safe_integer_def cong: conj_cong)
end
