(* ===== verification/Record_Stores.thy ===== *)
theory Record_Stores
  imports Prelude "HOL-Library.AList"
begin

text \<open>
  The record stores of \<open>packages/dal/src/in-memory-stores.ts\<close>: \<open>InMemorySessionStore\<close>,
  \<open>InMemoryTurnStore\<close> and \<open>InMemoryToolCallStore\<close>. A stored record keeps the fields the
  stores look at (its session, its id, its version); everything else is the body, of any type.
  What the stores call in \<open>packages/dal-codec\<close> (normalising a record under a key, comparing two
  records without their version) is the argument \<open>cd\<close> of the operations.

  A \<open>Map\<close> whose values are listed keeps its insertion order, so the session records are an
  association list with \<open>AList.update\<close> and \<open>AList.delete\<close>; the maps of the other two stores are
  never enumerated.
\<close>

section \<open>Records and codec\<close>

record 'p stored =
  r_session :: js_string
  r_id :: js_string
  r_version :: "int option"
  r_body :: 'p

record 'p codec =
  cd_session :: "'p stored \<Rightarrow> js_string \<Rightarrow> 'p stored result"
  cd_turn :: "'p stored \<Rightarrow> js_string \<Rightarrow> 'p stored result"
  cd_tool_call :: "'p stored \<Rightarrow> js_string \<Rightarrow> 'p stored result"
  cd_same :: "'p stored \<Rightarrow> 'p stored \<Rightarrow> bool"

definition version_or_one :: "'p stored \<Rightarrow> int" where
  "version_or_one r = (case r_version r of None \<Rightarrow> 1 | Some v \<Rightarrow> v)"

definition next_version :: "'p stored \<Rightarrow> 'p stored \<Rightarrow> 'p stored" where
  "next_version current r = r\<lparr>r_version := Some (version_or_one current + 1)\<rparr>"

definition conflict_error :: "js_string \<Rightarrow> js_string \<Rightarrow> js_error" where
  "conflict_error kind i = RecordConflictError (kind @ js '':'' @ i)"

section \<open>The session store\<close>

record 'p session_store =
  ss_records :: "(js_string \<times> 'p stored) list"
  ss_closed :: bool

definition new_session_store :: "'p session_store" where
  "new_session_store = \<lparr>ss_records = [], ss_closed = False\<rparr>"

definition session_assert_open :: "'p session_store \<Rightarrow> unit result" where
  "session_assert_open st = rcheck (\<not> ss_closed st) (PlainError (js ''SessionStore is closed''))"

definition session_get :: "js_string \<Rightarrow> 'p session_store \<Rightarrow> 'p stored option result" where
  "session_get i st = rbind (session_assert_open st) (\<lambda>_. Inr (map_of (ss_records st) i))"

definition session_list :: "'p session_store \<Rightarrow> 'p stored list result" where
  "session_list st = rbind (session_assert_open st) (\<lambda>_. Inr (map snd (ss_records st)))"

definition session_set :: "js_string \<Rightarrow> 'p stored \<Rightarrow> 'p session_store \<Rightarrow> 'p session_store" where
  "session_set i r st = st\<lparr>ss_records := AList.update i r (ss_records st)\<rparr>"

definition session_put :: "'p codec \<Rightarrow> 'p stored \<Rightarrow> 'p session_store \<Rightarrow> 'p session_store result" where
  "session_put cd r st =
     rbind (session_assert_open st) (\<lambda>_.
     let existing = map_of (ss_records st) (r_id r);
         kept = (case existing of None \<Rightarrow> None | Some e \<Rightarrow> r_version e);
         version = (case kept of Some v \<Rightarrow> v | None \<Rightarrow> version_or_one r) in
     if (case existing of None \<Rightarrow> False | Some e \<Rightarrow> \<not> cd_same cd e r)
     then Inl (conflict_error (js ''Session'') (r_id r))
     else rbind (cd_session cd (r\<lparr>r_version := Some version\<rparr>) (js ''session:'' @ r_id r)) (\<lambda>n.
       Inr (session_set (r_id r) n st)))"

definition session_update ::
    "'p codec \<Rightarrow> js_string \<Rightarrow> ('p stored \<Rightarrow> 'p stored result) \<Rightarrow> 'p session_store
      \<Rightarrow> ('p stored \<times> 'p session_store) result" where
  "session_update cd i updater st =
     rbind (session_assert_open st) (\<lambda>_.
     case map_of (ss_records st) i of
       None \<Rightarrow> Inl (RecordNotFoundError (js ''session:'' @ i))
     | Some current \<Rightarrow>
         rbind (updater current) (\<lambda>next.
         rbind (cd_session cd (next_version current next) (js ''session:'' @ i)) (\<lambda>versioned.
           Inr (versioned, session_set i versioned st))))"

definition session_close :: "'p session_store \<Rightarrow> 'p session_store" where
  "session_close st = st\<lparr>ss_closed := True\<rparr>"

definition session_restore ::
    "js_string \<Rightarrow> 'p stored option \<Rightarrow> 'p session_store \<Rightarrow> 'p session_store" where
  "session_restore i r st =
     (case r of Some r \<Rightarrow> session_set i r st
      | None \<Rightarrow> st\<lparr>ss_records := AList.delete i (ss_records st)\<rparr>)"

section \<open>Stores of record lists per session\<close>

text \<open>
  The turn and the tool call store differ only in the names in their messages and in the codec
  function they use; \<open>list_kind\<close> holds those.
\<close>

record 'p list_store =
  lst_records :: "js_string \<rightharpoonup> 'p stored list"
  lst_closed :: bool

record 'p list_kind =
  lk_kind :: js_string
  lk_prefix :: js_string
  lk_store :: js_string
  lk_normalize :: "'p stored \<Rightarrow> js_string \<Rightarrow> 'p stored result"
  lk_same :: "'p stored \<Rightarrow> 'p stored \<Rightarrow> bool"

definition new_list_store :: "'p list_store" where
  "new_list_store = \<lparr>lst_records = Map.empty, lst_closed = False\<rparr>"

definition records_of :: "js_string \<Rightarrow> 'p list_store \<Rightarrow> 'p stored list" where
  "records_of sid st = (case lst_records st sid of None \<Rightarrow> [] | Some rs \<Rightarrow> rs)"

definition list_assert_open :: "'p list_kind \<Rightarrow> 'p list_store \<Rightarrow> unit result" where
  "list_assert_open k st =
     rcheck (\<not> lst_closed st) (PlainError (lk_store k @ js '' is closed''))"

definition list_get ::
    "'p list_kind \<Rightarrow> js_string \<Rightarrow> js_string \<Rightarrow> 'p list_store \<Rightarrow> 'p stored option result" where
  "list_get k sid i st =
     rbind (list_assert_open k st) (\<lambda>_. Inr (find (\<lambda>r. r_id r = i) (records_of sid st)))"

definition list_by_session ::
    "'p list_kind \<Rightarrow> js_string \<Rightarrow> 'p list_store \<Rightarrow> 'p stored list result" where
  "list_by_session k sid st = rbind (list_assert_open k st) (\<lambda>_. Inr (records_of sid st))"

definition list_set :: "js_string \<Rightarrow> 'p stored list \<Rightarrow> 'p list_store \<Rightarrow> 'p list_store" where
  "list_set sid rs st = st\<lparr>lst_records := (lst_records st)(sid \<mapsto> rs)\<rparr>"

definition list_put ::
    "'p list_kind \<Rightarrow> 'p stored \<Rightarrow> 'p list_store \<Rightarrow> 'p list_store result" where
  "list_put k r st =
     rbind (list_assert_open k st) (\<lambda>_.
     let records = records_of (r_session r) st in
     case find (\<lambda>x. r_id x = r_id r) records of
       Some existing \<Rightarrow>
         if lk_same k existing r then Inr st else Inl (conflict_error (lk_kind k) (r_id r))
     | None \<Rightarrow>
         rbind (lk_normalize k (r\<lparr>r_version := Some (version_or_one r)\<rparr>)
                  (lk_prefix k @ js '':'' @ r_id r)) (\<lambda>n.
           Inr (list_set (r_session r) (records @ [n]) st)))"

definition index_of :: "js_string \<Rightarrow> 'p stored list \<Rightarrow> nat" where
  "index_of i rs = length (takeWhile (\<lambda>r. r_id r \<noteq> i) rs)"

definition list_update_record ::
    "'p list_kind \<Rightarrow> js_string \<Rightarrow> js_string \<Rightarrow> ('p stored \<Rightarrow> 'p stored result) \<Rightarrow> 'p list_store
      \<Rightarrow> ('p stored \<times> 'p list_store) result" where
  "list_update_record k sid i updater st =
     rbind (list_assert_open k st) (\<lambda>_.
     let records = records_of sid st; index = index_of i records;
         key = lk_prefix k @ js '':'' @ sid @ js '':'' @ i in
     if length records \<le> index then Inl (RecordNotFoundError key)
     else let current = records ! index in
       rbind (updater current) (\<lambda>next.
       rbind (lk_normalize k (next_version current next) key) (\<lambda>versioned.
         Inr (versioned, list_set sid (records[index := versioned]) st))))"

definition list_close :: "'p list_store \<Rightarrow> 'p list_store" where
  "list_close st = st\<lparr>lst_closed := True\<rparr>"

definition list_restore :: "js_string \<Rightarrow> 'p stored list \<Rightarrow> 'p list_store \<Rightarrow> 'p list_store" where
  "list_restore sid rs st =
     (if 0 < length rs then list_set sid rs st
      else st\<lparr>lst_records := (lst_records st)(sid := None)\<rparr>)"

definition turn_kind :: "'p codec \<Rightarrow> 'p list_kind" where
  "turn_kind cd = \<lparr>lk_kind = js ''Turn'', lk_prefix = js ''turn'', lk_store = js ''TurnStore'',
                   lk_normalize = cd_turn cd, lk_same = cd_same cd\<rparr>"

definition tool_call_kind :: "'p codec \<Rightarrow> 'p list_kind" where
  "tool_call_kind cd = \<lparr>lk_kind = js ''Tool call'', lk_prefix = js ''tool_call'',
                   lk_store = js ''ToolCallStore'', lk_normalize = cd_tool_call cd, lk_same = cd_same cd\<rparr>"

text \<open>The two classes.\<close>

definition turn_get :: "'p codec \<Rightarrow> js_string \<Rightarrow> js_string \<Rightarrow> 'p list_store \<Rightarrow> 'p stored option result" where
  "turn_get cd = list_get (turn_kind cd)"

definition turn_list :: "'p codec \<Rightarrow> js_string \<Rightarrow> 'p list_store \<Rightarrow> 'p stored list result" where
  "turn_list cd = list_by_session (turn_kind cd)"

definition turn_put :: "'p codec \<Rightarrow> 'p stored \<Rightarrow> 'p list_store \<Rightarrow> 'p list_store result" where
  "turn_put cd = list_put (turn_kind cd)"

definition turn_update ::
    "'p codec \<Rightarrow> js_string \<Rightarrow> js_string \<Rightarrow> ('p stored \<Rightarrow> 'p stored result) \<Rightarrow> 'p list_store
      \<Rightarrow> ('p stored \<times> 'p list_store) result" where
  "turn_update cd = list_update_record (turn_kind cd)"

definition tool_call_get :: "'p codec \<Rightarrow> js_string \<Rightarrow> js_string \<Rightarrow> 'p list_store \<Rightarrow> 'p stored option result" where
  "tool_call_get cd = list_get (tool_call_kind cd)"

definition tool_call_list :: "'p codec \<Rightarrow> js_string \<Rightarrow> 'p list_store \<Rightarrow> 'p stored list result" where
  "tool_call_list cd = list_by_session (tool_call_kind cd)"

definition tool_call_put :: "'p codec \<Rightarrow> 'p stored \<Rightarrow> 'p list_store \<Rightarrow> 'p list_store result" where
  "tool_call_put cd = list_put (tool_call_kind cd)"

definition tool_call_update ::
    "'p codec \<Rightarrow> js_string \<Rightarrow> js_string \<Rightarrow> ('p stored \<Rightarrow> 'p stored result) \<Rightarrow> 'p list_store
      \<Rightarrow> ('p stored \<times> 'p list_store) result" where
  "tool_call_update cd = list_update_record (tool_call_kind cd)"

lemmas turn_defs = turn_get_def turn_list_def turn_put_def turn_update_def
lemmas tool_call_defs = tool_call_get_def tool_call_list_def tool_call_put_def tool_call_update_def

section \<open>What the stores rely on\<close>

text \<open>
  The codec's laws: normalising keeps a record's identity and version, does nothing to a record
  that is already normal, and gives equal results for records that agree up to their versions and
  have equal versions (both are derived from one canonical text).
\<close>

definition keeps_identity :: "('p stored \<Rightarrow> 'p stored result) \<Rightarrow> bool" where
  "keeps_identity f \<longleftrightarrow> (\<forall>r n. f r = Inr n \<longrightarrow> r_session n = r_session r \<and> r_id n = r_id r)"

definition normalizer_ok :: "('p stored \<Rightarrow> js_string \<Rightarrow> 'p stored result) \<Rightarrow> bool" where
  "normalizer_ok f \<longleftrightarrow> (\<forall>r key n. f r key = Inr n \<longrightarrow>
     r_session n = r_session r \<and> r_id n = r_id r \<and> r_version n = r_version r
     \<and> (\<forall>key'. f n key' = Inr n))"

definition codec_ok :: "'p codec \<Rightarrow> bool" where
  "codec_ok cd \<longleftrightarrow> normalizer_ok (cd_session cd) \<and> normalizer_ok (cd_turn cd)
     \<and> normalizer_ok (cd_tool_call cd)
     \<and> (\<forall>a b v key. cd_same cd a b \<longrightarrow>
          cd_session cd (a\<lparr>r_version := v\<rparr>) key = cd_session cd (b\<lparr>r_version := v\<rparr>) key)"

section \<open>Session store lemmas\<close>

lemma AList_update_same: "map_of al k = Some v \<Longrightarrow> AList.update k v al = al"
  by (induction al) (auto split: if_splits)

definition session_normal :: "'p codec \<Rightarrow> 'p stored \<Rightarrow> bool" where
  "session_normal cd r \<longleftrightarrow> r_version r \<noteq> None \<and> (\<forall>key. cd_session cd r key = Inr r)"

definition session_inv :: "'p codec \<Rightarrow> 'p session_store \<Rightarrow> bool" where
  "session_inv cd st \<longleftrightarrow> codec_ok cd \<and> distinct (map fst (ss_records st))
     \<and> (\<forall>i r. map_of (ss_records st) i = Some r \<longrightarrow> session_normal cd r)"

lemma session_normalized:
  "codec_ok cd \<Longrightarrow> cd_session cd (r\<lparr>r_version := Some v\<rparr>) key = Inr n \<Longrightarrow>
    session_normal cd n \<and> r_version n = Some v"
  by (force simp: codec_ok_def normalizer_ok_def session_normal_def)

lemma session_set_look [op_simps]:
  "map_of (ss_records (session_set i r st)) = (map_of (ss_records st))(i \<mapsto> r)"
  "ss_closed (session_set i r st) = ss_closed st"
  by (simp_all add: session_set_def update_conv')

lemma session_set_inv [inv_intros]:
  "session_inv cd st \<Longrightarrow> session_normal cd r \<Longrightarrow> session_inv cd (session_set i r st)"
  by (auto simp: session_inv_def session_set_look distinct_update)
    (simp add: session_set_def distinct_update)

text \<open>What \<open>put\<close> and \<open>update\<close> do, when they return.\<close>

lemma session_put_cases:
  assumes "session_put cd r st = Inr st'" and "session_inv cd st"
  obtains (old) e where "map_of (ss_records st) (r_id r) = Some e" and "cd_same cd e r" and "st' = st"
  | (new) n where "map_of (ss_records st) (r_id r) = None" and "session_normal cd n"
      and "r_version n = Some (version_or_one r)" and "st' = session_set (r_id r) n st"
proof (cases "map_of (ss_records st) (r_id r)")
  case None
  then obtain n where n: "cd_session cd (r\<lparr>r_version := Some (version_or_one r)\<rparr>) (js ''session:'' @ r_id r) = Inr n"
    and st':  "st' = session_set (r_id r) n st"
    using assms(1) by (auto simp: session_put_def Let_def)
  have "codec_ok cd" using assms(2) by (simp add: session_inv_def)
  from session_normalized [OF this n] show thesis using None st' by (intro new) simp_all
next
  case (Some e)
  then have normal: "session_normal cd e" and ok: "codec_ok cd"
    using assms(2) by (auto simp: session_inv_def)
  then obtain v where v: "r_version e = Some v" by (auto simp: session_normal_def)
  have same: "cd_same cd e r"
    and st': "\<exists>n. cd_session cd (r\<lparr>r_version := Some v\<rparr>) (js ''session:'' @ r_id r) = Inr n
      \<and> st' = session_set (r_id r) n st"
    using assms(1) Some v by (auto simp: session_put_def Let_def split: if_splits)
  have "cd_session cd (r\<lparr>r_version := Some v\<rparr>) key = Inr e" for key
  proof -
    have "e\<lparr>r_version := Some v\<rparr> = e" using v by (cases e) simp
    then have "cd_session cd (e\<lparr>r_version := Some v\<rparr>) key = Inr e"
      using normal by (simp add: session_normal_def)
    moreover have "cd_session cd (e\<lparr>r_version := Some v\<rparr>) key = cd_session cd (r\<lparr>r_version := Some v\<rparr>) key"
      using ok same unfolding codec_ok_def by blast
    ultimately show ?thesis by simp
  qed
  then have "st' = st" using st' Some by (auto simp: session_set_def AList_update_same)
  then show thesis using Some same by (intro old)
qed

lemma session_update_cases:
  assumes "session_update cd i f st = Inr (n, st')" and "codec_ok cd"
  obtains e where "map_of (ss_records st) i = Some e" and "session_normal cd n"
    and "r_version n = Some (version_or_one e + 1)" and "st' = session_set i n st"
proof -
  from assms(1) obtain e next' where e: "map_of (ss_records st) i = Some e"
    and n: "cd_session cd (next_version e next') (js ''session:'' @ i) = Inr n" and "st' = session_set i n st"
    by (auto simp: session_update_def split: option.splits)
  with session_normalized [OF assms(2) n [unfolded next_version_def]] that show thesis by blast
qed

lemma session_put_inv [inv_intros]:
  "session_put cd r st = Inr st' \<Longrightarrow> session_inv cd st \<Longrightarrow> session_inv cd st'"
  by (auto elim!: session_put_cases intro: session_set_inv)

lemma session_update_inv [inv_intros]:
  "session_update cd i f st = Inr (n, st') \<Longrightarrow> session_inv cd st \<Longrightarrow> session_inv cd st'"
  by (erule session_update_cases) (auto intro: session_set_inv simp: session_inv_def [of _ st])

lemma session_close_inv [inv_intros]: "session_inv cd st \<Longrightarrow> session_inv cd (session_close st)"
  by (simp add: session_inv_def session_close_def)

inductive session_step :: "'p codec \<Rightarrow> 'p session_store \<Rightarrow> 'p session_store \<Rightarrow> bool"
  for cd :: "'p codec" where
  put: "session_put cd r st = Inr st' \<Longrightarrow> session_step cd st st'"
| update: "session_update cd i f st = Inr (n, st') \<Longrightarrow> session_step cd st st'"
| close: "session_step cd st (session_close st)"

lemma session_step_inv: "session_step cd st st' \<Longrightarrow> session_inv cd st \<Longrightarrow> session_inv cd st'"
  by (induction rule: session_step.induct)
    (blast intro: session_put_inv session_update_inv session_close_inv)+

lemma session_step_look:
  "session_step cd st st' \<Longrightarrow> session_inv cd st \<Longrightarrow> map_of (ss_records st) k = Some a \<Longrightarrow>
    \<exists>b. map_of (ss_records st') k = Some b \<and> (version_or_one a = version_or_one b \<and> a = b
      \<or> version_or_one a < version_or_one b)"
proof (induction rule: session_step.induct)
  case (put r st st')
  from put(1,2) show ?case
    by (cases rule: session_put_cases) (use put(3) in \<open>auto simp: session_set_look\<close>)
next
  case (update i f st n st')
  then have "codec_ok cd" by (simp add: session_inv_def)
  with update(1) show ?case
    by (cases rule: session_update_cases)
      (use update(3) in \<open>auto simp: session_set_look version_or_one_def\<close>)
qed (simp add: session_close_def)

interpretation session_versions: stamped_cells "session_step cd" "session_inv cd"
  "\<lambda>st. map_of (ss_records st)" "\<lambda>_. False" version_or_one "\<lambda>r. r" for cd :: "'p codec"
  by unfold_locales (auto intro: session_step_inv session_step_look)

section \<open>List store lemmas\<close>

definition kind_ok :: "'p list_kind \<Rightarrow> bool" where
  "kind_ok k \<longleftrightarrow> normalizer_ok (lk_normalize k)"

definition list_inv :: "'p list_kind \<Rightarrow> 'p list_store \<Rightarrow> bool" where
  "list_inv k st \<longleftrightarrow> kind_ok k \<and> (\<forall>sid rs. lst_records st sid = Some rs \<longrightarrow>
     rs \<noteq> [] \<and> distinct (map r_id rs) \<and> (\<forall>r \<in> set rs. r_session r = sid \<and> r_version r \<noteq> None))"

definition list_look :: "'p list_store \<Rightarrow> js_string \<times> js_string \<Rightarrow> 'p stored option" where
  "list_look st k = find (\<lambda>r. r_id r = snd k) (records_of (fst k) st)"

lemma records_of_set [op_simps]:
  "records_of sid' (list_set sid rs st) = (if sid' = sid then rs else records_of sid' st)"
  by (simp add: records_of_def list_set_def)

lemma list_inv_records:
  assumes "list_inv k st"
  shows "distinct (map r_id (records_of sid st))"
    and "r \<in> set (records_of sid st) \<Longrightarrow> r_session r = sid \<and> r_version r \<noteq> None"
proof -
  consider "records_of sid st = []" | rs where "lst_records st sid = Some rs" "records_of sid st = rs"
    by (cases "lst_records st sid") (auto simp: records_of_def)
  then have "distinct (map r_id (records_of sid st))
      \<and> (\<forall>r \<in> set (records_of sid st). r_session r = sid \<and> r_version r \<noteq> None)"
    by cases (use assms in \<open>simp_all add: list_inv_def\<close>)
  then show "distinct (map r_id (records_of sid st))"
    and "r \<in> set (records_of sid st) \<Longrightarrow> r_session r = sid \<and> r_version r \<noteq> None" by blast+
qed

lemma list_set_inv [inv_intros]:
  assumes "list_inv k st" and "rs \<noteq> []" and "distinct (map r_id rs)"
    and "\<And>r. r \<in> set rs \<Longrightarrow> r_session r = sid \<and> r_version r \<noteq> None"
  shows "list_inv k (list_set sid rs st)"
  using assms by (auto simp: list_inv_def list_set_def)

lemma index_of_found:
  assumes "index_of i rs < length rs"
  shows "r_id (rs ! index_of i rs) = i" and "find (\<lambda>r. r_id r = i) rs = Some (rs ! index_of i rs)"
  using assms
  by (induction rs) (auto simp: index_of_def split: if_splits)

lemma find_update_at:
  assumes "n < length rs" and "distinct (map r_id rs)" and "r_id x = r_id (rs ! n)"
  shows "find (\<lambda>r. r_id r = i) (rs[n := x]) = (if r_id x = i then Some x else find (\<lambda>r. r_id r = i) rs)"
  using assms
proof (induction rs arbitrary: n)
  case (Cons y ys)
  show ?case
  proof (cases n)
    case 0
    then show ?thesis using Cons(4) by auto
  next
    case (Suc m)
    then have "r_id x \<in> r_id ` set ys" using Cons(2,4) by simp
    then have "r_id y \<noteq> r_id x" using Cons(3) by auto
    then show ?thesis using Cons Suc by auto
  qed
qed simp

lemma map_id_update:
  "n < length rs \<Longrightarrow> r_id x = r_id (rs ! n) \<Longrightarrow> map r_id (rs[n := x]) = map r_id rs"
  by (metis list_update_id map_update)

lemma find_append:
  "find P (xs @ ys) = (case find P xs of None \<Rightarrow> find P ys | Some x \<Rightarrow> Some x)"
  by (induction xs) auto

lemma list_put_cases:
  assumes "list_put k r st = Inr st'"
  obtains (old) e where "list_look st (r_session r, r_id r) = Some e" and "lk_same k e r" and "st' = st"
  | (new) n where "list_look st (r_session r, r_id r) = None"
      and "lk_normalize k (r\<lparr>r_version := Some (version_or_one r)\<rparr>) (lk_prefix k @ js '':'' @ r_id r) = Inr n"
      and "st' = list_set (r_session r) (records_of (r_session r) st @ [n]) st"
  using assms by (auto simp: list_put_def list_look_def Let_def split: option.splits if_splits)

lemma list_update_cases:
  assumes "list_update_record k sid i f st = Inr (n, st')"
  obtains j e next' key where "j < length (records_of sid st)" and "e = records_of sid st ! j"
    and "list_look st (sid, i) = Some e" and "r_id e = i" and "f e = Inr next'"
    and "lk_normalize k (next_version e next') key = Inr n"
    and "st' = list_set sid ((records_of sid st)[j := n]) st"
proof -
  let ?rs = "records_of sid st" and ?j = "index_of i (records_of sid st)"
  have j: "?j < length ?rs" using assms by (auto simp: list_update_record_def Let_def split: if_splits)
  with assms obtain next' key where "f (?rs ! ?j) = Inr next'"
    "lk_normalize k (next_version (?rs ! ?j) next') key = Inr n" "st' = list_set sid (?rs[?j := n]) st"
    by (auto simp: list_update_record_def Let_def)
  with that [OF j refl] index_of_found [OF j] show thesis by (simp add: list_look_def)
qed

lemma normalized_fields:
  "kind_ok k \<Longrightarrow> lk_normalize k r key = Inr n \<Longrightarrow>
    r_session n = r_session r \<and> r_id n = r_id r \<and> r_version n = r_version r"
  unfolding kind_ok_def normalizer_ok_def by blast

lemma list_put_inv [inv_intros]:
  assumes "list_put k r st = Inr st'" and "list_inv k st"
  shows "list_inv k st'"
  using assms(1)
proof (cases rule: list_put_cases)
  case (new n)
  have "kind_ok k" using assms(2) by (simp add: list_inv_def)
  note n = normalized_fields [OF this new(2)]
  have "r_id r \<notin> r_id ` set (records_of (r_session r) st)"
    using new(1) by (auto simp: list_look_def find_None_set)
  then show ?thesis
    unfolding new(3) using n list_inv_records [OF assms(2)]
    by (intro list_set_inv [OF assms(2)]) (auto simp: version_or_one_def)
qed (use assms in simp)

lemma list_update_changes:
  assumes "list_update_record k sid i f st = Inr (n, st')" and "list_inv k st" and "keeps_identity f"
  obtains j e where "j < length (records_of sid st)" and "e = records_of sid st ! j" and "r_id e = i"
    and "r_id n = i" and "r_session n = sid" and "r_version n = Some (version_or_one e + 1)"
    and "list_look st (sid, i) = Some e" and "st' = list_set sid ((records_of sid st)[j := n]) st"
proof -
  have k: "kind_ok k" using assms(2) by (simp add: list_inv_def)
  from assms(1) show thesis
  proof (cases rule: list_update_cases)
    case (1 j e next' key)
    have "r_session e = sid" using list_inv_records(2) [OF assms(2)] 1(1,2) by simp
    moreover have "r_session next' = r_session e" "r_id next' = r_id e"
      using assms(3) 1(5) by (auto simp: keeps_identity_def)
    ultimately show thesis
      using that [OF 1(1,2,4) _ _ _ 1(3,7)] normalized_fields [OF k 1(6)] 1(4) by (simp add: next_version_def)
  qed
qed

lemma list_update_inv [inv_intros]:
  assumes "list_update_record k sid i f st = Inr (n, st')" and "list_inv k st" and "keeps_identity f"
  shows "list_inv k st'"
  using assms
proof (cases rule: list_update_changes)
  case (1 j e)
  have "map r_id ((records_of sid st)[j := n]) = map r_id (records_of sid st)"
    using 1(1-4) by (intro map_id_update) simp_all
  then show ?thesis
    unfolding 1(8) using 1 list_inv_records [OF assms(2)]
    by (intro list_set_inv [OF assms(2)]) (auto dest!: set_update_subset_insert [THEN subsetD])
qed

inductive list_step :: "'p list_kind \<Rightarrow> 'p list_store \<Rightarrow> 'p list_store \<Rightarrow> bool"
  for k :: "'p list_kind" where
  put: "list_put k r st = Inr st' \<Longrightarrow> list_step k st st'"
| update: "list_update_record k sid i f st = Inr (n, st') \<Longrightarrow> keeps_identity f \<Longrightarrow> list_step k st st'"
| close: "list_step k st (list_close st)"

lemma list_close_inv [inv_intros]: "list_inv k st \<Longrightarrow> list_inv k (list_close st)"
  by (simp add: list_inv_def list_close_def)

lemma list_step_inv: "list_step k st st' \<Longrightarrow> list_inv k st \<Longrightarrow> list_inv k st'"
  by (induction rule: list_step.induct) (blast intro: list_put_inv list_update_inv list_close_inv)+

lemma list_step_look:
  "list_step k st st' \<Longrightarrow> list_inv k st \<Longrightarrow> list_look st x = Some a \<Longrightarrow>
    \<exists>b. list_look st' x = Some b \<and> (version_or_one a = version_or_one b \<and> a = b
      \<or> version_or_one a < version_or_one b)"
proof (induction rule: list_step.induct)
  case (put r st st')
  from put(1) show ?case
    by (cases rule: list_put_cases) (use put(3) in \<open>auto simp: list_look_def records_of_set find_append\<close>)
next
  case (update sid i f st n st')
  from update(1,3,2) show ?case
  proof (cases rule: list_update_changes)
    case (1 j e)
    have "r_id n = r_id (records_of sid st ! j)" using 1(2-4) by simp
    note find = find_update_at [OF 1(1) list_inv_records(1) [OF update(3)] this]
    show ?thesis
      using 1(4,6,7) update(4) unfolding 1(8)
      by (cases x) (auto simp: list_look_def records_of_set find version_or_one_def)
  qed
qed (simp add: list_close_def list_look_def records_of_def)

interpretation list_versions: stamped_cells "list_step k" "list_inv k" list_look "\<lambda>_. False"
  version_or_one "\<lambda>r. r" for k :: "'p list_kind"
  by unfold_locales (auto intro: list_step_inv list_step_look)

section \<open>What the stores promise\<close>

text \<open>
  The version of a session record tells whether it changed: along any run of puts
  and updates it never goes down, and a record found with the same version is the same record, at
  the end of the run and at every moment in between.
\<close>

theorem session_version_pins_record:
  assumes "session_inv cd st" and "(session_step cd)\<^sup>*\<^sup>* st mid" and "(session_step cd)\<^sup>*\<^sup>* mid st'"
    and "map_of (ss_records st) i = Some a" and "map_of (ss_records st') i = Some c"
  shows "version_or_one a \<le> version_or_one c
    \<and> (version_or_one a = version_or_one c \<longrightarrow> c = a \<and> map_of (ss_records mid) i = Some a)"
proof -
  have run: "(session_step cd)\<^sup>*\<^sup>* st st'" using assms(2,3) by (rule rtranclp_trans)
  show ?thesis
    using session_versions.run_look [OF run assms(1,4)] assms(5)
      session_versions.stamp_pins_mark [OF assms(1-3) _ assms(4,5)] by auto
qed

text \<open>
  The same for the turns and tool calls of a session, as long as updaters keep the
  ids of the records they change: nothing put is ever lost, its version never goes down, and equal
  versions mean the same record.
\<close>

theorem list_version_pins_record:
  assumes "list_inv k st" and "(list_step k)\<^sup>*\<^sup>* st mid" and "(list_step k)\<^sup>*\<^sup>* mid st'"
    and "list_look st x = Some a"
  shows "\<exists>c. list_look st' x = Some c \<and> version_or_one a \<le> version_or_one c
    \<and> (version_or_one a = version_or_one c \<longrightarrow> c = a \<and> list_look mid x = Some a)"
proof -
  have run: "(list_step k)\<^sup>*\<^sup>* st st'" using assms(2,3) by (rule rtranclp_trans)
  from list_versions.run_look [OF run assms(1,4)] obtain c where c: "list_look st' x = Some c"
    "version_or_one a \<le> version_or_one c" by auto
  then show ?thesis using list_versions.stamp_pins_mark [OF assms(1-3) _ assms(4) c(1)] 
      list_versions.run_look [OF run assms(1,4)] by auto
qed

text \<open>
  \<open>put\<close> on the turn store is an insert that may be repeated: it returns with the
  turn in the store, at the end of its session's list if it was new (with version one by default),
  and no other turn touched; after it, putting any record under the same id changes nothing when
  the record is the same up to its version, and is refused as a conflict otherwise.
\<close>

theorem turn_put_repeatable:
  assumes "list_inv (turn_kind cd) st" and "turn_put cd r st = Inr st'"
  shows "\<exists>n. list_look st' (r_session r, r_id r) = Some n
    \<and> (list_look st (r_session r, r_id r) = None \<longrightarrow> r_version n = Some (version_or_one r)
        \<and> records_of (r_session r) st' = records_of (r_session r) st @ [n])
    \<and> (\<forall>x. x \<noteq> (r_session r, r_id r) \<longrightarrow> list_look st' x = list_look st x)
    \<and> (\<forall>r'. r_session r' = r_session r \<longrightarrow> r_id r' = r_id r \<longrightarrow> turn_put cd r' st' =
        (if cd_same cd n r' then Inr st' else Inl (RecordConflictError (js ''Turn:'' @ r_id r))))"
proof -
  have opened: "\<not> lst_closed st"
    using assms(2) by (auto simp: turn_put_def list_put_def list_assert_open_def)
  have again: "turn_put cd r' s =
      (if cd_same cd n r' then Inr s else Inl (RecordConflictError (js ''Turn:'' @ r_id r)))"
    if "list_look s (r_session r, r_id r) = Some n" "\<not> lst_closed s"
      "r_session r' = r_session r" "r_id r' = r_id r" for s n r'
    using that by (simp add: turn_put_def list_put_def turn_kind_def list_assert_open_def
        list_look_def Let_def conflict_error_def js_def)
  from assms(2) [unfolded turn_put_def] show ?thesis
  proof (cases rule: list_put_cases)
    case (old e)
    then show ?thesis using again [OF _ opened] by (intro exI [of _ e]) auto
  next
    case (new n)
    have "kind_ok (turn_kind cd)" using assms(1) by (simp add: list_inv_def)
    note n = normalized_fields [OF this new(2)]
    have look: "list_look st' (r_session r, r_id r) = Some n"
      using new(1) n unfolding new(3) by (simp add: list_look_def records_of_set find_append)
    have "\<not> lst_closed st'" using opened by (simp add: new(3) list_set_def)
    moreover have "\<forall>x. x \<noteq> (r_session r, r_id r) \<longrightarrow> list_look st' x = list_look st x"
      using n unfolding new(3) by (auto simp: list_look_def records_of_set find_append split: option.splits)
    ultimately show ?thesis
      using look n again [OF look] by (intro exI [of _ n]) (auto simp: new(3) records_of_set)
  qed
qed

section \<open>A run\<close>

text \<open>A codec with natural numbers as bodies: every record is normal.\<close>

definition plain_codec :: "nat codec" where
  "plain_codec = \<lparr>cd_session = (\<lambda>r key. Inr r), cd_turn = (\<lambda>r key. Inr r),
     cd_tool_call = (\<lambda>r key. Inr r),
     cd_same = (\<lambda>a b. r_session a = r_session b \<and> r_id a = r_id b \<and> r_body a = r_body b)\<rparr>"

definition plain_record :: "nat \<Rightarrow> int \<Rightarrow> nat stored" where
  "plain_record body v = \<lparr>r_session = [1], r_id = [2], r_version = Some v, r_body = body\<rparr>"

lemma plain_codec_ok: "codec_ok plain_codec" "kind_ok (turn_kind plain_codec)"
  by (auto simp: codec_ok_def normalizer_ok_def plain_codec_def kind_ok_def turn_kind_def
      intro!: stored.equality)

definition plain_sessions :: "nat session_store" where
  "plain_sessions = \<lparr>ss_records = [([2], plain_record 7 1)], ss_closed = False\<rparr>"

definition plain_turns :: "nat list_store" where
  "plain_turns = \<lparr>lst_records = [[1] \<mapsto> [plain_record 7 1]], lst_closed = False\<rparr>"

lemma plain_sessions_inv: "session_inv plain_codec plain_sessions"
  using plain_codec_ok by (simp add: session_inv_def plain_sessions_def session_normal_def
      plain_record_def plain_codec_def)

lemma plain_turns_inv: "list_inv (turn_kind plain_codec) plain_turns"
  using plain_codec_ok by (simp add: list_inv_def plain_turns_def plain_record_def)

lemma plain_session_update:
  "session_step plain_codec plain_sessions (plain_sessions\<lparr>ss_records := [([2], plain_record 8 2)]\<rparr>)"
proof (rule session_step.update)
  show "session_update plain_codec [2] (\<lambda>r. Inr (r\<lparr>r_body := 8\<rparr>)) plain_sessions =
    Inr (plain_record 8 2, plain_sessions\<lparr>ss_records := [([2], plain_record 8 2)]\<rparr>)"
    by (simp add: session_update_def session_assert_open_def plain_sessions_def plain_codec_def
        plain_record_def next_version_def version_or_one_def session_set_def)
qed

theorem session_version_pins_record_witness:
  "version_or_one (plain_record 7 1) \<le> version_or_one (plain_record 8 2)"
proof -
  have "(session_step plain_codec)\<^sup>*\<^sup>* plain_sessions (plain_sessions\<lparr>ss_records := [([2], plain_record 8 2)]\<rparr>)"
    using plain_session_update by (rule r_into_rtranclp)
  from session_version_pins_record [OF plain_sessions_inv this rtranclp.rtrancl_refl, of "[2]"]
  show ?thesis by (simp add: plain_sessions_def)
qed

theorem list_version_pins_record_witness:
  "\<exists>c. list_look plain_turns ([1], [2]) = Some c \<and> 1 \<le> version_or_one c"
  using list_version_pins_record [OF plain_turns_inv rtranclp.rtrancl_refl rtranclp.rtrancl_refl,
    of "([1], [2])" "plain_record 7 1"]
  by (simp add: plain_turns_def list_look_def records_of_def plain_record_def version_or_one_def)

theorem turn_put_repeatable_witness:
  "turn_put plain_codec (plain_record 9 1) plain_turns = Inl (RecordConflictError (js ''Turn:'' @ [2]))"
proof -
  have "turn_put plain_codec (plain_record 7 1) plain_turns = Inr plain_turns"
    by (simp add: turn_put_def list_put_def list_assert_open_def turn_kind_def plain_turns_def
        plain_codec_def records_of_def plain_record_def)
  from turn_put_repeatable [OF plain_turns_inv this]
  show ?thesis by (auto simp: plain_turns_def list_look_def records_of_def plain_record_def plain_codec_def)
qed
end
