(* ===== verification/Durable_Store.thy ===== *)
theory Durable_Store
  imports Leases Record_Stores
begin

text \<open>
  The transactional runtime store of \<open>packages/dal/src/in-memory-durable-runtime.ts\<close>, made without
  store overrides. The store runs the operations of one session one after the other, so a
  transaction is one atomic operation here; the clock may move between its two lease checks. The
  operation a caller passes to a transaction is a program over the calls of
  \<open>DurableSessionTransaction\<close>: it sees the reply of each call, errors included, before it
  chooses the next one, and may return or throw at any point.

  \<open>dec\<close> stands for \<open>decodeOutboxEnvelope\<close> of \<open>packages/dal-codec\<close>.
\<close>

section \<open>State\<close>

datatype aggregate = AggregateSession | AggregateTurn | AggregateToolCall

record 'p outbox_event =
  ev_id :: js_string
  ev_aggregate_type :: aggregate
  ev_aggregate_id :: js_string
  ev_session :: js_string
  ev_incarnation :: "int option"
  ev_version :: int
  ev_fence :: int
  ev_envelope :: 'p

record 'p durable =
  d_sessions :: "'p session_store"
  d_turns :: "'p list_store"
  d_tools :: "'p list_store"
  d_leases :: lease_store
  d_outbox :: "'p outbox_event list"

type_synonym 'p envelope_decoder = "aggregate \<Rightarrow> 'p \<Rightarrow> js_string \<Rightarrow> int \<Rightarrow> 'p result"

definition max_outbox_events :: nat where "max_outbox_events = 512"

definition new_durable :: "'p durable" where
  "new_durable = \<lparr>d_sessions = new_session_store, d_turns = new_list_store, d_tools = new_list_store,
                  d_leases = new_lease_store, d_outbox = []\<rparr>"

section \<open>The outbox\<close>

definition has_event :: "js_string \<Rightarrow> 'p outbox_event list \<Rightarrow> bool" where
  "has_event i evs \<longleftrightarrow> list_ex (\<lambda>e. ev_id e = i) evs"

fun commit_outbox :: "'p outbox_event list \<Rightarrow> 'p outbox_event list \<Rightarrow> 'p outbox_event list" where
  "commit_outbox [] outbox = outbox"
| "commit_outbox (e # staged) outbox =
     (if has_event (ev_id e) outbox then commit_outbox staged outbox
      else commit_outbox staged
        ((if max_outbox_events \<le> length outbox then tl outbox else outbox) @ [e]))"

section \<open>Transactions\<close>

datatype 'p tx_op =
    GetSession js_string
  | PutSession "'p stored"
  | UpdateSession js_string "'p stored \<Rightarrow> 'p stored result"
  | GetTurn js_string js_string
  | ListTurns js_string
  | PutTurn "'p stored"
  | UpdateTurn js_string js_string "'p stored \<Rightarrow> 'p stored result"
  | GetToolCall js_string js_string
  | ListToolCalls js_string
  | PutToolCall "'p stored"
  | UpdateToolCall js_string js_string "'p stored \<Rightarrow> 'p stored result"
  | AppendOutbox "'p outbox_event"

datatype 'p tx_reply = Void | Found "'p stored option" | Listed "'p stored list" | Written "'p stored"

datatype ('p, 'r) tx_prog =
    TxReturn 'r
  | TxThrow js_error
  | TxCall "'p tx_op" "'p tx_reply result \<Rightarrow> ('p, 'r) tx_prog"

definition assert_session :: "js_string \<Rightarrow> js_string \<Rightarrow> unit result" where
  "assert_session sid candidate = rcheck (candidate = sid)
     (InvalidArgumentError (js ''Session transaction '' @ sid @ js '' cannot access '' @ candidate))"

fun op_session :: "'p tx_op \<Rightarrow> js_string" where
  "op_session (GetSession i) = i"
| "op_session (PutSession r) = r_id r"
| "op_session (UpdateSession i f) = i"
| "op_session (GetTurn sid i) = sid"
| "op_session (ListTurns sid) = sid"
| "op_session (PutTurn r) = r_session r"
| "op_session (UpdateTurn sid i f) = sid"
| "op_session (GetToolCall sid i) = sid"
| "op_session (ListToolCalls sid) = sid"
| "op_session (PutToolCall r) = r_session r"
| "op_session (UpdateToolCall sid i f) = sid"
| "op_session (AppendOutbox e) = ev_session e"

definition append_outbox ::
    "'p envelope_decoder \<Rightarrow> 'p outbox_event \<Rightarrow> 'p outbox_event list \<Rightarrow> 'p outbox_event list
      \<Rightarrow> 'p outbox_event list result" where
  "append_outbox dec e outbox staged =
     rbind (dec (ev_aggregate_type e) (ev_envelope e) (js ''outbox:'' @ ev_id e) (ev_version e))
       (\<lambda>envelope.
          if \<not> has_event (ev_id e) outbox \<and> \<not> has_event (ev_id e) staged
          then Inr (staged @ [e\<lparr>ev_envelope := envelope\<rparr>]) else Inr staged)"

text \<open>The calls, once the session has been checked. The state is the store and the staged events.\<close>

fun tx_effect ::
    "'p codec \<Rightarrow> 'p envelope_decoder \<Rightarrow> 'p tx_op \<Rightarrow> 'p durable \<times> 'p outbox_event list
      \<Rightarrow> ('p tx_reply \<times> 'p durable \<times> 'p outbox_event list) result" where
  "tx_effect cd dec (GetSession i) (d, ev) =
     rbind (session_get i (d_sessions d)) (\<lambda>r. Inr (Found r, d, ev))"
| "tx_effect cd dec (PutSession r) (d, ev) =
     rbind (session_put cd r (d_sessions d)) (\<lambda>s. Inr (Void, d\<lparr>d_sessions := s\<rparr>, ev))"
| "tx_effect cd dec (UpdateSession i f) (d, ev) =
     rbind (session_update cd i f (d_sessions d)) (\<lambda>(r, s). Inr (Written r, d\<lparr>d_sessions := s\<rparr>, ev))"
| "tx_effect cd dec (GetTurn sid i) (d, ev) =
     rbind (turn_get cd sid i (d_turns d)) (\<lambda>r. Inr (Found r, d, ev))"
| "tx_effect cd dec (ListTurns sid) (d, ev) =
     rbind (turn_list cd sid (d_turns d)) (\<lambda>rs. Inr (Listed rs, d, ev))"
| "tx_effect cd dec (PutTurn r) (d, ev) =
     rbind (turn_put cd r (d_turns d)) (\<lambda>s. Inr (Void, d\<lparr>d_turns := s\<rparr>, ev))"
| "tx_effect cd dec (UpdateTurn sid i f) (d, ev) =
     rbind (turn_update cd sid i f (d_turns d)) (\<lambda>(r, s). Inr (Written r, d\<lparr>d_turns := s\<rparr>, ev))"
| "tx_effect cd dec (GetToolCall sid i) (d, ev) =
     rbind (tool_call_get cd sid i (d_tools d)) (\<lambda>r. Inr (Found r, d, ev))"
| "tx_effect cd dec (ListToolCalls sid) (d, ev) =
     rbind (tool_call_list cd sid (d_tools d)) (\<lambda>rs. Inr (Listed rs, d, ev))"
| "tx_effect cd dec (PutToolCall r) (d, ev) =
     rbind (tool_call_put cd r (d_tools d)) (\<lambda>s. Inr (Void, d\<lparr>d_tools := s\<rparr>, ev))"
| "tx_effect cd dec (UpdateToolCall sid i f) (d, ev) =
     rbind (tool_call_update cd sid i f (d_tools d)) (\<lambda>(r, s). Inr (Written r, d\<lparr>d_tools := s\<rparr>, ev))"
| "tx_effect cd dec (AppendOutbox e) (d, ev) =
     rbind (append_outbox dec e (d_outbox d) ev) (\<lambda>ev'. Inr (Void, d, ev'))"

definition tx_call ::
    "'p codec \<Rightarrow> 'p envelope_decoder \<Rightarrow> js_string \<Rightarrow> 'p tx_op \<Rightarrow> 'p durable \<times> 'p outbox_event list
      \<Rightarrow> 'p tx_reply result \<times> 'p durable \<times> 'p outbox_event list" where
  "tx_call cd dec sid op s =
     (case rbind (assert_session sid (op_session op)) (\<lambda>_. tx_effect cd dec op s) of
        Inl e \<Rightarrow> (Inl e, s)
      | Inr (reply, s') \<Rightarrow> (Inr reply, s'))"

primrec run_operation ::
    "'p codec \<Rightarrow> 'p envelope_decoder \<Rightarrow> js_string \<Rightarrow> ('p, 'r) tx_prog
      \<Rightarrow> 'p durable \<times> 'p outbox_event list \<Rightarrow> 'r result \<times> 'p durable \<times> 'p outbox_event list" where
  "run_operation cd dec sid (TxReturn r) s = (Inr r, s)"
| "run_operation cd dec sid (TxThrow e) s = (Inl e, s)"
| "run_operation cd dec sid (TxCall op k) s =
     run_operation cd dec sid (k (fst (tx_call cd dec sid op s))) (snd (tx_call cd dec sid op s))"

text \<open>The three snapshots a transaction takes, and what it does with them when it fails.\<close>

type_synonym 'p snapshot = "'p stored option \<times> 'p stored list \<times> 'p stored list"

definition take_snapshot :: "'p codec \<Rightarrow> js_string \<Rightarrow> 'p durable \<Rightarrow> 'p snapshot result" where
  "take_snapshot cd sid d =
     rbind (session_get sid (d_sessions d)) (\<lambda>s.
     rbind (turn_list cd sid (d_turns d)) (\<lambda>ts.
     rbind (tool_call_list cd sid (d_tools d)) (\<lambda>cs. Inr (s, ts, cs))))"

fun restore_snapshot :: "js_string \<Rightarrow> 'p snapshot \<Rightarrow> 'p durable \<Rightarrow> 'p durable" where
  "restore_snapshot sid (s, ts, cs) d =
     d\<lparr>d_sessions := session_restore sid s (d_sessions d), d_turns := list_restore sid ts (d_turns d),
       d_tools := list_restore sid cs (d_tools d)\<rparr>"

text \<open>
  The common course of the two transaction functions; \<open>check now st\<close> is the lease check, made
  before the operation and again before the commit.
\<close>

definition run_guarded ::
    "'p codec \<Rightarrow> 'p envelope_decoder \<Rightarrow> (int \<Rightarrow> lease_store \<Rightarrow> unit result) \<Rightarrow> js_string
      \<Rightarrow> ('p, 'r) tx_prog \<Rightarrow> int \<Rightarrow> int \<Rightarrow> 'p durable \<Rightarrow> 'r result \<times> 'p durable" where
  "run_guarded cd dec check sid prog now1 now2 d =
     (case rbind (check now1 (d_leases d)) (\<lambda>_. take_snapshot cd sid d) of
        Inl e \<Rightarrow> (Inl e, d)
      | Inr before \<Rightarrow>
          (case run_operation cd dec sid prog (d, []) of
             (Inl e, d', staged) \<Rightarrow> (Inl e, restore_snapshot sid before d')
           | (Inr r, d', staged) \<Rightarrow>
               (case check now2 (d_leases d') of
                  Inl e \<Rightarrow> (Inl e, restore_snapshot sid before d')
                | Inr _ \<Rightarrow> (Inr r, d'\<lparr>d_outbox := commit_outbox staged (d_outbox d')\<rparr>))))"

definition owns_lease ::
    "js_string \<Rightarrow> js_string \<Rightarrow> int \<Rightarrow> js_string \<Rightarrow> int \<Rightarrow> lease_store \<Rightarrow> unit result" where
  "owns_lease sid holder fence generation now st =
     rbind (get_current sid now st) (\<lambda>active.
       case active of
         None \<Rightarrow> Inl (LeaseLostError sid)
       | Some l \<Rightarrow> if l_holder l \<noteq> holder \<or> l_fence l \<noteq> fence \<or> l_generation l \<noteq> generation
                  then Inl (LeaseLostError sid) else Inr ())"

definition no_live_lease :: "js_string \<Rightarrow> int \<Rightarrow> lease_store \<Rightarrow> unit result" where
  "no_live_lease sid now st =
     rbind (get_current sid now st) (\<lambda>live.
       if live \<noteq> None then Inl (LeaseLostError sid) else Inr ())"

definition run_session_transaction ::
    "'p codec \<Rightarrow> 'p envelope_decoder \<Rightarrow> js_string \<Rightarrow> js_string \<Rightarrow> int \<Rightarrow> js_string
      \<Rightarrow> ('p, 'r) tx_prog \<Rightarrow> int \<Rightarrow> int \<Rightarrow> 'p durable \<Rightarrow> 'r result \<times> 'p durable" where
  "run_session_transaction cd dec sid holder fence generation =
     run_guarded cd dec (owns_lease sid holder fence generation) sid"

definition run_unfenced_session_transaction ::
    "'p codec \<Rightarrow> 'p envelope_decoder \<Rightarrow> js_string \<Rightarrow> ('p, 'r) tx_prog \<Rightarrow> int \<Rightarrow> int
      \<Rightarrow> 'p durable \<Rightarrow> 'r result \<times> 'p durable" where
  "run_unfenced_session_transaction cd dec sid = run_guarded cd dec (no_live_lease sid) sid"

section \<open>Creating a session with its lease\<close>

text \<open>
  Four clock readings: before the acquire, at the acquire, and the two of the error path. A lease
  operation of the error path that throws is ignored (\<open>.catch\<close>).
\<close>

definition staged_initial_event ::
    "'p envelope_decoder \<Rightarrow> js_string \<Rightarrow> (lease \<Rightarrow> 'p outbox_event result) \<Rightarrow> lease
      \<Rightarrow> 'p outbox_event list \<Rightarrow> 'p outbox_event list result" where
  "staged_initial_event dec sid initial l outbox =
     rbind (initial l) (\<lambda>e.
     rbind (assert_session sid (ev_session e)) (\<lambda>_. append_outbox dec e outbox []))"

definition lease_or_none :: "js_string \<Rightarrow> int \<Rightarrow> lease_store \<Rightarrow> lease option" where
  "lease_or_none sid now st = (case get_current sid now st of Inl e \<Rightarrow> None | Inr l \<Rightarrow> l)"

definition try_release ::
    "js_string \<Rightarrow> js_string \<Rightarrow> lease \<Rightarrow> int \<Rightarrow> lease_store \<Rightarrow> lease_store" where
  "try_release sid holder l now st =
     (case release_lease sid holder (l_fence l) (l_generation l) now st of Inl e \<Rightarrow> st | Inr st' \<Rightarrow> st')"

definition create_for_existing ::
    "'p envelope_decoder \<Rightarrow> js_string \<Rightarrow> js_string \<Rightarrow> int \<Rightarrow> (lease \<Rightarrow> 'p outbox_event result) option
      \<Rightarrow> js_string \<Rightarrow> int \<Rightarrow> int \<Rightarrow> int \<Rightarrow> 'p durable \<Rightarrow> lease option result \<times> 'p durable" where
  "create_for_existing dec sid holder ttl initial uuid n0 n1 n3 d =
     (let lease_before = lease_or_none sid n0 (d_leases d) in
      case acquire sid holder ttl n1 uuid (d_leases d) of
        Inl e \<Rightarrow> (Inl e, d)
      | Inr (None, st) \<Rightarrow> (Inr None, d\<lparr>d_leases := st\<rparr>)
      | Inr (Some l, st) \<Rightarrow>
          (case initial of
             None \<Rightarrow> (Inr (Some l), d\<lparr>d_leases := st\<rparr>)
           | Some f \<Rightarrow>
               (case staged_initial_event dec sid f l (d_outbox d) of
                  Inr staged \<Rightarrow> (Inr (Some l),
                    d\<lparr>d_leases := st, d_outbox := commit_outbox staged (d_outbox d)\<rparr>)
                | Inl e \<Rightarrow> (Inl e, d\<lparr>d_leases :=
                    (if (case lease_before of None \<Rightarrow> True
                         | Some b \<Rightarrow> l_fence b \<noteq> l_fence l \<or> l_holder b \<noteq> holder)
                     then try_release sid holder l n3 st else st)\<rparr>))))"

text \<open>The \<open>catch\<close> block for a session that did not exist.\<close>

definition undo_create ::
    "js_string \<Rightarrow> js_string \<Rightarrow> int \<Rightarrow> int \<Rightarrow> 'p durable \<Rightarrow> 'p durable" where
  "undo_create sid holder n2 n3 d =
     d\<lparr>d_leases := (case lease_or_none sid n2 (d_leases d) of
          Some l \<Rightarrow> if l_holder l = holder then try_release sid holder l n3 (d_leases d) else d_leases d
        | None \<Rightarrow> d_leases d),
       d_sessions := session_restore sid None (d_sessions d)\<rparr>"

definition create_new ::
    "'p codec \<Rightarrow> 'p envelope_decoder \<Rightarrow> 'p stored \<Rightarrow> js_string \<Rightarrow> int
      \<Rightarrow> (lease \<Rightarrow> 'p outbox_event result) option \<Rightarrow> js_string \<Rightarrow> int \<Rightarrow> int \<Rightarrow> int \<Rightarrow> 'p durable
      \<Rightarrow> lease option result \<times> 'p durable" where
  "create_new cd dec r holder ttl initial uuid n1 n2 n3 d =
     (let sid = r_id r in
      case session_put cd r (d_sessions d) of
        Inl e \<Rightarrow> (Inl e, undo_create sid holder n2 n3 d)
      | Inr s \<Rightarrow>
          (let d1 = d\<lparr>d_sessions := s\<rparr> in
           case acquire sid holder ttl n1 uuid (d_leases d) of
             Inl e \<Rightarrow> (Inl e, undo_create sid holder n2 n3 d1)
           | Inr (None, st) \<Rightarrow>
               (Inr None, d1\<lparr>d_leases := st, d_sessions := session_restore sid None s\<rparr>)
           | Inr (Some l, st) \<Rightarrow>
               (case initial of
                  None \<Rightarrow> (Inr (Some l), d1\<lparr>d_leases := st\<rparr>)
                | Some f \<Rightarrow>
                    (case staged_initial_event dec sid f l (d_outbox d) of
                       Inr staged \<Rightarrow> (Inr (Some l),
                         d1\<lparr>d_leases := st, d_outbox := commit_outbox staged (d_outbox d)\<rparr>)
                     | Inl e \<Rightarrow> (Inl e, undo_create sid holder n2 n3 (d1\<lparr>d_leases := st\<rparr>))))))"

definition create_session_with_lease ::
    "'p codec \<Rightarrow> 'p envelope_decoder \<Rightarrow> 'p stored \<Rightarrow> js_string \<Rightarrow> int
      \<Rightarrow> (lease \<Rightarrow> 'p outbox_event result) option \<Rightarrow> js_string \<Rightarrow> int \<Rightarrow> int \<Rightarrow> int \<Rightarrow> int
      \<Rightarrow> 'p durable \<Rightarrow> lease option result \<times> 'p durable" where
  "create_session_with_lease cd dec r holder ttl initial uuid n0 n1 n2 n3 d =
     (case session_get (r_id r) (d_sessions d) of
        Inl e \<Rightarrow> (Inl e, d)
      | Inr (Some existing) \<Rightarrow>
          if cd_same cd existing r
          then create_for_existing dec (r_id r) holder ttl initial uuid n0 n1 n3 d
          else (Inl (conflict_error (js ''Session'') (r_id r)), d)
      | Inr None \<Rightarrow> create_new cd dec r holder ttl initial uuid n1 n2 n3 d)"

section \<open>A transaction touches one session\<close>

definition session_touch :: "js_string \<Rightarrow> 'p session_store \<Rightarrow> 'p session_store \<Rightarrow> bool" where
  "session_touch sid s s' \<longleftrightarrow> ss_closed s' = ss_closed s
     \<and> (ss_records s' = ss_records s \<or> (\<exists>v. ss_records s' = AList.update sid v (ss_records s)))"

definition list_touch :: "js_string \<Rightarrow> 'p list_store \<Rightarrow> 'p list_store \<Rightarrow> bool" where
  "list_touch sid s s' \<longleftrightarrow> lst_closed s' = lst_closed s
     \<and> (\<forall>x. x \<noteq> sid \<longrightarrow> lst_records s' x = lst_records s x)"

definition tx_touch :: "js_string \<Rightarrow> 'p durable \<Rightarrow> 'p durable \<Rightarrow> bool" where
  "tx_touch sid d d' \<longleftrightarrow> session_touch sid (d_sessions d) (d_sessions d')
     \<and> list_touch sid (d_turns d) (d_turns d') \<and> list_touch sid (d_tools d) (d_tools d')
     \<and> d_leases d' = d_leases d \<and> d_outbox d' = d_outbox d"

lemma AList_update_update: "AList.update k w (AList.update k v al) = AList.update k w al"
  by (induction al) auto

lemma touch_refl [simp]:
  "session_touch sid s s" "list_touch sid t t" "tx_touch sid d d"
  by (simp_all add: session_touch_def list_touch_def tx_touch_def)

lemma session_touch_trans: "session_touch sid a b \<Longrightarrow> session_touch sid b c \<Longrightarrow> session_touch sid a c"
  by (auto simp: session_touch_def AList_update_update)

lemma list_touch_trans: "list_touch sid a b \<Longrightarrow> list_touch sid b c \<Longrightarrow> list_touch sid a c"
  by (simp add: list_touch_def)

lemma tx_touch_trans: "tx_touch sid a b \<Longrightarrow> tx_touch sid b c \<Longrightarrow> tx_touch sid a c"
  by (auto simp: tx_touch_def intro: session_touch_trans list_touch_trans)

lemma session_set_touch [intro]: "session_touch sid s (session_set sid r s)"
  by (auto simp: session_touch_def session_set_def)

lemma list_set_touch [intro]: "list_touch sid s (list_set sid rs s)"
  by (simp add: list_touch_def list_set_def)

lemma session_put_touch: "session_put cd r s = Inr s' \<Longrightarrow> session_touch (r_id r) s s'"
  by (auto simp: session_put_def Let_def split: if_splits)

lemma session_update_touch: "session_update cd i f s = Inr (r, s') \<Longrightarrow> session_touch i s s'"
  by (auto simp: session_update_def split: option.splits)

lemma list_put_touch: "list_put k r s = Inr s' \<Longrightarrow> list_touch (r_session r) s s'"
  by (auto elim!: list_put_cases)

lemma list_update_touch: "list_update_record k sid i f s = Inr (r, s') \<Longrightarrow> list_touch sid s s'"
  by (erule list_update_cases) auto

lemmas store_touch = session_put_touch session_update_touch list_put_touch list_update_touch

lemma tx_effect_touch:
  "tx_effect cd dec op (d, ev) = Inr (reply, d', ev') \<Longrightarrow> tx_touch (op_session op) d d'"
  by (cases op) (auto simp: tx_touch_def turn_defs tool_call_defs dest: store_touch)

section \<open>Undoing a transaction\<close>

lemma session_restore_exact:
  assumes "session_touch sid s s'" and "map_of (ss_records s) sid = r"
  shows "session_restore sid r s' = s"
proof (cases r)
  case None
  then have "sid \<notin> fst ` set (ss_records s)" using assms(2) by (simp add: map_of_eq_None_iff)
  moreover have "AList.delete sid (AList.update sid v al) = AList.delete sid al" for v and al :: "(js_string \<times> 'a stored) list"
    by (induction al) auto
  ultimately show ?thesis
    using None assms(1) by (auto simp: session_restore_def session_touch_def delete_idem)
next
  case (Some v)
  then show ?thesis
    using assms by (auto simp: session_restore_def session_touch_def session_set_def
        AList_update_update AList_update_same)
qed

lemma list_restore_exact:
  assumes "list_touch sid s s'" and "lst_records s sid \<noteq> Some []"
  shows "list_restore sid (records_of sid s) s' = s"
proof -
  have "lst_records s = (lst_records s')(sid := lst_records s sid)"
    using assms(1) by (auto simp: list_touch_def)
  then have "lst_records (list_restore sid (records_of sid s) s') = lst_records s"
    using assms(2) by (cases "lst_records s sid")
      (auto simp: list_restore_def records_of_def list_set_def)
  moreover have "lst_closed (list_restore sid (records_of sid s) s') = lst_closed s"
    using assms(1) by (simp add: list_restore_def list_set_def list_touch_def)
  ultimately show ?thesis by simp
qed

definition no_empty_lists :: "'p list_store \<Rightarrow> bool" where
  "no_empty_lists s \<longleftrightarrow> (\<forall>sid. lst_records s sid \<noteq> Some [])"

lemma restore_snapshot_exact:
  assumes "take_snapshot cd sid d = Inr before" and "tx_touch sid d d'"
    and "no_empty_lists (d_turns d)" and "no_empty_lists (d_tools d)"
  shows "restore_snapshot sid before d' = d"
proof -
  have before: "before = (map_of (ss_records (d_sessions d)) sid, records_of sid (d_turns d),
      records_of sid (d_tools d))"
    using assms(1) by (auto simp: take_snapshot_def session_get_def turn_list_def tool_call_list_def
        list_by_session_def)
  show ?thesis
    using assms(2-4) unfolding before
    by (simp add: tx_touch_def no_empty_lists_def session_restore_exact list_restore_exact)
qed

section \<open>The outbox\<close>

definition outbox_ok :: "'p outbox_event list \<Rightarrow> bool" where
  "outbox_ok evs \<longleftrightarrow> distinct (map ev_id evs) \<and> length evs \<le> max_outbox_events"

definition staged_ok :: "'p outbox_event list \<Rightarrow> 'p outbox_event list \<Rightarrow> bool" where
  "staged_ok outbox staged \<longleftrightarrow> distinct (map ev_id (outbox @ staged))"

lemma has_event_iff: "has_event i evs \<longleftrightarrow> i \<in> ev_id ` set evs"
  by (auto simp: has_event_def list_ex_iff)

lemma append_outbox_staged:
  "append_outbox dec e outbox staged = Inr staged' \<Longrightarrow> staged_ok outbox staged \<Longrightarrow>
    staged_ok outbox staged' \<and> (\<exists>new. staged' = staged @ new)"
proof -
  assume step: "append_outbox dec e outbox staged = Inr staged'" and ok: "staged_ok outbox staged"
  have grow: "staged_ok outbox (staged @ [x])" if "ev_id x \<notin> set (map ev_id (outbox @ staged))" for x
  proof -
    have "map ev_id (outbox @ (staged @ [x])) = map ev_id (outbox @ staged) @ [ev_id x]" by simp
    then show ?thesis using ok that unfolding staged_ok_def by (simp only: distinct_append) simp
  qed
  show ?thesis
    using step ok grow by (auto simp: append_outbox_def has_event_iff split: if_splits)
qed

text \<open>Committing keeps the newest 512 events.\<close>

lemma commit_outbox_eq:
  assumes "staged_ok outbox staged" and "length outbox \<le> max_outbox_events"
  shows "commit_outbox staged outbox =
    drop (length outbox + length staged - max_outbox_events) (outbox @ staged)"
  using assms
proof (induction staged arbitrary: outbox)
  case (Cons e staged)
  have fresh: "\<not> has_event (ev_id e) outbox" using Cons(2) by (auto simp: staged_ok_def has_event_iff)
  let ?o = "(if max_outbox_events \<le> length outbox then tl outbox else outbox) @ [e]"
  have len: "length ?o \<le> max_outbox_events" using Cons(3) by (auto simp: max_outbox_events_def)
  have "staged_ok ?o staged"
    using Cons(2) by (cases outbox) (auto simp: staged_ok_def)
  from Cons(1) [OF this len] fresh have "commit_outbox (e # staged) outbox =
      drop (length ?o + length staged - max_outbox_events) (?o @ staged)" by simp
  also have "\<dots> = drop (length outbox + length (e # staged) - max_outbox_events) (outbox @ e # staged)"
  proof (cases "max_outbox_events \<le> length outbox")
    case True
    then obtain a rest where "outbox = a # rest" "length outbox = max_outbox_events"
      using Cons(3) by (cases outbox) (auto simp: max_outbox_events_def)
    then show ?thesis by simp
  qed (simp del: drop_append)
  finally show ?case .
qed simp

lemma commit_outbox_ok:
  assumes "outbox_ok outbox" and "staged_ok outbox staged"
  shows "outbox_ok (commit_outbox staged outbox)"
proof -
  have "length outbox \<le> max_outbox_events" using assms(1) by (simp add: outbox_ok_def)
  then show ?thesis
    using assms by (simp add: commit_outbox_eq outbox_ok_def staged_ok_def drop_map [symmetric]
        distinct_drop del: drop_append distinct_append map_append)
qed

section \<open>Running the operation\<close>

lemma tx_call_props:
  assumes "tx_call cd dec sid op (d, ev) = (reply, d', ev')"
  shows "tx_touch sid d d' \<and> (staged_ok (d_outbox d) ev \<longrightarrow> staged_ok (d_outbox d') ev')"
proof (cases "rbind (assert_session sid (op_session op)) (\<lambda>_. tx_effect cd dec op (d, ev))")
  case (Inl e)
  then show ?thesis using assms by (simp add: tx_call_def)
next
  case (Inr r)
  then have op: "op_session op = sid" and eff: "tx_effect cd dec op (d, ev) = Inr (fst r, d', ev')"
    using assms by (auto simp: tx_call_def assert_session_def split: prod.splits)
  have touch: "tx_touch sid d d'" using tx_effect_touch [OF eff] op by simp
  have "staged_ok (d_outbox d) ev \<longrightarrow> staged_ok (d_outbox d') ev'"
    using eff by (cases op) (auto dest: append_outbox_staged)
  with touch show ?thesis by simp
qed

lemma run_operation_props:
  "run_operation cd dec sid prog (d, ev) = (res, d', ev') \<Longrightarrow>
    tx_touch sid d d' \<and> (staged_ok (d_outbox d) ev \<longrightarrow> staged_ok (d_outbox d') ev')"
proof (induction prog arbitrary: d ev)
  case (TxCall op k)
  obtain reply d1 ev1 where c: "tx_call cd dec sid op (d, ev) = (reply, d1, ev1)"
    by (cases "tx_call cd dec sid op (d, ev)") auto
  have "run_operation cd dec sid (k reply) (d1, ev1) = (res, d', ev')"
    using TxCall(2) c by simp
  from TxCall(1) [OF _ this] tx_call_props [OF c] show ?case
    by (auto intro: tx_touch_trans)
qed auto
section \<open>Invariant\<close>

lemma no_empty_set [intro]: "no_empty_lists s \<Longrightarrow> rs \<noteq> [] \<Longrightarrow> no_empty_lists (list_set sid rs s)"
  by (simp add: no_empty_lists_def list_set_def)

lemma list_ops_no_empty:
  "list_put k r s = Inr s' \<Longrightarrow> no_empty_lists s \<Longrightarrow> no_empty_lists s'"
  "list_update_record k sid i f s = Inr (n, s') \<Longrightarrow> no_empty_lists s \<Longrightarrow> no_empty_lists s'"
  by (auto elim!: list_put_cases list_update_cases intro!: no_empty_set)

definition stores_ok :: "'p durable \<Rightarrow> bool" where
  "stores_ok d \<longleftrightarrow> no_empty_lists (d_turns d) \<and> no_empty_lists (d_tools d)"

lemma tx_call_stores:
  "stores_ok (fst s) \<Longrightarrow> stores_ok (fst (snd (tx_call cd dec sid op s)))"
  by (cases s; cases op)
    (auto simp: tx_call_def assert_session_def stores_ok_def rcheck_def turn_defs tool_call_defs
      rbind_def dest: list_ops_no_empty split: if_splits sum.splits prod.splits)

lemma run_operation_stores:
  "stores_ok (fst s) \<Longrightarrow> stores_ok (fst (snd (run_operation cd dec sid prog s)))"
  by (induction prog arbitrary: s) (auto simp: tx_call_stores)

definition durable_inv :: "'p durable \<Rightarrow> bool" where
  "durable_inv d \<longleftrightarrow> stores_ok d \<and> outbox_ok (d_outbox d) \<and> lease_inv (d_leases d)"

section \<open>The two outcomes of a transaction\<close>

lemma run_guarded_fails:
  assumes "run_guarded cd dec check sid prog now1 now2 d = (Inl e, d')" and "stores_ok d"
  shows "d' = d"
proof (cases "rbind (check now1 (d_leases d)) (\<lambda>_. take_snapshot cd sid d)")
  case (Inr before)
  obtain res d1 ev where run: "run_operation cd dec sid prog (d, []) = (res, d1, ev)"
    by (cases "run_operation cd dec sid prog (d, [])") auto
  have "take_snapshot cd sid d = Inr before" using Inr by auto
  from restore_snapshot_exact [OF this] run_operation_props [OF run] assms(2)
  have "restore_snapshot sid before d1 = d" by (simp add: stores_ok_def)
  then show ?thesis
    using assms(1) Inr run by (auto simp: run_guarded_def split: sum.splits)
qed (use assms in \<open>simp add: run_guarded_def\<close>)

lemma run_guarded_commits:
  assumes "run_guarded cd dec check sid prog now1 now2 d = (Inr r, d')"
  obtains d1 staged where "tx_touch sid d d1" and "staged_ok (d_outbox d) [] \<longrightarrow> staged_ok (d_outbox d) staged"
    and "stores_ok d \<longrightarrow> stores_ok d1" and "d' = d1\<lparr>d_outbox := commit_outbox staged (d_outbox d)\<rparr>"
    and "check now1 (d_leases d) = Inr ()" and "check now2 (d_leases d) = Inr ()"
proof -
  obtain before where b: "rbind (check now1 (d_leases d)) (\<lambda>_. take_snapshot cd sid d) = Inr before"
    using assms by (cases "rbind (check now1 (d_leases d)) (\<lambda>_. take_snapshot cd sid d)")
      (auto simp: run_guarded_def)
  obtain res d1 ev where run: "run_operation cd dec sid prog (d, []) = (res, d1, ev)"
    by (cases "run_operation cd dec sid prog (d, [])") auto
  note props = run_operation_props [OF run] run_operation_stores [of "(d, [])" cd dec sid prog]
  have same: "d_leases d1 = d_leases d" "d_outbox d1 = d_outbox d"
    using props(1) by (simp_all add: tx_touch_def)
  show thesis
    by (rule that [of d1 ev])
      (use assms b run props same in \<open>auto simp: run_guarded_def split: sum.splits\<close>)
qed

lemma owns_lease_Inr:
  "owns_lease sid holder fence generation now st = Inr u \<longleftrightarrow>
    (\<exists>l. get_current sid now st = Inr (Some l) \<and> l_holder l = holder \<and> l_fence l = fence
      \<and> l_generation l = generation)"
  by (auto simp: owns_lease_def split: option.splits if_splits)

lemma get_current_Some:
  "get_current sid now st = Inr (Some l) \<longleftrightarrow>
    \<not> ls_closed st \<and> ls_leases st sid = Some l \<and> now < l_expires_at l \<and> 0 \<le> now \<and> now \<le> max_safe_integer"
  by (auto simp: get_current_def assert_open_def read_now_ms_def assert_lease_timestamp_ms_def live_at_def
      is_safe_integer_def max_safe_integer_def split: option.splits if_splits)

section \<open>Every operation keeps the store well formed\<close>

lemma try_release_step:
  "lease_step\<^sup>*\<^sup>* st (try_release sid holder l now st)"
  by (cases "release_lease sid holder (l_fence l) (l_generation l) now st")
    (auto simp: try_release_def intro: lease_step.release)

lemma acquire_steps: "acquire sid holder ttl now uuid st = Inr (r, st') \<Longrightarrow> lease_step\<^sup>*\<^sup>* st st'"
  by (auto intro: lease_step.acquire)

lemma lease_steps_inv: "lease_step\<^sup>*\<^sup>* st st' \<Longrightarrow> lease_inv st \<Longrightarrow> lease_inv st'"
  by (induction rule: rtranclp_induct) (auto intro: lease_step_inv)

lemma undo_create_steps: "lease_step\<^sup>*\<^sup>* (d_leases d) (d_leases (undo_create sid holder n2 n3 d))"
  by (auto simp: undo_create_def try_release_step split: option.splits)

lemma undo_create_fields [simp]:
  "d_turns (undo_create sid holder n2 n3 d) = d_turns d"
  "d_tools (undo_create sid holder n2 n3 d) = d_tools d"
  "d_outbox (undo_create sid holder n2 n3 d) = d_outbox d"
  "d_sessions (undo_create sid holder n2 n3 d) = session_restore sid None (d_sessions d)"
  by (simp_all add: undo_create_def)

lemma staged_ok_Nil [simp]: "staged_ok outbox [] \<longleftrightarrow> distinct (map ev_id outbox)"
  by (simp add: staged_ok_def)

lemma staged_initial_event_ok:
  "staged_initial_event dec sid f l outbox = Inr staged \<Longrightarrow> outbox_ok outbox \<Longrightarrow>
    outbox_ok (commit_outbox staged outbox)"
  by (rule commit_outbox_ok)
    (auto simp: staged_initial_event_def outbox_ok_def dest: append_outbox_staged)

definition grows_from :: "'p durable \<Rightarrow> 'p durable \<Rightarrow> bool" where
  "grows_from d d' \<longleftrightarrow> d_turns d' = d_turns d \<and> d_tools d' = d_tools d
     \<and> lease_step\<^sup>*\<^sup>* (d_leases d) (d_leases d') \<and> (outbox_ok (d_outbox d) \<longrightarrow> outbox_ok (d_outbox d'))"

lemma grows_from_refl [simp]: "grows_from d d"
  by (simp add: grows_from_def)

lemma create_for_existing_grows:
  "create_for_existing dec sid holder ttl initial uuid n0 n1 n3 d = (res, d') \<Longrightarrow> grows_from d d'"
  by (auto simp: create_for_existing_def Let_def grows_from_def
      intro: acquire_steps rtranclp_trans [OF acquire_steps try_release_step] staged_initial_event_ok
      split: sum.splits option.splits prod.splits if_splits)

lemma create_new_grows:
  "create_new cd dec r holder ttl initial uuid n1 n2 n3 d = (res, d') \<Longrightarrow> grows_from d d'"
  using undo_create_steps [of d "r_id r" holder n2 n3]
    undo_create_steps [of "d\<lparr>d_sessions := s\<rparr>" "r_id r" holder n2 n3 for s]
    rtranclp_trans [OF acquire_steps undo_create_steps [of "d\<lparr>d_sessions := s, d_leases := l\<rparr>" "r_id r" holder n2 n3 for s l]]
  by (auto simp: create_new_def Let_def grows_from_def
      intro: acquire_steps staged_initial_event_ok split: sum.splits option.splits prod.splits)

lemma create_grows:
  "create_session_with_lease cd dec r holder ttl initial uuid n0 n1 n2 n3 d = (res, d') \<Longrightarrow> grows_from d d'"
  by (auto simp: create_session_with_lease_def
      dest: create_for_existing_grows create_new_grows split: sum.splits option.splits if_splits)

lemma grows_from_inv: "grows_from d d' \<Longrightarrow> durable_inv d \<Longrightarrow> durable_inv d'"
  by (auto simp: grows_from_def durable_inv_def stores_ok_def dest: lease_steps_inv)

lemma run_guarded_inv:
  assumes "run_guarded cd dec check sid prog now1 now2 d = (res, d')" and "durable_inv d"
  shows "durable_inv d' \<and> d_leases d' = d_leases d"
proof (cases res)
  case (Inl e)
  then show ?thesis using run_guarded_fails [of cd dec check sid prog now1 now2 d e d'] assms
    by (simp add: durable_inv_def)
next
  case (Inr r)
  with assms(1) have "run_guarded cd dec check sid prog now1 now2 d = (Inr r, d')" by simp
  then show ?thesis
    by (rule run_guarded_commits)
      (use assms(2) in \<open>auto simp: durable_inv_def tx_touch_def stores_ok_def outbox_ok_def [of "d_outbox d"]
        intro!: commit_outbox_ok\<close>)
qed

text \<open>
  Everything clients can do to the store: transactions, creation, the lease operations it
  exposes, and direct operations on its three record stores.
\<close>

inductive durable_step :: "'p codec \<Rightarrow> 'p envelope_decoder \<Rightarrow> 'p durable \<Rightarrow> 'p durable \<Rightarrow> bool"
  for cd :: "'p codec" and dec :: "'p envelope_decoder" where
  fenced: "run_session_transaction cd dec sid h f g (prog :: ('p, nat) tx_prog) n1 n2 d = (res, d') \<Longrightarrow>
    durable_step cd dec d d'"
| unfenced: "run_unfenced_session_transaction cd dec sid (prog :: ('p, nat) tx_prog) n1 n2 d = (res, d') \<Longrightarrow>
    durable_step cd dec d d'"
| create: "create_session_with_lease cd dec r h ttl initial uuid n0 n1 n2 n3 d = (lres, d') \<Longrightarrow>
    durable_step cd dec d d'"
| leases: "lease_step (d_leases d) ls \<Longrightarrow> durable_step cd dec d (d\<lparr>d_leases := ls\<rparr>)"
| sessions: "session_step cd (d_sessions d) s \<Longrightarrow> durable_step cd dec d (d\<lparr>d_sessions := s\<rparr>)"
| turns: "list_step (turn_kind cd) (d_turns d) t \<Longrightarrow> durable_step cd dec d (d\<lparr>d_turns := t\<rparr>)"
| tool_calls: "list_step (tool_call_kind cd) (d_tools d) t \<Longrightarrow> durable_step cd dec d (d\<lparr>d_tools := t\<rparr>)"

lemma list_step_no_empty: "list_step k s s' \<Longrightarrow> no_empty_lists s \<Longrightarrow> no_empty_lists s'"
  by (induction rule: list_step.induct)
    (auto dest: list_ops_no_empty simp: list_close_def no_empty_lists_def)

lemma durable_step_props:
  "durable_step cd dec d d' \<Longrightarrow> durable_inv d \<Longrightarrow> durable_inv d' \<and> lease_step\<^sup>*\<^sup>* (d_leases d) (d_leases d')"
proof (induction rule: durable_step.induct)
  case (fenced sid h f g prog n1 n2 d res d')
  then show ?case using run_guarded_inv [of cd dec _ sid prog n1 n2 d res d']
    by (simp add: run_session_transaction_def)
next
  case (unfenced sid prog n1 n2 d res d')
  then show ?case using run_guarded_inv [of cd dec _ sid prog n1 n2 d res d']
    by (simp add: run_unfenced_session_transaction_def)
next
  case (create r h ttl initial uuid n0 n1 n2 n3 d lres d')
  then show ?case using create_grows [OF create(1)] grows_from_inv
    by (auto simp: grows_from_def)
next
  case (leases d ls)
  then show ?case by (auto simp: durable_inv_def stores_ok_def lease_step_inv)
qed (auto simp: durable_inv_def stores_ok_def dest: list_step_no_empty)

lemma new_durable_inv: "durable_inv new_durable"
  by (simp add: durable_inv_def new_durable_def stores_ok_def no_empty_lists_def new_list_store_def
      outbox_ok_def new_lease_store_inv)

text \<open>The store's leases are stamped cells too: what a step does to them is a run of lease steps.\<close>

interpretation durable_grants: stamped_cells "durable_step cd dec" durable_inv
  "\<lambda>d. ls_leases (d_leases d)" "\<lambda>d. ls_closed (d_leases d)" l_fence
  "\<lambda>l. (l_session l, l_holder l, l_generation l, l_acquired_at l)"
  for cd :: "'p codec" and dec :: "'p envelope_decoder"
proof unfold_locales
  fix d d' :: "'p durable"
  assume inv: "durable_inv d" and step: "durable_step cd dec d d'"
  then show "durable_inv d'" using durable_step_props by blast
  have run: "lease_step\<^sup>*\<^sup>* (d_leases d) (d_leases d')" using durable_step_props step inv by blast
  show "\<exists>b. ls_leases (d_leases d') k = Some b \<and> (l_fence a = l_fence b \<and>
      (l_session a, l_holder a, l_generation a, l_acquired_at a)
        = (l_session b, l_holder b, l_generation b, l_acquired_at b) \<or> l_fence a < l_fence b)"
    if "ls_leases (d_leases d) k = Some a" "\<not> ls_closed (d_leases d')" for k a
    using lease_grants.run_look [OF run TrueI that] .
  show "ls_closed (d_leases d')" if "ls_closed (d_leases d)"
    using lease_grants.run_gone [OF run TrueI that] .
qed
section \<open>What the durable store promises\<close>

text \<open>
  Property C7: a transaction that fails, for whatever reason and at whatever point of its
  operation (a throw, a rejected write, a lease lost before or during it), leaves the whole store
  exactly as it was, the staged outbox events included. This holds with and without a lease.
\<close>

theorem failed_transaction_leaves_no_trace:
  assumes "durable_inv d"
    and "run_session_transaction cd dec sid holder fence generation prog now1 now2 d = (Inl e, d')
      \<or> run_unfenced_session_transaction cd dec sid prog now1 now2 d = (Inl e, d')"
  shows "d' = d"
  using assms
  by (auto simp: durable_inv_def run_session_transaction_def run_unfenced_session_transaction_def
      dest: run_guarded_fails)

text \<open>
  A transaction commits only if its caller's lease was the live one both when it
  began and when it committed; it changes the records of its own session only, leaves the leases
  alone, and adds its staged events, each id once, behind the outbox, of which the newest 512 stay.
\<close>

theorem committed_transaction_was_owner:
  assumes "durable_inv d"
    and "run_session_transaction cd dec sid holder fence generation prog now1 now2 d = (Inr r, d')"
  shows "(\<exists>l. ls_leases (d_leases d) sid = Some l \<and> l_holder l = holder \<and> l_fence l = fence
      \<and> l_generation l = generation \<and> now1 < l_expires_at l \<and> now2 < l_expires_at l)
    \<and> d_leases d' = d_leases d
    \<and> (\<forall>x. x \<noteq> sid \<longrightarrow> map_of (ss_records (d_sessions d')) x = map_of (ss_records (d_sessions d)) x
        \<and> lst_records (d_turns d') x = lst_records (d_turns d) x
        \<and> lst_records (d_tools d') x = lst_records (d_tools d) x)
    \<and> (\<exists>staged. distinct (map ev_id (d_outbox d @ staged)) \<and> d_outbox d' =
        drop (length (d_outbox d) + length staged - max_outbox_events) (d_outbox d @ staged))"
  using assms(2) [unfolded run_session_transaction_def]
proof (rule run_guarded_commits)
  fix d1 staged
  assume touch: "tx_touch sid d d1"
    and staged: "staged_ok (d_outbox d) [] \<longrightarrow> staged_ok (d_outbox d) staged"
    and d': "d' = d1\<lparr>d_outbox := commit_outbox staged (d_outbox d)\<rparr>"
    and checks: "owns_lease sid holder fence generation now1 (d_leases d) = Inr ()"
      "owns_lease sid holder fence generation now2 (d_leases d) = Inr ()"
  have out: "distinct (map ev_id (d_outbox d))" "length (d_outbox d) \<le> max_outbox_events"
    using assms(1) by (simp_all add: durable_inv_def outbox_ok_def)
  then have ok: "staged_ok (d_outbox d) staged" using staged by simp
  have "map_of (ss_records (d_sessions d1)) x = map_of (ss_records (d_sessions d)) x" if "x \<noteq> sid" for x
    using touch that by (auto simp: tx_touch_def session_touch_def update_conv')
  moreover have "\<exists>l. ls_leases (d_leases d) sid = Some l \<and> l_holder l = holder \<and> l_fence l = fence
      \<and> l_generation l = generation \<and> now1 < l_expires_at l \<and> now2 < l_expires_at l"
    using checks by (auto simp: owns_lease_Inr get_current_Some)
  ultimately show ?thesis
    using touch commit_outbox_eq [OF ok out(2)] ok [unfolded staged_ok_def]
    by (auto simp: d' tx_touch_def list_touch_def)
qed

text \<open>
  Property C8: once a session's lease was taken over, the old owner is fenced out of the store: from
  then on, after any further use of the store by anyone, every transaction made with the old fence
  fails and changes nothing.
\<close>

theorem old_owner_never_writes_again:
  assumes "durable_inv d" and "ls_leases (d_leases d) sid = Some old"
    and "acquire sid holder ttl now uuid (d_leases d) = Inr (Some new, ls)" and "l_fence new \<noteq> l_fence old"
    and "(durable_step cd dec)\<^sup>*\<^sup>* (d\<lparr>d_leases := ls\<rparr>) d1"
    and "run_session_transaction cd dec sid h (l_fence old) g prog now1 now2 d1 = (res, d2)"
  shows "d2 = d1 \<and> \<not> is_ok res"
proof -
  note new = takeover_fence [OF assms(3,2,4)]
  have inv: "durable_inv (d\<lparr>d_leases := ls\<rparr>)"
    using assms(1) acquire_inv [OF assms(3)] by (simp add: durable_inv_def stores_ok_def)
  have "owns_lease sid h (l_fence old) g now1 (d_leases d1) \<noteq> Inr ()"
  proof
    assume "owns_lease sid h (l_fence old) g now1 (d_leases d1) = Inr ()"
    then obtain l where "\<not> ls_closed (d_leases d1)" "ls_leases (d_leases d1) sid = Some l"
      "l_fence l = l_fence old"
      by (auto simp: owns_lease_Inr get_current_Some)
    then show False
      using durable_grants.superseded_forever [OF assms(5) inv, of sid new "l_fence old" l] new by simp
  qed
  then obtain e where "owns_lease sid h (l_fence old) g now1 (d_leases d1) = Inl e"
    by (cases "owns_lease sid h (l_fence old) g now1 (d_leases d1)") auto
  then show ?thesis using assms(6) by (auto simp: run_session_transaction_def run_guarded_def)
qed

text \<open>
  In every store clients can reach, the outbox holds at most 512 events, no id twice,
  and the lease index is consistent; no operation, successful or not, breaks this.
\<close>

theorem durable_store_well_formed:
  assumes "(durable_step cd dec)\<^sup>*\<^sup>* new_durable d"
  shows "length (d_outbox d) \<le> 512 \<and> distinct (map ev_id (d_outbox d))
    \<and> set (ls_ids (d_leases d)) = dom (ls_leases (d_leases d))
    \<and> (\<forall>sid. lst_records (d_turns d) sid \<noteq> Some [] \<and> lst_records (d_tools d) sid \<noteq> Some [])"
  using durable_grants.run_inv [OF assms new_durable_inv]
  by (simp add: durable_inv_def outbox_ok_def max_outbox_events_def lease_inv_def ids_inv_def
      stores_ok_def no_empty_lists_def)

section \<open>Creation\<close>

lemma try_release_live:
  assumes "ls_leases (try_release sid holder l now st) sid = Some c" and "now < l_expires_at c"
    and "ls_leases st sid = Some l" and "l_holder l = holder" and "lease_inv st" and "\<not> ls_closed st"
    and "0 \<le> now" and "now \<le> max_safe_integer"
  shows False
proof -
  have "lease_ok sid l" using assms(3,5) by (simp add: lease_inv_ok)
  then have "release_lease sid holder (l_fence l) (l_generation l) now st =
      Inr (st\<lparr>ls_leases := (ls_leases st)(sid \<mapsto> l\<lparr>l_expires_at := now\<rparr>)\<rparr>)"
    using assms(3-8) by (simp add: release_lease_def assert_open_def assert_lease_fence_def lease_ok_def
        read_now_ms_def assert_lease_timestamp_ms_def is_safe_integer_def max_safe_integer_def)
  then have "c = l\<lparr>l_expires_at := now\<rparr>" using assms(1) by (simp add: try_release_def)
  then show False using assms(2) by simp
qed

lemma acquire_Some:
  assumes "acquire sid holder ttl now uuid st = Inr (Some l, st')" and "lease_inv st"
  shows "ls_leases st' sid = Some l \<and> l_holder l = holder \<and> \<not> ls_closed st' \<and> lease_inv st'
    \<and> now < l_expires_at l"
  using assms(1)
proof (cases rule: acquire_cases)
  case (live c)
  then show ?thesis using assms(2) by (auto split: if_splits)
next
  case granted
  from granted(1) show ?thesis
    by (cases rule: grant_lease_cases) (use granted(2) assms acquire_inv in \<open>auto simp: op_simps\<close>)
qed

definition clock_ok :: "int \<Rightarrow> int \<Rightarrow> int \<Rightarrow> int \<Rightarrow> bool" where
  "clock_ok n0 n1 n2 n3 \<longleftrightarrow> 0 \<le> n0 \<and> n0 \<le> n1 \<and> n1 \<le> n2 \<and> n2 \<le> n3 \<and> n3 \<le> max_safe_integer"

text \<open>After the error path no lease of the holder is live.\<close>

lemma undo_create_live:
  assumes "lease_inv (d_leases d)" and "clock_ok n0 n1 n2 n3"
    and "ls_leases (d_leases (undo_create sid holder n2 n3 d)) sid = Some c" and "n3 < l_expires_at c"
  shows "l_holder c \<noteq> holder"
proof
  assume holder: "l_holder c = holder"
  have n: "0 \<le> n2" "n2 \<le> max_safe_integer" "0 \<le> n3" "n3 \<le> max_safe_integer" "n2 \<le> n3"
    using assms(2) by (auto simp: clock_ok_def)
  show False
  proof (cases "lease_or_none sid n2 (d_leases d)")
    case None
    then have "ls_leases (d_leases d) sid = Some c" using assms(3) by (simp add: undo_create_def)
    moreover have "\<not> ls_closed (d_leases d)"
      using calculation assms(1) by (auto simp: lease_inv_def)
    ultimately have "get_current sid n2 (d_leases d) = Inr (Some c)"
      using n assms(4) by (auto simp: get_current_Some)
    then show False using None by (simp add: lease_or_none_def)
  next
    case (Some l)
    then have l: "get_current sid n2 (d_leases d) = Inr (Some l)"
      by (auto simp: lease_or_none_def split: sum.splits)
    then show False
      using assms(3,4) Some n holder try_release_live [OF _ assms(4) _ _ assms(1)]
      by (auto simp: undo_create_def get_current_Some split: if_splits)
  qed
qed

lemma session_put_then_delete:
  assumes "session_put cd r s = Inr s'" and "map_of (ss_records s) (r_id r) = None"
  shows "session_restore (r_id r) None s' = s"
  using session_restore_exact [OF session_put_touch [OF assms(1)] assms(2)] .

lemma session_restore_absent:
  "map_of (ss_records s) i = None \<Longrightarrow> session_restore i None s = s"
  using session_restore_exact [of i s s] by simp

lemma create_new_fails:
  assumes "create_new cd dec r holder ttl initial uuid n1 n2 n3 d = (Inl e, d')"
    and "map_of (ss_records (d_sessions d)) (r_id r) = None" and "lease_inv (d_leases d)"
  obtains d1 where "d' = undo_create (r_id r) holder n2 n3 d1" and "lease_inv (d_leases d1)"
    and "d_sessions d' = d_sessions d" and "d_outbox d1 = d_outbox d"
proof -
  note undone = session_put_then_delete [OF _ assms(2)] session_restore_absent [OF assms(2)]
  have "\<exists>d1. d' = undo_create (r_id r) holder n2 n3 d1 \<and> lease_inv (d_leases d1)
    \<and> session_restore (r_id r) None (d_sessions d1) = d_sessions d \<and> d_outbox d1 = d_outbox d"
    using assms(1,3) undone acquire_inv [of "r_id r" holder ttl n1 uuid "d_leases d"]
    by (fastforce simp: create_new_def Let_def split: sum.splits option.splits prod.splits)
  then show thesis using that by auto
qed

lemma create_for_existing_fails:
  assumes "create_for_existing dec sid holder ttl initial uuid n0 n1 n3 d = (Inl e, d')"
    and "lease_inv (d_leases d)" and "clock_ok n0 n1 n2 n3"
  shows "d_sessions d' = d_sessions d \<and> d_outbox d' = d_outbox d
    \<and> (\<forall>c. ls_leases (d_leases d') sid = Some c \<longrightarrow> n3 < l_expires_at c \<longrightarrow> l_holder c = holder \<longrightarrow>
        ls_leases (d_leases d) sid = Some c)"
proof (cases "acquire sid holder ttl n1 uuid (d_leases d)")
  case (Inl e)
  then show ?thesis using assms(1) by (simp add: create_for_existing_def Let_def)
next
  case (Inr p)
  then obtain l st f e' where acq: "acquire sid holder ttl n1 uuid (d_leases d) = Inr (Some l, st)"
    and d': "d' = d\<lparr>d_leases := (if (case lease_or_none sid n0 (d_leases d) of None \<Rightarrow> True
                         | Some b \<Rightarrow> l_fence b \<noteq> l_fence l \<or> l_holder b \<noteq> holder)
                     then try_release sid holder l n3 st else st)\<rparr>"
    using assms(1) by (auto simp: create_for_existing_def Let_def split: prod.splits option.splits sum.splits)
  note a = acquire_Some [OF acq assms(2)]
  have n3: "0 \<le> n3" "n3 \<le> max_safe_integer" using assms(3) by (auto simp: clock_ok_def)
  have "ls_leases (d_leases d) sid = Some c"
    if c: "ls_leases (d_leases d') sid = Some c" "n3 < l_expires_at c" for c
  proof (cases "\<exists>b. lease_or_none sid n0 (d_leases d) = Some b \<and> l_fence b = l_fence l \<and> l_holder b = holder")
    case True
    then obtain b where b: "lease_or_none sid n0 (d_leases d) = Some b" "l_fence b = l_fence l" "l_holder b = holder"
      by blast
    then have old: "ls_leases (d_leases d) sid = Some b"
      by (auto simp: lease_or_none_def get_current_Some split: sum.splits)
    have "l = b" using acq
    proof (cases rule: acquire_cases)
      case (live c')
      then show ?thesis using old by (auto split: if_splits)
    next
      case granted
      from granted(1) show ?thesis
        by (cases rule: grant_lease_cases) (use b old in \<open>auto simp: fence_of_def\<close>)
    qed
    moreover have "d_leases d' = st" using b by (simp add: d')
    ultimately show ?thesis using c(1) a old by simp
  next
    case False
    then have "d_leases d' = try_release sid holder l n3 st" by (auto simp: d' split: option.splits)
    then show ?thesis using try_release_live [of sid holder l n3 st c] a c n3 by auto
  qed
  then show ?thesis by (simp add: d')
qed

text \<open>
  Property C9: when creating a session with its lease fails, for whatever reason, with a clock that
  does not run backwards, the records and the outbox are as they were, and no lease the holder did
  not already have is left live: a failed start cannot keep a session locked.
\<close>

theorem failed_creation_leaves_no_lease:
  assumes "durable_inv d" and "clock_ok n0 n1 n2 n3"
    and "create_session_with_lease cd dec r holder ttl initial uuid n0 n1 n2 n3 d = (Inl e, d')"
  shows "d_sessions d' = d_sessions d \<and> d_turns d' = d_turns d \<and> d_tools d' = d_tools d
    \<and> d_outbox d' = d_outbox d
    \<and> (\<forall>c. ls_leases (d_leases d') (r_id r) = Some c \<longrightarrow> n3 < l_expires_at c \<longrightarrow> l_holder c = holder \<longrightarrow>
        ls_leases (d_leases d) (r_id r) = Some c)"
proof -
  have inv: "lease_inv (d_leases d)" using assms(1) by (simp add: durable_inv_def)
  have others: "d_turns d' = d_turns d \<and> d_tools d' = d_tools d"
    using create_grows [OF assms(3)] by (simp add: grows_from_def)
  consider (same) "d' = d"
    | (old) "create_for_existing dec (r_id r) holder ttl initial uuid n0 n1 n3 d = (Inl e, d')"
    | (new) "create_new cd dec r holder ttl initial uuid n1 n2 n3 d = (Inl e, d')"
        "map_of (ss_records (d_sessions d)) (r_id r) = None"
    using assms(3) by (auto simp: create_session_with_lease_def session_get_def
        split: sum.splits option.splits if_splits)
  then show ?thesis
  proof cases
    case same
    then show ?thesis by simp
  next
    case old
    then show ?thesis using create_for_existing_fails [OF old inv assms(2)] others by simp
  next
    case new
    from new(1,2) inv show ?thesis
    proof (rule create_new_fails)
      fix d1
      assume "d' = undo_create (r_id r) holder n2 n3 d1" "lease_inv (d_leases d1)"
        "d_sessions d' = d_sessions d" "d_outbox d1 = d_outbox d"
      then show ?thesis using undo_create_live [OF _ assms(2)] others by auto
    qed
  qed
qed

text \<open>
  When creation returns a lease, the session is stored and the returned lease is the
  session's live lease, held by the caller; when it returns none, another holder has the session
  and the store is as it was.
\<close>

theorem creation_succeeds_with_live_lease:
  assumes "durable_inv d"
    and "create_session_with_lease cd dec r holder ttl initial uuid n0 n1 n2 n3 d = (Inr res, d')"
  shows "case res of
      Some l \<Rightarrow> map_of (ss_records (d_sessions d')) (r_id r) \<noteq> None
        \<and> ls_leases (d_leases d') (r_id r) = Some l \<and> l_holder l = holder \<and> n1 < l_expires_at l
    | None \<Rightarrow> d' = d \<and> (\<exists>l. ls_leases (d_leases d) (r_id r) = Some l \<and> l_holder l \<noteq> holder \<and> n1 < l_expires_at l)"
proof -
  have inv: "lease_inv (d_leases d)" using assms(1) by (simp add: durable_inv_def)
  have none: "st = d_leases d \<and> (\<exists>l. ls_leases (d_leases d) (r_id r) = Some l \<and> l_holder l \<noteq> holder \<and> n1 < l_expires_at l)"
    if "acquire (r_id r) holder ttl n1 uuid (d_leases d) = Inr (None, st)" for st
    using that by (cases rule: acquire_cases) (auto elim: grant_lease_cases split: if_splits)
  have put: "map_of (ss_records s) (r_id r) \<noteq> None" if "session_put cd r (d_sessions d) = Inr s" for s
    using that by (auto simp: session_put_def Let_def session_set_look split: if_splits)
  have undone: "session_restore (r_id r) None s = d_sessions d"
    if "session_put cd r (d_sessions d) = Inr s" "map_of (ss_records (d_sessions d)) (r_id r) = None" for s
    using session_put_then_delete that by blast
  note some = acquire_Some [OF _ inv, of "r_id r" holder ttl n1 uuid]
  show ?thesis
  proof (cases "map_of (ss_records (d_sessions d)) (r_id r)")
    case None
    then have "create_new cd dec r holder ttl initial uuid n1 n2 n3 d = (Inr res, d')"
      using assms(2) by (auto simp: create_session_with_lease_def session_get_def split: sum.splits)
    then show ?thesis
      using none put undone [OF _ None] some
      by (auto simp: create_new_def Let_def split: sum.splits option.splits prod.splits)
  next
    case (Some e)
    then have "create_for_existing dec (r_id r) holder ttl initial uuid n0 n1 n3 d = (Inr res, d')"
      using assms(2) by (auto simp: create_session_with_lease_def session_get_def Some split: sum.splits if_splits)
    then show ?thesis
      using none some Some
      by (auto simp: create_for_existing_def Let_def split: sum.splits option.splits prod.splits)
  qed
qed
section \<open>A run\<close>

text \<open>A store with one live lease and no records; envelopes decode to themselves.\<close>

definition plain_decoder :: "nat envelope_decoder" where
  "plain_decoder kind envelope key version = Inr envelope"

definition leased_durable :: "nat durable" where
  "leased_durable = new_durable\<lparr>d_leases := store_with first_lease\<rparr>"

definition session_record :: "nat stored" where
  "session_record = \<lparr>r_session = [1], r_id = [1], r_version = None, r_body = 7\<rparr>"

definition plain_event :: "nat outbox_event" where
  "plain_event = \<lparr>ev_id = [9], ev_aggregate_type = AggregateSession, ev_aggregate_id = [1],
     ev_session = [1], ev_incarnation = None, ev_version = 1, ev_fence = 1, ev_envelope = 7\<rparr>"

definition failing_operation :: "(nat, nat) tx_prog" where
  "failing_operation = TxCall (PutSession session_record) (\<lambda>_. TxThrow (ForeignError 0))"

definition writing_operation :: "(nat, nat) tx_prog" where
  "writing_operation = TxCall (PutSession session_record) (\<lambda>_.
     TxCall (AppendOutbox plain_event) (\<lambda>_. TxReturn 0))"

lemma store_with_first_inv: "lease_inv (store_with first_lease)"
  using store_with_reachable(1) by (rule lease_reachable_inv')

lemma leased_durable_inv: "durable_inv leased_durable"
  using new_durable_inv [where ?'a = nat] store_with_first_inv
  by (simp add: leased_durable_def durable_inv_def stores_ok_def)

lemma plain_lease_checks:
  "owns_lease [1] [2] 1 [3] 5 (store_with first_lease) = Inr ()"
  "owns_lease [1] [2] 1 [3] 6 (store_with first_lease) = Inr ()"
  by (auto simp: owns_lease_Inr get_current_Some store_with_def first_lease_def max_safe_integer_def)

lemmas plain_run_simps =
  run_session_transaction_def run_guarded_def plain_lease_checks leased_durable_def take_snapshot_def
  session_get_def session_assert_open_def turn_list_def tool_call_list_def list_by_session_def
  list_assert_open_def new_durable_def new_session_store_def new_list_store_def tx_call_def
  assert_session_def session_record_def plain_event_def session_put_def plain_codec_def Let_def
  version_or_one_def append_outbox_def has_event_def plain_decoder_def

theorem failed_transaction_leaves_no_trace_witness:
  "run_session_transaction plain_codec plain_decoder [1] [2] 1 [3] failing_operation 5 6 leased_durable
    = (Inl (ForeignError 0), leased_durable)"
proof -
  have "fst (run_session_transaction plain_codec plain_decoder [1] [2] 1 [3] failing_operation 5 6
      leased_durable) = Inl (ForeignError 0)"
    by (simp add: failing_operation_def plain_run_simps)
  then show ?thesis
    using failed_transaction_leaves_no_trace [OF leased_durable_inv,
        where prog = failing_operation and cd = plain_codec and dec = plain_decoder]
    by (metis prod.collapse)
qed

theorem committed_transaction_was_owner_witness:
  "\<exists>d'. run_session_transaction plain_codec plain_decoder [1] [2] 1 [3] writing_operation 5 6 leased_durable
    = (Inr 0, d') \<and> d_leases d' = d_leases leased_durable"
proof -
  obtain res d' where run: "run_session_transaction plain_codec plain_decoder [1] [2] 1 [3]
      writing_operation 5 6 leased_durable = (res, d')" by fastforce
  have "fst (run_session_transaction plain_codec plain_decoder [1] [2] 1 [3] writing_operation 5 6
      leased_durable) = Inr 0"
    by (simp add: writing_operation_def plain_run_simps)
  with run have "run_session_transaction plain_codec plain_decoder [1] [2] 1 [3]
      writing_operation 5 6 leased_durable = (Inr 0, d')" by simp
  from committed_transaction_was_owner [OF leased_durable_inv this] this show ?thesis by blast
qed

theorem old_owner_never_writes_again_witness:
  "snd (run_session_transaction plain_codec plain_decoder [1] [2] 1 [3] writing_operation 21 22
      (leased_durable\<lparr>d_leases := store_with second_lease\<rparr>))
    = leased_durable\<lparr>d_leases := store_with second_lease\<rparr>"
proof -
  have look: "ls_leases (d_leases leased_durable) [1] = Some first_lease"
    by (simp add: leased_durable_def store_with_def)
  have acq: "acquire [1] [4] 10 20 [5] (d_leases leased_durable) = Inr (Some second_lease, store_with second_lease)"
    using second_acquire by (simp add: leased_durable_def)
  have f: "l_fence second_lease \<noteq> l_fence first_lease" "l_fence first_lease = 1"
    by (simp_all add: first_lease_def second_lease_def)
  show ?thesis
    using old_owner_never_writes_again [OF leased_durable_inv look acq f(1) rtranclp.rtrancl_refl,
        where prog = writing_operation and h = "[2]" and g = "[3]" and ?now1.0 = 21 and ?now2.0 = 22]
    unfolding f(2) by (metis prod.collapse)
qed

theorem durable_store_well_formed_witness:
  "length (d_outbox (new_durable :: nat durable)) \<le> 512"
  using durable_store_well_formed [of plain_codec plain_decoder new_durable, OF rtranclp.rtrancl_refl] by simp

lemma clock_0_3: "clock_ok 0 1 2 3"
  by (simp add: clock_ok_def max_safe_integer_def)

theorem failed_creation_leaves_no_lease_witness:
  "\<exists>d'. create_session_with_lease plain_codec plain_decoder session_record [2] 10
      (Some (\<lambda>l. Inl (ForeignError 1))) [3] 0 1 2 3 new_durable = (Inl (ForeignError 1), d')
    \<and> d_sessions d' = new_session_store"
proof -
  have "fst (create_session_with_lease plain_codec plain_decoder session_record [2] 10
      (Some (\<lambda>l. Inl (ForeignError 1))) [3] 0 1 2 3 new_durable) = Inl (ForeignError 1)"
    by (simp add: create_session_with_lease_def create_new_def staged_initial_event_def plain_run_simps
        acquire_eval new_lease_store_def split: option.split sum.split prod.split)
  then obtain d' where run: "create_session_with_lease plain_codec plain_decoder session_record [2] 10
      (Some (\<lambda>l. Inl (ForeignError 1))) [3] 0 1 2 3 new_durable = (Inl (ForeignError 1), d')"
    by (metis prod.collapse)
  then show ?thesis
    using failed_creation_leaves_no_lease [OF new_durable_inv clock_0_3 run] by (simp add: new_durable_def)
qed

theorem creation_succeeds_with_live_lease_witness:
  "\<exists>l d'. create_session_with_lease plain_codec plain_decoder session_record [2] 10 None [3] 0 1 2 3
      new_durable = (Inr (Some l), d') \<and> l_holder l = [2]"
proof -
  have "\<exists>l. fst (create_session_with_lease plain_codec plain_decoder session_record [2] 10 None [3] 0 1 2 3
      new_durable) = Inr (Some l)"
    by (simp add: create_session_with_lease_def create_new_def plain_run_simps
        acquire_eval new_lease_store_def split: option.split sum.split prod.split)
  then obtain l d' where run: "create_session_with_lease plain_codec plain_decoder session_record [2] 10
      None [3] 0 1 2 3 new_durable = (Inr (Some l), d')"
    by (metis prod.collapse)
  then show ?thesis
    using creation_succeeds_with_live_lease [OF new_durable_inv run] by auto
qed
end
