(* ===== verification/Idempotency_Store.thy ===== *)
theory Idempotency_Store
  imports Leases "HOL-Library.AList"
begin

text \<open>
  The tool idempotency store of \<open>packages/tools/src/idempotency-store.ts\<close>. Its methods run without
  an \<open>await\<close>, so each is one atomic operation; a method reads the clock more than once, and the
  model takes one reading \<open>now\<close> per operation. An operation returns its result, or what it throws,
  with the new state: a method that throws may have pruned expired entries before.

  The prune cursor is a live iterator of the entry \<open>Map\<close>; it is the number of entries before the
  iterator's position, which a deletion in front of it decreases. \<open>rd\<close> is the lease reader of the
  constructor (\<open>None\<close> when it is absent). Outputs and errors are opaque values that
  \<open>snapshotJsonValue\<close> copies or rejects and \<open>stableStringify\<close> compares: the two fields of \<open>sn\<close>.
\<close>

section \<open>State\<close>

datatype idem_status = StClaimed | StSucceeded | StFailed | StTimedOut | StCancelled

record 'v idem_entry =
  en_session :: "js_string option"
  en_tool_id :: "js_string option"
  en_tool_version :: "js_string option"
  en_hash :: js_string
  en_status :: idem_status
  en_owner :: js_string
  en_fence :: "int option"
  en_generation :: "js_string option"
  en_expires :: int
  en_output :: "'v option"
  en_error :: "'v option"

record 'v idem_store =
  is_entries :: "(js_string \<times> 'v idem_entry) list"
  is_cursor :: nat

record idem_lease =
  il_session :: js_string
  il_holder :: js_string
  il_fence :: int
  il_generation :: js_string

record 'v snapshots =
  sn_copy :: "'v \<Rightarrow> 'v result"
  sn_same :: "'v option \<Rightarrow> 'v option \<Rightarrow> bool"

type_synonym lease_reader = "(js_string \<Rightarrow> lease option) option"

definition new_idem_store :: "'v idem_store" where
  "new_idem_store = \<lparr>is_entries = [], is_cursor = 0\<rparr>"

section \<open>Entries and expiry\<close>

definition expired :: "int \<Rightarrow> 'v idem_entry \<Rightarrow> bool" where
  "expired now e \<longleftrightarrow> en_expires e \<le> now"

definition delete_entry :: "js_string \<Rightarrow> 'v idem_store \<Rightarrow> 'v idem_store" where
  "delete_entry k st =
     (let i = length (takeWhile (\<lambda>p. fst p \<noteq> k) (is_entries st))
      in st\<lparr>is_entries := AList.delete k (is_entries st),
            is_cursor := (if i < is_cursor st then is_cursor st - 1 else is_cursor st)\<rparr>)"

definition set_entry :: "js_string \<Rightarrow> 'v idem_entry \<Rightarrow> 'v idem_store \<Rightarrow> 'v idem_store" where
  "set_entry k e st = st\<lparr>is_entries := AList.update k e (is_entries st)\<rparr>"

definition prune_expired :: "int \<Rightarrow> 'v idem_store \<Rightarrow> nat \<times> 'v idem_store" where
  "prune_expired now st =
     (let kept = filter (\<lambda>p. \<not> expired now (snd p)) (is_entries st)
      in (length (is_entries st) - length kept, \<lparr>is_entries = kept, is_cursor = 0\<rparr>))"

fun prune_expired_batch :: "nat \<Rightarrow> int \<Rightarrow> 'v idem_store \<Rightarrow> 'v idem_store" where
  "prune_expired_batch 0 now st = st"
| "prune_expired_batch (Suc n) now st =
     (if length (is_entries st) \<le> is_cursor st then st\<lparr>is_cursor := 0\<rparr>
      else let p = is_entries st ! is_cursor st; st' = st\<lparr>is_cursor := is_cursor st + 1\<rparr>
        in prune_expired_batch n now (if expired now (snd p) then delete_entry (fst p) st' else st'))"

definition active :: "js_string \<Rightarrow> int \<Rightarrow> 'v idem_store \<Rightarrow> 'v idem_entry option \<times> 'v idem_store" where
  "active k now st =
     (let st' = prune_expired_batch 32 now st in
      case map_of (is_entries st') k of
        None \<Rightarrow> (None, st')
      | Some e \<Rightarrow> if expired now e then (None, delete_entry k st') else (Some e, st'))"

section \<open>Leases and snapshots\<close>

definition check_lease :: "lease_reader \<Rightarrow> int \<Rightarrow> idem_lease option \<Rightarrow> unit result" where
  "check_lease rd now l =
     (case l of None \<Rightarrow> Inr ()
      | Some l \<Rightarrow>
          (case rd of None \<Rightarrow> Inl (LeaseLostError (il_session l))
           | Some read \<Rightarrow>
               (case read (il_session l) of
                  None \<Rightarrow> Inl (LeaseLostError (il_session l))
                | Some c \<Rightarrow>
                    if l_holder c \<noteq> il_holder l \<or> l_fence c \<noteq> il_fence l
                       \<or> l_generation c \<noteq> il_generation l \<or> l_expires_at c \<le> now
                    then Inl (LeaseLostError (il_session l)) else Inr ())))"

definition has_live_lease :: "lease_reader \<Rightarrow> int \<Rightarrow> js_string \<Rightarrow> bool" where
  "has_live_lease rd now sid =
     (case rd of None \<Rightarrow> False
      | Some read \<Rightarrow> (case read sid of None \<Rightarrow> False | Some c \<Rightarrow> now < l_expires_at c))"

text \<open>An optional string is falsy when it is absent or empty.\<close>

definition truthy :: "js_string option \<Rightarrow> bool" where
  "truthy s \<longleftrightarrow> s \<noteq> None \<and> s \<noteq> Some []"

definition lease_session :: "idem_lease option \<Rightarrow> js_string option \<Rightarrow> js_string option" where
  "lease_session l sid = (case l of Some l \<Rightarrow> Some (il_session l) | None \<Rightarrow> sid)"

text \<open>The two refusals every operation starts with: a foreign lease, or a lease it should have.\<close>

definition foreign_lease :: "idem_lease option \<Rightarrow> js_string option \<Rightarrow> bool" where
  "foreign_lease l sid =
     (case l of None \<Rightarrow> False | Some l \<Rightarrow> truthy sid \<and> Some (il_session l) \<noteq> sid)"

definition bypasses_lease ::
    "lease_reader \<Rightarrow> int \<Rightarrow> idem_lease option \<Rightarrow> js_string option \<Rightarrow> bool" where
  "bypasses_lease rd now l sid \<longleftrightarrow> l = None \<and> truthy sid \<and> has_live_lease rd now (the sid)"

definition snapshot_opt :: "'v snapshots \<Rightarrow> 'v option \<Rightarrow> 'v option result" where
  "snapshot_opt sn v = (case v of None \<Rightarrow> Inr None | Some x \<Rightarrow> rbind (sn_copy sn x) (\<lambda>y. Inr (Some y)))"

definition snapshot_entry :: "'v snapshots \<Rightarrow> 'v idem_entry \<Rightarrow> 'v idem_entry result" where
  "snapshot_entry sn e =
     rbind (snapshot_opt sn (en_output e)) (\<lambda>out.
     rbind (snapshot_opt sn (en_error e)) (\<lambda>err.
       Inr (e\<lparr>en_output := out, en_error := err\<rparr>)))"

section \<open>Lookup\<close>

datatype 'v lookup_result = Missing | LookupConflict | FoundEntry "'v idem_entry"

definition lookup_on ::
    "'v snapshots \<Rightarrow> js_string \<Rightarrow> js_string option \<Rightarrow> 'v idem_entry option \<Rightarrow> 'v idem_store
      \<Rightarrow> 'v lookup_result result \<times> 'v idem_store" where
  "lookup_on sn hash sid found st =
     (case found of
        None \<Rightarrow> (Inr Missing, st)
      | Some e \<Rightarrow>
          if en_hash e \<noteq> hash \<or> en_session e \<noteq> sid then (Inr LookupConflict, st)
          else (rbind (snapshot_entry sn e) (\<lambda>e. Inr (FoundEntry e)), st))"

definition lookup ::
    "'v snapshots \<Rightarrow> lease_reader \<Rightarrow> int \<Rightarrow> js_string \<Rightarrow> js_string \<Rightarrow> js_string option
      \<Rightarrow> idem_lease option \<Rightarrow> 'v idem_store \<Rightarrow> 'v lookup_result result \<times> 'v idem_store" where
  "lookup sn rd now k hash sid l st =
     (case check_lease rd now l of Inl e \<Rightarrow> (Inl e, st)
      | Inr _ \<Rightarrow>
        if foreign_lease l sid \<or> bypasses_lease rd now l sid then (Inr LookupConflict, st)
        else case_prod (lookup_on sn hash (lease_session l sid)) (active k now st))"

section \<open>Claim\<close>

record idem_claim =
  cl_key :: js_string
  cl_session :: "js_string option"
  cl_lease :: "idem_lease option"
  cl_tool_id :: "js_string option"
  cl_tool_version :: "js_string option"
  cl_hash :: js_string
  cl_owner :: js_string
  cl_ttl :: int

datatype 'v claim_result =
    Claimed "'v idem_entry" | Succeeded "'v idem_entry" | Terminal "'v idem_entry"
  | InProgress "'v idem_entry" | ClaimConflict

definition stale_claim :: "'v idem_entry \<Rightarrow> idem_lease option \<Rightarrow> bool" where
  "stale_claim e l =
     (case l of None \<Rightarrow> False
      | Some l \<Rightarrow> en_status e = StClaimed \<and> en_session e = Some (il_session l)
          \<and> (case en_generation e of
               Some g \<Rightarrow> g \<noteq> il_generation l
             | None \<Rightarrow> (case en_fence e of None \<Rightarrow> False | Some f \<Rightarrow> f < il_fence l)))"

definition claim_conflict :: "'v idem_entry \<Rightarrow> js_string option \<Rightarrow> idem_claim \<Rightarrow> bool" where
  "claim_conflict e sid c \<longleftrightarrow> en_session e \<noteq> sid
     \<or> truthy (en_tool_id e) \<and> truthy (cl_tool_id c) \<and> en_tool_id e \<noteq> cl_tool_id c
     \<or> truthy (en_tool_version e) \<and> truthy (cl_tool_version c) \<and> en_tool_version e \<noteq> cl_tool_version c
     \<or> en_hash e \<noteq> cl_hash c"

definition keep_truthy :: "js_string option \<Rightarrow> js_string option" where
  "keep_truthy s = (if truthy s then s else None)"

definition claim_entry :: "idem_claim \<Rightarrow> int \<Rightarrow> 'v idem_entry" where
  "claim_entry c expires =
     \<lparr>en_session = keep_truthy (lease_session (cl_lease c) (cl_session c)),
      en_tool_id = keep_truthy (cl_tool_id c), en_tool_version = keep_truthy (cl_tool_version c),
      en_hash = cl_hash c, en_status = StClaimed, en_owner = cl_owner c,
      en_fence = map_option il_fence (cl_lease c), en_generation = map_option il_generation (cl_lease c),
      en_expires = expires, en_output = None, en_error = None\<rparr>"

definition put_claim ::
    "idem_claim \<Rightarrow> int \<Rightarrow> 'v idem_store \<Rightarrow> 'v claim_result result \<times> 'v idem_store" where
  "put_claim c expires st =
     (Inr (Claimed (claim_entry c expires)), set_entry (cl_key c) (claim_entry c expires) st)"

definition claim_on ::
    "'v snapshots \<Rightarrow> idem_claim \<Rightarrow> int \<Rightarrow> 'v idem_entry option \<Rightarrow> 'v idem_store
      \<Rightarrow> 'v claim_result result \<times> 'v idem_store" where
  "claim_on sn c expires found st =
     (case found of
        None \<Rightarrow> put_claim c expires st
      | Some e \<Rightarrow>
          if claim_conflict e (lease_session (cl_lease c) (cl_session c)) c then (Inr ClaimConflict, st)
          else if en_status e = StSucceeded
          then (rbind (snapshot_entry sn e) (\<lambda>e. Inr (Succeeded e)), st)
          else if en_status e \<noteq> StClaimed
          then (rbind (snapshot_entry sn e) (\<lambda>e. Inr (Terminal e)), st)
          else if \<not> stale_claim e (cl_lease c)
          then (rbind (snapshot_entry sn e) (\<lambda>e. Inr (InProgress e)), st)
          else put_claim c expires st)"

definition claim ::
    "'v snapshots \<Rightarrow> lease_reader \<Rightarrow> int \<Rightarrow> idem_claim \<Rightarrow> 'v idem_store
      \<Rightarrow> 'v claim_result result \<times> 'v idem_store" where
  "claim sn rd now c st =
     (case rbind (safe_lease_expiry_at now (cl_ttl c)) (\<lambda>expires.
             rbind (check_lease rd now (cl_lease c)) (\<lambda>_. Inr expires)) of
        Inl e \<Rightarrow> (Inl e, st)
      | Inr expires \<Rightarrow>
        if foreign_lease (cl_lease c) (cl_session c) \<or> bypasses_lease rd now (cl_lease c) (cl_session c)
        then (Inr ClaimConflict, st)
        else case_prod (claim_on sn c expires) (active (cl_key c) now st))"

section \<open>Release\<close>

record idem_release =
  rl_key :: js_string
  rl_hash :: js_string
  rl_owner :: js_string
  rl_session :: "js_string option"
  rl_lease :: "idem_lease option"

definition release_matches :: "'v idem_entry \<Rightarrow> idem_release \<Rightarrow> bool" where
  "release_matches e r \<longleftrightarrow> en_status e = StClaimed \<and> en_hash e = rl_hash r \<and> en_owner e = rl_owner r
     \<and> en_session e = lease_session (rl_lease r) (rl_session r)
     \<and> (en_generation e \<noteq> None \<longrightarrow> map_option il_generation (rl_lease r) = en_generation e)
     \<and> (en_fence e \<noteq> None \<longrightarrow> map_option il_fence (rl_lease r) = en_fence e)"

definition release_on ::
    "idem_release \<Rightarrow> 'v idem_entry option \<Rightarrow> 'v idem_store \<Rightarrow> bool result \<times> 'v idem_store" where
  "release_on r found st =
     (case found of
        None \<Rightarrow> (Inr False, st)
      | Some e \<Rightarrow> if release_matches e r then (Inr True, delete_entry (rl_key r) st) else (Inr False, st))"

definition release_claim ::
    "lease_reader \<Rightarrow> int \<Rightarrow> idem_release \<Rightarrow> 'v idem_store \<Rightarrow> bool result \<times> 'v idem_store" where
  "release_claim rd now r st =
     (case check_lease rd now (rl_lease r) of Inl e \<Rightarrow> (Inl e, st)
      | Inr _ \<Rightarrow>
        if foreign_lease (rl_lease r) (rl_session r) \<or> bypasses_lease rd now (rl_lease r) (rl_session r)
        then (Inr False, st)
        else case_prod (release_on r) (active (rl_key r) now st))"

section \<open>Completion\<close>

record 'v idem_outcome =
  oc_status :: idem_status
  oc_ttl :: int
  oc_owner :: js_string
  oc_session :: "js_string option"
  oc_lease :: "idem_lease option"
  oc_output :: "'v option"
  oc_error :: "'v option"

definition idem_conflict :: js_error where
  "idem_conflict = RecordConflictError (js ''tool_idempotency'')"

definition completion_lost :: "'v idem_entry \<Rightarrow> 'v idem_outcome \<Rightarrow> bool" where
  "completion_lost e oc \<longleftrightarrow>
     lease_session (oc_lease oc) (oc_session oc) \<noteq> en_session e
     \<or> (en_fence e \<noteq> None \<or> en_generation e \<noteq> None)
       \<and> (case oc_lease oc of None \<Rightarrow> True
          | Some l \<Rightarrow>
              (case en_generation e of
                 Some g \<Rightarrow> g \<noteq> il_generation l \<or> (en_fence e \<noteq> None \<and> en_fence e \<noteq> Some (il_fence l))
               | None \<Rightarrow> en_fence e \<noteq> Some (il_fence l)))"

definition lost_session :: "'v idem_entry \<Rightarrow> idem_lease option \<Rightarrow> js_string" where
  "lost_session e l = (case en_session e of Some s \<Rightarrow> s
     | None \<Rightarrow> (case l of Some l \<Rightarrow> il_session l | None \<Rightarrow> js ''unknown''))"

definition finish_entry :: "js_string \<Rightarrow> 'v idem_outcome \<Rightarrow> int \<Rightarrow> 'v idem_entry \<Rightarrow> 'v idem_entry" where
  "finish_entry hash oc expires e =
     e\<lparr>en_hash := hash, en_status := oc_status oc, en_expires := expires,
       en_owner := (if oc_owner oc \<noteq> [] then oc_owner oc else en_owner e),
       en_output := (case oc_output oc of None \<Rightarrow> en_output e | Some v \<Rightarrow> Some v),
       en_error := (case oc_error oc of None \<Rightarrow> en_error e | Some v \<Rightarrow> Some v)\<rparr>"

definition complete_on ::
    "'v snapshots \<Rightarrow> js_string \<Rightarrow> js_string \<Rightarrow> 'v idem_outcome \<Rightarrow> int \<Rightarrow> 'v idem_entry option
      \<Rightarrow> 'v idem_store \<Rightarrow> unit result \<times> 'v idem_store" where
  "complete_on sn k hash oc expires found st =
     (case found of
        None \<Rightarrow> (Inl (RecordNotFoundError (js ''tool_idempotency'')), st)
      | Some e \<Rightarrow>
          if en_hash e \<noteq> hash then (Inl idem_conflict, st)
          else if completion_lost e oc then (Inl (LeaseLostError (lost_session e (oc_lease oc))), st)
          else if oc_owner oc \<noteq> [] \<and> en_owner e \<noteq> oc_owner oc
               \<or> (case oc_lease oc of None \<Rightarrow> False
                  | Some l \<Rightarrow> truthy (en_session e) \<and> en_session e \<noteq> Some (il_session l))
          then (Inl idem_conflict, st)
          else if en_status e \<noteq> StClaimed
          then (if en_status e = oc_status oc \<and> sn_same sn (en_output e) (oc_output oc)
                   \<and> sn_same sn (en_error e) (oc_error oc)
                then Inr () else Inl idem_conflict, st)
          else (Inr (), set_entry k (finish_entry hash oc expires e) st))"

definition complete_claim ::
    "'v snapshots \<Rightarrow> lease_reader \<Rightarrow> int \<Rightarrow> js_string \<Rightarrow> js_string \<Rightarrow> 'v idem_outcome
      \<Rightarrow> 'v idem_store \<Rightarrow> unit result \<times> 'v idem_store" where
  "complete_claim sn rd now k hash oc st =
     (case rbind (safe_lease_expiry_at now (oc_ttl oc)) (\<lambda>expires.
           rbind (snapshot_opt sn (oc_output oc)) (\<lambda>out.
           rbind (snapshot_opt sn (oc_error oc)) (\<lambda>err.
           rbind (check_lease rd now (oc_lease oc)) (\<lambda>_.
             Inr (expires, oc\<lparr>oc_output := out, oc_error := err\<rparr>))))) of
        Inl e \<Rightarrow> (Inl e, st)
      | Inr (expires, oc') \<Rightarrow>
        if foreign_lease (oc_lease oc) (oc_session oc) \<or> bypasses_lease rd now (oc_lease oc) (oc_session oc)
        then (Inl idem_conflict, st)
        else case_prod (complete_on sn k hash oc' expires) (active k now st))"

section \<open>Quarantine\<close>

record 'v idem_quarantine =
  qr_key :: js_string
  qr_session :: js_string
  qr_lease :: idem_lease
  qr_tool_id :: js_string
  qr_tool_version :: js_string
  qr_hash :: js_string
  qr_owner :: js_string
  qr_ttl :: int
  qr_error :: 'v

datatype 'v quarantine_result =
    Quarantined "'v idem_entry" | QSucceeded "'v idem_entry" | QTerminal "'v idem_entry"
  | QInProgress "'v idem_entry" | QConflict

definition prior_lease :: "'v idem_entry \<Rightarrow> idem_lease \<Rightarrow> bool" where
  "prior_lease e l =
     (case en_generation e of
        Some g \<Rightarrow> g \<noteq> il_generation l
      | None \<Rightarrow> (case en_fence e of None \<Rightarrow> False | Some f \<Rightarrow> f < il_fence l))"

definition quarantine_entry :: "'v idem_quarantine \<Rightarrow> 'v \<Rightarrow> int \<Rightarrow> 'v idem_entry" where
  "quarantine_entry r err expires =
     \<lparr>en_session = Some (qr_session r), en_tool_id = Some (qr_tool_id r),
      en_tool_version = Some (qr_tool_version r), en_hash = qr_hash r, en_status = StFailed,
      en_owner = qr_owner r, en_fence = Some (il_fence (qr_lease r)),
      en_generation = Some (il_generation (qr_lease r)), en_expires = expires,
      en_output = None, en_error = Some err\<rparr>"

definition put_quarantine ::
    "'v snapshots \<Rightarrow> 'v idem_quarantine \<Rightarrow> 'v \<Rightarrow> int \<Rightarrow> 'v idem_store
      \<Rightarrow> 'v quarantine_result result \<times> 'v idem_store" where
  "put_quarantine sn r err expires st =
     (rbind (snapshot_entry sn (quarantine_entry r err expires)) (\<lambda>e. Inr (Quarantined e)),
      set_entry (qr_key r) (quarantine_entry r err expires) st)"

definition quarantine_on ::
    "'v snapshots \<Rightarrow> 'v idem_quarantine \<Rightarrow> 'v \<Rightarrow> int \<Rightarrow> 'v idem_entry option \<Rightarrow> 'v idem_store
      \<Rightarrow> 'v quarantine_result result \<times> 'v idem_store" where
  "quarantine_on sn r err expires found st =
     (case found of
        None \<Rightarrow> put_quarantine sn r err expires st
      | Some e \<Rightarrow>
          if en_session e \<noteq> Some (qr_session r) \<or> en_tool_id e \<noteq> Some (qr_tool_id r)
             \<or> en_tool_version e \<noteq> Some (qr_tool_version r) \<or> en_hash e \<noteq> qr_hash r
          then (Inr QConflict, st)
          else if en_status e = StSucceeded
          then (rbind (snapshot_entry sn e) (\<lambda>e. Inr (QSucceeded e)), st)
          else if en_status e \<noteq> StClaimed
          then (rbind (snapshot_entry sn e) (\<lambda>e. Inr (QTerminal e)), st)
          else if en_owner e \<noteq> qr_owner r \<or> \<not> prior_lease e (qr_lease r)
          then (rbind (snapshot_entry sn e) (\<lambda>e. Inr (QInProgress e)), st)
          else put_quarantine sn r err expires st)"

definition quarantine ::
    "'v snapshots \<Rightarrow> lease_reader \<Rightarrow> int \<Rightarrow> 'v idem_quarantine \<Rightarrow> 'v idem_store
      \<Rightarrow> 'v quarantine_result result \<times> 'v idem_store" where
  "quarantine sn rd now r st =
     (case rbind (safe_lease_expiry_at now (qr_ttl r)) (\<lambda>expires.
           rbind (sn_copy sn (qr_error r)) (\<lambda>err.
           rbind (check_lease rd now (Some (qr_lease r))) (\<lambda>_. Inr (expires, err)))) of
        Inl e \<Rightarrow> (Inl e, st)
      | Inr (expires, err) \<Rightarrow>
        if qr_session r \<noteq> il_session (qr_lease r) then (Inr QConflict, st)
        else case_prod (quarantine_on sn r err expires) (active (qr_key r) now st))"

section \<open>The live view\<close>

text \<open>What a client can observe at time \<open>t\<close>: the entries that have not expired.\<close>

definition live_entry :: "int \<Rightarrow> 'v idem_store \<Rightarrow> js_string \<Rightarrow> 'v idem_entry option" where
  "live_entry t st k = (case map_of (is_entries st) k of None \<Rightarrow> None
     | Some e \<Rightarrow> if expired t e then None else Some e)"

definition idem_inv :: "'v idem_store \<Rightarrow> bool" where
  "idem_inv st \<longleftrightarrow> distinct (map fst (is_entries st)) \<and> is_cursor st \<le> length (is_entries st)"

text \<open>Two stores with the same live entries now and at every later time.\<close>

definition same_view :: "int \<Rightarrow> 'v idem_store \<Rightarrow> 'v idem_store \<Rightarrow> bool" where
  "same_view now a b \<longleftrightarrow> (\<forall>t \<ge> now. live_entry t a = live_entry t b)"

lemma same_view_refl [simp]: "same_view now st st"
  and same_view_sym: "same_view now a b \<Longrightarrow> same_view now b a"
  and same_view_trans: "same_view now a b \<Longrightarrow> same_view now b c \<Longrightarrow> same_view now a c"
  and same_view_later: "same_view now a b \<Longrightarrow> now \<le> t \<Longrightarrow> same_view t a b"
  by (simp_all add: same_view_def)

lemma same_viewD: "same_view now a b \<Longrightarrow> now \<le> t \<Longrightarrow> live_entry t a k = live_entry t b k"
  by (simp add: same_view_def)

lemma live_entry_set [op_simps]:
  "live_entry t (set_entry k e st) = (live_entry t st)(k := if expired t e then None else Some e)"
  by (rule ext) (simp add: live_entry_def set_entry_def update_conv')

lemma map_of_delete_entry [op_simps]:
  "map_of (is_entries (delete_entry k st)) = (map_of (is_entries st))(k := None)"
  by (simp add: delete_entry_def Let_def delete_conv')

lemma live_entry_delete [op_simps]: "live_entry t (delete_entry k st) = (live_entry t st)(k := None)"
  by (rule ext) (simp add: live_entry_def map_of_delete_entry)

lemma live_entry_cursor [simp]: "live_entry t (st\<lparr>is_cursor := n\<rparr>) = live_entry t st"
  by (rule ext) (simp add: live_entry_def)

lemma expired_mono: "expired now e \<Longrightarrow> now \<le> t \<Longrightarrow> expired t e"
  by (simp add: expired_def)

text \<open>Deleting an expired entry changes no view from now on.\<close>

lemma delete_expired_view:
  assumes "map_of (is_entries st) k = Some e" and "expired now e"
  shows "same_view now (delete_entry k st) st"
proof -
  have "live_entry t st k = None" if "now \<le> t" for t
    using assms expired_mono [OF assms(2) that] by (simp add: live_entry_def)
  then show ?thesis by (auto simp: same_view_def live_entry_delete fun_upd_idem)
qed

lemma length_delete_entry:
  "distinct (map fst al) \<Longrightarrow> k \<in> fst ` set al \<Longrightarrow> Suc (length (AList.delete k al)) = length al"
  by (induction al) (auto simp: delete_idem)

lemma length_AList_update: "length al \<le> length (AList.update k v al)"
  by (induction al) auto

lemma first_index_less: "k \<in> fst ` set al \<Longrightarrow> length (takeWhile (\<lambda>p. fst p \<noteq> k) al) < length al"
  by (induction al) auto

lemma delete_entry_inv [inv_intros]:
  assumes "idem_inv st"
  shows "idem_inv (delete_entry k st)"
proof (cases "k \<in> fst ` set (is_entries st)")
  case True
  have len: "Suc (length (AList.delete k (is_entries st))) = length (is_entries st)"
    by (rule length_delete_entry) (use assms True in \<open>simp_all add: idem_inv_def\<close>)
  have i: "length (takeWhile (\<lambda>p. fst p \<noteq> k) (is_entries st)) < length (is_entries st)"
    using True by (rule first_index_less)
  show ?thesis using assms len i
    by (auto simp: idem_inv_def delete_entry_def Let_def distinct_delete)
next
  case False
  then have "takeWhile (\<lambda>p. fst p \<noteq> k) (is_entries st) = is_entries st"
    by (intro takeWhile_eq_all_conv [THEN iffD2]) auto
  then show ?thesis
    using assms False by (auto simp: idem_inv_def delete_entry_def Let_def)
qed

lemma set_entry_inv [inv_intros]: "idem_inv st \<Longrightarrow> idem_inv (set_entry k e st)"
  using length_AList_update [of "is_entries st" k e]
  by (auto simp: idem_inv_def set_entry_def distinct_update)

lemma prune_expired_batch_props:
  "idem_inv st \<Longrightarrow> idem_inv (prune_expired_batch n now st) \<and> same_view now (prune_expired_batch n now st) st"
proof (induction n now st rule: prune_expired_batch.induct)
  case (2 n now st)
  show ?case
  proof (cases "length (is_entries st) \<le> is_cursor st")
    case True
    then show ?thesis using 2(2) by (simp add: idem_inv_def same_view_def)
  next
    case False
    let ?p = "is_entries st ! is_cursor st" and ?st = "st\<lparr>is_cursor := is_cursor st + 1\<rparr>"
    let ?next = "if expired now (snd ?p) then delete_entry (fst ?p) ?st else ?st"
    have inv: "idem_inv ?st" using 2(2) False by (simp add: idem_inv_def)
    have "map_of (is_entries st) (fst ?p) = Some (snd ?p)"
      using 2(2) False by (intro map_of_is_SomeI) (auto simp: idem_inv_def)
    then have view: "same_view now ?next st"
      using delete_expired_view [of ?st "fst ?p" "snd ?p" now] by (auto simp: same_view_def)
    have "idem_inv ?next" using inv delete_entry_inv [OF inv] by simp
    from 2(1) [OF False refl refl this] view
    have "idem_inv (prune_expired_batch n now ?next) \<and> same_view now (prune_expired_batch n now ?next) st"
      by (auto intro: same_view_trans)
    then show ?thesis using False by (simp only: prune_expired_batch.simps Let_def if_False)
  qed
qed simp

text \<open>\<open>active\<close> finds exactly the live entry, and its pruning cannot be observed.\<close>

lemma active_props:
  assumes "active k now st = (r, st')" and "idem_inv st"
  shows "r = live_entry now st k" and "idem_inv st'" and "same_view now st' st"
proof -
  let ?st = "prune_expired_batch 32 now st"
  note p = prune_expired_batch_props [OF assms(2), of 32 now]
  have "live_entry now ?st k = live_entry now st k" using p same_viewD by blast
  then show "r = live_entry now st k"
    using assms(1) by (auto simp: active_def Let_def live_entry_def [of now ?st] split: option.splits if_splits)
  show "idem_inv st'"
    using assms(1) p delete_entry_inv by (auto simp: active_def Let_def split: option.splits if_splits)
  show "same_view now st' st"
    using assms(1) p delete_expired_view [of ?st k _ now]
    by (auto simp: active_def Let_def split: option.splits if_splits intro: same_view_trans)
qed

section \<open>Histories\<close>

datatype 'v idem_op =
    OpLookup js_string js_string "js_string option" "idem_lease option"
  | OpClaim idem_claim
  | OpRelease idem_release
  | OpComplete js_string js_string "'v idem_outcome"
  | OpQuarantine "'v idem_quarantine"
  | OpPrune

datatype 'v idem_reply =
    ReLookup "'v lookup_result result"
  | ReClaim "'v claim_result result"
  | ReRelease "bool result"
  | ReComplete "unit result"
  | ReQuarantine "'v quarantine_result result"
  | RePrune

fun apply_op ::
    "'v snapshots \<Rightarrow> lease_reader \<Rightarrow> int \<Rightarrow> 'v idem_op \<Rightarrow> 'v idem_store \<Rightarrow> 'v idem_reply \<times> 'v idem_store" where
  "apply_op sn rd now (OpLookup k h s l) st = map_prod ReLookup id (lookup sn rd now k h s l st)"
| "apply_op sn rd now (OpClaim c) st = map_prod ReClaim id (claim sn rd now c st)"
| "apply_op sn rd now (OpRelease r) st = map_prod ReRelease id (release_claim rd now r st)"
| "apply_op sn rd now (OpComplete k h oc) st = map_prod ReComplete id (complete_claim sn rd now k h oc st)"
| "apply_op sn rd now (OpQuarantine r) st = map_prod ReQuarantine id (quarantine sn rd now r st)"
| "apply_op sn rd now OpPrune st = (RePrune, snd (prune_expired now st))"

text \<open>A history: at each step the lease reader, the clock and the operation.\<close>

type_synonym 'v idem_history = "(lease_reader \<times> int \<times> 'v idem_op) list"

fun run_history :: "'v snapshots \<Rightarrow> 'v idem_history \<Rightarrow> 'v idem_store \<Rightarrow> 'v idem_reply list \<times> 'v idem_store" where
  "run_history sn [] st = ([], st)"
| "run_history sn ((rd, now, op) # h) st =
     (let (r, st') = apply_op sn rd now op st; (rs, st'') = run_history sn h st' in (r # rs, st''))"

lemma map_of_filter_snd:
  "distinct (map fst al) \<Longrightarrow> map_of (filter (\<lambda>p. P (snd p)) al) k =
    (case map_of al k of None \<Rightarrow> None | Some e \<Rightarrow> if P e then Some e else None)"
  by (induction al) (auto split: option.splits simp: rev_image_eqI map_of_eq_None_iff)

lemma prune_expired_props:
  assumes "idem_inv st"
  shows "idem_inv (snd (prune_expired now st))" and "same_view now (snd (prune_expired now st)) st"
proof -
  let ?kept = "filter (\<lambda>p. \<not> expired now (snd p)) (is_entries st)"
  have d: "distinct (map fst (is_entries st))" using assms by (simp add: idem_inv_def)
  show "idem_inv (snd (prune_expired now st))"
    using distinct_map_filterI [OF d] by (simp add: prune_expired_def Let_def idem_inv_def)
  show "same_view now (snd (prune_expired now st)) st"
    by (auto simp: same_view_def live_entry_def prune_expired_def Let_def map_of_filter_snd [OF d, of "\<lambda>e. \<not> expired now e"]
        fun_eq_iff split: option.splits dest: expired_mono)
qed

section \<open>Pruning cannot be observed\<close>

lemma set_entry_cong: "same_view now a b \<Longrightarrow> same_view now (set_entry k e a) (set_entry k e b)"
  and delete_entry_cong: "same_view now a b \<Longrightarrow> same_view now (delete_entry k a) (delete_entry k b)"
  by (simp_all add: same_view_def op_simps)

text \<open>Two replies agree, and the stores after them look the same.\<close>

definition agree :: "int \<Rightarrow> 'r \<times> 'v idem_store \<Rightarrow> 'r \<times> 'v idem_store \<Rightarrow> bool" where
  "agree now x y \<longleftrightarrow> fst x = fst y \<and> same_view now (snd x) (snd y) \<and> idem_inv (snd x) \<and> idem_inv (snd y)"

lemma agreeI: "same_view now a b \<Longrightarrow> idem_inv a \<Longrightarrow> idem_inv b \<Longrightarrow> agree now (r, a) (r, b)"
  by (simp add: agree_def)

lemma agree_set:
  "same_view now a b \<Longrightarrow> idem_inv a \<Longrightarrow> idem_inv b \<Longrightarrow> agree now (r, set_entry k e a) (r, set_entry k e b)"
  and agree_delete:
  "same_view now a b \<Longrightarrow> idem_inv a \<Longrightarrow> idem_inv b \<Longrightarrow> agree now (r, delete_entry k a) (r, delete_entry k b)"
  by (simp_all add: agree_def set_entry_cong delete_entry_cong inv_intros)

lemmas agree_intros = agreeI agree_set agree_delete

lemma active_agree:
  assumes "same_view now a b" and "idem_inv a" and "idem_inv b"
    and "\<And>r a' b'. r = live_entry now a k \<Longrightarrow> same_view now a' b' \<Longrightarrow> idem_inv a' \<Longrightarrow> idem_inv b' \<Longrightarrow>
      agree now (f r a') (f r b')"
  shows "agree now (case_prod f (active k now a)) (case_prod f (active k now b))"
proof -
  obtain ra a' rb b' where act: "active k now a = (ra, a')" "active k now b = (rb, b')"
    by (cases "active k now a", cases "active k now b") auto
  note pa = active_props [OF act(1) assms(2)] and pb = active_props [OF act(2) assms(3)]
  have "ra = rb" using pa(1) pb(1) assms(1) by (simp add: same_viewD)
  moreover have "same_view now a' b'"
    using pa(3) pb(3) assms(1) by (meson same_view_sym same_view_trans)
  ultimately show ?thesis using assms(4) [OF pa(1)] pa(2) pb(2) act by simp
qed

lemmas op_on_defs =
  lookup_on_def claim_on_def put_claim_def release_on_def complete_on_def quarantine_on_def put_quarantine_def

lemma apply_op_agree:
  assumes "same_view now a b" and "idem_inv a" and "idem_inv b"
  shows "agree now (lookup sn rd now k h s l a) (lookup sn rd now k h s l b)"
    and "agree now (claim sn rd now c a) (claim sn rd now c b)"
    and "agree now (release_claim rd now rl a) (release_claim rd now rl b)"
    and "agree now (complete_claim sn rd now k h oc a) (complete_claim sn rd now k h oc b)"
    and "agree now (quarantine sn rd now q a) (quarantine sn rd now q b)"
proof -
  have "agree now (case_prod (lookup_on sn h x) (active k now a)) (case_prod (lookup_on sn h x) (active k now b))" for x
    by (rule active_agree [OF assms]) (auto simp: op_on_defs intro: agree_intros split: option.splits)
  then show "agree now (lookup sn rd now k h s l a) (lookup sn rd now k h s l b)"
    using assms by (auto simp: lookup_def intro: agree_intros split: sum.splits)
  have "agree now (case_prod (claim_on sn c x) (active (cl_key c) now a))
      (case_prod (claim_on sn c x) (active (cl_key c) now b))" for x
    by (rule active_agree [OF assms]) (auto simp: op_on_defs intro: agree_intros split: option.splits)
  then show "agree now (claim sn rd now c a) (claim sn rd now c b)"
    using assms by (auto simp: claim_def intro: agree_intros split: sum.splits)
  have "agree now (case_prod (release_on rl) (active (rl_key rl) now a))
      (case_prod (release_on rl) (active (rl_key rl) now b))"
    by (rule active_agree [OF assms]) (auto simp: op_on_defs intro: agree_intros split: option.splits)
  then show "agree now (release_claim rd now rl a) (release_claim rd now rl b)"
    using assms by (auto simp: release_claim_def intro: agree_intros split: sum.splits)
  have "agree now (case_prod (complete_on sn k h x y) (active k now a))
      (case_prod (complete_on sn k h x y) (active k now b))" for x y
    by (rule active_agree [OF assms]) (auto simp: op_on_defs intro: agree_intros split: option.splits)
  then show "agree now (complete_claim sn rd now k h oc a) (complete_claim sn rd now k h oc b)"
    using assms by (auto simp: complete_claim_def intro: agree_intros split: sum.splits)
  have "agree now (case_prod (quarantine_on sn q x y) (active (qr_key q) now a))
      (case_prod (quarantine_on sn q x y) (active (qr_key q) now b))" for x y
    by (rule active_agree [OF assms]) (auto simp: op_on_defs intro: agree_intros split: option.splits)
  then show "agree now (quarantine sn rd now q a) (quarantine sn rd now q b)"
    using assms by (auto simp: quarantine_def intro: agree_intros split: sum.splits)
qed

lemma apply_op_cong:
  assumes "same_view now a b" and "idem_inv a" and "idem_inv b"
  shows "agree now (apply_op sn rd now op a) (apply_op sn rd now op b)"
proof (cases op)
  case OpPrune
  then show ?thesis
    using assms prune_expired_props [OF assms(2), of now] prune_expired_props [OF assms(3), of now]
    by (auto simp: agree_def) (meson same_view_sym same_view_trans)
qed (use apply_op_agree [OF assms] in \<open>auto simp: agree_def\<close>)

text \<open>Clock readings that never run backwards, from \<open>now\<close> on.\<close>

fun clock_from :: "int \<Rightarrow> 'v idem_history \<Rightarrow> bool" where
  "clock_from now [] = True"
| "clock_from now ((rd, t, op) # h) = (now \<le> t \<and> clock_from t h)"

lemma run_history_cong:
  "same_view now a b \<Longrightarrow> idem_inv a \<Longrightarrow> idem_inv b \<Longrightarrow> clock_from now h \<Longrightarrow>
    fst (run_history sn h a) = fst (run_history sn h b)"
proof (induction h arbitrary: a b now)
  case (Cons x h)
  obtain rd t op where x: "x = (rd, t, op)" by (cases x)
  then have "same_view t a b" "clock_from t h" using Cons(2,5) same_view_later by auto
  from apply_op_cong [OF this(1) Cons(3,4), of sn rd op] Cons(1) [OF _ _ _ this(2)]
  show ?case by (simp add: x agree_def split_beta Let_def)
qed simp

lemma apply_op_inv: "idem_inv st \<Longrightarrow> idem_inv (snd (apply_op sn rd now op st))"
  using apply_op_cong [of now st st sn rd op] by (simp add: agree_def)

lemma run_history_inv: "idem_inv st \<Longrightarrow> idem_inv (snd (run_history sn h st))"
proof (induction h arbitrary: st)
  case (Cons x h)
  obtain rd t op where "x = (rd, t, op)" by (cases x)
  then show ?case using Cons(1) [OF apply_op_inv [OF Cons(2)]] by (simp add: split_beta Let_def)
qed simp
section \<open>What survives an operation\<close>

lemma active_case:
  assumes "idem_inv st"
    and "\<And>st'. idem_inv st' \<Longrightarrow> same_view now st' st \<Longrightarrow> P (f (live_entry now st k) st')"
  shows "P (case_prod f (active k now st))"
proof -
  obtain r st' where a: "active k now st = (r, st')" by (cases "active k now st") auto
  from active_props [OF this assms(1)] assms(2) a show ?thesis by simp
qed

lemma live_entry_earlier: "live_entry t st k = Some e \<Longrightarrow> now \<le> t \<Longrightarrow> live_entry now st k = Some e"
  by (auto simp: live_entry_def split: option.splits if_splits dest: expired_mono)

lemma live_entry_not_expired: "live_entry t st k = Some e \<Longrightarrow> \<not> expired t e"
  by (auto simp: live_entry_def split: option.splits if_splits)

text \<open>
  An operation leaves the entry of \<open>k\<close> alone unless it works on \<open>k\<close> and its decision on that
  entry is to write: the four decisions.
\<close>

definition writes_to :: "lease_reader \<Rightarrow> int \<Rightarrow> 'v idem_op \<Rightarrow> js_string \<Rightarrow> 'v idem_entry \<Rightarrow> bool" where
  "writes_to rd now op k e \<longleftrightarrow> en_status e = StClaimed \<and>
     (case op of
        OpClaim c \<Rightarrow> cl_key c = k \<and> check_lease rd now (cl_lease c) = Inr () \<and> stale_claim e (cl_lease c)
      | OpRelease r \<Rightarrow> rl_key r = k \<and> release_matches e r
      | OpComplete k' h oc \<Rightarrow> k' = k \<and> check_lease rd now (oc_lease oc) = Inr () \<and> \<not> completion_lost e oc
          \<and> (oc_owner oc = [] \<or> oc_owner oc = en_owner e)
      | OpQuarantine r \<Rightarrow> qr_key r = k \<and> check_lease rd now (Some (qr_lease r)) = Inr ()
          \<and> en_session e = Some (qr_session r) \<and> qr_session r = il_session (qr_lease r)
          \<and> en_owner e = qr_owner r \<and> prior_lease e (qr_lease r)
      | _ \<Rightarrow> False)"

lemma entry_survives:
  assumes "idem_inv st" and "live_entry t st k = Some e" and "now \<le> t"
    and "\<not> writes_to rd now op k e"
  shows "live_entry t (snd (apply_op sn rd now op st)) k = Some e"
proof -
  have e: "live_entry now st k = Some e" using live_entry_earlier [OF assms(2,3)] .
  have keep: "live_entry t st' k = Some e" if "same_view now st' st" for st'
    using same_viewD [OF that assms(3)] assms(2) by simp
  note on = op_on_defs op_simps live_entry_not_expired [OF assms(2)]
  show ?thesis
  proof (cases op)
    case (OpLookup x h s l)
    have "live_entry t (snd (case_prod (lookup_on sn h y) (active x now st))) k = Some e" for y
      by (rule active_case [OF assms(1)]) (use keep in \<open>auto simp: on split: option.splits\<close>)
    then show ?thesis using OpLookup assms(2) by (auto simp: lookup_def split: sum.splits)
  next
    case (OpClaim c)
    have "live_entry t (snd (case_prod (claim_on sn c y) (active (cl_key c) now st))) k = Some e"
      if "check_lease rd now (cl_lease c) = Inr ()" for y
      by (rule active_case [OF assms(1)])
        (use that assms(4) OpClaim e keep in \<open>auto simp: on writes_to_def split: option.splits\<close>)
    then show ?thesis using OpClaim assms(2) by (auto simp: claim_def split: sum.splits)
  next
    case (OpRelease r)
    have "live_entry t (snd (case_prod (release_on r) (active (rl_key r) now st))) k = Some e"
      by (rule active_case [OF assms(1)])
        (use assms(4) OpRelease e keep in \<open>auto simp: on writes_to_def release_matches_def split: option.splits\<close>)
    then show ?thesis using OpRelease assms(2) by (auto simp: release_claim_def split: sum.splits)
  next
    case (OpComplete x h oc)
    have "live_entry t (snd (case_prod (complete_on sn x h oc' y) (active x now st))) k = Some e"
      if "check_lease rd now (oc_lease oc) = Inr ()" "oc_lease oc' = oc_lease oc"
        "oc_session oc' = oc_session oc" "oc_owner oc' = oc_owner oc" for y oc'
    proof -
      have lost: "completion_lost e oc' = completion_lost e oc" using that by (simp add: completion_lost_def)
      have no: "en_status e = StClaimed \<Longrightarrow> x = k \<Longrightarrow> \<not> completion_lost e oc' \<Longrightarrow>
          oc_owner oc' \<noteq> [] \<and> en_owner e \<noteq> oc_owner oc'"
        using assms(4) OpComplete that lost by (auto simp: writes_to_def)
      show ?thesis
      proof (rule active_case [OF assms(1)])
        fix st' assume "same_view now st' st"
        note kept = keep [OF this]
        show "live_entry t (snd (complete_on sn x h oc' y (live_entry now st x) st')) k = Some e"
        proof (cases "x = k")
          case True
          then show ?thesis using kept e no
            by (cases "en_status e = StClaimed") (auto simp: complete_on_def)
        next
          case False
          then show ?thesis using kept
            by (cases "live_entry now st x") (simp_all add: complete_on_def op_simps)
        qed
      qed
    qed
    then show ?thesis using OpComplete assms(2) by (auto simp: complete_claim_def split: sum.splits)
  next
    case (OpQuarantine r)
    have "live_entry t (snd (case_prod (quarantine_on sn r x y) (active (qr_key r) now st))) k = Some e"
      if "check_lease rd now (Some (qr_lease r)) = Inr ()" "qr_session r = il_session (qr_lease r)" for x y
      by (rule active_case [OF assms(1)])
        (use that assms(4) OpQuarantine e keep in \<open>auto simp: on writes_to_def split: option.splits\<close>)
    then show ?thesis using OpQuarantine assms(2) by (auto simp: quarantine_def split: sum.splits)
  next
    case OpPrune
    then show ?thesis using prune_expired_props(2) [OF assms(1)] keep by simp
  qed
qed

text \<open>A bound on the clock readings of a history, and the condition that no step writes.\<close>

lemma entry_survives_history:
  assumes "idem_inv st" and "live_entry t st k = Some e"
    and "\<forall>(rd, now, op) \<in> set h. now \<le> t \<and> \<not> writes_to rd now op k e"
  shows "live_entry t (snd (run_history sn h st)) k = Some e"
  using assms
proof (induction h arbitrary: st)
  case (Cons x h)
  obtain rd now op where x: "x = (rd, now, op)" by (cases x)
  have "live_entry t (snd (apply_op sn rd now op st)) k = Some e"
    by (rule entry_survives) (use Cons(2-4) x in auto)
  from Cons(1) [OF apply_op_inv [OF Cons(2)] this] Cons(4) show ?case
    by (simp add: x split_beta Let_def)
qed simp

section \<open>What the store promises\<close>

text \<open>
  Property C16: a recorded outcome is final: once an action has succeeded, failed, timed out, was
  cancelled or quarantined under a key, its entry stays exactly as it is until it expires, whatever
  anyone does with the store.
\<close>

theorem recorded_outcome_is_final:
  assumes "idem_inv st" and "live_entry t st k = Some e" and "en_status e \<noteq> StClaimed"
    and "\<forall>(rd, now, op) \<in> set h. now \<le> t"
  shows "live_entry t (snd (run_history sn h st)) k = Some e"
  by (rule entry_survives_history) (use assms in \<open>auto simp: writes_to_def\<close>)

lemma claim_Claimed:
  assumes "claim sn rd now c st = (Inr (Claimed e), st')" and "idem_inv st"
  shows "live_entry now st (cl_key c) = None
      \<or> (\<exists>old. live_entry now st (cl_key c) = Some old \<and> writes_to rd now (OpClaim c) (cl_key c) old)"
    and "idem_inv st'" and "live_entry t st' (cl_key c) = (if expired t e then None else Some e)"
    and "\<exists>expires. safe_lease_expiry_at now (cl_ttl c) = Inr expires \<and> e = claim_entry c expires"
proof -
  obtain expires where expires: "safe_lease_expiry_at now (cl_ttl c) = Inr expires"
    and lease: "check_lease rd now (cl_lease c) = Inr ()"
    and run: "case_prod (claim_on sn c expires) (active (cl_key c) now st) = (Inr (Claimed e), st')"
    using assms(1) by (auto simp: claim_def split: sum.splits if_splits)
  let ?P = "\<lambda>p. \<forall>e st'. p = (Inr (Claimed e), st') \<longrightarrow>
    (live_entry now st (cl_key c) = None
      \<or> (\<exists>old. live_entry now st (cl_key c) = Some old \<and> writes_to rd now (OpClaim c) (cl_key c) old))
    \<and> idem_inv st' \<and> live_entry t st' (cl_key c) = (if expired t e then None else Some e)
    \<and> e = claim_entry c expires"
  have "?P (case_prod (claim_on sn c expires) (active (cl_key c) now st))"
    by (rule active_case [OF assms(2)])
      (use lease in \<open>auto simp: claim_on_def put_claim_def writes_to_def op_simps inv_intros split: option.splits if_splits\<close>)
  note props = this [rule_format, OF run]
  show "live_entry now st (cl_key c) = None
      \<or> (\<exists>old. live_entry now st (cl_key c) = Some old \<and> writes_to rd now (OpClaim c) (cl_key c) old)"
    using props by (rule conjunct1)
  show "idem_inv st'" using props by (elim conjE)
  show "live_entry t st' (cl_key c) = (if expired t e then None else Some e)" using props by (elim conjE)
  show "\<exists>expires. safe_lease_expiry_at now (cl_ttl c) = Inr expires \<and> e = claim_entry c expires"
    using props expires by (elim conjE) (intro exI conjI)
qed

text \<open>The reader says that the generation of lease \<open>l\<close> is the current one of its session.\<close>

definition generation_current :: "lease_reader \<Rightarrow> idem_lease \<Rightarrow> bool" where
  "generation_current rd l \<longleftrightarrow> (\<exists>read cur. rd = Some read \<and> read (il_session l) = Some cur
     \<and> l_generation cur = il_generation l)"

text \<open>Operations the owner of a claim ends it with, and completions that name no owner.\<close>

definition ends_claim :: "js_string \<Rightarrow> js_string \<Rightarrow> 'v idem_op \<Rightarrow> bool" where
  "ends_claim k owner op = (case op of
     OpRelease r \<Rightarrow> rl_key r = k \<and> rl_owner r = owner
   | OpComplete k' h oc \<Rightarrow> k' = k \<and> (oc_owner oc = owner \<or> oc_owner oc = [])
   | _ \<Rightarrow> False)"

lemma claim_not_written:
  assumes "generation_current rd l" and "\<not> ends_claim k (cl_owner c) op" and "cl_lease c = Some l"
  shows "\<not> writes_to rd now op k (claim_entry c expires)"
  using assms
  by (cases op) (auto simp: writes_to_def ends_claim_def claim_entry_def generation_current_def
      stale_claim_def prior_lease_def check_lease_def release_matches_def keep_truthy_def lease_session_def
      split: option.splits if_splits)


text \<open>
  Pruning cannot be observed: two stores with the same unexpired entries, whatever
  garbage they hold, in whatever order and wherever their prune cursors stand, give the same
  replies to every history of operations whose clock does not run backwards; in particular a store
  answers the same before and after \<open>pruneExpired\<close>.
\<close>

theorem pruning_is_invisible:
  assumes "idem_inv a" and "idem_inv b" and "same_view now a b" and "clock_from now h"
  shows "fst (run_history sn h a) = fst (run_history sn h b)
    \<and> fst (run_history sn h (snd (prune_expired now a))) = fst (run_history sn h a)"
  using run_history_cong [OF assms(3,1,2,4)]
    run_history_cong [OF prune_expired_props(2,1) [OF assms(1)] assms(1,4)] by simp

section \<open>A run\<close>

definition copying :: "nat snapshots" where
  "copying = \<lparr>sn_copy = Inr, sn_same = (=)\<rparr>"

definition tool_lease :: idem_lease where
  "tool_lease = \<lparr>il_session = [1], il_holder = [2], il_fence = 1, il_generation = [3]\<rparr>"

definition live_reader :: lease_reader where
  "live_reader = Some (\<lambda>sid. if sid = [1] then Some first_lease else None)"

definition tool_claim :: "js_string \<Rightarrow> idem_claim" where
  "tool_claim owner = \<lparr>cl_key = [7], cl_session = Some [1], cl_lease = Some tool_lease,
     cl_tool_id = Some [8], cl_tool_version = Some [9], cl_hash = [10], cl_owner = owner, cl_ttl = 5\<rparr>"

definition claimed_store :: "nat idem_store" where
  "claimed_store = \<lparr>is_entries = [([7], claim_entry (tool_claim [11]) 6)], is_cursor = 0\<rparr>"

definition finished_store :: "nat idem_store" where
  "finished_store = \<lparr>is_entries =
     [([7], (claim_entry (tool_claim [11]) 6)\<lparr>en_status := StSucceeded, en_output := Some 42\<rparr>)], is_cursor = 0\<rparr>"

lemma new_idem_store_inv: "idem_inv new_idem_store"
  by (simp add: idem_inv_def new_idem_store_def)

lemma first_claim:
  "claim copying live_reader 1 (tool_claim [11]) new_idem_store =
    (Inr (Claimed (claim_entry (tool_claim [11]) 6)), claimed_store)"
  by (simp add: claim_def tool_claim_def safe_lease_expiry_at_def assert_lease_ttl_ms_def
      assert_lease_timestamp_ms_def is_safe_integer_def max_safe_integer_def check_lease_def live_reader_def
      tool_lease_def first_lease_def foreign_lease_def bypasses_lease_def active_def numeral_eq_Suc
      new_idem_store_def claim_on_def put_claim_def set_entry_def claimed_store_def Let_def)

theorem recorded_outcome_is_final_witness:
  "map_option en_output (live_entry 5 (snd (run_history copying
      [(live_reader, 4, OpClaim (tool_claim [12]))] finished_store)) [7]) = Some (Some 42)"
proof -
  have live: "live_entry 5 finished_store [7] =
      Some ((claim_entry (tool_claim [11]) 6)\<lparr>en_status := StSucceeded, en_output := Some 42\<rparr>)"
    and inv: "idem_inv finished_store"
    by (simp_all add: live_entry_def finished_store_def expired_def claim_entry_def idem_inv_def)
  show ?thesis
    using recorded_outcome_is_final [OF inv live, of "[(live_reader, 4, OpClaim (tool_claim [12]))]" copying]
    by simp
qed


theorem pruning_is_invisible_witness:
  "fst (run_history copying [(live_reader, 9, OpClaim (tool_claim [12]))] claimed_store)
    = fst (run_history copying [(live_reader, 9, OpClaim (tool_claim [12]))] new_idem_store)"
proof -
  have "idem_inv claimed_store" by (simp add: idem_inv_def claimed_store_def)
  moreover have "same_view 8 claimed_store new_idem_store"
    by (auto simp: same_view_def live_entry_def claimed_store_def new_idem_store_def expired_def
        claim_entry_def fun_eq_iff)
  ultimately show ?thesis
    using pruning_is_invisible [OF _ new_idem_store_inv, of claimed_store 8
      "[(live_reader, 9, OpClaim (tool_claim [12]))]" copying] by (simp del: run_history.simps)
qed
end
