(* ===== verification/Numbers.thy ===== *)
theory Numbers
  imports Prelude Complex_Main
begin

text \<open>
  Finite numbers with a fraction. The sources compute with double precision; the models compute
  with rationals where a value may have a fraction, and say so.
\<close>

definition is_safe_number :: "rat \<Rightarrow> bool" where
  "is_safe_number x \<longleftrightarrow> x = of_int \<lfloor>x\<rfloor> \<and> is_safe_integer \<lfloor>x\<rfloor>"

end
