(* ===== verification/Tool_Execution.thy ===== *)
theory Tool_Execution
  imports Idempotency_Store Numbers
begin

text \<open>
  Running a tool: \<open>packages/tools/src/index.ts\<close> (the policy snapshots, the retry loop, one
  attempt with its timeout and abort, \<open>executeTool\<close> around them) and the time budgets of
  \<open>packages/tools/src/idempotency.ts\<close>.

  A tool call is described by what the environment does: for each attempt whether the caller's
  signal is aborted at the points the code looks at it, and the events its promise sees, in order.
  Timestamps, messages and logging are left out; an error is its code, category and retriable flag.
  The idempotency identity (a SHA-256 digest of the request) and the schema validator are arguments.
\<close>

section \<open>Policies\<close>

record timeout_policy =
  tp_timeout_ms :: int
  tp_on_timeout :: js_string

record retry_policy =
  rp_max_attempts :: int
  rp_initial_delay_ms :: rat
  rp_max_delay_ms :: rat
  rp_backoff :: js_string
  rp_jitter :: bool
  rp_codes :: "js_string list option"

record idempotency_policy =
  ip_enabled :: bool
  ip_template :: "js_string option"
  ip_ttl_ms :: "int option"
  ip_legacy :: "bool option"

text \<open>
  \<open>td_shape\<close> is the outcome of the checks that only look at the dynamic types of the other fields:
  \<open>execute\<close> is a function, the metadata an object, the schemas JSON, the scopes and tags strings.
\<close>

record tool_definition =
  td_id :: js_string
  td_name :: js_string
  td_version :: js_string
  td_timeout :: timeout_policy
  td_retry :: retry_policy
  td_idempotency :: idempotency_policy
  td_shape :: "unit result"

definition type_check :: "bool \<Rightarrow> string \<Rightarrow> unit result" where
  "type_check ok msg = rcheck ok (TypeError (js msg))"

definition snapshot_timeout_policy :: "timeout_policy \<Rightarrow> timeout_policy result" where
  "snapshot_timeout_policy p =
     rbind (type_check (is_safe_integer (tp_timeout_ms p) \<and> 1 \<le> tp_timeout_ms p)
       ''Tool timeout must be a positive safe integer in milliseconds'') (\<lambda>_.
     rbind (type_check (tp_on_timeout p = js ''fail'' \<or> tp_on_timeout p = js ''interrupt'')
       ''Tool timeout action must be fail or interrupt'') (\<lambda>_. Inr p))"

definition snapshot_retry_policy :: "retry_policy \<Rightarrow> retry_policy result" where
  "snapshot_retry_policy p =
     rbind (type_check (is_safe_integer (rp_max_attempts p) \<and> 1 \<le> rp_max_attempts p)
       ''Tool retry maxAttempts must be a positive safe integer'') (\<lambda>_.
     rbind (type_check (0 \<le> rp_initial_delay_ms p)
       ''Tool retry initialDelayMs must be a non-negative finite number'') (\<lambda>_.
     rbind (type_check (0 \<le> rp_max_delay_ms p)
       ''Tool retry maxDelayMs must be a non-negative finite number'') (\<lambda>_.
     rbind (type_check (rp_backoff p = js ''fixed'' \<or> rp_backoff p = js ''linear''
                        \<or> rp_backoff p = js ''exponential'')
       ''Tool retry backoff must be fixed, linear, or exponential'') (\<lambda>_. Inr p))))"

definition snapshot_idempotency_policy :: "idempotency_policy \<Rightarrow> idempotency_policy result" where
  "snapshot_idempotency_policy p =
     rbind (type_check (case ip_ttl_ms p of None \<Rightarrow> True | Some t \<Rightarrow> is_safe_integer t \<and> 1 \<le> t)
       ''Tool idempotency ttlMs must be a positive safe integer'') (\<lambda>_. Inr p)"

definition require_non_empty :: "js_string \<Rightarrow> string \<Rightarrow> unit result" where
  "require_non_empty s field = type_check (s \<noteq> []) (''Tool '' @ field @ '' must not be empty'')"

definition snapshot_tool_definition :: "tool_definition \<Rightarrow> tool_definition result" where
  "snapshot_tool_definition td =
     rbind (require_non_empty (td_id td) ''id'') (\<lambda>_.
     rbind (require_non_empty (td_name td) ''name'') (\<lambda>_.
     rbind (require_non_empty (td_version td) ''version'') (\<lambda>_.
     rbind (td_shape td) (\<lambda>_.
     rbind (snapshot_timeout_policy (td_timeout td)) (\<lambda>t.
     rbind (snapshot_retry_policy (td_retry td)) (\<lambda>r.
     rbind (snapshot_idempotency_policy (td_idempotency td)) (\<lambda>i.
       Inr (td\<lparr>td_timeout := t, td_retry := r, td_idempotency := i\<rparr>))))))))"

section \<open>Time budgets\<close>

definition default_idempotency_ttl_ms :: int where "default_idempotency_ttl_ms = 60000"

definition idempotency_claim_safety_ms :: int where "idempotency_claim_safety_ms = 1000"

definition idempotency_retention_ttl_ms :: "tool_definition \<Rightarrow> int" where
  "idempotency_retention_ttl_ms td =
     (let ttl = (case ip_ttl_ms (td_idempotency td) of None \<Rightarrow> default_idempotency_ttl_ms | Some t \<Rightarrow> t)
      in if is_safe_integer ttl \<and> 0 < ttl then ttl else default_idempotency_ttl_ms)"

definition execution_budget_ms :: "tool_definition \<Rightarrow> rat" where
  "execution_budget_ms td =
     of_int (tp_timeout_ms (td_timeout td)) * of_int (rp_max_attempts (td_retry td))
       + rp_max_delay_ms (td_retry td) * of_int (rp_max_attempts (td_retry td) - 1)"

definition idempotency_claim_ttl_ms :: "tool_definition \<Rightarrow> int \<Rightarrow> int" where
  "idempotency_claim_ttl_ms td retention =
     (if \<not> is_safe_integer (rp_max_attempts (td_retry td)) \<or> rp_max_attempts (td_retry td) < 1
         \<or> \<not> is_safe_integer (tp_timeout_ms (td_timeout td)) \<or> tp_timeout_ms (td_timeout td) < 1
         \<or> \<not> is_safe_number (rp_max_delay_ms (td_retry td)) \<or> rp_max_delay_ms (td_retry td) < 0
      then max retention default_idempotency_ttl_ms
      else if \<not> is_safe_number (execution_budget_ms td)
      then max retention default_idempotency_ttl_ms
      else max retention (\<lfloor>execution_budget_ms td\<rfloor> + idempotency_claim_safety_ms))"

text \<open>\<open>u\<close> is the value of \<open>Math.random()\<close>; \<open>Math.round\<close> rounds halves up.\<close>

definition round_half_up :: "rat \<Rightarrow> int" where
  "round_half_up x = \<lfloor>x + 1 / 2\<rfloor>"

definition backoff_delay_ms :: "retry_policy \<Rightarrow> int \<Rightarrow> rat \<Rightarrow> rat" where
  "backoff_delay_ms p attempt u =
     (let step = max 0 (attempt - 1);
          base = (if rp_backoff p = js ''exponential'' then rp_initial_delay_ms p * 2 ^ nat step
                  else if rp_backoff p = js ''linear'' then rp_initial_delay_ms p * of_int attempt
                  else rp_initial_delay_ms p);
          bounded = min base (rp_max_delay_ms p)
      in if rp_jitter p then of_int (round_half_up (bounded * (1 / 2 + u * (1 / 2)))) else bounded)"

section \<open>One attempt\<close>

datatype thrown = ThrownNormalized normalized_error | ThrownLeaseLost | ThrownOther

definition validation_error :: "string \<Rightarrow> normalized_error" where
  "validation_error code = \<lparr>ne_code = js code, ne_category = CatValidation, ne_retriable = False\<rparr>"

definition tool_error_final :: "string \<Rightarrow> normalized_error" where
  "tool_error_final code = \<lparr>ne_code = js code, ne_category = CatTool, ne_retriable = False\<rparr>"

definition tool_cancelled_error :: normalized_error where
  "tool_cancelled_error = \<lparr>ne_code = js ''tool.cancelled'', ne_category = CatCancelled, ne_retriable = False\<rparr>"

definition tool_timeout_error :: normalized_error where
  "tool_timeout_error = \<lparr>ne_code = js ''tool.timeout'', ne_category = CatTimeout, ne_retriable = True\<rparr>"

datatype tool_status = TcSucceeded | TcFailed | TcTimedOut | TcCancelled

text \<open>The result of a call; the flags are the \<open>metadata\<close> fields the code sets.\<close>

record 'v tool_call =
  tc_status :: tool_status
  tc_attempts :: int
  tc_key :: "js_string option"
  tc_output :: "'v option"
  tc_error :: "normalized_error option"
  tc_idempotent_hit :: bool
  tc_ambiguous :: bool
  tc_retry_cancelled :: bool
  tc_unrecorded :: bool

definition tool_result :: "tool_status \<Rightarrow> int \<Rightarrow> js_string option \<Rightarrow> 'v option \<Rightarrow> normalized_error option \<Rightarrow> 'v tool_call" where
  "tool_result s n k out err =
     \<lparr>tc_status = s, tc_attempts = n, tc_key = k, tc_output = out, tc_error = err,
      tc_idempotent_hit = False, tc_ambiguous = False, tc_retry_cancelled = False, tc_unrecorded = False\<rparr>"

text \<open>
  The events a running attempt sees. The first one settles \<open>runWithLimits\<close>; the timer is always
  armed, so a list without a decision ends in the timeout.
\<close>

datatype 'v race_event = PromiseResolves 'v | PromiseRejects thrown | ParentAborts | TimerFires

fun run_with_limits :: "bool \<Rightarrow> 'v race_event list \<Rightarrow> thrown + 'v" where
  "run_with_limits True evs = Inl (ThrownNormalized tool_cancelled_error)"
| "run_with_limits False [] = Inl (ThrownNormalized tool_timeout_error)"
| "run_with_limits False (PromiseResolves v # evs) = Inr v"
| "run_with_limits False (PromiseRejects e # evs) = Inl e"
| "run_with_limits False (ParentAborts # evs) = Inl (ThrownNormalized tool_cancelled_error)"
| "run_with_limits False (TimerFires # evs) = Inl (ThrownNormalized tool_timeout_error)"

fun as_normalized_error :: "thrown \<Rightarrow> normalized_error" where
  "as_normalized_error (ThrownNormalized e) = e"
| "as_normalized_error ThrownLeaseLost = tool_error_final ''tool.lease_lost''"
| "as_normalized_error ThrownOther = tool_error_final ''tool.execution_failed''"

definition tool_failure_status :: "normalized_error \<Rightarrow> tool_status" where
  "tool_failure_status e =
     (if ne_category e = CatTimeout then TcTimedOut
      else if ne_category e = CatCancelled then TcCancelled else TcFailed)"

datatype validation = Valid | Invalid | ValidatorThrows

record 'v attempt_env =
  ae_aborted_at_start :: bool
  ae_events :: "'v race_event list"
  ae_aborted_at_check :: bool
  ae_aborted_after_sleep :: bool

text \<open>The result of an attempt, and whether the tool was executed.\<close>

definition failed_attempt :: "thrown \<Rightarrow> int \<Rightarrow> js_string option \<Rightarrow> 'v tool_call" where
  "failed_attempt e attempt key =
     (let normalized = as_normalized_error e;
          ambiguous = (ne_category normalized = CatTimeout \<or> ne_category normalized = CatCancelled);
          safe = (if ambiguous then normalized\<lparr>ne_retriable := False\<rparr> else normalized)
      in (tool_result (tool_failure_status safe) attempt key None (Some safe))\<lparr>tc_ambiguous := True\<rparr>)"

definition run_tool_attempt ::
    "('v \<Rightarrow> 'v result) \<Rightarrow> ('v \<Rightarrow> validation) \<Rightarrow> js_string option \<Rightarrow> int \<Rightarrow> 'v attempt_env
      \<Rightarrow> 'v tool_call \<times> bool" where
  "run_tool_attempt copy validate key attempt env =
     (if ae_aborted_at_start env
      then (tool_result TcCancelled attempt key None (Some tool_cancelled_error), False)
      else (case run_with_limits False (ae_events env) of
          Inl e \<Rightarrow> (failed_attempt e attempt key, True)
        | Inr raw \<Rightarrow>
            (case copy raw of
               Inl _ \<Rightarrow> ((tool_result TcFailed attempt key None
                   (Some (validation_error ''tool.output_not_serializable'')))\<lparr>tc_ambiguous := True\<rparr>, True)
             | Inr out \<Rightarrow>
                 if validate out \<noteq> Valid
                 then ((tool_result TcFailed attempt key None
                   (Some (validation_error ''tool.output_validation_failed'')))\<lparr>tc_ambiguous := True\<rparr>, True)
                 else (tool_result TcSucceeded attempt key (Some out) None, True))))"

section \<open>The retry loop\<close>

definition is_retriable :: "normalized_error \<Rightarrow> retry_policy \<Rightarrow> bool" where
  "is_retriable e p =
     (if \<not> ne_retriable e then False
      else (case rp_codes p of
          Some codes \<Rightarrow> if codes \<noteq> [] then ne_code e \<in> set codes else ne_retriable e
        | None \<Rightarrow> ne_retriable e))"

definition wants_retry :: "retry_policy \<Rightarrow> int \<Rightarrow> 'v tool_call \<Rightarrow> bool" where
  "wants_retry p attempt r \<longleftrightarrow> (tc_status r = TcFailed \<or> tc_status r = TcTimedOut)
     \<and> attempt < rp_max_attempts p
     \<and> (case tc_error r of None \<Rightarrow> False | Some e \<Rightarrow> is_retriable e p)"

text \<open>
  The loop state: the attempt number, the last result, how often the tool was executed, and
  whether the caller cancelled during a retry delay.
\<close>

record 'v loop_state =
  lp_attempt :: int
  lp_result :: "'v tool_call"
  lp_executions :: nat
  lp_cancelled :: bool

type_synonym 'v attempt_runner = "int \<Rightarrow> 'v tool_call \<times> bool"

definition count_if :: "bool \<Rightarrow> nat" where "count_if b = (if b then 1 else 0)"

function retry_loop ::
    "retry_policy \<Rightarrow> (int \<Rightarrow> 'v attempt_env) \<Rightarrow> 'v attempt_runner \<Rightarrow> 'v loop_state \<Rightarrow> 'v loop_state" where
  "retry_loop p env run s =
     (if wants_retry p (lp_attempt s) (lp_result s) \<and> \<not> ae_aborted_at_check (env (lp_attempt s)) then
        (if ae_aborted_after_sleep (env (lp_attempt s)) then s\<lparr>lp_cancelled := True\<rparr>
         else let n = lp_attempt s + 1; r = run n
           in retry_loop p env run \<lparr>lp_attempt = n, lp_result = fst r,
                lp_executions = lp_executions s + count_if (snd r), lp_cancelled = False\<rparr>)
      else s)"
  by pat_completeness auto
termination
  by (relation "measure (\<lambda>(p, env, run, s). nat (rp_max_attempts p - lp_attempt s))")
    (auto simp: wants_retry_def)

declare retry_loop.simps [simp del]

definition first_attempt :: "'v attempt_runner \<Rightarrow> int \<Rightarrow> 'v loop_state" where
  "first_attempt run n = \<lparr>lp_attempt = n, lp_result = fst (run n),
     lp_executions = count_if (snd (run n)), lp_cancelled = False\<rparr>"

definition after_loop :: "js_string option \<Rightarrow> 'v loop_state \<Rightarrow> 'v tool_call" where
  "after_loop key s =
     (let r = lp_result s in
      if lp_cancelled s \<and> (tc_status r = TcFailed \<or> tc_status r = TcTimedOut)
      then r\<lparr>tc_status := TcCancelled, tc_key := key, tc_output := None,
             tc_error := Some tool_cancelled_error, tc_retry_cancelled := True\<rparr>
      else r)"

section \<open>executeTool\<close>

text \<open>The store the call uses, with the session and lease of the request built in.\<close>

record ('v, 'st) idem_ops =
  io_lookup :: "js_string \<Rightarrow> js_string \<Rightarrow> 'st \<Rightarrow> 'v lookup_result result \<times> 'st"
  io_claim :: "js_string \<Rightarrow> js_string \<Rightarrow> int \<Rightarrow> 'st \<Rightarrow> 'v claim_result result \<times> 'st"
  io_release :: "js_string \<Rightarrow> js_string \<Rightarrow> 'st \<Rightarrow> bool result \<times> 'st"
  io_complete :: "js_string \<Rightarrow> js_string \<Rightarrow> int \<Rightarrow> idem_status \<Rightarrow> 'v option \<Rightarrow> normalized_error option \<Rightarrow> 'st \<Rightarrow> unit result \<times> 'st"

record idem_identity =
  id_key :: js_string
  id_hash :: js_string
  id_legacy :: "(js_string \<times> js_string) option"

record ('v, 'st) tool_request =
  rq_tool :: tool_definition
  rq_input :: 'v
  rq_attempt :: "int option"
  rq_identity :: "idem_identity option result"
  rq_store :: "('v, 'st) idem_ops option"
  rq_env :: "int \<Rightarrow> 'v attempt_env"
  rq_meanwhile :: "'st \<Rightarrow> 'st"
  rq_input_valid :: "'v \<Rightarrow> validation"
  rq_output_valid :: "'v \<Rightarrow> validation"
  rq_copy :: "'v \<Rightarrow> 'v result"
  rq_stored_error :: "'v \<Rightarrow> normalized_error"

definition start_attempt :: "('v, 'st) tool_request \<Rightarrow> int" where
  "start_attempt rq = (case rq_attempt rq of None \<Rightarrow> 1 | Some n \<Rightarrow> n)"

definition refused :: "('v, 'st) tool_request \<Rightarrow> js_string option \<Rightarrow> string \<Rightarrow> 'v tool_call" where
  "refused rq key code =
     tool_result TcFailed (start_attempt rq) key None (Some (validation_error code))"

fun store_status :: "tool_status \<Rightarrow> idem_status" where
  "store_status TcSucceeded = StSucceeded"
| "store_status TcFailed = StFailed"
| "store_status TcTimedOut = StTimedOut"
| "store_status TcCancelled = StCancelled"

fun call_status :: "idem_status \<Rightarrow> tool_status" where
  "call_status StSucceeded = TcSucceeded"
| "call_status StFailed = TcFailed"
| "call_status StTimedOut = TcTimedOut"
| "call_status StCancelled = TcCancelled"
| "call_status StClaimed = TcFailed"

text \<open>The replies to a claim that end the call without executing the tool.\<close>

definition terminal_hit :: "('v, 'st) tool_request \<Rightarrow> js_string \<Rightarrow> 'v idem_entry \<Rightarrow> 'v tool_call" where
  "terminal_hit rq key e =
     (let err = (case en_error e of Some v \<Rightarrow> rq_stored_error rq v
                 | None \<Rightarrow> tool_error_final ''tool.idempotency_terminal'')
      in (tool_result (call_status (en_status e)) (start_attempt rq) (Some key) None
            (Some (err\<lparr>ne_retriable := False\<rparr>)))\<lparr>tc_idempotent_hit := True, tc_ambiguous := True\<rparr>)"

definition claim_reply :: "('v, 'st) tool_request \<Rightarrow> js_string \<Rightarrow> 'v claim_result \<Rightarrow> 'v tool_call option" where
  "claim_reply rq key c =
     (case c of
        Claimed e \<Rightarrow> None
      | ClaimConflict \<Rightarrow> Some (refused rq (Some key) ''tool.idempotency_conflict'')
      | InProgress e \<Rightarrow> Some (refused rq (Some key) ''tool.idempotency_in_progress'')
      | Succeeded e \<Rightarrow> Some ((tool_result TcSucceeded (start_attempt rq) (Some key) (en_output e) None)
            \<lparr>tc_idempotent_hit := True\<rparr>)
      | Terminal e \<Rightarrow>
          if en_status e = StClaimed \<or> en_status e = StSucceeded
          then Some (refused rq (Some key) ''tool.idempotency_conflict'')
          else Some (terminal_hit rq key e))"

definition completion_failure :: "'v tool_call \<Rightarrow> 'v tool_call" where
  "completion_failure r = r\<lparr>tc_status := TcFailed, tc_output := None,
     tc_error := Some (tool_error_final ''tool.idempotency_result_unrecorded''),
     tc_ambiguous := True, tc_unrecorded := True\<rparr>"

text \<open>The loop, from the first attempt to the result before it is recorded.\<close>

definition run_attempts :: "('v, 'st) tool_request \<Rightarrow> js_string option \<Rightarrow> 'v loop_state" where
  "run_attempts rq key =
     (let run = (\<lambda>n. run_tool_attempt (rq_copy rq) (rq_output_valid rq) key n (rq_env rq n))
      in retry_loop (td_retry (rq_tool rq)) (rq_env rq) run (first_attempt run (start_attempt rq)))"

text \<open>
  What a call returns: its result (or what it throws), how often the tool was executed, and the
  store. \<open>rq_meanwhile\<close> is what others did to the store while the tool ran.
\<close>

type_synonym ('v, 'st) call_outcome = "'v tool_call result \<times> nat \<times> 'st"

definition record_result ::
    "('v, 'st) tool_request \<Rightarrow> ('v, 'st) idem_ops \<Rightarrow> idem_identity \<Rightarrow> 'v loop_state \<Rightarrow> 'st \<Rightarrow> ('v, 'st) call_outcome" where
  "record_result rq ops i s st =
     (let r = after_loop (Some (id_key i)) s in
      if lp_executions s = 0 \<and> tc_status r = TcCancelled
      then (Inr r, 0, snd (io_release ops (id_key i) (id_hash i) st))
      else (case io_complete ops (id_key i) (id_hash i) (idempotency_retention_ttl_ms (rq_tool rq))
                   (store_status (tc_status r)) (tc_output r) (tc_error r) st of
          (Inl e, st') \<Rightarrow> (Inr (completion_failure r), lp_executions s, st')
        | (Inr _, st') \<Rightarrow> (Inr r, lp_executions s, st')))"

definition claim_and_run ::
    "('v, 'st) tool_request \<Rightarrow> ('v, 'st) idem_ops \<Rightarrow> idem_identity \<Rightarrow> 'st \<Rightarrow> ('v, 'st) call_outcome" where
  "claim_and_run rq ops i st =
     (case io_claim ops (id_key i) (id_hash i)
             (idempotency_claim_ttl_ms (rq_tool rq) (idempotency_retention_ttl_ms (rq_tool rq))) st of
        (Inl e, st') \<Rightarrow> (Inl e, 0, st')
      | (Inr c, st') \<Rightarrow>
          (case claim_reply rq (id_key i) c of
             Some r \<Rightarrow> (Inr r, 0, st')
           | None \<Rightarrow> record_result rq ops i (run_attempts rq (Some (id_key i))) (rq_meanwhile rq st')))"

definition with_idempotency ::
    "('v, 'st) tool_request \<Rightarrow> ('v, 'st) idem_ops \<Rightarrow> idem_identity \<Rightarrow> 'st \<Rightarrow> ('v, 'st) call_outcome" where
  "with_idempotency rq ops i st =
     (case id_legacy i of
        Some (k, h) \<Rightarrow>
          if k \<noteq> id_key i then
            (case io_lookup ops k h st of
               (Inl e, st') \<Rightarrow> (Inl e, 0, st')
             | (Inr LookupConflict, st') \<Rightarrow> (Inr (refused rq (Some (id_key i)) ''tool.idempotency_conflict''), 0, st')
             | (Inr (FoundEntry e), st') \<Rightarrow> (Inr (refused rq (Some (id_key i)) ''tool.idempotency_conflict''), 0, st')
             | (Inr Missing, st') \<Rightarrow> claim_and_run rq ops i st')
          else claim_and_run rq ops i st
      | None \<Rightarrow> claim_and_run rq ops i st)"

definition execute_tool :: "('v, 'st) tool_request \<Rightarrow> 'st \<Rightarrow> ('v, 'st) call_outcome" where
  "execute_tool rq0 st =
     (case snapshot_tool_definition (rq_tool rq0) of
        Inl e \<Rightarrow> (Inr (refused rq0 None ''tool.invalid_definition''), 0, st)
      | Inr td \<Rightarrow>
        (case rq_copy rq0 (rq_input rq0) of
           Inl e \<Rightarrow> (Inr (refused rq0 None ''tool.input_not_serializable''), 0, st)
         | Inr input \<Rightarrow>
             let rq = rq0\<lparr>rq_tool := td, rq_input := input\<rparr> in
             if rq_input_valid rq input \<noteq> Valid
             then (Inr (refused rq None ''tool.input_validation_failed''), 0, st)
             else (case rq_identity rq of
                 Inl e \<Rightarrow> (Inr (refused rq None ''tool.input_not_serializable''), 0, st)
               | Inr identity \<Rightarrow>
                   (case (identity, rq_store rq) of
                      (Some i, Some ops) \<Rightarrow>
                        if id_key i \<noteq> [] then with_idempotency rq ops i st
                        else (let s = run_attempts rq (map_option id_key identity)
                              in (Inr (after_loop (map_option id_key identity) s), lp_executions s, rq_meanwhile rq st))
                    | _ \<Rightarrow> (let s = run_attempts rq (map_option id_key identity)
                            in (Inr (after_loop (map_option id_key identity) s), lp_executions s, rq_meanwhile rq st))))))"

section \<open>The retry loop\<close>

text \<open>
  A run of the loop: it ends after some number of further attempts, each of which followed a result
  that wanted a retry, at a result that does not continue or at a cancelled delay.
\<close>

lemma retry_loop_step:
  "retry_loop p env run s =
    (if wants_retry p (lp_attempt s) (lp_result s) \<and> \<not> ae_aborted_at_check (env (lp_attempt s)) then
       (if ae_aborted_after_sleep (env (lp_attempt s)) then s\<lparr>lp_cancelled := True\<rparr>
        else retry_loop p env run \<lparr>lp_attempt = lp_attempt s + 1, lp_result = fst (run (lp_attempt s + 1)),
               lp_executions = lp_executions s + count_if (snd (run (lp_attempt s + 1))), lp_cancelled = False\<rparr>)
     else s)"
  by (subst retry_loop.simps) (simp add: Let_def)

lemma retry_loop_run:
  "lp_result s = fst (run (lp_attempt s)) \<Longrightarrow>
    \<exists>k. lp_attempt (retry_loop p env run s) = lp_attempt s + int k
      \<and> lp_result (retry_loop p env run s) = fst (run (lp_attempt s + int k))
      \<and> lp_executions (retry_loop p env run s) \<le> lp_executions s + k
      \<and> (\<forall>j < k. wants_retry p (lp_attempt s + int j) (fst (run (lp_attempt s + int j))))
      \<and> (lp_cancelled (retry_loop p env run s) \<longrightarrow> lp_cancelled s \<or>
           wants_retry p (lp_attempt s + int k) (fst (run (lp_attempt s + int k))))"
proof (induction p env run s rule: retry_loop.induct)
  case (1 p env run s)
  let ?n = "lp_attempt s + 1"
  let ?s = "\<lparr>lp_attempt = ?n, lp_result = fst (run ?n), lp_executions = lp_executions s + count_if (snd (run ?n)),
    lp_cancelled = False\<rparr> :: 'a loop_state"
  note step = retry_loop_step [of p env run s]
  let ?c = "wants_retry p (lp_attempt s) (lp_result s) \<and> \<not> ae_aborted_at_check (env (lp_attempt s))"
  consider (go) "wants_retry p (lp_attempt s) (lp_result s)" "\<not> ae_aborted_at_check (env (lp_attempt s))"
      "\<not> ae_aborted_after_sleep (env (lp_attempt s))" "retry_loop p env run s = retry_loop p env run ?s"
    | (stop) "retry_loop p env run s = s \<or> retry_loop p env run s = s\<lparr>lp_cancelled := True\<rparr>
        \<and> wants_retry p (lp_attempt s) (lp_result s)"
  proof (cases ?c)
    case True
    then show thesis
    proof (cases "ae_aborted_after_sleep (env (lp_attempt s))")
      case wake: True
      then show thesis using step True stop by simp
    next
      case False
      then show thesis using step True by (intro go) simp_all
    qed
  next
    case False
    have "retry_loop p env run s = s" using step unfolding if_not_P [OF False] .
    then show thesis using stop by simp
  qed
  then show ?case
  proof cases
    case stop
    then show ?thesis using 1(2) by (intro exI [of _ 0]) auto
  next
    case go
    have "count_if (snd (run ?n)) \<le> 1" by (simp add: count_if_def)
    moreover from 1(1) [OF conjI [OF go(1,2)] go(3) refl refl] obtain k where
      k: "lp_attempt (retry_loop p env run ?s) = ?n + int k"
      "lp_result (retry_loop p env run ?s) = fst (run (?n + int k))"
      "lp_executions (retry_loop p env run ?s) \<le> lp_executions ?s + k"
      "\<forall>j < k. wants_retry p (?n + int j) (fst (run (?n + int j)))"
      "lp_cancelled (retry_loop p env run ?s) \<longrightarrow> wants_retry p (?n + int k) (fst (run (?n + int k)))"
      by auto
    moreover have "wants_retry p (lp_attempt s + int j) (fst (run (lp_attempt s + int j)))" if "j < Suc k" for j
      using k(4) go(1) 1(2) that by (cases j) (auto simp: algebra_simps)
    ultimately show ?thesis
      unfolding go(4) by (intro exI [of _ "Suc k"]) (auto simp: algebra_simps)
  qed
qed

lemma attempt_wants_retry:
  assumes "wants_retry p n (fst (run_tool_attempt copy validate key m env))"
  shows "n < rp_max_attempts p \<and> (\<exists>e. tc_error (fst (run_tool_attempt copy validate key m env)) = Some e
    \<and> ne_retriable e \<and> ne_category e \<noteq> CatTimeout \<and> ne_category e \<noteq> CatCancelled
    \<and> tc_status (fst (run_tool_attempt copy validate key m env)) = TcFailed)"
  using assms
  by (auto simp: wants_retry_def run_tool_attempt_def failed_attempt_def tool_result_def is_retriable_def
      tool_failure_status_def tool_cancelled_error_def validation_error_def Let_def
      split: if_splits sum.splits option.splits)
lemma run_attempts_run:
  "\<exists>k. lp_result (run_attempts rq key)
        = fst (run_tool_attempt (rq_copy rq) (rq_output_valid rq) key (start_attempt rq + int k)
            (rq_env rq (start_attempt rq + int k)))
    \<and> lp_executions (run_attempts rq key) \<le> Suc k
    \<and> (\<forall>j < k. wants_retry (td_retry (rq_tool rq)) (start_attempt rq + int j)
        (fst (run_tool_attempt (rq_copy rq) (rq_output_valid rq) key (start_attempt rq + int j)
            (rq_env rq (start_attempt rq + int j)))))"
proof -
  let ?run = "\<lambda>n. run_tool_attempt (rq_copy rq) (rq_output_valid rq) key n (rq_env rq n)"
  have "lp_executions (first_attempt ?run (start_attempt rq)) \<le> 1"
    by (simp add: first_attempt_def count_if_def)
  then show ?thesis
    using retry_loop_run [of "first_attempt ?run (start_attempt rq)" ?run "td_retry (rq_tool rq)" "rq_env rq"]
    by (auto simp: run_attempts_def Let_def first_attempt_def)
qed

definition execution_bound :: "('v, 'st) tool_request \<Rightarrow> nat" where
  "execution_bound rq = nat (max 1 (rp_max_attempts (td_retry (rq_tool rq)) - start_attempt rq + 1))"

lemma run_attempts_bound: "lp_executions (run_attempts rq key) \<le> execution_bound rq"
proof -
  from run_attempts_run [of rq key] obtain k where k: "lp_executions (run_attempts rq key) \<le> Suc k"
    "\<forall>j < k. wants_retry (td_retry (rq_tool rq)) (start_attempt rq + int j)
        (fst (run_tool_attempt (rq_copy rq) (rq_output_valid rq) key (start_attempt rq + int j)
            (rq_env rq (start_attempt rq + int j))))" by blast
  have "k = 0 \<or> start_attempt rq + int (k - 1) < rp_max_attempts (td_retry (rq_tool rq))"
    using k(2) [rule_format, of "k - 1"] by (cases k) (auto simp: wants_retry_def)
  then have "Suc k \<le> execution_bound rq" by (auto simp: execution_bound_def)
  with k(1) show ?thesis by simp
qed

section \<open>The whole call\<close>

lemma snapshot_timeout_policy_Inr:
  "snapshot_timeout_policy p = Inr p' \<Longrightarrow> p' = p \<and> is_safe_integer (tp_timeout_ms p) \<and> 1 \<le> tp_timeout_ms p"
  by (auto simp: snapshot_timeout_policy_def type_check_def)

lemma snapshot_retry_policy_Inr:
  "snapshot_retry_policy p = Inr p' \<Longrightarrow> p' = p \<and> is_safe_integer (rp_max_attempts p)
    \<and> 1 \<le> rp_max_attempts p \<and> 0 \<le> rp_initial_delay_ms p \<and> 0 \<le> rp_max_delay_ms p"
  by (auto simp: snapshot_retry_policy_def type_check_def)

lemma snapshot_tool_definition_Inr:
  assumes "snapshot_tool_definition td = Inr td'"
  shows "td' = td \<and> is_safe_integer (tp_timeout_ms (td_timeout td)) \<and> 1 \<le> tp_timeout_ms (td_timeout td)
    \<and> is_safe_integer (rp_max_attempts (td_retry td)) \<and> 1 \<le> rp_max_attempts (td_retry td)
    \<and> 0 \<le> rp_initial_delay_ms (td_retry td) \<and> 0 \<le> rp_max_delay_ms (td_retry td)"
  using assms
  by (auto simp: snapshot_tool_definition_def snapshot_idempotency_policy_def
      dest!: snapshot_timeout_policy_Inr snapshot_retry_policy_Inr)

text \<open>The two ways a call gets to run the tool: with and without the store.\<close>

lemma refused_failed: "tc_status (refused rq key code) = TcFailed"
  by (simp add: refused_def tool_result_def)

lemma execute_tool_cases:
  assumes "execute_tool rq st = (res, n, st')"
  obtains (unstarted) "n = 0" and "st' = st" and "\<exists>r. res = Inr r \<and> tc_status r = TcFailed"
  | (unguarded) rq' key where "rq' = rq\<lparr>rq_input := rq_input rq'\<rparr>"
      and "res = Inr (after_loop key (run_attempts rq' key))" and "n = lp_executions (run_attempts rq' key)"
      and "st' = rq_meanwhile rq st"
      and "\<And>i ops. rq_identity rq = Inr (Some i) \<Longrightarrow> rq_store rq = Some ops \<Longrightarrow> id_key i = []"
  | (guarded) rq' i ops where "rq' = rq\<lparr>rq_input := rq_input rq'\<rparr>" and "rq_identity rq = Inr (Some i)"
      and "rq_store rq = Some ops" and "id_key i \<noteq> []" and "with_idempotency rq' ops i st = (res, n, st')"
proof (cases "snapshot_tool_definition (rq_tool rq)")
  case (Inl e)
  then have "(res, n, st') = (Inr (refused rq None ''tool.invalid_definition''), 0, st)"
    using assms by (simp add: execute_tool_def)
  then show thesis using unstarted by (simp add: refused_failed)
next
  case td: (Inr td)
  then have same: "td = rq_tool rq" using snapshot_tool_definition_Inr by blast
  show thesis
  proof (cases "rq_copy rq (rq_input rq)")
    case (Inl e)
    then have "(res, n, st') = (Inr (refused rq None ''tool.input_not_serializable''), 0, st)"
      using assms td by (simp add: execute_tool_def)
    then show thesis using unstarted by (simp add: refused_failed)
  next
    case input: (Inr input)
    let ?rq = "rq\<lparr>rq_tool := td, rq_input := input\<rparr>"
    have rq: "?rq = rq\<lparr>rq_input := input\<rparr>" by (simp add: same)
    show thesis
    proof (cases "rq_input_valid rq input = Valid \<and> (\<exists>i. rq_identity rq = Inr i)")
      case False
      then obtain code where "(res, n, st') = (Inr (refused ?rq None code), 0, st)"
        using assms td input by (cases "rq_identity rq") (auto simp: execute_tool_def Let_def split: if_splits)
      then show thesis using unstarted by (simp add: refused_failed)
    next
      case True
      then obtain identity where id: "rq_identity rq = Inr identity" and valid: "rq_input_valid rq input = Valid"
        by blast
      show thesis
      proof (cases "\<exists>i ops. identity = Some i \<and> rq_store rq = Some ops \<and> id_key i \<noteq> []")
        case True
        then obtain i ops where *: "identity = Some i" "rq_store rq = Some ops" "id_key i \<noteq> []" by blast
        then have "with_idempotency ?rq ops i st = (res, n, st')"
          using assms td input id valid by (simp add: execute_tool_def Let_def)
        then show thesis using * id by (intro guarded [of ?rq]) (simp_all add: rq)
      next
        case False
        then show thesis using assms td input id valid
          by (intro unguarded [of ?rq "map_option id_key identity"])
            (auto simp: execute_tool_def Let_def rq split: option.splits if_splits)
      qed
    qed
  qed
qed
lemma start_attempt_input [simp]:
  "start_attempt (rq\<lparr>rq_input := x\<rparr>) = start_attempt rq"
  "execution_bound (rq\<lparr>rq_input := x\<rparr>) = execution_bound rq"
  "run_attempts (rq\<lparr>rq_input := x\<rparr>) key = run_attempts rq key"
  "record_result (rq\<lparr>rq_input := x\<rparr>) ops i s st = record_result rq ops i s st"
  by (simp_all add: start_attempt_def execution_bound_def run_attempts_def record_result_def Let_def)

text \<open>What a guarded call did before it ended.\<close>

lemma claim_and_run_cases:
  assumes "claim_and_run rq ops i st1 = (res, n, st')"
  obtains (unstarted) "n = 0"
  | (ran) e st2 where
      "io_claim ops (id_key i) (id_hash i)
        (idempotency_claim_ttl_ms (rq_tool rq) (idempotency_retention_ttl_ms (rq_tool rq))) st1
        = (Inr (Claimed e), st2)"
      and "record_result rq ops i (run_attempts rq (Some (id_key i))) (rq_meanwhile rq st2) = (res, n, st')"
proof -
  let ?ttl = "idempotency_claim_ttl_ms (rq_tool rq) (idempotency_retention_ttl_ms (rq_tool rq))"
  show thesis
  proof (cases "\<exists>e st2. io_claim ops (id_key i) (id_hash i) ?ttl st1 = (Inr (Claimed e), st2)")
    case True
    then obtain e st2 where c: "io_claim ops (id_key i) (id_hash i) ?ttl st1 = (Inr (Claimed e), st2)" by blast
    then show thesis using assms by (intro ran [OF c]) (simp add: claim_and_run_def claim_reply_def)
  next
    case False
    then have "n = 0" using assms
      by (auto simp: claim_and_run_def claim_reply_def split: prod.splits sum.splits claim_result.splits if_splits)
    then show thesis by (rule unstarted)
  qed
qed

lemma with_idempotency_cases:
  assumes "with_idempotency rq ops i st = (res, n, st')"
  obtains (unstarted) "n = 0"
  | (ran) st1 e st2 where
      "st1 = st \<or> (\<exists>k h. st1 = snd (io_lookup ops k h st))"
      and "io_claim ops (id_key i) (id_hash i)
        (idempotency_claim_ttl_ms (rq_tool rq) (idempotency_retention_ttl_ms (rq_tool rq))) st1
        = (Inr (Claimed e), st2)"
      and "record_result rq ops i (run_attempts rq (Some (id_key i))) (rq_meanwhile rq st2) = (res, n, st')"
proof -
  have "n = 0 \<or> (\<exists>st1. (st1 = st \<or> (\<exists>k h. st1 = snd (io_lookup ops k h st)))
      \<and> claim_and_run rq ops i st1 = (res, n, st'))"
  proof (cases "\<exists>k h. id_legacy i = Some (k, h) \<and> k \<noteq> id_key i")
    case False
    then have "claim_and_run rq ops i st = (res, n, st')"
      using assms by (auto simp: with_idempotency_def split: option.splits)
    then show ?thesis by blast
  next
    case True
    then obtain k h where kh: "id_legacy i = Some (k, h)" "k \<noteq> id_key i" by blast
    obtain l st1 where l: "io_lookup ops k h st = (l, st1)" by (cases "io_lookup ops k h st")
    then have st1: "st1 = snd (io_lookup ops k h st)" by simp
    show ?thesis
    proof (cases "l = Inr Missing")
      case True
      then have "claim_and_run rq ops i st1 = (res, n, st')" using assms kh l by (simp add: with_idempotency_def)
      then show ?thesis using st1 by blast
    next
      case False
      then have "n = 0" using assms kh l
        by (auto simp: with_idempotency_def split: sum.splits lookup_result.splits)
      then show ?thesis ..
    qed
  qed
  then show thesis
  proof (elim disjE exE conjE)
    assume "n = 0"
    then show thesis by (rule unstarted)
  next
    fix st1 assume "claim_and_run rq ops i st1 = (res, n, st')" and "st1 = st"
    then show thesis by (cases rule: claim_and_run_cases) (use unstarted ran in blast)+
  next
    fix st1 k h assume "claim_and_run rq ops i st1 = (res, n, st')" and "st1 = snd (io_lookup ops k h st)"
    then show thesis by (cases rule: claim_and_run_cases) (use unstarted ran in blast)+
  qed
qed

lemma record_result_cases:
  assumes "record_result rq ops i s st = (res, n, st')" and "0 < n"
  obtains (recorded) r where "res = Inr r" and "r = after_loop (Some (id_key i)) s" and "n = lp_executions s"
      and "io_complete ops (id_key i) (id_hash i) (idempotency_retention_ttl_ms (rq_tool rq))
             (store_status (tc_status r)) (tc_output r) (tc_error r) st = (Inr (), st')"
  | (unrecorded) r where "res = Inr (completion_failure r)" and "n = lp_executions s"
  using assms
  by (auto simp: record_result_def Let_def split: if_splits prod.splits sum.splits)

lemma record_result_executions:
  "record_result rq ops i s st = (res, n, st') \<Longrightarrow> n \<le> lp_executions s"
  by (auto simp: record_result_def Let_def split: if_splits prod.splits sum.splits)

section \<open>What a call promises\<close>

text \<open>
  A call executes the tool at most \<open>maxAttempts\<close> times, counted from the attempt number
  it starts at (and once if it starts beyond).
\<close>

theorem tool_executions_bounded:
  assumes "execute_tool rq st = (res, n, st')"
  shows "n \<le> nat (max 1 (rp_max_attempts (td_retry (rq_tool rq)) - start_attempt rq + 1))"
proof -
  have "n \<le> execution_bound rq" using assms
  proof (cases rule: execute_tool_cases)
    case (unguarded rq' key)
    then show ?thesis using run_attempts_bound [of rq'] by (metis start_attempt_input(2))
  next
    case (guarded rq' i ops)
    have bound: "execution_bound rq' = execution_bound rq"
      by (subst guarded(1)) simp
    from guarded(5) show ?thesis
    proof (cases rule: with_idempotency_cases)
      case (ran st1 e st2)
      show ?thesis
        using record_result_executions [OF ran(3)] run_attempts_bound [of rq' "Some (id_key i)"] bound by simp
    qed simp
  qed simp
  then show ?thesis by (simp add: execution_bound_def)
qed

text \<open>
  Property C12: only definite failures are repeated: every attempt the loop made before its last one
  failed with a retriable error that was neither a timeout nor a cancellation, whose outcome would
  be unknown, and no attempt follows a success.
\<close>

theorem only_definite_failures_are_retried:
  "\<exists>k. lp_result (run_attempts rq key)
        = fst (run_tool_attempt (rq_copy rq) (rq_output_valid rq) key (start_attempt rq + int k)
            (rq_env rq (start_attempt rq + int k)))
    \<and> (\<forall>j < k. start_attempt rq + int j < rp_max_attempts (td_retry (rq_tool rq))
        \<and> (\<exists>r e. fst (run_tool_attempt (rq_copy rq) (rq_output_valid rq) key (start_attempt rq + int j)
              (rq_env rq (start_attempt rq + int j))) = r \<and> tc_status r = TcFailed \<and> tc_error r = Some e
            \<and> ne_retriable e \<and> ne_category e \<noteq> CatTimeout \<and> ne_category e \<noteq> CatCancelled))"
proof -
  from run_attempts_run [of rq key] obtain k where
    k: "lp_result (run_attempts rq key)
        = fst (run_tool_attempt (rq_copy rq) (rq_output_valid rq) key (start_attempt rq + int k)
            (rq_env rq (start_attempt rq + int k)))"
    "\<forall>j < k. wants_retry (td_retry (rq_tool rq)) (start_attempt rq + int j)
        (fst (run_tool_attempt (rq_copy rq) (rq_output_valid rq) key (start_attempt rq + int j)
            (rq_env rq (start_attempt rq + int j))))" by blast
  have "start_attempt rq + int j < rp_max_attempts (td_retry (rq_tool rq))
        \<and> (\<exists>r e. fst (run_tool_attempt (rq_copy rq) (rq_output_valid rq) key (start_attempt rq + int j)
              (rq_env rq (start_attempt rq + int j))) = r \<and> tc_status r = TcFailed \<and> tc_error r = Some e
            \<and> ne_retriable e \<and> ne_category e \<noteq> CatTimeout \<and> ne_category e \<noteq> CatCancelled)" if "j < k" for j
    using attempt_wants_retry [OF k(2) [rule_format, OF that]] by auto
  then show ?thesis using k(1) by blast
qed

text \<open>
  Property C11: a call with an idempotency key and a store executes the tool only after the store
  granted it the claim of that key for this request, and what it then returns is either the
  outcome the store recorded, or a final failure that says the outcome could not be recorded.
\<close>

theorem executed_under_claim_and_recorded:
  assumes "execute_tool rq st = (res, n, st')" and "0 < n"
    and "rq_identity rq = Inr (Some i)" and "rq_store rq = Some ops" and "id_key i \<noteq> []"
  shows "(\<exists>st1 e st2. io_claim ops (id_key i) (id_hash i)
        (idempotency_claim_ttl_ms (rq_tool rq) (idempotency_retention_ttl_ms (rq_tool rq))) st1
        = (Inr (Claimed e), st2))
    \<and> (\<exists>r. res = Inr r \<and>
        ((\<exists>st3. io_complete ops (id_key i) (id_hash i) (idempotency_retention_ttl_ms (rq_tool rq))
             (store_status (tc_status r)) (tc_output r) (tc_error r) st3 = (Inr (), st'))
         \<or> tc_status r = TcFailed \<and> tc_output r = None \<and> tc_unrecorded r
           \<and> (\<exists>e. tc_error r = Some e \<and> \<not> ne_retriable e)))"
  using assms(1)
proof (cases rule: execute_tool_cases)
  case unstarted
  then show ?thesis using assms(2) by simp
next
  case (unguarded rq' key)
  then show ?thesis using assms(3-5) by blast
next
  case (guarded rq' i' ops')
  then have same: "i' = i" "ops' = ops" using assms(3,4) by auto
  have tool: "rq_tool rq' = rq_tool rq" by (subst guarded(1)) simp
  from guarded(5) show ?thesis unfolding same
  proof (cases rule: with_idempotency_cases)
    case (ran st1 e st2)
    have claimed: "\<exists>st1 e st2. io_claim ops (id_key i) (id_hash i)
        (idempotency_claim_ttl_ms (rq_tool rq) (idempotency_retention_ttl_ms (rq_tool rq))) st1
        = (Inr (Claimed e), st2)" using ran(2) [unfolded tool] by blast
    from ran(3) assms(2) show ?thesis
    proof (cases rule: record_result_cases)
      case (recorded r)
      then show ?thesis using claimed tool by auto
    next
      case (unrecorded r)
      then show ?thesis using claimed by (auto simp: completion_failure_def tool_error_final_def)
    qed
  qed (use assms(2) in simp)
qed
section \<open>Time budgets\<close>

text \<open>
  The longest time a call can take: every attempt runs into its timeout and every delay is drawn
  with its random number \<open>u n\<close>.
\<close>

definition worst_case_ms :: "tool_definition \<Rightarrow> (nat \<Rightarrow> rat) \<Rightarrow> rat" where
  "worst_case_ms td u =
     of_int (tp_timeout_ms (td_timeout td)) * of_int (rp_max_attempts (td_retry td))
     + (\<Sum>n = 1..<nat (rp_max_attempts (td_retry td)). backoff_delay_ms (td_retry td) (int n) (u n))"

lemma round_half_up_le: "x \<le> of_int m \<Longrightarrow> round_half_up x \<le> m"
  unfolding round_half_up_def by linarith

lemma round_half_up_ge: "0 \<le> x \<Longrightarrow> 0 \<le> round_half_up x"
  unfolding round_half_up_def by linarith

lemma backoff_delay_bounds:
  assumes "0 \<le> rp_initial_delay_ms p" and "0 \<le> rp_max_delay_ms p" and "1 \<le> attempt" and "0 \<le> u" and "u < 1"
  shows "0 \<le> backoff_delay_ms p attempt u"
    and "is_safe_number (rp_max_delay_ms p) \<Longrightarrow> backoff_delay_ms p attempt u \<le> rp_max_delay_ms p"
proof -
  let ?base = "if rp_backoff p = js ''exponential'' then rp_initial_delay_ms p * 2 ^ nat (max 0 (attempt - 1))
    else if rp_backoff p = js ''linear'' then rp_initial_delay_ms p * of_int attempt else rp_initial_delay_ms p"
  let ?b = "min ?base (rp_max_delay_ms p)" and ?f = "1 / 2 + u * (1 / 2)"
  have b: "0 \<le> ?b" "?b \<le> rp_max_delay_ms p" using assms(1-3) by auto
  have f: "0 \<le> ?f" "?f \<le> 1" using assms(4,5) by auto
  have delay: "backoff_delay_ms p attempt u = (if rp_jitter p then of_int (round_half_up (?b * ?f)) else ?b)"
    by (simp add: backoff_delay_ms_def Let_def)
  have bf: "0 \<le> ?b * ?f" "?b * ?f \<le> ?b"
    using b(1) f by (simp_all only: mult_nonneg_nonneg mult_right_le_one_le)
  show "0 \<le> backoff_delay_ms p attempt u"
    unfolding delay using b(1) round_half_up_ge [OF bf(1)] by simp
  show "backoff_delay_ms p attempt u \<le> rp_max_delay_ms p" if "is_safe_number (rp_max_delay_ms p)"
  proof -
    have m: "rp_max_delay_ms p = of_int \<lfloor>rp_max_delay_ms p\<rfloor>" using that by (simp add: is_safe_number_def)
    have "?b * ?f \<le> of_int \<lfloor>rp_max_delay_ms p\<rfloor>" using bf(2) b(2) m by linarith
    from round_half_up_le [OF this] have "of_int (round_half_up (?b * ?f)) \<le> rp_max_delay_ms p"
      using m by (metis of_int_le_iff)
    then show ?thesis unfolding delay using b(2) by simp
  qed
qed


definition plain_tool :: "rat \<Rightarrow> int \<Rightarrow> tool_definition" where
  "plain_tool max_delay timeout = \<lparr>td_id = [1], td_name = [2], td_version = [3],
     td_timeout = \<lparr>tp_timeout_ms = timeout, tp_on_timeout = js ''fail''\<rparr>,
     td_retry = \<lparr>rp_max_attempts = 2, rp_initial_delay_ms = 10, rp_max_delay_ms = max_delay,
                 rp_backoff = js ''fixed'', rp_jitter = False, rp_codes = None\<rparr>,
     td_idempotency = \<lparr>ip_enabled = True, ip_template = None, ip_ttl_ms = None, ip_legacy = None\<rparr>,
     td_shape = Inr ()\<rparr>"

lemma plain_tool_accepted:
  "0 \<le> max_delay \<Longrightarrow> 1 \<le> timeout \<Longrightarrow> timeout \<le> 1000000 \<Longrightarrow>
    snapshot_tool_definition (plain_tool max_delay timeout) = Inr (plain_tool max_delay timeout)"
  by (simp add: snapshot_tool_definition_def snapshot_timeout_policy_def snapshot_retry_policy_def
      snapshot_idempotency_policy_def require_non_empty_def type_check_def plain_tool_def
      is_safe_integer_def max_safe_integer_def js_def)


text \<open>
  Without that condition it can: an accepted tool whose maximal delay is not a whole
  number of milliseconds gets the fallback of one minute for its claim, however long its timeout.
\<close>

theorem fractional_delay_shortens_claim:
  "snapshot_tool_definition (plain_tool (1 / 2) 300000) = Inr (plain_tool (1 / 2) 300000)
    \<and> idempotency_claim_ttl_ms (plain_tool (1 / 2) 300000) (idempotency_retention_ttl_ms (plain_tool (1 / 2) 300000))
      < tp_timeout_ms (td_timeout (plain_tool (1 / 2) 300000))"
proof -
  have half_floor: "\<lfloor>1 / 2 :: rat\<rfloor> = 0" by (simp add: floor_eq_iff)
  have "\<not> is_safe_number (1 / 2)" by (simp add: is_safe_number_def half_floor)
  then show ?thesis
    using plain_tool_accepted [of "1 / 2" 300000]
    by (simp add: idempotency_claim_ttl_ms_def idempotency_retention_ttl_ms_def default_idempotency_ttl_ms_def
        plain_tool_def is_safe_integer_def max_safe_integer_def)
qed

section \<open>Replaying a recorded outcome\<close>

text \<open>
  What \<open>executeTool\<close> needs from a store to replay an outcome: a claim of a key whose outcome is
  recorded for the same request returns that record. \<open>recorded\<close> is the record a claim would find.
\<close>

locale replaying_store =
  fixes claim_op :: "'st \<Rightarrow> 'v claim_result result \<times> 'st"
    and recorded :: "'st \<Rightarrow> 'v idem_entry option"
  assumes claim_succeeded: "recorded st = Some e \<Longrightarrow> en_status e = StSucceeded \<Longrightarrow>
      \<exists>st'. claim_op st = (Inr (Succeeded e), st')"
    and claim_terminal: "recorded st = Some e \<Longrightarrow> en_status e \<notin> {StSucceeded, StClaimed} \<Longrightarrow>
      \<exists>st'. claim_op st = (Inr (Terminal e), st')"
begin

lemma success_replayed:
  fixes rq :: "('v, 'st) tool_request"
  assumes "io_claim ops (id_key i) (id_hash i)
      (idempotency_claim_ttl_ms (rq_tool rq) (idempotency_retention_ttl_ms (rq_tool rq))) = claim_op"
    and "recorded st = Some e" and "en_status e = StSucceeded"
  shows "\<exists>r st'. claim_and_run rq ops i st = (Inr r, 0, st') \<and> tc_status r = TcSucceeded
    \<and> tc_output r = en_output e \<and> tc_idempotent_hit r"
  using claim_succeeded [OF assms(2,3)] assms(1)
  by (auto simp: claim_and_run_def claim_reply_def tool_result_def)

lemma failure_replayed:
  fixes rq :: "('v, 'st) tool_request"
  assumes "io_claim ops (id_key i) (id_hash i)
      (idempotency_claim_ttl_ms (rq_tool rq) (idempotency_retention_ttl_ms (rq_tool rq))) = claim_op"
    and "recorded st = Some e" and "en_status e \<notin> {StSucceeded, StClaimed}"
  shows "\<exists>r st' err. claim_and_run rq ops i st = (Inr r, 0, st') \<and> tc_status r = call_status (en_status e)
    \<and> tc_status r \<noteq> TcSucceeded \<and> tc_output r = None \<and> tc_idempotent_hit r
    \<and> tc_error r = Some err \<and> \<not> ne_retriable err"
  using claim_terminal [OF assms(2,3)] assms(1,3)
  by (cases "en_status e")
    (auto simp: claim_and_run_def claim_reply_def terminal_hit_def tool_result_def Let_def split: option.split)

end

text \<open>The in-memory store as the store of a call.\<close>

definition memory_claim :: "tool_definition \<Rightarrow> js_string \<Rightarrow> idem_lease option \<Rightarrow> js_string \<Rightarrow> js_string
    \<Rightarrow> js_string \<Rightarrow> int \<Rightarrow> idem_claim" where
  "memory_claim td sid l owner k h ttl =
     \<lparr>cl_key = k, cl_session = Some sid, cl_lease = l, cl_tool_id = Some (td_id td),
      cl_tool_version = Some (td_version td), cl_hash = h, cl_owner = owner, cl_ttl = ttl\<rparr>"

definition memory_outcome :: "(normalized_error \<Rightarrow> 'v) \<Rightarrow> js_string \<Rightarrow> idem_lease option \<Rightarrow> js_string \<Rightarrow> int
    \<Rightarrow> idem_status \<Rightarrow> 'v option \<Rightarrow> normalized_error option \<Rightarrow> 'v idem_outcome" where
  "memory_outcome enc sid l owner ttl s out err =
     \<lparr>oc_status = s, oc_ttl = ttl, oc_owner = owner, oc_session = Some sid, oc_lease = l,
      oc_output = out, oc_error = map_option enc err\<rparr>"

definition memory_ops ::
    "'v snapshots \<Rightarrow> (normalized_error \<Rightarrow> 'v) \<Rightarrow> lease_reader \<Rightarrow> int \<Rightarrow> int \<Rightarrow> tool_definition \<Rightarrow> js_string
      \<Rightarrow> idem_lease option \<Rightarrow> js_string \<Rightarrow> ('v, 'v idem_store) idem_ops" where
  "memory_ops sn enc rd t_claim t_done td sid l owner =
     \<lparr>io_lookup = (\<lambda>k h. lookup sn rd t_claim k h (Some sid) l),
      io_claim = (\<lambda>k h ttl. claim sn rd t_claim (memory_claim td sid l owner k h ttl)),
      io_release = (\<lambda>k h. release_claim rd t_done
        \<lparr>rl_key = k, rl_hash = h, rl_owner = owner, rl_session = Some sid, rl_lease = l\<rparr>),
      io_complete = (\<lambda>k h ttl s out err. complete_claim sn rd t_done k h (memory_outcome enc sid l owner ttl s out err))\<rparr>"

definition replayable ::
    "'v snapshots \<Rightarrow> lease_reader \<Rightarrow> int \<Rightarrow> idem_claim \<Rightarrow> 'v idem_store \<Rightarrow> 'v idem_entry option" where
  "replayable sn rd now c st =
     (if idem_inv st \<and> is_ok (safe_lease_expiry_at now (cl_ttl c)) \<and> check_lease rd now (cl_lease c) = Inr ()
         \<and> \<not> foreign_lease (cl_lease c) (cl_session c) \<and> \<not> bypasses_lease rd now (cl_lease c) (cl_session c)
      then (case live_entry now st (cl_key c) of None \<Rightarrow> None
            | Some e \<Rightarrow> if claim_conflict e (lease_session (cl_lease c) (cl_session c)) c
                         \<or> snapshot_entry sn e \<noteq> Inr e then None else Some e)
      else None)"

lemma claim_replayable:
  assumes "replayable sn rd now c st = Some e" and "en_status e \<noteq> StClaimed"
  shows "\<exists>st'. claim sn rd now c st = (Inr (if en_status e = StSucceeded then Succeeded e else Terminal e), st')"
proof -
  have *: "idem_inv st" "check_lease rd now (cl_lease c) = Inr ()" "is_ok (safe_lease_expiry_at now (cl_ttl c))"
    "\<not> foreign_lease (cl_lease c) (cl_session c)" "\<not> bypasses_lease rd now (cl_lease c) (cl_session c)"
    "live_entry now st (cl_key c) = Some e" "\<not> claim_conflict e (lease_session (cl_lease c) (cl_session c)) c"
    "snapshot_entry sn e = Inr e"
    using assms(1) by (auto simp: replayable_def split: if_splits option.splits)
  then obtain expires where ex: "safe_lease_expiry_at now (cl_ttl c) = Inr expires" by (auto simp: is_ok_iff)
  let ?P = "\<lambda>p. \<exists>st'. p = (Inr (if en_status e = StSucceeded then Succeeded e else Terminal e), st')"
  have "?P (case_prod (claim_on sn c expires) (active (cl_key c) now st))"
    by (rule active_case [OF *(1)]) (use * assms(2) in \<open>auto simp: claim_on_def\<close>)
  then show ?thesis using * ex by (simp add: claim_def)
qed

interpretation memory_replay: replaying_store "claim sn rd now c" "replayable sn rd now c"
  for sn :: "'v snapshots" and rd now c
proof unfold_locales
  fix st :: "'v idem_store" and e
  assume e: "replayable sn rd now c st = Some e"
  show "\<exists>st'. claim sn rd now c st = (Inr (Succeeded e), st')" if "en_status e = StSucceeded"
    using claim_replayable [OF e] that by simp
  show "\<exists>st'. claim sn rd now c st = (Inr (Terminal e), st')" if "en_status e \<notin> {StSucceeded, StClaimed}"
    using claim_replayable [OF e] that by auto
qed

text \<open>What a completion leaves in the store.\<close>

lemma complete_Inr:
  assumes "complete_claim sn rd now k h oc st = (Inr (), st')" and "idem_inv st"
    and "\<And>v w. sn_copy sn v = Inr w \<Longrightarrow> w = v" and "\<And>a b. sn_same sn a b \<longleftrightarrow> a = b"
  shows "idem_inv st' \<and> (\<exists>e. live_entry now st' k = Some e \<and> en_status e = oc_status oc
    \<and> (\<forall>v. oc_output oc = Some v \<longrightarrow> en_output e = Some v))"
proof -
  have copy: "snapshot_opt sn v = Inr w \<Longrightarrow> w = v" for v w
    using assms(3) by (auto simp: snapshot_opt_def split: option.splits)
  obtain expires oc' where ex: "safe_lease_expiry_at now (oc_ttl oc) = Inr expires"
    and oc': "oc_status oc' = oc_status oc" "oc_output oc' = oc_output oc"
    and run: "case_prod (complete_on sn k h oc' expires) (active k now st) = (Inr (), st')"
    using assms(1) by (auto simp: complete_claim_def split: sum.splits if_splits dest!: copy)
  have late: "\<not> expires \<le> now" using ex by (simp add: safe_lease_expiry_at_Inr)
  let ?P = "\<lambda>p. \<forall>st'. p = (Inr (), st') \<longrightarrow> idem_inv st' \<and> (\<exists>e. live_entry now st' k = Some e
    \<and> en_status e = oc_status oc \<and> (\<forall>v. oc_output oc = Some v \<longrightarrow> en_output e = Some v))"
  have "?P (case_prod (complete_on sn k h oc' expires) (active k now st))"
  proof (rule active_case [OF assms(2)])
    fix st1 assume st1: "idem_inv st1" "same_view now st1 st"
    then have "live_entry now st1 k = live_entry now st k" by (simp add: same_viewD)
    then show "?P (complete_on sn k h oc' expires (live_entry now st k) st1)"
      using st1(1) oc' late assms(4)
      by (auto simp: complete_on_def finish_entry_def op_simps expired_def inv_intros split: option.splits if_splits)
  qed
  then show ?thesis using run by blast
qed
text \<open>A successful result carries the value the tool returned.\<close>

lemma success_has_output:
  assumes "tc_status (after_loop key (run_attempts rq key')) = TcSucceeded"
  shows "\<exists>v. tc_output (after_loop key (run_attempts rq key')) = Some v"
proof -
  let ?r = "lp_result (run_attempts rq key')"
  from run_attempts_run [of rq key'] obtain k where
    k: "?r = fst (run_tool_attempt (rq_copy rq) (rq_output_valid rq) key' (start_attempt rq + int k)
            (rq_env rq (start_attempt rq + int k)))" by blast
  have s: "tc_status ?r = TcSucceeded" and a: "after_loop key (run_attempts rq key') = ?r"
    using assms by (auto simp: after_loop_def Let_def split: if_splits)
  show ?thesis using s unfolding a k
    by (auto simp: run_tool_attempt_def failed_attempt_def tool_result_def tool_failure_status_def Let_def
        split: if_splits sum.splits)
qed

lemma lookup_inv: "idem_inv st \<Longrightarrow> idem_inv (snd (lookup sn rd now k h s l st))"
  using apply_op_inv [of st sn rd now "OpLookup k h s l"] by (simp split: prod.splits)

lemma claim_inv: "idem_inv st \<Longrightarrow> idem_inv (snd (claim sn rd now c st))"
  using apply_op_inv [of st sn rd now "OpClaim c"] by (simp split: prod.splits)

text \<open>What a successful call over the in-memory store left there.\<close>

lemma successful_call_recorded:
  assumes "execute_tool rq st = (Inr r, n, st')" and "0 < n" and "tc_status r = TcSucceeded"
    and "rq_identity rq = Inr (Some i)" and "id_key i \<noteq> []"
    and "rq_store rq = Some (memory_ops sn enc rd t_claim t_done (rq_tool rq) sid l owner)"
    and "idem_inv st" and "\<And>s. idem_inv s \<Longrightarrow> idem_inv (rq_meanwhile rq s)"
    and "\<And>v w. sn_copy sn v = Inr w \<Longrightarrow> w = v" and "\<And>a b. sn_same sn a b \<longleftrightarrow> a = b"
  shows "idem_inv st' \<and> (\<exists>e v. live_entry t_done st' (id_key i) = Some e \<and> en_status e = StSucceeded
    \<and> tc_output r = Some v \<and> en_output e = Some v)"
  using assms(1)
proof (cases rule: execute_tool_cases)
  case unstarted
  then show ?thesis using assms(2) by simp
next
  case (unguarded rq' key)
  then show ?thesis using assms(4-6) by blast
next
  case (guarded rq' i' ops')
  then have same: "i' = i" "ops' = memory_ops sn enc rd t_claim t_done (rq_tool rq) sid l owner"
    using assms(4,6) by auto
  have tool: "rq_tool rq' = rq_tool rq" "rq_meanwhile rq' = rq_meanwhile rq" by (subst guarded(1), simp)+
  from guarded(5) show ?thesis unfolding same
  proof (cases rule: with_idempotency_cases)
    case unstarted
    then show ?thesis using assms(2) by simp
  next
    case (ran st1 e st2)
    from ran(3) assms(2) show ?thesis
    proof (cases rule: record_result_cases)
      case (unrecorded r')
      then show ?thesis using assms(3) by (simp add: completion_failure_def)
    next
      case (recorded r')
      then have r: "r = after_loop (Some (id_key i)) (run_attempts rq' (Some (id_key i)))" by simp
      obtain v where v: "tc_output r = Some v" using success_has_output assms(3) unfolding r by blast
      have c: "complete_claim sn rd t_done (id_key i) (id_hash i)
          (memory_outcome enc sid l owner (idempotency_retention_ttl_ms (rq_tool rq)) StSucceeded (Some v) (tc_error r))
          (rq_meanwhile rq st2) = (Inr (), st')"
        using recorded assms(3) v tool by (simp add: memory_ops_def)
      have "idem_inv st1" using ran(1) assms(7) lookup_inv by (auto simp: memory_ops_def)
      then have "idem_inv st2" using ran(2) claim_inv [of st1 sn rd t_claim] by (simp add: memory_ops_def) (metis snd_conv)
      then have "idem_inv (rq_meanwhile rq st2)" by (rule assms(8))
      from complete_Inr [OF c this assms(9,10)] show ?thesis
        using v by (auto simp: memory_outcome_def)
    qed
  qed
qed

text \<open>A call whose definition and input are accepted and whose key goes to the store \<open>ops\<close>.\<close>

definition reaches_store :: "('v, 'st) tool_request \<Rightarrow> idem_identity \<Rightarrow> ('v, 'st) idem_ops \<Rightarrow> bool" where
  "reaches_store rq i ops \<longleftrightarrow> is_ok (snapshot_tool_definition (rq_tool rq))
     \<and> (case rq_copy rq (rq_input rq) of Inl _ \<Rightarrow> False | Inr x \<Rightarrow> rq_input_valid rq x = Valid)
     \<and> rq_identity rq = Inr (Some i) \<and> id_key i \<noteq> [] \<and> id_legacy i = None \<and> rq_store rq = Some ops"

lemma execute_tool_reaches:
  assumes "reaches_store rq i ops"
  shows "\<exists>x. execute_tool rq st = claim_and_run (rq\<lparr>rq_input := x\<rparr>) ops i st"
proof -
  obtain td where td: "snapshot_tool_definition (rq_tool rq) = Inr td"
    using assms by (auto simp: reaches_store_def is_ok_iff)
  then have same: "td = rq_tool rq" using snapshot_tool_definition_Inr by blast
  show ?thesis
    using assms td
    by (auto simp: reaches_store_def execute_tool_def with_idempotency_def same Let_def split: sum.splits
        intro!: exI)
qed

section \<open>Concrete runs\<close>

definition flaky_env :: "int \<Rightarrow> nat attempt_env" where
  "flaky_env n = \<lparr>ae_aborted_at_start = False,
     ae_events = (if n = 1 then [PromiseRejects (ThrownNormalized \<lparr>ne_code = [9], ne_category = CatTool, ne_retriable = True\<rparr>)]
                  else [PromiseResolves 42]),
     ae_aborted_at_check = False, ae_aborted_after_sleep = False\<rparr>"

definition flaky_call :: "int \<Rightarrow> (nat, nat idem_store) tool_request" where
  "flaky_call now = \<lparr>rq_tool = plain_tool 10 5, rq_input = 0, rq_attempt = None,
     rq_identity = Inr (Some \<lparr>id_key = [7], id_hash = [8], id_legacy = None\<rparr>),
     rq_store = Some (memory_ops copying (\<lambda>_. 99) None now (now + 1) (plain_tool 10 5) [1] None [11]),
     rq_env = flaky_env, rq_meanwhile = id, rq_input_valid = (\<lambda>_. Valid), rq_output_valid = (\<lambda>_. Valid),
     rq_copy = Inr, rq_stored_error = (\<lambda>_. tool_cancelled_error)\<rparr>"


definition flaky_store :: "nat idem_store" where
  "flaky_store = snd (snd (execute_tool (flaky_call 1) new_idem_store))"

definition flaky_result :: "nat tool_call" where
  "flaky_result = tool_result TcSucceeded 2 (Some [7]) (Some 42) None"

lemma flaky_outcome: "execute_tool (flaky_call 1) new_idem_store = (Inr flaky_result, 2, flaky_store)"
  by (simp add: prod_eq_iff flaky_store_def) code_simp

theorem tool_executions_bounded_witness:
  "fst (snd (execute_tool (flaky_call 1) new_idem_store)) = 2 \<and> (2 :: nat) \<le> nat (max 1 (2 - 1 + 1))"
  using tool_executions_bounded [OF flaky_outcome] flaky_outcome
  by (simp add: flaky_call_def plain_tool_def start_attempt_def)

theorem only_definite_failures_are_retried_witness:
  "\<exists>k. lp_result (run_attempts (flaky_call 1) (Some [7])) = fst (run_tool_attempt Inr (\<lambda>_. Valid) (Some [7]) (1 + int k)
      (flaky_env (1 + int k)))
    \<and> (\<forall>j < k. tc_status (fst (run_tool_attempt Inr (\<lambda>_. Valid) (Some [7]) (1 + int j) (flaky_env (1 + int j)))) = TcFailed)"
proof -
  have "rq_copy (flaky_call 1) = Inr" "rq_output_valid (flaky_call 1) = (\<lambda>_. Valid)" "start_attempt (flaky_call 1) = 1"
    "rq_env (flaky_call 1) = flaky_env" by (simp_all add: flaky_call_def start_attempt_def)
  then show ?thesis using only_definite_failures_are_retried [of "flaky_call 1" "Some [7]"] by auto
qed

theorem executed_under_claim_and_recorded_witness:
  "\<exists>ops st1 e st2. rq_store (flaky_call 1) = Some ops \<and> io_claim ops [7] [8] 60000 st1 = (Inr (Claimed e), st2)"
proof -
  let ?ops = "memory_ops copying (\<lambda>_. 99) None 1 2 (plain_tool 10 5) [1] None [11]"
  have "idempotency_claim_ttl_ms (plain_tool 10 5) (idempotency_retention_ttl_ms (plain_tool 10 5)) = 60000"
    by code_simp
  then show ?thesis
    using executed_under_claim_and_recorded [OF flaky_outcome, of "\<lparr>id_key = [7], id_hash = [8], id_legacy = None\<rparr>" ?ops]
    by (auto simp: flaky_call_def)
qed

end
