(* ===== verification/Terminal_Arbiter.thy ===== *)
theory Terminal_Arbiter
  imports Prelude "HOL-Library.Product_Lexorder"
begin

text \<open>
  The choice of one terminal outcome of a voice pipeline: \<open>packages/runtime/src/terminal-arbitration.ts\<close>
  and its callers in \<open>pipeline-terminal-boundary.ts\<close>.

  The arbiter orders its commits by the microtask queue, so the queue is part of the state: a list of
  tasks, run from the front, one per event. A \<open>BatchRecord\<close> is shared between the arbiter's \<open>#active\<close>
  field and the queued commit; the model keeps the batches in a list and refers to them by index.
  A synchronous callback is the list of the calls it makes to the arbiter and the way it ends.
\<close>

section \<open>Sources, kinds and claims\<close>

datatype live_source =
  OperatorStop | CallerAbort | RunTimeout | RemoteTransport | ProviderRuntime | NormalCompletion

datatype terminal_kind = KindCompleted | KindCancelled | KindRemoteHangup | KindFailed

fun terminal_priority :: "live_source \<Rightarrow> int" where
  "terminal_priority OperatorStop = 100"
| "terminal_priority CallerAbort = 90"
| "terminal_priority RunTimeout = 80"
| "terminal_priority RemoteTransport = 70"
| "terminal_priority ProviderRuntime = 60"
| "terminal_priority NormalCompletion = 0"

fun terminal_kind_for_source :: "live_source \<Rightarrow> terminal_kind" where
  "terminal_kind_for_source OperatorStop = KindCancelled"
| "terminal_kind_for_source CallerAbort = KindCancelled"
| "terminal_kind_for_source RunTimeout = KindFailed"
| "terminal_kind_for_source RemoteTransport = KindRemoteHangup"
| "terminal_kind_for_source ProviderRuntime = KindFailed"
| "terminal_kind_for_source NormalCompletion = KindCompleted"

record terminal_candidate =
  tm_source :: live_source
  tm_cause :: "normalized_error option"

record terminal_claim = terminal_candidate +
  tm_kind :: terminal_kind

record batch_entry =
  be_claim :: terminal_claim
  be_priority :: int
  be_sequence :: int

record batch =
  bt_candidates :: "batch_entry list"
  bt_committed :: bool

text \<open>A queued microtask: the commit of a batch, or the continuation of a \<open>waitForCommit\<close>, of a
  caller who only waits or of \<open>committedTerminal\<close>.\<close>

datatype arbiter_task = CommitTask nat | ResumeWaiter nat | ResumeTerminal nat

record arbiter =
  ab_active :: "nat option"
  ab_claim :: "terminal_claim option"
  ab_next_sequence :: int
  ab_batches :: "batch list"
  ab_queue :: "arbiter_task list"

definition new_arbiter :: arbiter where
  "new_arbiter = \<lparr>ab_active = None, ab_claim = None, ab_next_sequence = 0, ab_batches = [], ab_queue = []\<rparr>"

section \<open>Offers and commits\<close>

definition claim_of :: "terminal_candidate \<Rightarrow> terminal_claim" where
  "claim_of c = \<lparr>tm_source = tm_source c, tm_cause = tm_cause c, tm_kind = terminal_kind_for_source (tm_source c)\<rparr>"

definition offer_in_batch :: "nat \<Rightarrow> terminal_candidate \<Rightarrow> arbiter \<Rightarrow> terminal_claim \<times> arbiter" where
  "offer_in_batch b c st =
     (let n = ab_next_sequence st + 1;
          entry = \<lparr>be_claim = claim_of c, be_priority = terminal_priority (tm_source c), be_sequence = n\<rparr>;
          batch = ab_batches st ! b
      in (claim_of c, st\<lparr>ab_next_sequence := n,
            ab_batches := (ab_batches st)[b := batch\<lparr>bt_candidates := bt_candidates batch @ [entry]\<rparr>]\<rparr>))"

definition offer_terminal :: "terminal_candidate \<Rightarrow> arbiter \<Rightarrow> (terminal_claim \<times> arbiter) result" where
  "offer_terminal c st =
     (case ab_active st of
        None \<Rightarrow> Inl (PlainError (js ''Terminal candidate must be offered inside dispatchBatch()''))
      | Some b \<Rightarrow> Inr (offer_in_batch b c st))"

text \<open>The order of the sort in \<open>#commit\<close>: by priority downwards, then by offer sequence.\<close>

definition candidate_rank :: "batch_entry \<Rightarrow> int \<times> int" where
  "candidate_rank e = (- be_priority e, be_sequence e)"

definition commit_batch :: "nat \<Rightarrow> arbiter \<Rightarrow> arbiter" where
  "commit_batch b st =
     (let batch = ab_batches st ! b in
      if bt_committed batch then st
      else
        let st' = st\<lparr>ab_batches := (ab_batches st)[b := batch\<lparr>bt_committed := True\<rparr>]\<rparr> in
        if ab_claim st' \<noteq> None \<or> bt_candidates batch = [] then st'
        else st'\<lparr>ab_claim := Some (be_claim (hd (sort_key candidate_rank (bt_candidates batch))))\<rparr>)"

section \<open>Callbacks\<close>

text \<open>
  How a callback ends, the value of a thrown error, and what a callback does: it offers a candidate,
  or dispatches another callback, whose error it may catch. \<open>nz\<close> is \<open>normalizeUnknownError\<close> with the
  options of \<open>dispatchBatch\<close>.
\<close>

datatype 'x ending = Returns | ReturnsPromise | Throws 'x

datatype 'x thrown_value = CallbackError 'x | MustBeSynchronous

datatype 'x call_step = Offer terminal_candidate | Nested "'x call_step list" "'x ending" bool

fun ended_with :: "'x ending \<Rightarrow> 'x thrown_value option" where
  "ended_with Returns = None"
| "ended_with ReturnsPromise = Some MustBeSynchronous"
| "ended_with (Throws x) = Some (CallbackError x)"

definition open_batch :: "arbiter \<Rightarrow> nat \<times> arbiter" where
  "open_batch st =
     (case ab_active st of
        Some b \<Rightarrow> (b, st)
      | None \<Rightarrow>
          let b = length (ab_batches st)
          in (b, st\<lparr>ab_batches := ab_batches st @ [\<lparr>bt_candidates = [], bt_committed = False\<rparr>],
                    ab_queue := ab_queue st @ [CommitTask b]\<rparr>))"

definition close_batch ::
    "('x thrown_value \<Rightarrow> normalized_error) \<Rightarrow> nat \<Rightarrow> nat option \<Rightarrow> 'x thrown_value option \<Rightarrow> arbiter \<Rightarrow> arbiter" where
  "close_batch nz b previous thrown st =
     (let st' = (case thrown of
          None \<Rightarrow> st
        | Some x \<Rightarrow>
            if \<exists>e \<in> set (bt_candidates (ab_batches st ! b)). tm_source (be_claim e) = ProviderRuntime then st
            else snd (offer_in_batch b \<lparr>tm_source = ProviderRuntime, tm_cause = Some (nz x)\<rparr> st))
      in st'\<lparr>ab_active := previous\<rparr>)"

fun run_steps ::
    "('x thrown_value \<Rightarrow> normalized_error) \<Rightarrow> 'x call_step list \<Rightarrow> arbiter \<Rightarrow> 'x thrown_value option \<times> arbiter" where
  "run_steps nz [] st = (None, st)"
| "run_steps nz (Offer c # rest) st =
     (case offer_terminal c st of
        Inl e \<Rightarrow> (None, st)
      | Inr (claim, st') \<Rightarrow> run_steps nz rest st')"
| "run_steps nz (Nested steps ending caught # rest) st =
     (let (b, st1) = open_batch st;
          (thrown, st2) = run_steps nz steps (st1\<lparr>ab_active := Some b\<rparr>);
          outcome = (if thrown = None then ended_with ending else thrown);
          st3 = close_batch nz b (ab_active st) outcome st2
      in if outcome \<noteq> None \<and> \<not> caught then (outcome, st3) else run_steps nz rest st3)"

definition dispatch_batch ::
    "('x thrown_value \<Rightarrow> normalized_error) \<Rightarrow> 'x call_step list \<Rightarrow> 'x ending \<Rightarrow> arbiter
      \<Rightarrow> 'x thrown_value option \<times> arbiter" where
  "dispatch_batch nz steps ending st =
     (let (b, st1) = open_batch st;
          (thrown, st2) = run_steps nz steps (st1\<lparr>ab_active := Some b\<rparr>);
          outcome = (if thrown = None then ended_with ending else thrown)
      in (outcome, close_batch nz b (ab_active st) outcome st2))"

section \<open>The coordinator\<close>

text \<open>\<open>configured\<close> is what \<open>sourceForCancellation\<close> returns, \<open>remote\<close> whether the attachment signal
  carries an abort reason.\<close>

definition cancellation_source :: "live_source option \<Rightarrow> bool \<Rightarrow> live_source" where
  "cancellation_source configured remote =
     (case configured of Some s \<Rightarrow> s | None \<Rightarrow> if remote then RemoteTransport else CallerAbort)"

definition source_for_end_reason ::
    "live_source option \<Rightarrow> bool \<Rightarrow> js_string \<Rightarrow> normalized_error option \<Rightarrow> live_source" where
  "source_for_end_reason configured remote end_reason stream_error =
     (if end_reason = js ''remote_hangup'' then RemoteTransport
      else if end_reason = js ''timeout'' then RunTimeout
      else if end_reason = js ''cancelled'' then cancellation_source configured remote
      else if stream_error \<noteq> None \<or> end_reason = js ''error'' \<or> end_reason = js ''media_error''
      then ProviderRuntime
      else NormalCompletion)"

definition candidate_for_result ::
    "live_source option \<Rightarrow> bool \<Rightarrow> int \<Rightarrow> normalized_error option \<Rightarrow> js_string \<Rightarrow> terminal_candidate" where
  "candidate_for_result configured remote turns_failed first_error end_reason =
     (if 0 < turns_failed
      then \<lparr>tm_source = (if map_option ne_category first_error = Some CatTimeout then RunTimeout else ProviderRuntime),
            tm_cause = first_error\<rparr>
      else \<lparr>tm_source = source_for_end_reason configured remote end_reason None, tm_cause = None\<rparr>)"

definition candidate_for_error ::
    "live_source option \<Rightarrow> bool \<Rightarrow> normalized_error \<Rightarrow> bool \<Rightarrow> bool \<Rightarrow> terminal_candidate" where
  "candidate_for_error configured remote err cancelled signal_aborted =
     (if cancelled \<or> signal_aborted \<or> ne_category err = CatCancelled
      then \<lparr>tm_source = cancellation_source configured remote, tm_cause = Some err\<rparr>
      else \<lparr>tm_source = (if ne_category err = CatTimeout then RunTimeout else ProviderRuntime),
            tm_cause = Some err\<rparr>)"

definition coordinator_offer :: "('x thrown_value \<Rightarrow> normalized_error) \<Rightarrow> terminal_candidate \<Rightarrow> arbiter \<Rightarrow> arbiter" where
  "coordinator_offer nz c st = snd (dispatch_batch nz [Offer c] Returns st)"

definition wait_for_commit :: "nat \<Rightarrow> arbiter \<Rightarrow> arbiter" where
  "wait_for_commit w st = st\<lparr>ab_queue := ab_queue st @ [ResumeWaiter w]\<rparr>"

definition committed_terminal ::
    "('x thrown_value \<Rightarrow> normalized_error) \<Rightarrow> nat \<Rightarrow> terminal_candidate \<Rightarrow> arbiter \<Rightarrow> arbiter" where
  "committed_terminal nz w c st =
     (let st' = (if ab_claim st = None then coordinator_offer nz c st else st)
      in st'\<lparr>ab_queue := ab_queue st' @ [ResumeTerminal w]\<rparr>)"

section \<open>Events\<close>

text \<open>
  The host runs a callback, a caller starts to wait, or the next microtask runs. A resumed waiter
  gets the claim of that moment; a resumed \<open>committedTerminal\<close> gets it or throws.
\<close>

datatype 'x arbiter_event =
    HostCallback "'x call_step list" "'x ending"
  | StartWait nat
  | AskTerminal nat terminal_candidate
  | Microtask

datatype answer = Waited nat "terminal_claim option" | TerminalAnswer nat "terminal_claim result"

definition run_task :: "arbiter_task \<Rightarrow> arbiter \<Rightarrow> answer list \<times> arbiter" where
  "run_task t st =
     (case t of
        CommitTask b \<Rightarrow> ([], commit_batch b st)
      | ResumeWaiter w \<Rightarrow> ([Waited w (ab_claim st)], st)
      | ResumeTerminal w \<Rightarrow>
          ([TerminalAnswer w (case ab_claim st of Some c \<Rightarrow> Inr c
              | None \<Rightarrow> Inl (TvicThrowableError (js ''voice_runtime.run_failed'')))], st))"

fun arbiter_step ::
    "('x thrown_value \<Rightarrow> normalized_error) \<Rightarrow> 'x arbiter_event \<Rightarrow> arbiter \<Rightarrow> answer list \<times> arbiter" where
  "arbiter_step nz (HostCallback steps ending) st = ([], snd (dispatch_batch nz steps ending st))"
| "arbiter_step nz (StartWait w) st = ([], wait_for_commit w st)"
| "arbiter_step nz (AskTerminal w c) st = ([], committed_terminal nz w c st)"
| "arbiter_step nz Microtask st =
     (case ab_queue st of [] \<Rightarrow> ([], st) | t # ts \<Rightarrow> run_task t (st\<lparr>ab_queue := ts\<rparr>))"

fun arbiter_run ::
    "('x thrown_value \<Rightarrow> normalized_error) \<Rightarrow> 'x arbiter_event list \<Rightarrow> arbiter \<Rightarrow> answer list \<times> arbiter" where
  "arbiter_run nz [] st = ([], st)"
| "arbiter_run nz (ev # evs) st =
     (let (as, st') = arbiter_step nz ev st; (as', st'') = arbiter_run nz evs st' in (as @ as', st''))"

section \<open>The order of sources\<close>

instantiation live_source :: linorder
begin

definition less_eq_live_source :: "live_source \<Rightarrow> live_source \<Rightarrow> bool" where
  "s \<le> t \<longleftrightarrow> terminal_priority s \<le> terminal_priority t"

definition less_live_source :: "live_source \<Rightarrow> live_source \<Rightarrow> bool" where
  "s < t \<longleftrightarrow> terminal_priority s < terminal_priority t"

instance
proof
  fix s t :: live_source
  show "s \<le> t \<Longrightarrow> t \<le> s \<Longrightarrow> s = t"
    by (cases s; cases t) (simp_all add: less_eq_live_source_def)
qed (auto simp: less_eq_live_source_def less_live_source_def)

end

section \<open>The abstract choice\<close>

text \<open>
  What the arbiter promises, without queues and sequence numbers: of each batch the first candidate of
  the highest source, and of the batches the first that offers anything.
\<close>

definition batch_winner :: "terminal_candidate list \<Rightarrow> terminal_candidate option" where
  "batch_winner cs = find (\<lambda>c. \<forall>d \<in> set cs. tm_source d \<le> tm_source c) cs"

fun first_winner :: "terminal_candidate list list \<Rightarrow> terminal_candidate option" where
  "first_winner [] = None"
| "first_winner (cs # rest) = (if cs = [] then first_winner rest else batch_winner cs)"

lemma batch_winner_Some:
  assumes "cs \<noteq> []"
  obtains c pre post where "batch_winner cs = Some c" and "cs = pre @ c # post"
    and "\<forall>d \<in> set cs. tm_source d \<le> tm_source c" and "\<forall>d \<in> set pre. tm_source d < tm_source c"
proof -
  have "Max (tm_source ` set cs) \<in> tm_source ` set cs" using assms by (intro Max_in) auto
  then obtain m where m: "m \<in> set cs" "tm_source m = Max (tm_source ` set cs)" by auto
  then have "\<forall>d \<in> set cs. tm_source d \<le> tm_source m" by simp
  with m(1) have "find (\<lambda>c. \<forall>d \<in> set cs. tm_source d \<le> tm_source c) cs \<noteq> None"
    unfolding find_None_set by blast
  then obtain c where c: "find (\<lambda>c. \<forall>d \<in> set cs. tm_source d \<le> tm_source c) cs = Some c" by blast
  then obtain i where i: "i < length cs" "\<forall>d \<in> set cs. tm_source d \<le> tm_source (cs ! i)" "c = cs ! i"
      "\<forall>j < i. \<not> (\<forall>d \<in> set cs. tm_source d \<le> tm_source (cs ! j))"
    by (auto simp: find_Some_iff)
  have "tm_source d < tm_source c" if d: "d \<in> set (take i cs)" for d
  proof -
    obtain j where "j < length (take i cs)" "take i cs ! j = d" using d unfolding in_set_conv_nth by blast
    then have j: "j < i" "d = cs ! j" by auto
    have "d \<in> set cs" using j i(1) by simp
    moreover have "tm_source d \<noteq> tm_source c" using i j by auto
    ultimately show ?thesis using i(2,3) by (simp add: less_le)
  qed
  then show thesis
    using that [of c "take i cs" "drop (Suc i) cs"] c i by (simp add: batch_winner_def id_take_nth_drop)
qed

lemma first_winner_append:
  "first_winner (xs @ ys) = (if \<exists>cs \<in> set xs. cs \<noteq> [] then first_winner xs else first_winner ys)"
  by (induction xs) auto

lemma first_winner_None: "first_winner xs = None \<longleftrightarrow> (\<forall>cs \<in> set xs. cs = [])"
proof (induction xs)
  case (Cons cs xs)
  show ?case
  proof (cases "cs = []")
    case False
    then obtain c where "batch_winner cs = Some c" by (rule batch_winner_Some)
    then show ?thesis using False by simp
  qed (use Cons in simp)
qed simp

section \<open>Sorting a batch\<close>

text \<open>The head of the sorted batch is the first candidate of the highest source.\<close>

fun entry_ok :: "batch_entry \<Rightarrow> bool" where
  "entry_ok e \<longleftrightarrow> be_priority e = terminal_priority (tm_source (be_claim e))"

declare entry_ok.simps [simp del]

definition entries_of :: "terminal_candidate list \<Rightarrow> batch_entry list \<Rightarrow> bool" where
  "entries_of cs es \<longleftrightarrow> map be_claim es = map claim_of cs \<and> (\<forall>e \<in> set es. entry_ok e)
     \<and> sorted (map be_sequence es) \<and> distinct (map be_sequence es)"

lemma hd_sort_key:
  assumes "x \<in> set xs" and "\<forall>y \<in> set xs. f x \<le> f y" and "inj_on f (set xs)"
  shows "hd (sort_key f xs) = x"
proof -
  have "sort_key f xs \<noteq> []" using assms(1) by (metis length_pos_if_in_set length_sort list.size(3) not_less0)
  then obtain y ys where ys: "sort_key f xs = y # ys" by (cases "sort_key f xs") auto
  then have y: "y \<in> set xs" by (metis list.set_intros(1) set_sort)
  have "sorted (map f (y # ys))" using sorted_sort_key [of f xs] ys by simp
  moreover have "x = y \<or> x \<in> set ys" using assms(1) ys by (metis set_ConsD set_sort)
  ultimately have "f y \<le> f x" by auto
  then have "f y = f x" using assms(2) y by (meson antisym)
  then show ?thesis using inj_onD [OF assms(3) _ y assms(1)] ys by simp
qed

lemma entries_inj: "entries_of cs es \<Longrightarrow> inj_on candidate_rank (set es)"
  by (auto simp: entries_of_def inj_on_def candidate_rank_def distinct_map)

lemma claim_of_source [simp]: "tm_source (claim_of c) = tm_source c"
  by (simp add: claim_of_def)

lemma sorted_winner:
  assumes "entries_of cs es" and "es \<noteq> []"
  shows "map_option claim_of (batch_winner cs) = Some (be_claim (hd (sort_key candidate_rank es)))"
proof -
  have len: "length cs = length es" and cl: "map be_claim es = map claim_of cs"
    using assms(1) by (auto simp: entries_of_def dest: map_eq_imp_length_eq)
  then have "cs \<noteq> []" using assms(2) by auto
  then obtain c pre post where c: "batch_winner cs = Some c" "cs = pre @ c # post"
      "\<forall>d \<in> set cs. tm_source d \<le> tm_source c" "\<forall>d \<in> set pre. tm_source d < tm_source c"
    by (rule batch_winner_Some)
  let ?i = "length pre"
  have i: "?i < length es" "cs ! ?i = c" using len c(2) by auto
  have claim: "be_claim (es ! j) = claim_of (cs ! j)" if "j < length es" for j
    using arg_cong [OF cl, of "\<lambda>l. l ! j"] that len by simp
  have pr: "be_priority (es ! j) = terminal_priority (tm_source (cs ! j))" if "j < length es" for j
    using assms(1) that claim by (simp add: entries_of_def entry_ok.simps)
  have "candidate_rank (es ! ?i) \<le> candidate_rank (es ! j)" if j: "j < length es" for j
  proof (cases "j < ?i")
    case True
    then have "cs ! j \<in> set pre" using c(2) by (simp add: nth_append)
    then show ?thesis using c(4) pr i j by (simp add: candidate_rank_def less_live_source_def)
  next
    case False
    have "cs ! j \<in> set cs" using j len by simp
    then have "tm_source (cs ! j) \<le> tm_source c" using c(3) by blast
    moreover have "be_sequence (es ! ?i) \<le> be_sequence (es ! j)"
      using assms(1) False j by (auto simp: entries_of_def sorted_iff_nth_mono)
    ultimately show ?thesis
      using pr i j by (auto simp: candidate_rank_def less_eq_live_source_def)
  qed
  then have "hd (sort_key candidate_rank es) = es ! ?i"
    using i(1) entries_inj [OF assms(1)] by (intro hd_sort_key) (auto simp: in_set_conv_nth)
  then show ?thesis using claim [OF i(1)] i(2) c(1) by simp
qed

section \<open>What a callback does\<close>

text \<open>The candidates a callback offers, in order, with the one its errors add.\<close>

fun offered ::
    "('x thrown_value \<Rightarrow> normalized_error) \<Rightarrow> terminal_candidate list \<Rightarrow> 'x call_step list
      \<Rightarrow> 'x thrown_value option \<times> terminal_candidate list" where
  "offered nz cs [] = (None, cs)"
| "offered nz cs (Offer c # rest) = offered nz (cs @ [c]) rest"
| "offered nz cs (Nested steps ending caught # rest) =
     (let (thrown, cs1) = offered nz cs steps;
          outcome = (if thrown = None then ended_with ending else thrown);
          cs2 = (case outcome of None \<Rightarrow> cs1 | Some x \<Rightarrow>
                  if \<exists>c \<in> set cs1. tm_source c = ProviderRuntime then cs1
                  else cs1 @ [\<lparr>tm_source = ProviderRuntime, tm_cause = Some (nz x)\<rparr>])
      in if outcome \<noteq> None \<and> \<not> caught then (outcome, cs2) else offered nz cs2 rest)"

definition batch_offers ::
    "('x thrown_value \<Rightarrow> normalized_error) \<Rightarrow> 'x call_step list \<Rightarrow> 'x ending \<Rightarrow> terminal_candidate list" where
  "batch_offers nz steps ending = snd (offered nz [] [Nested steps ending True])"

text \<open>The arbiter inside a callback: batch \<open>b\<close> is the last one, uncommitted, and holds \<open>cs\<close>.\<close>

definition holds_batch :: "arbiter \<Rightarrow> nat \<Rightarrow> terminal_candidate list \<Rightarrow> arbiter \<Rightarrow> bool" where
  "holds_batch st0 b cs st \<longleftrightarrow> ab_active st = Some b \<and> b < length (ab_batches st0)
     \<and> ab_claim st = ab_claim st0 \<and> ab_queue st = ab_queue st0 \<and> ab_next_sequence st0 \<le> ab_next_sequence st
     \<and> (\<exists>es. ab_batches st = (ab_batches st0)[b := \<lparr>bt_candidates = es, bt_committed = False\<rparr>]
         \<and> entries_of cs es \<and> (\<forall>e \<in> set es. be_sequence e \<le> ab_next_sequence st))"

lemma entries_of_snoc:
  assumes "entries_of cs es" and "\<forall>e \<in> set es. be_sequence e \<le> n"
  shows "entries_of (cs @ [c]) (es @ [\<lparr>be_claim = claim_of c, be_priority = terminal_priority (tm_source c),
    be_sequence = n + 1\<rparr>])"
  using assms by (auto simp: entries_of_def entry_ok.simps sorted_append)

lemma offer_holds:
  assumes "holds_batch st0 b cs st"
  shows "holds_batch st0 b (cs @ [c]) (snd (offer_in_batch b c st))"
proof -
  from assms obtain es where es: "ab_batches st = (ab_batches st0)[b := \<lparr>bt_candidates = es, bt_committed = False\<rparr>]"
    "entries_of cs es" "\<forall>e \<in> set es. be_sequence e \<le> ab_next_sequence st"
    by (auto simp: holds_batch_def)
  let ?es = "es @ [\<lparr>be_claim = claim_of c, be_priority = terminal_priority (tm_source c),
    be_sequence = ab_next_sequence st + 1\<rparr>]"
  have "ab_batches (snd (offer_in_batch b c st)) = (ab_batches st0)[b := \<lparr>bt_candidates = ?es, bt_committed = False\<rparr>]"
    using assms es(1) by (simp add: holds_batch_def offer_in_batch_def Let_def)
  moreover have "\<forall>e \<in> set ?es. be_sequence e \<le> ab_next_sequence (snd (offer_in_batch b c st))"
    using es(3) by (auto simp: offer_in_batch_def Let_def)
  ultimately show ?thesis
    using assms entries_of_snoc [OF es(2,3), of c] unfolding holds_batch_def
    by (intro conjI exI [of _ ?es]) (simp_all add: offer_in_batch_def Let_def)
qed

lemma holds_sources:
  assumes "holds_batch st0 b cs st"
  shows "(\<exists>e \<in> set (bt_candidates (ab_batches st ! b)). tm_source (be_claim e) = s)
    \<longleftrightarrow> (\<exists>c \<in> set cs. tm_source c = s)"
proof -
  from assms obtain es where es: "ab_batches st ! b = \<lparr>bt_candidates = es, bt_committed = False\<rparr>" "entries_of cs es"
    by (auto simp: holds_batch_def)
  have "set (map tm_source (map be_claim es)) = set (map tm_source (map claim_of cs))"
    using es(2) by (simp only: entries_of_def)
  then have "s \<in> (\<lambda>e. tm_source (be_claim e)) ` set es \<longleftrightarrow> s \<in> tm_source ` set cs" by (simp add: image_image)
  then show ?thesis using es(1) by (simp add: image_iff eq_commute)
qed

lemma close_holds:
  assumes "holds_batch st0 b cs st"
  shows "holds_batch st0 b (case outcome of None \<Rightarrow> cs | Some x \<Rightarrow>
      if \<exists>c \<in> set cs. tm_source c = ProviderRuntime then cs
      else cs @ [\<lparr>tm_source = ProviderRuntime, tm_cause = Some (nz x)\<rparr>])
    ((close_batch nz b prev outcome st)\<lparr>ab_active := Some b\<rparr>)"
  using assms offer_holds [OF assms] holds_sources [OF assms, of ProviderRuntime]
  by (auto simp: close_batch_def Let_def holds_batch_def split: option.splits)

lemma run_steps_holds:
  "holds_batch st0 b cs st \<Longrightarrow> fst (run_steps nz steps st) = fst (offered nz cs steps)
    \<and> holds_batch st0 b (snd (offered nz cs steps)) (snd (run_steps nz steps st))"
proof (induction nz steps st arbitrary: cs rule: run_steps.induct)
  case (2 nz c rest st)
  from 2(2) have "ab_active st = Some b" by (simp add: holds_batch_def)
  then show ?case using 2(1) offer_holds [OF 2(2), of c] 
    by (cases "offer_in_batch b c st") (auto simp: offer_terminal_def)
next
  case (3 nz steps ending caught rest st)
  have active: "ab_active st = Some b" using 3(3) by (simp add: holds_batch_def)
  then have same: "st\<lparr>ab_active := Some b\<rparr> = st" by simp
  have opened: "open_batch st = (b, st)" using active by (simp add: open_batch_def)
  obtain thrown st2 where run: "run_steps nz steps st = (thrown, st2)" by (cases "run_steps nz steps st")
  have run': "run_steps nz steps (st\<lparr>ab_active := Some b\<rparr>) = (thrown, st2)" using run same by simp
  have "fst (offered nz cs steps) = thrown \<and> holds_batch st0 b (snd (offered nz cs steps)) st2"
    using 3(1) [OF opened [symmetric] refl, of cs] 3(3) same run by auto
  then obtain cs1 where IH1: "offered nz cs steps = (thrown, cs1)" "holds_batch st0 b cs1 st2"
    by (cases "offered nz cs steps") auto
  let ?outcome = "if thrown = None then ended_with ending else thrown"
  let ?cs2 = "case ?outcome of None \<Rightarrow> cs1 | Some x \<Rightarrow>
      if \<exists>c \<in> set cs1. tm_source c = ProviderRuntime then cs1
      else cs1 @ [\<lparr>tm_source = ProviderRuntime, tm_cause = Some (nz x)\<rparr>]"
  let ?st3 = "close_batch nz b (Some b) ?outcome st2"
  have closed: "holds_batch st0 b ?cs2 ?st3"
    using close_holds [OF IH1(2), of nz ?outcome "Some b"] by (simp add: close_batch_def Let_def)
  have step: "run_steps nz (Nested steps ending caught # rest) st =
      (if ?outcome \<noteq> None \<and> \<not> caught then (?outcome, ?st3) else run_steps nz rest ?st3)"
    by (simp only: run_steps.simps opened prod.case Let_def run' active)
  have off: "offered nz cs (Nested steps ending caught # rest) =
      (if ?outcome \<noteq> None \<and> \<not> caught then (?outcome, ?cs2) else offered nz ?cs2 rest)"
    by (simp only: offered.simps IH1(1) prod.case Let_def)
  show ?case
  proof (cases "?outcome \<noteq> None \<and> \<not> caught")
    case True
    then show ?thesis unfolding step off using closed by simp
  next
    case False
    have "fst (run_steps nz rest ?st3) = fst (offered nz ?cs2 rest)
      \<and> holds_batch st0 b (snd (offered nz ?cs2 rest)) (snd (run_steps nz rest ?st3))"
      by (rule 3(2) [OF refl opened [symmetric] refl run' [symmetric] refl refl False, unfolded active, OF closed])
    then show ?thesis unfolding step off if_not_P [OF False] .
  qed
qed simp

section \<open>Batches in order\<close>

text \<open>
  The arbiter between two events: no batch is active; the first \<open>k\<close> batches are committed, the rest
  wait in the queue in their order; the claim is the abstract choice over the committed batches.
\<close>

definition commits :: "arbiter_task list \<Rightarrow> nat list" where
  "commits q = concat (map (\<lambda>t. case t of CommitTask b \<Rightarrow> [b] | _ \<Rightarrow> []) q)"

definition arbiter_refines :: "terminal_candidate list list \<Rightarrow> nat \<Rightarrow> arbiter \<Rightarrow> bool" where
  "arbiter_refines css k st \<longleftrightarrow> ab_active st = None \<and> k \<le> length css \<and> length (ab_batches st) = length css
     \<and> (\<forall>i < length css. bt_committed (ab_batches st ! i) = (i < k)
          \<and> entries_of (css ! i) (bt_candidates (ab_batches st ! i)))
     \<and> commits (ab_queue st) = [k..<length css]
     \<and> ab_claim st = map_option claim_of (first_winner (take k css))"

lemma commits_simps [simp]:
  "commits [] = []"
  "commits (CommitTask b # q) = b # commits q"
  "commits (ResumeWaiter w # q) = commits q"
  "commits (ResumeTerminal w # q) = commits q"
  "commits (q @ q') = commits q @ commits q'"
  by (simp_all add: commits_def)

lemma new_arbiter_refines: "arbiter_refines [] 0 new_arbiter"
  by (simp add: arbiter_refines_def new_arbiter_def)

lemma dispatch_refines:
  assumes "arbiter_refines css k st"
  shows "arbiter_refines (css @ [batch_offers nz steps ending]) k (snd (dispatch_batch nz steps ending st))
    \<and> ab_queue (snd (dispatch_batch nz steps ending st)) = ab_queue st @ [CommitTask (length css)]
    \<and> ab_claim (snd (dispatch_batch nz steps ending st)) = ab_claim st"
proof -
  let ?b = "length css"
  let ?st1 = "st\<lparr>ab_batches := ab_batches st @ [\<lparr>bt_candidates = [], bt_committed = False\<rparr>],
    ab_queue := ab_queue st @ [CommitTask ?b]\<rparr>"
  have opened: "open_batch st = (?b, ?st1)" and idle: "ab_active st = None"
    using assms by (simp_all add: arbiter_refines_def open_batch_def Let_def)
  have start: "holds_batch ?st1 ?b [] (?st1\<lparr>ab_active := Some ?b\<rparr>)"
    using assms by (auto simp: holds_batch_def arbiter_refines_def entries_of_def list_update_append)
  obtain thrown st2 where run: "run_steps nz steps (?st1\<lparr>ab_active := Some ?b\<rparr>) = (thrown, st2)"
    by (cases "run_steps nz steps (?st1\<lparr>ab_active := Some ?b\<rparr>)")
  obtain cs1 where off: "offered nz [] steps = (thrown, cs1)" and held: "holds_batch ?st1 ?b cs1 st2"
    using run_steps_holds [OF start, of nz steps] run by (cases "offered nz [] steps") auto
  let ?outcome = "if thrown = None then ended_with ending else thrown"
  have offers: "batch_offers nz steps ending = (case ?outcome of None \<Rightarrow> cs1 | Some x \<Rightarrow>
      if \<exists>c \<in> set cs1. tm_source c = ProviderRuntime then cs1
      else cs1 @ [\<lparr>tm_source = ProviderRuntime, tm_cause = Some (nz x)\<rparr>])" (is "_ = ?cs")
    by (simp only: batch_offers_def offered.simps off prod.case Let_def) simp
  let ?st3 = "close_batch nz ?b None ?outcome st2"
  have final: "dispatch_batch nz steps ending st = (?outcome, ?st3)"
    by (simp only: dispatch_batch_def opened prod.case Let_def run idle)
  have "holds_batch ?st1 ?b ?cs (?st3\<lparr>ab_active := Some ?b\<rparr>)" by (rule close_holds [OF held])
  then obtain es where es: "ab_batches ?st3 = (ab_batches ?st1)[?b := \<lparr>bt_candidates = es, bt_committed = False\<rparr>]"
      "entries_of ?cs es" "ab_claim ?st3 = ab_claim st" "ab_queue ?st3 = ab_queue ?st1"
    by (auto simp: holds_batch_def)
  have "ab_batches ?st3 = ab_batches st @ [\<lparr>bt_candidates = es, bt_committed = False\<rparr>]"
    using es(1) assms by (simp add: arbiter_refines_def list_update_append)
  moreover have "ab_active ?st3 = None" by (simp add: close_batch_def Let_def)
  ultimately show ?thesis
    using assms es(2-4) unfolding final offers
    by (auto simp: arbiter_refines_def nth_append less_Suc_eq)
qed

lemma commit_refines:
  assumes "arbiter_refines css k st" and "ab_queue st = CommitTask b # q"
  shows "b = k \<and> arbiter_refines css (Suc k) (commit_batch b (st\<lparr>ab_queue := q\<rparr>))"
proof -
  have b: "b = k" and k: "k < length css" and q: "commits q = [Suc k..<length css]"
  proof -
    have "[k..<length css] = b # commits q" using assms by (simp add: arbiter_refines_def)
    then show "b = k" "k < length css" "commits q = [Suc k..<length css]" by (auto simp: upt_eq_Cons_conv)
  qed
  let ?es = "bt_candidates (ab_batches st ! k)"
  have es: "entries_of (css ! k) ?es" and fresh: "\<not> bt_committed (ab_batches st ! k)"
    using assms(1) k by (auto simp: arbiter_refines_def)
  have empty: "?es = [] \<longleftrightarrow> css ! k = []" using es by (auto simp: entries_of_def)
  have take: "take (Suc k) css = take k css @ [css ! k]" using k by (simp add: take_Suc_conv_app_nth)
  have claim: "ab_claim (commit_batch k (st\<lparr>ab_queue := q\<rparr>)) = map_option claim_of (first_winner (take (Suc k) css))"
  proof (cases "ab_claim st = None")
    case True
    then have "\<forall>cs \<in> set (take k css). cs = []"
      using assms(1) by (simp add: arbiter_refines_def first_winner_None)
    then show ?thesis
      using True fresh empty sorted_winner [OF es]
      by (auto simp: commit_batch_def Let_def take first_winner_append)
  next
    case False
    then have "first_winner (take k css) \<noteq> None" and claimed: "ab_claim st = map_option claim_of (first_winner (take k css))"
      using assms(1) by (auto simp: arbiter_refines_def)
    then have "\<exists>cs \<in> set (take k css). cs \<noteq> []" unfolding first_winner_None by blast
    then show ?thesis
      using False fresh claimed by (auto simp: commit_batch_def Let_def take first_winner_append)
  qed
  have "ab_batches (commit_batch k (st\<lparr>ab_queue := q\<rparr>)) =
      (ab_batches st)[k := (ab_batches st ! k)\<lparr>bt_committed := True\<rparr>]"
    and "ab_active (commit_batch k (st\<lparr>ab_queue := q\<rparr>)) = None" and "ab_queue (commit_batch k (st\<lparr>ab_queue := q\<rparr>)) = q"
    using fresh assms(1) by (simp_all add: commit_batch_def Let_def arbiter_refines_def)
  then show ?thesis
    using assms(1) b k q claim es by (auto simp: arbiter_refines_def nth_list_update less_Suc_eq)
qed

section \<open>Runs\<close>

text \<open>The batches a run dispatches, with what each offers.\<close>

definition event_offers ::
    "('x thrown_value \<Rightarrow> normalized_error) \<Rightarrow> 'x arbiter_event \<Rightarrow> arbiter \<Rightarrow> terminal_candidate list list" where
  "event_offers nz ev st =
     (case ev of
        HostCallback steps ending \<Rightarrow> [batch_offers nz steps ending]
      | AskTerminal w c \<Rightarrow> if ab_claim st = None then [[c]] else []
      | _ \<Rightarrow> [])"

fun run_offers ::
    "('x thrown_value \<Rightarrow> normalized_error) \<Rightarrow> 'x arbiter_event list \<Rightarrow> arbiter \<Rightarrow> terminal_candidate list list" where
  "run_offers nz [] st = []"
| "run_offers nz (ev # evs) st = event_offers nz ev st @ run_offers nz evs (snd (arbiter_step nz ev st))"

text \<open>Every queued answer has a claim by then: the claim is there, or a commit before it will set it.\<close>

fun answers_safe :: "terminal_candidate list list \<Rightarrow> bool \<Rightarrow> arbiter_task list \<Rightarrow> bool" where
  "answers_safe css have_claim [] = True"
| "answers_safe css have_claim (CommitTask b # q) = answers_safe css (have_claim \<or> css ! b \<noteq> []) q"
| "answers_safe css have_claim (ResumeWaiter w # q) = answers_safe css have_claim q"
| "answers_safe css have_claim (ResumeTerminal w # q) = (have_claim \<and> answers_safe css have_claim q)"

lemma answers_safe_append:
  "answers_safe css h (q @ q') \<longleftrightarrow>
    answers_safe css h q \<and> answers_safe css (h \<or> (\<exists>b \<in> set (commits q). css ! b \<noteq> [])) q'"
proof (induction q arbitrary: h)
  case (Cons t q)
  then show ?case by (cases t) (simp_all add: disj_assoc)
qed simp

lemma answers_safe_mono: "answers_safe css h q \<Longrightarrow> h \<longrightarrow> h' \<Longrightarrow> answers_safe css h' q"
proof (induction q arbitrary: h h')
  case (Cons t q)
  then show ?case by (cases t) (simp_all, blast+)
qed simp

lemma answers_safe_snoc:
  "\<forall>b \<in> set (commits q). b < length css \<Longrightarrow> answers_safe (css @ [cs]) h q = answers_safe css h q"
proof (induction q arbitrary: h)
  case (Cons t q)
  then show ?case by (cases t) (simp_all add: nth_append)
qed simp

definition arbiter_inv :: "terminal_candidate list list \<Rightarrow> arbiter \<Rightarrow> bool" where
  "arbiter_inv css st \<longleftrightarrow> (\<exists>k. arbiter_refines css k st) \<and> answers_safe css (ab_claim st \<noteq> None) (ab_queue st)"

lemma arbiter_inv_commits: "arbiter_inv css st \<Longrightarrow> \<forall>b \<in> set (commits (ab_queue st)). b < length css"
  by (auto simp: arbiter_inv_def arbiter_refines_def)

lemma arbiter_inv_dispatch:
  assumes "arbiter_inv css st"
  shows "arbiter_inv (css @ [batch_offers nz steps ending]) (snd (dispatch_batch nz steps ending st))"
  using assms dispatch_refines [of css _ st nz steps ending] answers_safe_snoc [OF arbiter_inv_commits [OF assms]]
  by (auto simp: arbiter_inv_def answers_safe_append)

lemma batch_offers_single [simp]: "batch_offers nz [Offer c] Returns = [c]"
  by (simp add: batch_offers_def)

lemma enqueue_refines:
  "arbiter_refines css k st \<Longrightarrow> commits q = [] \<Longrightarrow> arbiter_refines css k (st\<lparr>ab_queue := ab_queue st @ q\<rparr>)"
  by (simp add: arbiter_refines_def)

text \<open>Without a claim every batch still to be decided is queued.\<close>

lemma pending_offer:
  assumes "arbiter_refines css k st" and "ab_claim st = None" and "cs \<in> set css" and "cs \<noteq> []"
  shows "\<exists>b \<in> set (commits (ab_queue st)). css ! b \<noteq> []"
proof -
  from assms(3) obtain i where i: "i < length css" "css ! i = cs" by (auto simp: in_set_conv_nth)
  have "\<forall>cs \<in> set (take k css). cs = []" using assms(1,2) by (simp add: arbiter_refines_def first_winner_None)
  then have "\<not> i < k" using i assms(4) nth_mem [of i "take k css"] by auto
  then have "i \<in> set (commits (ab_queue st))" using assms(1) i by (simp add: arbiter_refines_def)
  then show ?thesis using i assms(4) by blast
qed

lemma arbiter_inv_step:
  assumes "arbiter_inv css st"
  shows "arbiter_inv (css @ event_offers nz ev st) (snd (arbiter_step nz ev st))"
proof (cases ev)
  case (HostCallback steps ending)
  then show ?thesis using arbiter_inv_dispatch [OF assms] by (simp add: event_offers_def)
next
  case (StartWait w)
  obtain k where "arbiter_refines css k st" using assms by (auto simp: arbiter_inv_def)
  then have "arbiter_refines css k (st\<lparr>ab_queue := ab_queue st @ [ResumeWaiter w]\<rparr>)" by (rule enqueue_refines) simp
  then show ?thesis using assms StartWait
    by (auto simp: arbiter_inv_def event_offers_def wait_for_commit_def answers_safe_append)
next
  case (AskTerminal w c)
  show ?thesis
  proof (cases "ab_claim st = None")
    case True
    let ?st = "coordinator_offer nz c st"
    have inv: "arbiter_inv (css @ [[c]]) ?st"
      using arbiter_inv_dispatch [OF assms, of nz "[Offer c]" Returns] by (simp add: coordinator_offer_def)
    then obtain k where k: "arbiter_refines (css @ [[c]]) k ?st" by (auto simp: arbiter_inv_def)
    have "ab_claim ?st \<noteq> None \<or> (\<exists>b \<in> set (commits (ab_queue ?st)). (css @ [[c]]) ! b \<noteq> [])"
      using pending_offer [OF k, of "[c]"] by auto
    then show ?thesis
      using inv True AskTerminal enqueue_refines [OF k, of "[ResumeTerminal w]"]
      by (auto simp: arbiter_inv_def event_offers_def committed_terminal_def Let_def answers_safe_append)
  next
    case False
    obtain k where "arbiter_refines css k st" using assms by (auto simp: arbiter_inv_def)
    then have "arbiter_refines css k (st\<lparr>ab_queue := ab_queue st @ [ResumeTerminal w]\<rparr>)" by (rule enqueue_refines) simp
    then show ?thesis using assms AskTerminal False
      by (auto simp: arbiter_inv_def event_offers_def committed_terminal_def Let_def answers_safe_append)
  qed
next
  case Microtask
  show ?thesis
  proof (cases "ab_queue st")
    case Nil
    then show ?thesis using assms Microtask by (simp add: event_offers_def)
  next
    case (Cons t q)
    obtain k where k: "arbiter_refines css k st" using assms by (auto simp: arbiter_inv_def)
    show ?thesis
    proof (cases t)
      case (CommitTask b)
      note c = commit_refines [OF k Cons [unfolded CommitTask]]
      have "ab_claim (commit_batch b (st\<lparr>ab_queue := q\<rparr>)) \<noteq> None"
        if "ab_claim st \<noteq> None \<or> css ! b \<noteq> []"
      proof -
        have "b = k" "k < length css" using c k Cons CommitTask
          by (auto simp: arbiter_refines_def)
        then have "\<exists>cs \<in> set (take (Suc k) css). cs \<noteq> []" if "css ! b \<noteq> []"
          using that by (auto simp: take_Suc_conv_app_nth)
        moreover have "\<exists>cs \<in> set (take (Suc k) css). cs \<noteq> []" if "ab_claim st \<noteq> None"
        proof -
          have "first_winner (take k css) \<noteq> None" using that k by (auto simp: arbiter_refines_def)
          then have "\<exists>cs \<in> set (take k css). cs \<noteq> []" unfolding first_winner_None by blast
          then show ?thesis using set_take_subset_set_take [of k "Suc k" css] by auto
        qed
        ultimately have "first_winner (take (Suc k) css) \<noteq> None" using that unfolding first_winner_None by blast
        then show ?thesis using c by (auto simp: arbiter_refines_def)
      qed
      moreover have "ab_queue (commit_batch b (st\<lparr>ab_queue := q\<rparr>)) = q" by (simp add: commit_batch_def Let_def)
      ultimately show ?thesis
        using assms c Microtask Cons CommitTask
        by (auto simp: arbiter_inv_def event_offers_def run_task_def elim!: answers_safe_mono)
    next
      case (ResumeWaiter w)
      then show ?thesis using assms Microtask Cons k
        by (auto simp: arbiter_inv_def event_offers_def run_task_def arbiter_refines_def)
    next
      case (ResumeTerminal w)
      then show ?thesis using assms Microtask Cons k
        by (auto simp: arbiter_inv_def event_offers_def run_task_def arbiter_refines_def)
    qed
  qed
qed

lemma arbiter_inv_run:
  "arbiter_inv css st \<Longrightarrow> arbiter_inv (css @ run_offers nz evs st) (snd (arbiter_run nz evs st))"
proof (induction evs arbitrary: css st)
  case (Cons ev evs)
  from Cons(1) [OF arbiter_inv_step [OF Cons(2), of nz ev]] show ?case
    by (simp add: split_beta Let_def)
qed simp

lemma new_arbiter_inv: "arbiter_inv [] new_arbiter"
  using new_arbiter_refines by (auto simp: arbiter_inv_def new_arbiter_def)

text \<open>
  Property C18: however callbacks, waits and microtasks interleave, the arbiter's claim, once there is
  one, is the abstract choice: of the first batch that offers anything the first candidate of the
  highest source; and when the microtasks are drained the choice has been made.
\<close>

theorem terminal_choice_refines:
  assumes "arbiter_run nz evs new_arbiter = (answers, st)" and "ab_claim st \<noteq> None \<or> ab_queue st = []"
  shows "ab_claim st = map_option claim_of (first_winner (run_offers nz evs new_arbiter))"
proof -
  let ?css = "run_offers nz evs new_arbiter"
  have "arbiter_inv ?css st" using arbiter_inv_run [OF new_arbiter_inv, of nz evs] assms(1) by simp
  then obtain k where k: "k \<le> length ?css" "commits (ab_queue st) = [k..<length ?css]"
      "ab_claim st = map_option claim_of (first_winner (take k ?css))"
    by (auto simp: arbiter_inv_def arbiter_refines_def)
  show ?thesis
  proof (cases "ab_claim st = None")
    case True
    then have "ab_queue st = []" using assms(2) by simp
    then have "[k..<length ?css] = []" using k(2) by simp
    then have "length ?css \<le> k" by auto
    then show ?thesis using k(3) by simp
  next
    case False
    then have "\<exists>cs \<in> set (take k ?css). cs \<noteq> []" using k(3) by (auto simp: first_winner_None)
    then have "first_winner ?css = first_winner (take k ?css)"
      by (metis append_take_drop_id first_winner_append)
    then show ?thesis using k(3) by simp
  qed
qed

section \<open>Answers\<close>

text \<open>A claim stays, and an answer is the claim of its moment.\<close>

lemma commit_batch_keeps: "ab_claim st = Some c \<Longrightarrow> ab_claim (commit_batch b st) = Some c"
  by (simp add: commit_batch_def Let_def)

lemma commit_batch_queue [simp]: "ab_queue (commit_batch b st) = ab_queue st"
  by (simp add: commit_batch_def Let_def)

lemma dispatch_keeps:
  assumes "arbiter_inv css st"
  shows "ab_claim (snd (dispatch_batch nz steps ending st)) = ab_claim st"
    and "ab_queue (snd (dispatch_batch nz steps ending st)) = ab_queue st @ [CommitTask (length css)]"
  using assms dispatch_refines [of css _ st nz steps ending] by (auto simp: arbiter_inv_def)

lemma step_keeps:
  assumes "arbiter_inv css st" and "ab_claim st = Some c"
  shows "ab_claim (snd (arbiter_step nz ev st)) = Some c"
  using assms dispatch_keeps(1) [OF assms(1), of nz]
  by (cases ev) (auto simp: wait_for_commit_def committed_terminal_def run_task_def commit_batch_keeps
      split: list.splits arbiter_task.splits)

lemma step_answers:
  assumes "arbiter_inv css st" and "TerminalAnswer w r \<in> set (fst (arbiter_step nz ev st))"
  shows "\<exists>c. r = Inr c \<and> ab_claim (snd (arbiter_step nz ev st)) = Some c"
  using assms by (cases ev) (auto simp: arbiter_inv_def run_task_def split: list.splits arbiter_task.splits)

text \<open>A question waits in the queue until it is answered.\<close>

lemma step_asked:
  assumes "arbiter_inv css st" and "(\<exists>c. ev = AskTerminal w c) \<or> ResumeTerminal w \<in> set (ab_queue st)"
  shows "ResumeTerminal w \<in> set (ab_queue (snd (arbiter_step nz ev st)))
    \<or> (\<exists>r. TerminalAnswer w r \<in> set (fst (arbiter_step nz ev st)))"
  using assms dispatch_keeps(2) [OF assms(1), of nz]
  by (cases ev) (auto simp: wait_for_commit_def committed_terminal_def coordinator_offer_def run_task_def Let_def
      split: list.splits arbiter_task.splits)

lemma run_answers:
  assumes "arbiter_inv css st"
  shows "(ab_claim st = Some c \<longrightarrow> ab_claim (snd (arbiter_run nz evs st)) = Some c)
    \<and> (\<forall>w r. TerminalAnswer w r \<in> set (fst (arbiter_run nz evs st)) \<longrightarrow>
        (\<exists>c. r = Inr c \<and> ab_claim (snd (arbiter_run nz evs st)) = Some c))
    \<and> ((\<exists>c. AskTerminal w c \<in> set evs) \<or> ResumeTerminal w \<in> set (ab_queue st) \<longrightarrow>
        ResumeTerminal w \<in> set (ab_queue (snd (arbiter_run nz evs st)))
        \<or> (\<exists>r. TerminalAnswer w r \<in> set (fst (arbiter_run nz evs st))))"
  using assms
proof (induction evs arbitrary: css st c)
  case (Cons ev evs)
  obtain as st' where step: "arbiter_step nz ev st = (as, st')" by (cases "arbiter_step nz ev st")
  obtain as' st'' where rest: "arbiter_run nz evs st' = (as', st'')" by (cases "arbiter_run nz evs st'")
  have inv: "arbiter_inv (css @ event_offers nz ev st) st'"
    using arbiter_inv_step [OF Cons(2), of nz ev] step by simp
  note IH = Cons(1) [OF inv, unfolded rest]
  have "\<exists>c. r = Inr c \<and> ab_claim st'' = Some c" if "TerminalAnswer w r \<in> set as" for w r
    using step_answers [OF Cons(2), of w r nz ev] that IH step by auto
  moreover have "ab_claim st'' = Some c" if "ab_claim st = Some c"
    using step_keeps [OF Cons(2) that, of nz ev] IH step by simp
  moreover have "ResumeTerminal w \<in> set (ab_queue st'') \<or> (\<exists>r. TerminalAnswer w r \<in> set (as @ as'))"
    if "(\<exists>c. AskTerminal w c \<in> set (ev # evs)) \<or> ResumeTerminal w \<in> set (ab_queue st)"
  proof (cases "\<exists>c. AskTerminal w c \<in> set evs")
    case False
    then show ?thesis using step_asked [OF Cons(2), of ev w nz] that IH step by auto
  qed (use IH in auto)
  ultimately show ?case using IH step rest by auto
qed (use assms in simp)

lemma microtasks_drain:
  "length (ab_queue st) \<le> n \<Longrightarrow> ab_queue (snd (arbiter_run nz (replicate n Microtask) st)) = []"
proof (induction n arbitrary: st)
  case (Suc n)
  have "length (ab_queue (snd (arbiter_step nz Microtask st))) \<le> n"
    using Suc(2) by (cases "ab_queue st") (auto simp: run_task_def split: arbiter_task.splits)
  from Suc(1) [OF this] show ?case by (simp add: split_beta Let_def del: arbiter_step.simps)
qed simp

lemma arbiter_run_append:
  "arbiter_run nz (evs @ evs') st =
    (let (as, st') = arbiter_run nz evs st; (as', st'') = arbiter_run nz evs' st' in (as @ as', st''))"
  by (induction evs arbitrary: st) (simp_all add: split_beta Let_def)

text \<open>
  Property C19: \<open>committedTerminal\<close> never fails and all its callers agree: when the microtasks queued by
  a run have been processed, every caller has been answered, with a claim, and it is one and the same.
\<close>

theorem committed_terminal_answered:
  assumes "arbiter_run nz (evs @ replicate n Microtask) new_arbiter = (answers, st)"
    and "length (ab_queue (snd (arbiter_run nz evs new_arbiter))) \<le> n" and "AskTerminal w c \<in> set evs"
  shows "\<exists>claim. ab_claim st = Some claim \<and> TerminalAnswer w (Inr claim) \<in> set answers
    \<and> (\<forall>w' r. TerminalAnswer w' r \<in> set answers \<longrightarrow> r = Inr claim)"
proof -
  have "ab_queue st = []"
    using assms(1) microtasks_drain [OF assms(2), of nz] by (auto simp: arbiter_run_append split_beta Let_def)
  moreover have "AskTerminal w c \<in> set (evs @ replicate n Microtask)" using assms(3) by simp
  ultimately have "\<exists>r. TerminalAnswer w r \<in> set answers"
    using run_answers [OF new_arbiter_inv, of undefined nz "evs @ replicate n Microtask" w] assms(1) by auto
  then obtain r where "TerminalAnswer w r \<in> set answers" ..
  moreover have all: "\<exists>c. r = Inr c \<and> ab_claim st = Some c" if "TerminalAnswer w r \<in> set answers" for w r
    using run_answers [OF new_arbiter_inv, of undefined nz "evs @ replicate n Microtask" w] assms(1) that by auto
  ultimately show ?thesis by (metis option.inject)
qed

section \<open>Concrete runs\<close>

definition provider_down :: "unit thrown_value \<Rightarrow> normalized_error" where
  "provider_down x = \<lparr>ne_code = js ''voice_runtime.run_failed'', ne_category = CatInternal, ne_retriable = False\<rparr>"

definition just :: "live_source \<Rightarrow> terminal_candidate" where
  "just s = \<lparr>tm_source = s, tm_cause = None\<rparr>"

definition hangup_race :: "unit arbiter_event list" where
  "hangup_race =
     [HostCallback [Nested [Offer (just NormalCompletion)] (Throws ()) True, Offer (just RemoteTransport)] Returns,
      HostCallback [Offer (just OperatorStop)] Returns, AskTerminal 7 (just CallerAbort)]"

theorem terminal_choice_refines_witness:
  "ab_claim (snd (arbiter_run provider_down (hangup_race @ replicate 4 Microtask) new_arbiter))
    = Some (claim_of (just RemoteTransport))"
proof -
  let ?st = "snd (arbiter_run provider_down (hangup_race @ replicate 4 Microtask) new_arbiter)"
  have "ab_queue ?st = []"
    by code_simp
  moreover have "first_winner (run_offers provider_down (hangup_race @ replicate 4 Microtask) new_arbiter)
      = Some (just RemoteTransport)"
    by code_simp
  ultimately show ?thesis
    using terminal_choice_refines [of provider_down "hangup_race @ replicate 4 Microtask"
      "fst (arbiter_run provider_down (hangup_race @ replicate 4 Microtask) new_arbiter)" ?st] by simp
qed

theorem committed_terminal_answered_witness:
  "\<exists>claim. TerminalAnswer 7 (Inr claim)
    \<in> set (fst (arbiter_run provider_down (hangup_race @ replicate 4 Microtask) new_arbiter))"
proof -
  have "length (ab_queue (snd (arbiter_run provider_down hangup_race new_arbiter))) \<le> 4"
    by code_simp
  moreover have "AskTerminal 7 (just CallerAbort) \<in> set hangup_race" by (simp add: hangup_race_def)
  ultimately show ?thesis
    using committed_terminal_answered [of provider_down hangup_race 4] by (metis prod.collapse)
qed

end
