(* ===== verification/Text_Encoding.thy ===== *)
theory Text_Encoding
  imports Prelude
begin

text \<open>
  The parts of the JavaScript standard library that the string code of the repository stands on:
  UTF-16 code units and code points, the UTF-8 length of a string, \<open>encodeURIComponent\<close>, white space
  and decimal numerals. The main result is that \<open>encodeURIComponent\<close> is injective and never writes a
  colon, which makes the storage keys built from it unambiguous.
\<close>

section \<open>Code units and code points\<close>

definition is_high :: "16 word \<Rightarrow> bool" where
  "is_high u \<longleftrightarrow> 0xD800 \<le> unat u \<and> unat u < 0xDC00"

definition is_low :: "16 word \<Rightarrow> bool" where
  "is_low u \<longleftrightarrow> 0xDC00 \<le> unat u \<and> unat u < 0xE000"

text \<open>\<open>None\<close> for a string with a lone surrogate.\<close>

fun code_points :: "js_string \<Rightarrow> nat list option" where
  "code_points [] = Some []"
| "code_points (u # us) =
     (if is_high u then
        (case us of
           [] \<Rightarrow> None
         | v # rest \<Rightarrow>
             if is_low v
             then map_option (Cons (0x10000 + (unat u - 0xD800) * 0x400 + (unat v - 0xDC00))) (code_points rest)
             else None)
      else if is_low u then None
      else map_option (Cons (unat u)) (code_points us))"

definition units :: "nat \<Rightarrow> js_string" where
  "units c = (if c < 0x10000 then [of_nat c]
     else [of_nat (0xD800 + (c - 0x10000) div 0x400), of_nat (0xDC00 + (c - 0x10000) mod 0x400)])"

lemma unat_16: "unat (u :: 16 word) < 65536"
proof -
  have "unat u < 2 ^ LENGTH(16)" by (rule unsigned_less)
  then show ?thesis by simp
qed

lemma units_surrogates:
  assumes "is_high u" and "is_low v"
  shows "units (0x10000 + (unat u - 0xD800) * 0x400 + (unat v - 0xDC00)) = [u, v]"
proof -
  let ?h = "unat u - 0xD800" and ?l = "unat v - 0xDC00"
  have l: "?l < 0x400" using assms(2) by (auto simp: is_low_def)
  then have "(?h * 0x400 + ?l) div 0x400 = ?h" and "(?h * 0x400 + ?l) mod 0x400 = ?l" by simp_all
  moreover have "0xD800 + ?h = unat u" and "0xDC00 + ?l = unat v"
    using assms by (auto simp: is_low_def is_high_def)
  ultimately show ?thesis by (simp add: units_def add.assoc)
qed

lemma code_points_units: "code_points s = Some cs \<Longrightarrow> concat (map units cs) = s"
proof (induction s arbitrary: cs rule: code_points.induct)
  case (2 u us)
  show ?case
  proof (cases "is_high u")
    case True
    then obtain v rest ds where s: "us = v # rest" "is_low v" "code_points rest = Some ds"
        "cs = (0x10000 + (unat u - 0xD800) * 0x400 + (unat v - 0xDC00)) # ds"
      using 2(3) by (auto split: list.splits if_splits)
    then show ?thesis using 2(1) [OF True s(1,2,3)] units_surrogates [OF True s(2)] by simp
  next
    case False
    then obtain ds where "\<not> is_low u" "code_points us = Some ds" "cs = unat u # ds"
      using 2(3) by (auto split: if_splits)
    then show ?thesis using 2(2) [OF False] unat_16 [of u] by (simp add: units_def)
  qed
qed simp

lemma code_points_range: "code_points s = Some cs \<Longrightarrow> \<forall>c \<in> set cs. c < 0x110000"
proof (induction s arbitrary: cs rule: code_points.induct)
  case (2 u us)
  show ?case
  proof (cases "is_high u")
    case True
    then obtain v rest ds where s: "us = v # rest" "is_low v" "code_points rest = Some ds"
        "cs = (0x10000 + (unat u - 0xD800) * 0x400 + (unat v - 0xDC00)) # ds"
      using 2(3) by (auto split: list.splits if_splits)
    then show ?thesis using 2(1) [OF True s(1,2,3)] True by (auto simp: is_high_def is_low_def)
  next
    case False
    then obtain ds where "\<not> is_low u" "code_points us = Some ds" "cs = unat u # ds"
      using 2(3) by (auto split: if_splits)
    then show ?thesis using 2(2) [OF False] unat_16 [of u] by fastforce
  qed
qed simp

section \<open>UTF-8\<close>

definition utf8 :: "nat \<Rightarrow> nat list" where
  "utf8 c =
     (if c < 0x80 then [c]
      else if c < 0x800 then [0xC0 + c div 0x40, 0x80 + c mod 0x40]
      else if c < 0x10000 then [0xE0 + c div 0x1000, 0x80 + c div 0x40 mod 0x40, 0x80 + c mod 0x40]
      else [0xF0 + c div 0x40000, 0x80 + c div 0x1000 mod 0x40, 0x80 + c div 0x40 mod 0x40, 0x80 + c mod 0x40])"

fun un_utf8 :: "nat list \<Rightarrow> nat list" where
  "un_utf8 [] = []"
| "un_utf8 (a # bs) =
     (if a < 0x80 then a # un_utf8 bs
      else if a < 0xE0 then
        (case bs of b # rest \<Rightarrow> ((a - 0xC0) * 0x40 + (b - 0x80)) # un_utf8 rest | _ \<Rightarrow> [])
      else if a < 0xF0 then
        (case bs of b # c # rest \<Rightarrow> ((a - 0xE0) * 0x1000 + (b - 0x80) * 0x40 + (c - 0x80)) # un_utf8 rest | _ \<Rightarrow> [])
      else
        (case bs of b # c # d # rest \<Rightarrow>
             ((a - 0xF0) * 0x40000 + (b - 0x80) * 0x1000 + (c - 0x80) * 0x40 + (d - 0x80)) # un_utf8 rest
           | _ \<Rightarrow> []))"

lemma split_64:
  "(c :: nat) div 64 * 64 + c mod 64 = c"
  "(c :: nat) div 4096 * 4096 + c div 64 mod 64 * 64 + c mod 64 = c"
  "(c :: nat) div 262144 * 262144 + c div 4096 mod 64 * 4096 + c div 64 mod 64 * 64 + c mod 64 = c"
proof -
  have "c div 4096 * 64 + c div 64 mod 64 = c div 64" "c div 262144 * 64 + c div 4096 mod 64 = c div 4096"
    using div_mult_mod_eq [of "c div 64" 64] div_mult_mod_eq [of "c div 4096" 64]
    by (simp_all add: div_mult2_eq [symmetric])
  then show "c div 4096 * 4096 + c div 64 mod 64 * 64 + c mod 64 = c"
    and "c div 262144 * 262144 + c div 4096 mod 64 * 4096 + c div 64 mod 64 * 64 + c mod 64 = c"
    using div_mult_mod_eq [of c 64] by linarith+
qed simp

lemma un_utf8_utf8: "c < 0x110000 \<Longrightarrow> un_utf8 (utf8 c @ rest) = c # un_utf8 rest"
  using split_64 [of c] by (auto simp: utf8_def)

lemma un_utf8_concat: "\<forall>c \<in> set cs. c < 0x110000 \<Longrightarrow> un_utf8 (concat (map utf8 cs)) = cs"
  by (induction cs) (simp_all add: un_utf8_utf8)

lemma utf8_byte: "c < 0x110000 \<Longrightarrow> b \<in> set (utf8 c) \<Longrightarrow> b < 256"
  by (auto simp: utf8_def split: if_splits)

text \<open>\<open>Buffer.byteLength(s, "utf8")\<close>; a lone surrogate is written as the three bytes of U+FFFD.\<close>

fun utf8_length :: "js_string \<Rightarrow> int" where
  "utf8_length [] = 0"
| "utf8_length (u # us) =
     (if unat u < 0x80 then 1 + utf8_length us
      else if unat u < 0x800 then 2 + utf8_length us
      else if is_high u \<and> us \<noteq> [] \<and> is_low (hd us) then 4 + utf8_length (tl us)
      else 3 + utf8_length us)"

lemma utf8_length_nonneg: "0 \<le> utf8_length s"
  by (induction s rule: utf8_length.induct) auto

lemma utf8_length_eq_0: "utf8_length s = 0 \<longleftrightarrow> s = []"
proof (cases s)
  case (Cons u us)
  have "0 \<le> utf8_length us" "0 \<le> utf8_length (tl us)" by (rule utf8_length_nonneg)+
  then show ?thesis using Cons by simp
qed simp

lemma utf8_length_le: "utf8_length s \<le> 3 * int (length s)"
proof (induction s rule: utf8_length.induct)
  case (2 u us)
  then show ?case by (cases us) auto
qed simp

lemma length_js [simp]: "length (js s) = length s" by (simp add: js_def)

section \<open>encodeURIComponent\<close>

definition unreserved :: "nat \<Rightarrow> bool" where
  "unreserved c \<longleftrightarrow> 48 \<le> c \<and> c \<le> 57 \<or> 65 \<le> c \<and> c \<le> 90 \<or> 97 \<le> c \<and> c \<le> 122
     \<or> c \<in> {45, 95, 46, 33, 126, 42, 39, 40, 41}"

definition hex_digit :: "nat \<Rightarrow> 16 word" where
  "hex_digit d = (if d < 10 then of_nat (48 + d) else of_nat (55 + d))"

definition percent_byte :: "nat \<Rightarrow> js_string" where
  "percent_byte b = [37, hex_digit (b div 16), hex_digit (b mod 16)]"

definition encode_code_point :: "nat \<Rightarrow> js_string" where
  "encode_code_point c = (if unreserved c then [of_nat c] else concat (map percent_byte (utf8 c)))"

definition encode_uri_component :: "js_string \<Rightarrow> js_string result" where
  "encode_uri_component s =
     (case code_points s of
        None \<Rightarrow> Inl (UriError (js ''URI malformed''))
      | Some cs \<Rightarrow> Inr (concat (map encode_code_point cs)))"

definition hex_value :: "16 word \<Rightarrow> nat" where
  "hex_value u = (if unat u < 58 then unat u - 48 else unat u - 55)"

fun un_percent :: "js_string \<Rightarrow> nat list" where
  "un_percent [] = []"
| "un_percent (u # us) =
     (if u = 37 then (case us of a # b # rest \<Rightarrow> (hex_value a * 16 + hex_value b) # un_percent rest | _ \<Rightarrow> [])
      else unat u # un_percent us)"

lemma unat_hex_digit: "d < 16 \<Longrightarrow> unat (hex_digit d) = (if d < 10 then 48 + d else 55 + d)"
  by (simp add: hex_digit_def unat_of_nat take_bit_eq_mod del: of_nat_add)

lemma hex_value_digit: "d < 16 \<Longrightarrow> hex_value (hex_digit d) = d"
  by (simp add: hex_value_def unat_hex_digit)

lemma un_percent_bytes:
  "\<forall>b \<in> set bs. b < 256 \<Longrightarrow> un_percent (concat (map percent_byte bs) @ rest) = bs @ un_percent rest"
proof (induction bs)
  case (Cons b bs)
  then have "b div 16 < 16" by auto
  then show ?case using Cons by (simp add: percent_byte_def hex_value_digit)
qed simp

lemma un_percent_code_point:
  assumes "c < 0x110000"
  shows "un_percent (encode_code_point c @ rest) = utf8 c @ un_percent rest"
proof (cases "unreserved c")
  case True
  then have "c < 127" "c \<noteq> 37" by (auto simp: unreserved_def)
  then have unat: "unat (of_nat c :: 16 word) = c" by (simp add: unat_of_nat take_bit_eq_mod)
  then have "(of_nat c :: 16 word) \<noteq> 37" using \<open>c \<noteq> 37\<close> by auto
  then show ?thesis using True unat \<open>c < 127\<close> by (simp add: encode_code_point_def utf8_def)
next
  case False
  then show ?thesis using un_percent_bytes utf8_byte [OF assms] by (simp add: encode_code_point_def)
qed

lemma un_percent_concat:
  "\<forall>c \<in> set cs. c < 0x110000 \<Longrightarrow>
    un_percent (concat (map encode_code_point cs)) = concat (map utf8 cs)"
  by (induction cs) (simp_all add: un_percent_code_point)

lemma encode_uri_component_inj:
  assumes "encode_uri_component s = Inr e" and "encode_uri_component t = Inr e"
  shows "s = t"
proof -
  obtain cs ds where cs: "code_points s = Some cs" "e = concat (map encode_code_point cs)"
    and ds: "code_points t = Some ds" "e = concat (map encode_code_point ds)"
    using assms by (auto simp: encode_uri_component_def split: option.splits)
  note rs = code_points_range [OF cs(1)] and rt = code_points_range [OF ds(1)]
  have "concat (map utf8 cs) = concat (map utf8 ds)"
    using un_percent_concat [OF rs] un_percent_concat [OF rt] cs(2) ds(2) by simp
  then have "cs = ds" using un_utf8_concat [OF rs] un_utf8_concat [OF rt] by metis
  then show ?thesis using code_points_units [OF cs(1)] code_points_units [OF ds(1)] by simp
qed

lemma unreserved_hex_digit: "d < 16 \<Longrightarrow> unreserved (unat (hex_digit d))"
  by (auto simp: unat_hex_digit unreserved_def)

lemma encode_uri_component_chars:
  assumes "encode_uri_component s = Inr e" and "u \<in> set e"
  shows "unat u = 37 \<or> unreserved (unat u)"
proof -
  obtain cs where cs: "code_points s = Some cs" "e = concat (map encode_code_point cs)"
    using assms(1) by (auto simp: encode_uri_component_def split: option.splits)
  then obtain c where c: "c \<in> set cs" "u \<in> set (encode_code_point c)" using assms(2) by auto
  show ?thesis
  proof (cases "unreserved c")
    case True
    then have "unat (of_nat c :: 16 word) = c" by (auto simp: unreserved_def unat_of_nat take_bit_eq_mod)
    then show ?thesis using True c(2) by (simp add: encode_code_point_def)
  next
    case False
    then obtain b where b: "b \<in> set (utf8 c)" "u \<in> set (percent_byte b)"
      using c(2) by (auto simp: encode_code_point_def)
    have "b div 16 < 16" using utf8_byte [OF _ b(1)] code_points_range [OF cs(1)] c(1) by fastforce
    then have "unreserved (unat (hex_digit (b div 16)))" "unreserved (unat (hex_digit (b mod 16)))"
      by (simp_all add: unreserved_hex_digit)
    then show ?thesis using b(2) by (auto simp: percent_byte_def)
  qed
qed

lemma encode_uri_component_no_colon: "encode_uri_component s = Inr e \<Longrightarrow> 58 \<notin> set e"
  using encode_uri_component_chars [of s e 58] by (auto simp: unreserved_def)

section \<open>White space and numerals\<close>

definition is_js_space :: "16 word \<Rightarrow> bool" where
  "is_js_space u \<longleftrightarrow> (9 \<le> unat u \<and> unat u \<le> 13) \<or> unat u \<in> {0x20, 0xA0, 0x1680}
     \<or> (0x2000 \<le> unat u \<and> unat u \<le> 0x200A) \<or> unat u \<in> {0x2028, 0x2029, 0x202F, 0x205F, 0x3000, 0xFEFF}"

definition trim :: "js_string \<Rightarrow> js_string" where
  "trim s = rev (dropWhile is_js_space (rev (dropWhile is_js_space s)))"

fun decimal :: "nat \<Rightarrow> js_string" where
  "decimal n = (if n < 10 then [of_nat (48 + n)] else decimal (n div 10) @ [of_nat (48 + n mod 10)])"

declare decimal.simps [simp del]

definition is_digit :: "16 word \<Rightarrow> bool" where
  "is_digit u \<longleftrightarrow> 48 \<le> unat u \<and> unat u \<le> 57"

definition decimal_value :: "js_string \<Rightarrow> int" where
  "decimal_value s = foldl (\<lambda>n u. n * 10 + int (unat u - 48)) 0 s"

lemma decimal_value_snoc: "decimal_value (s @ [u]) = decimal_value s * 10 + int (unat u - 48)"
  by (simp add: decimal_value_def)

lemma unat_digit: "d < 10 \<Longrightarrow> unat (of_nat (48 + d) :: 16 word) = 48 + d"
  by (simp add: unat_of_nat take_bit_eq_mod del: of_nat_add)

lemma decimal_value_decimal: "decimal_value (decimal n) = int n"
proof (induction n rule: decimal.induct)
  case (1 n)
  show ?case
  proof (cases "n < 10")
    case True
    then show ?thesis using unat_digit [OF True] by (simp add: decimal.simps [of n] decimal_value_def del: of_nat_add)
  next
    case False
    have "n mod 10 < 10" by simp
    moreover have "int (n div 10) * 10 + int (n mod 10) = int n" by presburger
    ultimately show ?thesis using unat_digit [of "n mod 10"] False 1 [OF False]
      by (simp add: decimal.simps [of n] decimal_value_snoc del: of_nat_add)
  qed
qed

lemma decimal_inj: "decimal m = decimal n \<longleftrightarrow> m = n"
  by (metis decimal_value_decimal of_nat_eq_iff)

end
