(* ===== verification/Memory_Store.thy ===== *)
theory Memory_Store
  imports Text_Encoding "HOL-Library.AList" "HOL-Library.Product_Lexorder" "HOL-Library.Code_Target_Nat" Complex_Main
begin

text \<open>
  The in-memory memory adapter: \<open>packages/dal/src/in-memory-memory.ts\<close> over the types of
  \<open>packages/core/src/memory.ts\<close>.

  The entry \<open>Map\<close> is an association list in insertion order under the very storage keys of the
  code. A value is serialized and parsed by \<open>dal-codec\<close> and compared by \<open>stableStringify\<close>: the fields
  of \<open>mc\<close>. \<open>now\<close> is the clock reading of an operation in milliseconds (the ISO timestamps of an entry
  are such readings), \<open>coll\<close> the collation order behind \<open>localeCompare\<close>. An operation returns its
  result, or what it throws, with the new state.
\<close>

section \<open>State\<close>

datatype memory_ref =
    SessionRef js_string
  | UserRef js_string
  | OrganizationRef js_string
  | WorkflowRef js_string

datatype memory_kind = KFact | KSummary | KOpenItem | KEntityRef | KRaw | KWorkingMemory

record 'v memory_entry =
  me_id :: js_string
  me_ref :: memory_ref
  me_key :: js_string
  me_kind :: memory_kind
  me_value :: 'v
  me_version :: int
  me_created_at :: int
  me_updated_at :: int
  me_expires :: "rat option"
  me_tags :: "js_string list option"
  me_metadata :: "'v option"

record 'v stored_memory =
  sm_entry :: "'v memory_entry"
  sm_bytes :: int
  sm_expires :: "rat option"
  sm_user :: "js_string option"

record 'v memory_store =
  mm_entries :: "(js_string \<times> 'v stored_memory) list"
  mm_session_bytes :: "js_string \<rightharpoonup> int"
  mm_next_id :: nat
  mm_prefix :: js_string
  mm_max_entry_bytes :: "int option"

record 'v memory_put_options =
  po_tags :: "js_string list option"
  po_metadata :: "'v option"
  po_ttl :: "rat option"
  po_session_user :: "js_string option"
  po_max_session_bytes :: "int option"
  po_if_not_exists :: bool

record memory_query =
  qy_key :: "js_string option"
  qy_prefix :: "js_string option"
  qy_kind :: "memory_kind option"
  qy_tags :: "js_string list"
  qy_limit :: "int option"
  qy_cursor :: "js_string option"

record 'v memory_codec =
  mc_serialize :: "'v \<Rightarrow> js_string result"
  mc_parse :: "js_string \<Rightarrow> 'v"
  mc_same :: "'v \<Rightarrow> 'v \<Rightarrow> bool"
  mc_is_object :: "'v \<Rightarrow> bool"

definition new_memory :: "js_string option \<Rightarrow> int option \<Rightarrow> 'v memory_store result" where
  "new_memory prefix max_bytes =
     (case max_bytes of
        Some m \<Rightarrow> if \<not> is_safe_integer m \<or> m \<le> 0
                  then Inl (InvalidArgumentError (js ''maxEntryBytes must be a positive safe integer''))
                  else Inr \<lparr>mm_entries = [], mm_session_bytes = Map.empty, mm_next_id = 1,
                            mm_prefix = (case prefix of None \<Rightarrow> js ''mem'' | Some p \<Rightarrow> p), mm_max_entry_bytes = Some m\<rparr>
      | None \<Rightarrow> Inr \<lparr>mm_entries = [], mm_session_bytes = Map.empty, mm_next_id = 1,
                     mm_prefix = (case prefix of None \<Rightarrow> js ''mem'' | Some p \<Rightarrow> p), mm_max_entry_bytes = None\<rparr>)"

section \<open>Storage keys\<close>

fun scope_name :: "memory_ref \<Rightarrow> js_string" where
  "scope_name (SessionRef i) = js ''session''"
| "scope_name (UserRef i) = js ''user''"
| "scope_name (OrganizationRef i) = js ''organization''"
| "scope_name (WorkflowRef i) = js ''workflow''"

fun ref_id :: "memory_ref \<Rightarrow> js_string" where
  "ref_id (SessionRef i) = i"
| "ref_id (UserRef i) = i"
| "ref_id (OrganizationRef i) = i"
| "ref_id (WorkflowRef i) = i"

fun kind_name :: "memory_kind \<Rightarrow> js_string" where
  "kind_name KFact = js ''fact''"
| "kind_name KSummary = js ''summary''"
| "kind_name KOpenItem = js ''open_item''"
| "kind_name KEntityRef = js ''entity_ref''"
| "kind_name KRaw = js ''raw''"
| "kind_name KWorkingMemory = js ''working_memory''"

abbreviation colon :: js_string where "colon \<equiv> [58]"

definition ref_key :: "memory_ref \<Rightarrow> js_string result" where
  "ref_key r = rbind (encode_uri_component (ref_id r)) (\<lambda>i. Inr (scope_name r @ colon @ i))"

definition entry_key :: "memory_ref \<Rightarrow> js_string \<Rightarrow> memory_kind \<Rightarrow> js_string result" where
  "entry_key r key kind =
     rbind (ref_key r) (\<lambda>rk.
     rbind (encode_uri_component (kind_name kind)) (\<lambda>kd.
     rbind (encode_uri_component key) (\<lambda>k.
       Inr (rk @ colon @ kd @ colon @ k))))"

definition ref_key_for_error :: "memory_ref \<Rightarrow> js_string" where
  "ref_key_for_error r = scope_name r @ colon @ ref_id r"

section \<open>Entries\<close>

definition memory_expired :: "int \<Rightarrow> 'v stored_memory \<Rightarrow> bool" where
  "memory_expired now s = (case sm_expires s of None \<Rightarrow> False | Some t \<Rightarrow> t \<le> of_int now)"

text \<open>\<open>delete\<close> of the code returns early when the key is absent; every caller holds the entry.\<close>

definition delete_stored :: "js_string \<Rightarrow> 'v stored_memory \<Rightarrow> 'v memory_store \<Rightarrow> 'v memory_store" where
  "delete_stored k s st =
     (if map_of (mm_entries st) k = None then st
      else
        let st' = st\<lparr>mm_entries := AList.delete k (mm_entries st)\<rparr> in
        case me_ref (sm_entry s) of
          SessionRef sid \<Rightarrow>
            let remaining = (case mm_session_bytes st' sid of None \<Rightarrow> 0 | Some n \<Rightarrow> n) - sm_bytes s in
            if 0 < remaining then st'\<lparr>mm_session_bytes := (mm_session_bytes st')(sid \<mapsto> remaining)\<rparr>
            else st'\<lparr>mm_session_bytes := (mm_session_bytes st')(sid := None)\<rparr>
        | _ \<Rightarrow> st')"

definition get_stored ::
    "int \<Rightarrow> memory_ref \<Rightarrow> js_string \<Rightarrow> memory_kind \<Rightarrow> 'v memory_store
      \<Rightarrow> 'v stored_memory option result \<times> 'v memory_store" where
  "get_stored now r key kind st =
     (case entry_key r key kind of
        Inl e \<Rightarrow> (Inl e, st)
      | Inr k \<Rightarrow>
          (case map_of (mm_entries st) k of
             None \<Rightarrow> (Inr None, st)
           | Some s \<Rightarrow> if memory_expired now s then (Inr None, delete_stored k s st) else (Inr (Some s), st)))"

text \<open>A copy of an entry is its value and metadata serialized and parsed again.\<close>

definition copy_value :: "'v memory_codec \<Rightarrow> 'v \<Rightarrow> 'v result" where
  "copy_value mc v = rbind (mc_serialize mc v) (\<lambda>s. Inr (mc_parse mc s))"

definition clone_memory_entry :: "'v memory_codec \<Rightarrow> 'v memory_entry \<Rightarrow> 'v memory_entry result" where
  "clone_memory_entry mc e =
     rbind (copy_value mc (me_value e)) (\<lambda>v.
     rbind (case me_metadata e of None \<Rightarrow> Inr None | Some m \<Rightarrow> rbind (copy_value mc m) (\<lambda>m'. Inr (Some m'))) (\<lambda>m.
       Inr (e\<lparr>me_value := v, me_metadata := m\<rparr>)))"

definition memory_get ::
    "'v memory_codec \<Rightarrow> int \<Rightarrow> memory_ref \<Rightarrow> js_string \<Rightarrow> memory_kind \<Rightarrow> 'v memory_store
      \<Rightarrow> 'v memory_entry option result \<times> 'v memory_store" where
  "memory_get mc now r key kind st =
     (case get_stored now r key kind st of
        (Inl e, st') \<Rightarrow> (Inl e, st')
      | (Inr None, st') \<Rightarrow> (Inr None, st')
      | (Inr (Some s), st') \<Rightarrow> (rbind (clone_memory_entry mc (sm_entry s)) (\<lambda>e. Inr (Some e)), st'))"

section \<open>put\<close>

fun is_session_ref :: "memory_ref \<Rightarrow> bool" where
  "is_session_ref (SessionRef i) = True"
| "is_session_ref (UserRef i) = False"
| "is_session_ref (OrganizationRef i) = False"
| "is_session_ref (WorkflowRef i) = False"

definition invalid_argument :: "string \<Rightarrow> js_error" where
  "invalid_argument msg = InvalidArgumentError (js msg)"

definition validate_session_quota :: "memory_ref \<Rightarrow> int option \<Rightarrow> unit result" where
  "validate_session_quota r max_bytes =
     (case max_bytes of
        None \<Rightarrow> Inr ()
      | Some m \<Rightarrow>
          rbind (rcheck (is_session_ref r) (invalid_argument ''maxSessionBytes is only valid for session-scope writes'')) (\<lambda>_.
          rcheck (is_safe_integer m \<and> 0 \<le> m) (invalid_argument ''maxSessionBytes must be a non-negative safe integer'')))"

text \<open>\<open>serializeMemoryValue\<close> turns every failure into an \<open>InvalidArgumentError\<close>.\<close>

definition serialize_memory_value :: "'v memory_codec \<Rightarrow> 'v \<Rightarrow> js_string result" where
  "serialize_memory_value mc v =
     (case mc_serialize mc v of
        Inl e \<Rightarrow> Inl (invalid_argument ''Memory value must be a finite, acyclic JSON-compatible value'')
      | Inr s \<Rightarrow> Inr s)"

definition enforce_size :: "js_string \<Rightarrow> js_string \<Rightarrow> 'v memory_store \<Rightarrow> unit result" where
  "enforce_size key serialized st =
     (case mm_max_entry_bytes st of
        None \<Rightarrow> Inr ()
      | Some m \<Rightarrow> rcheck (utf8_length serialized \<le> m)
          (MemoryEntryTooLargeError key (utf8_length serialized) m))"

text \<open>What \<open>put\<close> checks and computes before it looks at the store.\<close>

definition prepare_put ::
    "'v memory_codec \<Rightarrow> memory_ref \<Rightarrow> js_string \<Rightarrow> 'v \<Rightarrow> 'v memory_put_options \<Rightarrow> 'v memory_store
      \<Rightarrow> (js_string \<times> 'v \<times> 'v option) result" where
  "prepare_put mc r key v po st =
     rbind (rcheck (case po_session_user po of None \<Rightarrow> True | Some u \<Rightarrow> is_session_ref r \<and> trim u \<noteq> [])
       (invalid_argument ''sessionUserId is only valid as a non-empty attribution for session-scope writes'')) (\<lambda>_.
     rbind (validate_session_quota r (po_max_session_bytes po)) (\<lambda>_.
     rbind (serialize_memory_value mc v) (\<lambda>serialized.
     rbind (case po_metadata po of None \<Rightarrow> Inr None
            | Some m \<Rightarrow> rbind (serialize_memory_value mc m) (\<lambda>s. Inr (Some s))) (\<lambda>serialized_metadata.
     rbind (enforce_size key serialized st) (\<lambda>_.
     rbind (case serialized_metadata of None \<Rightarrow> Inr None
            | Some s \<Rightarrow> if mc_is_object mc (mc_parse mc s) then Inr (Some (mc_parse mc s))
                        else Inl (invalid_argument ''Memory metadata must be an object'')) (\<lambda>metadata.
     rbind (rcheck (case po_ttl po of None \<Rightarrow> True | Some t \<Rightarrow> 0 \<le> t)
       (invalid_argument ''ttlMs must be a non-negative finite number'')) (\<lambda>_.
       Inr (serialized, mc_parse mc serialized, metadata))))))))"

definition next_entry_id :: "'v memory_store \<Rightarrow> js_string \<times> 'v memory_store" where
  "next_entry_id st =
     (mm_prefix st @ [95] @ decimal (mm_next_id st), st\<lparr>mm_next_id := mm_next_id st + 1\<rparr>)"

definition session_used :: "memory_ref \<Rightarrow> 'v memory_store \<Rightarrow> int" where
  "session_used r st = (case mm_session_bytes st (ref_id r) of None \<Rightarrow> 0 | Some n \<Rightarrow> n)"

definition check_quota :: "memory_ref \<Rightarrow> 'v memory_put_options \<Rightarrow> 'v stored_memory option \<Rightarrow> int \<Rightarrow> 'v memory_store
    \<Rightarrow> unit result" where
  "check_quota r po existing bytes st =
     (case po_max_session_bytes po of
        Some m \<Rightarrow>
          if is_session_ref r then
            let used = session_used r st;
                previous = (case existing of None \<Rightarrow> 0 | Some s \<Rightarrow> sm_bytes s) in
            rcheck (used - previous + bytes \<le> m)
              (MemorySessionQuotaExceededError (ref_id r) (used - previous) (max 0 (bytes - previous)) m)
          else Inr ()
      | None \<Rightarrow> Inr ())"

definition write_stored ::
    "int \<Rightarrow> memory_ref \<Rightarrow> js_string \<Rightarrow> memory_kind \<Rightarrow> 'v \<Rightarrow> 'v option \<Rightarrow> int \<Rightarrow> 'v memory_put_options
      \<Rightarrow> 'v stored_memory option \<Rightarrow> js_string \<Rightarrow> 'v memory_store \<Rightarrow> 'v memory_entry \<times> 'v memory_store" where
  "write_stored now r key kind v metadata bytes po existing k st =
     (let old = map_option sm_entry existing;
          expires = (case po_ttl po of Some t \<Rightarrow> Some (of_int now + t)
                     | None \<Rightarrow> Option.bind old me_expires);
          (eid, st1) = (case old of Some o1 \<Rightarrow> (me_id o1, st) | None \<Rightarrow> next_entry_id st);
          entry = \<lparr>me_id = eid, me_ref = r, me_key = key, me_kind = kind, me_value = v,
                   me_version = (case old of Some o1 \<Rightarrow> me_version o1 | None \<Rightarrow> 0) + 1,
                   me_created_at = (case old of Some o1 \<Rightarrow> me_created_at o1 | None \<Rightarrow> now),
                   me_updated_at = now, me_expires = expires,
                   me_tags = (case po_tags po of Some ts \<Rightarrow> Some ts | None \<Rightarrow> Option.bind old me_tags),
                   me_metadata = (case metadata of Some m \<Rightarrow> Some m | None \<Rightarrow> Option.bind old me_metadata)\<rparr>;
          user = (if is_session_ref r
                  then (case po_session_user po of Some u \<Rightarrow> Some u | None \<Rightarrow> Option.bind existing sm_user)
                  else None);
          stored = \<lparr>sm_entry = entry, sm_bytes = bytes, sm_expires = expires, sm_user = user\<rparr>;
          st2 = st1\<lparr>mm_entries := AList.update k stored (mm_entries st1)\<rparr>;
          st3 = (if is_session_ref r
                 then st2\<lparr>mm_session_bytes := (mm_session_bytes st2)(ref_id r \<mapsto>
                        session_used r st2 - (case existing of None \<Rightarrow> 0 | Some s \<Rightarrow> sm_bytes s) + bytes)\<rparr>
                 else st2)
      in (entry, st3))"

definition memory_put ::
    "'v memory_codec \<Rightarrow> int \<Rightarrow> memory_ref \<Rightarrow> js_string \<Rightarrow> memory_kind \<Rightarrow> 'v \<Rightarrow> 'v memory_put_options
      \<Rightarrow> 'v memory_store \<Rightarrow> 'v memory_entry result \<times> 'v memory_store" where
  "memory_put mc now r key kind v po st =
     (case prepare_put mc r key v po st of
        Inl e \<Rightarrow> (Inl e, st)
      | Inr (serialized, value, metadata) \<Rightarrow>
          (case (get_stored now r key kind st, entry_key r key kind) of
             ((Inl e, st1), _) \<Rightarrow> (Inl e, st1)
           | ((Inr existing, st1), Inl e) \<Rightarrow> (Inl e, st1)
           | ((Inr existing, st1), Inr k) \<Rightarrow>
               if existing \<noteq> None \<and> po_if_not_exists po
               then (clone_memory_entry mc (sm_entry (the existing)), st1)
               else if existing \<noteq> None \<and> \<not> mc_same mc (me_value (sm_entry (the existing))) value
               then (Inl (RecordConflictError (js ''memory:'' @ ref_key_for_error r @ colon @ kind_name kind @ colon @ key)), st1)
               else
                 let bytes = utf8_length serialized in
                 (case check_quota r po existing bytes st1 of
                    Inl e \<Rightarrow> (Inl e, st1)
                  | Inr _ \<Rightarrow>
                      let (entry, st2) = write_stored now r key kind value metadata bytes po existing k st1
                      in (clone_memory_entry mc entry, st2))))"

section \<open>list\<close>

definition is_cursor :: "js_string \<Rightarrow> bool" where
  "is_cursor s \<longleftrightarrow> s = [48] \<or> (s \<noteq> [] \<and> list_all is_digit s \<and> hd s \<noteq> 48)"

definition parse_memory_cursor :: "js_string option \<Rightarrow> int result" where
  "parse_memory_cursor cursor =
     (case cursor of
        None \<Rightarrow> Inr 0
      | Some s \<Rightarrow>
          rbind (rcheck (is_cursor s) (invalid_argument ''Memory cursor must be a non-negative decimal offset'')) (\<lambda>_.
          rbind (rcheck (is_safe_integer (decimal_value s)) (invalid_argument ''Memory cursor exceeds the safe integer range'')) (\<lambda>_.
            Inr (decimal_value s))))"

definition validate_memory_limit :: "int \<Rightarrow> unit result" where
  "validate_memory_limit limit =
     rcheck (is_safe_integer limit \<and> 0 < limit) (invalid_argument ''Memory limit must be a positive safe integer'')"

definition tags_match :: "js_string list option \<Rightarrow> js_string list \<Rightarrow> bool" where
  "tags_match entry_tags query_tags \<longleftrightarrow> query_tags = []
     \<or> list_all (\<lambda>t. t \<in> set (case entry_tags of None \<Rightarrow> [] | Some ts \<Rightarrow> ts)) query_tags"

definition starts_with :: "'a list \<Rightarrow> 'a list \<Rightarrow> bool" where
  "starts_with s p \<longleftrightarrow> take (length p) s = p"

definition matches_query :: "memory_query \<Rightarrow> 'v memory_entry \<Rightarrow> bool" where
  "matches_query q e \<longleftrightarrow>
     (case qy_key q of None \<Rightarrow> True | Some k \<Rightarrow> me_key e = k)
     \<and> (case qy_prefix q of None \<Rightarrow> True | Some p \<Rightarrow> starts_with (me_key e) p)
     \<and> (case qy_kind q of None \<Rightarrow> True | Some k \<Rightarrow> me_kind e = k)
     \<and> tags_match (me_tags e) (qy_tags q)"

definition list_rank :: "(js_string \<Rightarrow> rat) \<Rightarrow> 'v memory_entry \<Rightarrow> int \<times> rat \<times> rat" where
  "list_rank coll e = (- me_updated_at e, coll (me_key e), coll (kind_name (me_kind e)))"

text \<open>The first filter deletes the expired entries of the scope as it goes over a copy of the map.\<close>

fun drop_expired ::
    "int \<Rightarrow> js_string \<Rightarrow> (js_string \<times> 'v stored_memory) list \<Rightarrow> 'v memory_store
      \<Rightarrow> 'v stored_memory list \<times> 'v memory_store" where
  "drop_expired now prefix [] st = ([], st)"
| "drop_expired now prefix ((k, s) # rest) st =
     (if \<not> starts_with k prefix then drop_expired now prefix rest st
      else if memory_expired now s then drop_expired now prefix rest (delete_stored k s st)
      else let (kept, st') = drop_expired now prefix rest st in (s # kept, st'))"

fun map_result :: "('a \<Rightarrow> 'b result) \<Rightarrow> 'a list \<Rightarrow> 'b list result" where
  "map_result f [] = Inr []"
| "map_result f (x # xs) = rbind (f x) (\<lambda>y. rbind (map_result f xs) (\<lambda>ys. Inr (y # ys)))"

definition memory_list ::
    "'v memory_codec \<Rightarrow> (js_string \<Rightarrow> rat) \<Rightarrow> int \<Rightarrow> memory_ref \<Rightarrow> memory_query \<Rightarrow> 'v memory_store
      \<Rightarrow> 'v memory_entry list result \<times> 'v memory_store" where
  "memory_list mc coll now r q st =
     (case rbind (ref_key r) (\<lambda>rk. rbind (parse_memory_cursor (qy_cursor q)) (\<lambda>offset.
             rbind (validate_memory_limit (case qy_limit q of None \<Rightarrow> 100 | Some n \<Rightarrow> n)) (\<lambda>_. Inr (rk, offset)))) of
        Inl e \<Rightarrow> (Inl e, st)
      | Inr (rk, offset) \<Rightarrow>
          let limit = (case qy_limit q of None \<Rightarrow> 100 | Some n \<Rightarrow> n);
              (kept, st') = drop_expired now (rk @ colon) (mm_entries st) st in
          (rbind (map_result (\<lambda>s. clone_memory_entry mc (sm_entry s)) kept) (\<lambda>entries.
             Inr (take (nat limit) (drop (nat offset)
               (sort_key (list_rank coll) (filter (matches_query q) entries))))), st'))"

section \<open>Deletion\<close>

definition memory_delete ::
    "memory_ref \<Rightarrow> js_string \<Rightarrow> memory_kind \<Rightarrow> 'v memory_store \<Rightarrow> bool result \<times> 'v memory_store" where
  "memory_delete r key kind st =
     (case entry_key r key kind of
        Inl e \<Rightarrow> (Inl e, st)
      | Inr k \<Rightarrow>
          (case map_of (mm_entries st) k of
             None \<Rightarrow> (Inr False, st)
           | Some s \<Rightarrow> (Inr True, delete_stored k s st)))"

text \<open>The loops over the live map: the entry at hand is deleted or passed.\<close>

fun delete_where ::
    "(js_string \<Rightarrow> 'v stored_memory \<Rightarrow> bool) \<Rightarrow> (js_string \<times> 'v stored_memory) list \<Rightarrow> 'v memory_store
      \<Rightarrow> nat \<times> 'v memory_store" where
  "delete_where P [] st = (0, st)"
| "delete_where P ((k, s) # rest) st =
     (if P k s then let (n, st') = delete_where P rest (delete_stored k s st) in (Suc n, st')
      else delete_where P rest st)"

definition memory_delete_all :: "memory_ref \<Rightarrow> 'v memory_store \<Rightarrow> nat result \<times> 'v memory_store" where
  "memory_delete_all r st =
     (case ref_key r of
        Inl e \<Rightarrow> (Inl e, st)
      | Inr rk \<Rightarrow>
          let (n, st') = delete_where (\<lambda>k s. starts_with k (rk @ colon)) (mm_entries st) st in (Inr n, st'))"

definition memory_delete_for_user :: "js_string \<Rightarrow> 'v memory_store \<Rightarrow> nat result \<times> 'v memory_store" where
  "memory_delete_for_user u st =
     (case memory_delete_all (UserRef u) st of
        (Inl e, st1) \<Rightarrow> (Inl e, st1)
      | (Inr n, st1) \<Rightarrow>
          let (m, st2) = delete_where (\<lambda>k s. is_session_ref (me_ref (sm_entry s)) \<and> sm_user s = Some u)
                           (mm_entries st1) st1
          in (Inr (n + m), st2))"

section \<open>Storage keys are unambiguous\<close>

lemma scope_no_colon: "58 \<notin> set (scope_name r)"
  by (cases r) (simp_all add: js_def)

lemma split_at:
  assumes "c \<notin> set a" and "c \<notin> set a'" and "a @ c # b = a' @ c # b'"
  shows "a = a' \<and> b = b'"
proof -
  have "takeWhile (\<lambda>x. x \<noteq> c) (a @ c # b) = a" and "takeWhile (\<lambda>x. x \<noteq> c) (a' @ c # b') = a'"
    using assms(1,2) by (auto simp: takeWhile_append2 takeWhile_tail)
  then have "a = a'" using assms(3) by simp
  then show ?thesis using assms(3) by simp
qed

lemma ref_key_Inr:
  assumes "ref_key r = Inr rk"
  obtains i where "encode_uri_component (ref_id r) = Inr i" and "rk = scope_name r @ 58 # i" and "58 \<notin> set i"
  using assms encode_uri_component_no_colon by (auto simp: ref_key_def rbind_eq_Inr)

lemma entry_key_Inr:
  assumes "entry_key r key kind = Inr k"
  obtains rk kd e where "ref_key r = Inr rk" and "encode_uri_component (kind_name kind) = Inr kd"
    and "encode_uri_component key = Inr e" and "k = rk @ 58 # kd @ 58 # e" and "58 \<notin> set kd"
  using assms encode_uri_component_no_colon by (auto simp: entry_key_def rbind_eq_Inr)

lemma kind_name_inj: "kind_name a = kind_name b \<longleftrightarrow> a = b"
  by (cases a; cases b) (simp_all add: js_def)

lemma ref_eqI: "scope_name r = scope_name r' \<Longrightarrow> ref_id r = ref_id r' \<Longrightarrow> r = r'"
  by (cases r; cases r') (simp_all add: js_def)

lemma ref_key_prefix:
  assumes "ref_key r = Inr rk" and "ref_key r' = Inr rk'" and "rk @ 58 # b = rk' @ 58 # b'"
  shows "r = r' \<and> b = b'"
proof -
  from assms(1) obtain i where i: "encode_uri_component (ref_id r) = Inr i" "rk = scope_name r @ 58 # i" "58 \<notin> set i"
    by (rule ref_key_Inr)
  from assms(2) obtain i' where i': "encode_uri_component (ref_id r') = Inr i'" "rk' = scope_name r' @ 58 # i'" "58 \<notin> set i'"
    by (rule ref_key_Inr)
  have "scope_name r = scope_name r' \<and> i @ 58 # b = i' @ 58 # b'"
    using assms(3) i(2) i'(2) by (intro split_at) (simp_all add: scope_no_colon)
  moreover from this have "i = i' \<and> b = b'" using split_at [OF i(3) i'(3), of b b'] by simp
  ultimately show ?thesis using encode_uri_component_inj [OF i(1)] i'(1) ref_eqI by metis
qed

lemma entry_key_inj:
  assumes "entry_key r key kind = Inr k" and "entry_key r' key' kind' = Inr k"
  shows "r = r' \<and> key = key' \<and> kind = kind'"
proof -
  from assms(1) obtain rk kd e where a: "ref_key r = Inr rk" "encode_uri_component (kind_name kind) = Inr kd"
    "encode_uri_component key = Inr e" "k = rk @ 58 # kd @ 58 # e" "58 \<notin> set kd" by (rule entry_key_Inr)
  from assms(2) obtain rk' kd' e' where b: "ref_key r' = Inr rk'" "encode_uri_component (kind_name kind') = Inr kd'"
    "encode_uri_component key' = Inr e'" "k = rk' @ 58 # kd' @ 58 # e'" "58 \<notin> set kd'" by (rule entry_key_Inr)
  have "r = r' \<and> kd @ 58 # e = kd' @ 58 # e'"
    by (rule ref_key_prefix [OF a(1) b(1)]) (use a(4) b(4) in simp)
  moreover from this have "kd = kd' \<and> e = e'" using split_at [OF a(5) b(5), of e e'] by simp
  ultimately show ?thesis
    using encode_uri_component_inj [OF a(2)] encode_uri_component_inj [OF a(3)] b kind_name_inj by metis
qed

lemma starts_with_iff: "starts_with s p \<longleftrightarrow> (\<exists>t. s = p @ t)"
  unfolding starts_with_def by (metis append_eq_conv_conj append_take_drop_id)

text \<open>A storage key starts with the prefix of a scope exactly if it belongs to it.\<close>

lemma starts_with_ref:
  assumes "entry_key r key kind = Inr k" and "ref_key r' = Inr rk'"
  shows "starts_with k (rk' @ colon) \<longleftrightarrow> r = r'"
proof -
  from assms(1) obtain rk kd e where a: "ref_key r = Inr rk" "k = rk @ 58 # kd @ 58 # e" by (rule entry_key_Inr)
  show ?thesis
  proof
    assume "starts_with k (rk' @ colon)"
    then show "r = r'" using ref_key_prefix [OF a(1) assms(2)] a(2) by (auto simp: starts_with_iff)
  next
    assume "r = r'"
    then show "starts_with k (rk' @ colon)" using a assms(2) by (auto simp: starts_with_iff)
  qed
qed

section \<open>The invariant\<close>

text \<open>What the entries of a session weigh, and the consistency of the store.\<close>

definition bytes_of :: "js_string \<Rightarrow> (js_string \<times> 'v stored_memory) list \<Rightarrow> int" where
  "bytes_of sid al = sum_list (map (\<lambda>p. if me_ref (sm_entry (snd p)) = SessionRef sid then sm_bytes (snd p) else 0) al)"

definition entry_at :: "js_string \<Rightarrow> 'v stored_memory \<Rightarrow> bool" where
  "entry_at k s \<longleftrightarrow> entry_key (me_ref (sm_entry s)) (me_key (sm_entry s)) (me_kind (sm_entry s)) = Inr k
     \<and> 0 \<le> sm_bytes s \<and> sm_expires s = me_expires (sm_entry s)"

definition memory_inv :: "'v memory_store \<Rightarrow> bool" where
  "memory_inv st \<longleftrightarrow> distinct (map fst (mm_entries st)) \<and> (\<forall>(k, s) \<in> set (mm_entries st). entry_at k s)
     \<and> (\<forall>sid. session_used (SessionRef sid) st = bytes_of sid (mm_entries st))
     \<and> (\<forall>m. mm_max_entry_bytes st = Some m \<longrightarrow> (\<forall>(k, s) \<in> set (mm_entries st). sm_bytes s \<le> m))"

lemma bytes_of_simps [simp]:
  "bytes_of sid [] = 0"
  "bytes_of sid (p # al) = (if me_ref (sm_entry (snd p)) = SessionRef sid then sm_bytes (snd p) else 0) + bytes_of sid al"
  by (simp_all add: bytes_of_def)

lemma delete_absent: "k \<notin> fst ` set al \<Longrightarrow> AList.delete k al = al"
  by (induction al) auto

lemma bytes_of_delete:
  "distinct (map fst al) \<Longrightarrow> map_of al k = Some s \<Longrightarrow>
    bytes_of sid (AList.delete k al) = bytes_of sid al - (if me_ref (sm_entry s) = SessionRef sid then sm_bytes s else 0)"
  by (induction al) (auto simp: delete_absent split: if_splits)

lemma bytes_of_update:
  "distinct (map fst al) \<Longrightarrow> bytes_of sid (AList.update k s al) = bytes_of sid al
    - (case map_of al k of None \<Rightarrow> 0 | Some s' \<Rightarrow> if me_ref (sm_entry s') = SessionRef sid then sm_bytes s' else 0)
    + (if me_ref (sm_entry s) = SessionRef sid then sm_bytes s else 0)"
  by (induction al) (auto split: option.splits)

lemma bytes_of_nonneg: "\<forall>(k, s) \<in> set al. entry_at k s \<Longrightarrow> 0 \<le> bytes_of sid al"
  by (induction al) (auto simp: entry_at_def)

lemma delete_stored_fields:
  assumes "map_of (mm_entries st) k = Some s"
  shows "mm_entries (delete_stored k s st) = AList.delete k (mm_entries st)"
    and "mm_max_entry_bytes (delete_stored k s st) = mm_max_entry_bytes st"
  using assms by (auto simp: delete_stored_def Let_def split: memory_ref.splits)

lemma in_set_delete: "(k', s) \<in> set (AList.delete k al) \<longleftrightarrow> (k', s) \<in> set al \<and> k' \<noteq> k"
  by (induction al) auto

lemma in_set_update:
  "distinct (map fst al) \<Longrightarrow>
    (k', s') \<in> set (AList.update k s al) \<longleftrightarrow> (k' = k \<and> s' = s) \<or> (k' \<noteq> k \<and> (k', s') \<in> set al)"
  by (induction al) (auto simp: rev_image_eqI)

lemma delete_stored_inv:
  assumes "memory_inv st" and "map_of (mm_entries st) k = Some s"
  shows "memory_inv (delete_stored k s st)"
proof -
  note f = delete_stored_fields [OF assms(2)]
  have used: "session_used (SessionRef sid) (delete_stored k s st) = bytes_of sid (mm_entries (delete_stored k s st))" for sid
  proof -
    have d: "distinct (map fst (mm_entries st))" and at: "\<forall>(k, s) \<in> set (mm_entries st). entry_at k s"
      and eq: "session_used (SessionRef sid) st = bytes_of sid (mm_entries st)"
      using assms(1) by (auto simp: memory_inv_def)
    have "\<forall>(k', s) \<in> set (AList.delete k (mm_entries st)). entry_at k' s" using at by (auto simp: in_set_delete)
    from bytes_of_nonneg [OF this] have "0 \<le> bytes_of sid (AList.delete k (mm_entries st))" .
    then show ?thesis
      using bytes_of_delete [OF d assms(2), of sid] eq assms(2) unfolding f(1)
      by (cases "me_ref (sm_entry s)") (auto simp: delete_stored_def Let_def session_used_def split: option.splits)
  qed
  have "distinct (map fst (AList.delete k (mm_entries st)))"
    using assms(1) by (simp add: memory_inv_def distinct_delete)
  then show ?thesis
    using assms(1) used unfolding memory_inv_def f by (auto simp: in_set_delete)
qed

section \<open>What the operations keep\<close>

lemma map_of_entry: "memory_inv st \<Longrightarrow> map_of (mm_entries st) k = Some s \<Longrightarrow> entry_at k s"
  by (auto simp: memory_inv_def dest: map_of_SomeD)

text \<open>\<open>#getStored\<close> finds the live entry under the key; it may have removed an expired one.\<close>

definition live_memory :: "int \<Rightarrow> 'v memory_store \<Rightarrow> js_string \<Rightarrow> 'v stored_memory option" where
  "live_memory now st k = (case map_of (mm_entries st) k of None \<Rightarrow> None
     | Some s \<Rightarrow> if memory_expired now s then None else Some s)"

lemma get_stored_cases:
  assumes "get_stored now r key kind st = (res, st')" and "memory_inv st"
  obtains (malformed) e where "res = Inl e" and "st' = st" and "entry_key r key kind = Inl e"
  | (found) k where "entry_key r key kind = Inr k" and "res = Inr (live_memory now st k)" and "memory_inv st'"
      and "map_of (mm_entries st') k = live_memory now st k"
      and "\<And>k'. k' \<noteq> k \<Longrightarrow> map_of (mm_entries st') k' = map_of (mm_entries st) k'"
      and "mm_max_entry_bytes st' = mm_max_entry_bytes st"
      and "\<And>sid. bytes_of sid (mm_entries st') \<le> bytes_of sid (mm_entries st)"
proof (cases "entry_key r key kind")
  case (Inl e)
  then show thesis using assms(1) by (intro malformed) (auto simp: get_stored_def)
next
  case (Inr k)
  have d: "distinct (map fst (mm_entries st))" using assms(2) by (simp add: memory_inv_def)
  show thesis
  proof (cases "\<exists>s. map_of (mm_entries st) k = Some s \<and> memory_expired now s")
    case True
    then obtain s where s: "map_of (mm_entries st) k = Some s" "memory_expired now s" by blast
    then have st': "st' = delete_stored k s st" "res = Inr None" "live_memory now st k = None"
      using assms(1) Inr by (simp_all add: get_stored_def live_memory_def)
    have "bytes_of sid (mm_entries st') \<le> bytes_of sid (mm_entries st)" for sid
      using bytes_of_delete [OF d s(1), of sid] map_of_entry [OF assms(2) s(1)]
      by (simp add: st'(1) delete_stored_fields [OF s(1)] entry_at_def)
    then show thesis
      using found [OF Inr] st' delete_stored_inv [OF assms(2) s(1)] delete_stored_fields [OF s(1)]
      by (simp add: delete_conv')
  next
    case False
    then have "st' = st" "res = Inr (live_memory now st k)" "map_of (mm_entries st) k = live_memory now st k"
      using assms(1) Inr by (auto simp: get_stored_def live_memory_def split: option.splits)
    then show thesis using found [OF Inr] assms(2) by simp
  qed
qed

lemma get_stored_inv: "memory_inv st \<Longrightarrow> memory_inv (snd (get_stored now r key kind st))"
  by (cases "get_stored now r key kind st") (auto elim: get_stored_cases)

lemma memory_get_snd: "snd (memory_get mc now r key kind st) = snd (get_stored now r key kind st)"
  by (auto simp: memory_get_def split: prod.splits sum.splits option.splits)

lemma memory_get_fst:
  assumes "memory_inv st" and "entry_key r key kind = Inr k"
  shows "fst (memory_get mc now r key kind st) = (case live_memory now st k of None \<Rightarrow> Inr None
    | Some s \<Rightarrow> rbind (clone_memory_entry mc (sm_entry s)) (\<lambda>e. Inr (Some e)))"
  using assms by (auto simp: memory_get_def get_stored_def live_memory_def split: option.splits)

text \<open>The write of \<open>put\<close>, by its fields.\<close>

lemma write_stored_fields:
  assumes "write_stored now r key kind v metadata bytes po existing k st = (entry, st')"
  obtains s where "mm_entries st' = AList.update k s (mm_entries st)" and "sm_entry s = entry" and "sm_bytes s = bytes"
    and "sm_expires s = me_expires entry"
    and "me_ref entry = r" and "me_key entry = key" and "me_kind entry = kind" and "me_value entry = v"
    and "me_version entry = (case existing of None \<Rightarrow> 0 | Some o1 \<Rightarrow> me_version (sm_entry o1)) + 1"
    and "mm_max_entry_bytes st' = mm_max_entry_bytes st"
    and "mm_session_bytes st' = (if is_session_ref r then (mm_session_bytes st)(ref_id r \<mapsto>
      session_used r st - (case existing of None \<Rightarrow> 0 | Some s \<Rightarrow> sm_bytes s) + bytes) else mm_session_bytes st)"
proof -
  show thesis
    using assms that
    by (fastforce simp: write_stored_def Let_def next_entry_id_def session_used_def split: option.splits if_splits)
qed

lemma write_stored_inv:
  assumes "write_stored now r key kind v metadata bytes po existing k st = (entry, st')" and "memory_inv st"
    and "entry_key r key kind = Inr k" and "map_of (mm_entries st) k = existing" and "0 \<le> bytes"
    and "\<And>m. mm_max_entry_bytes st = Some m \<Longrightarrow> bytes \<le> m"
  shows "memory_inv st'"
    and "\<And>sid. bytes_of sid (mm_entries st') = (if r = SessionRef sid
      then bytes_of sid (mm_entries st) - (case existing of None \<Rightarrow> 0 | Some s \<Rightarrow> sm_bytes s) + bytes
      else bytes_of sid (mm_entries st))"
proof -
  from assms(1) obtain s where s: "mm_entries st' = AList.update k s (mm_entries st)" "sm_entry s = entry" "sm_bytes s = bytes"
    "sm_expires s = me_expires entry" "me_ref entry = r" "me_key entry = key" "me_kind entry = kind" "mm_max_entry_bytes st' = mm_max_entry_bytes st"
    "mm_session_bytes st' = (if is_session_ref r then (mm_session_bytes st)(ref_id r \<mapsto>
      session_used r st - (case existing of None \<Rightarrow> 0 | Some s \<Rightarrow> sm_bytes s) + bytes) else mm_session_bytes st)"
    by (rule write_stored_fields)
  have d: "distinct (map fst (mm_entries st))" using assms(2) by (simp add: memory_inv_def)
  have same: "me_ref (sm_entry o1) = r" if "existing = Some o1" for o1
  proof -
    have "entry_at k o1" using map_of_entry [OF assms(2)] assms(4) that by simp
    then show ?thesis using entry_key_inj [OF _ assms(3)] by (auto simp: entry_at_def)
  qed
  show b: "bytes_of sid (mm_entries st') = (if r = SessionRef sid
      then bytes_of sid (mm_entries st) - (case existing of None \<Rightarrow> 0 | Some s \<Rightarrow> sm_bytes s) + bytes
      else bytes_of sid (mm_entries st))" for sid
    using bytes_of_update [OF d, of sid k s] same s by (auto simp: assms(4) split: option.splits)
  have "session_used (SessionRef sid) st' = bytes_of sid (mm_entries st')" for sid
  proof (cases "r = SessionRef sid")
    case True
    then show ?thesis using b [of sid] s(9) assms(2) by (simp add: session_used_def memory_inv_def)
  next
    case False
    then have "mm_session_bytes st' sid = mm_session_bytes st sid" using s(9) by (cases r) auto
    then show ?thesis using b [of sid] False assms(2) by (simp add: session_used_def memory_inv_def)
  qed
  moreover have "entry_at k s" using s assms(3,5) by (simp add: entry_at_def)
  ultimately show "memory_inv st'"
    using assms(2,6) d s(3,8) unfolding memory_inv_def s(1) by (auto simp: in_set_update distinct_update)
qed

lemma enforce_size_Inr:
  "enforce_size key serialized st = Inr u \<longleftrightarrow> (\<forall>m. mm_max_entry_bytes st = Some m \<longrightarrow> utf8_length serialized \<le> m)"
  by (auto simp: enforce_size_def split: option.splits)

lemma prepare_put_Inr:
  assumes "prepare_put mc r key v po st = Inr (serialized, value, metadata)"
  shows "(\<forall>m. mm_max_entry_bytes st = Some m \<longrightarrow> utf8_length serialized \<le> m)
    \<and> mc_serialize mc v = Inr serialized \<and> value = mc_parse mc serialized
    \<and> (\<forall>m. po_max_session_bytes po = Some m \<longrightarrow> is_session_ref r)"
  using assms
  by (auto simp: prepare_put_def rbind_eq_Inr enforce_size_Inr serialize_memory_value_def validate_session_quota_def
      split: sum.splits option.splits)

text \<open>What a \<open>put\<close> does: it fails, it returns the live entry, or it writes.\<close>

lemma memory_put_cases:
  assumes "memory_put mc now r key kind v po st = (res, st')" and "memory_inv st"
  obtains (failed) e where "res = Inl e" and "memory_inv st'"
      and "\<And>t k. now \<le> t \<Longrightarrow> live_memory t st' k = live_memory t st k"
      and "\<And>sid. bytes_of sid (mm_entries st') \<le> bytes_of sid (mm_entries st)"
  | (kept) k s where "entry_key r key kind = Inr k" and "po_if_not_exists po" and "live_memory now st k = Some s"
      and "res = clone_memory_entry mc (sm_entry s)" and "memory_inv st'" and "map_of (mm_entries st') k = Some s"
      and "\<And>k'. k' \<noteq> k \<Longrightarrow> map_of (mm_entries st') k' = map_of (mm_entries st) k'"
      and "\<And>sid. bytes_of sid (mm_entries st') \<le> bytes_of sid (mm_entries st)"
  | (written) k s serialized where "entry_key r key kind = Inr k" and "res = clone_memory_entry mc (sm_entry s)"
      and "map_of (mm_entries st') k = Some s" and "memory_inv st'"
      and "\<And>k'. k' \<noteq> k \<Longrightarrow> map_of (mm_entries st') k' = map_of (mm_entries st) k'"
      and "mc_serialize mc v = Inr serialized" and "me_value (sm_entry s) = mc_parse mc serialized"
      and "sm_expires s = me_expires (sm_entry s)"
      and "me_version (sm_entry s) = (case live_memory now st k of None \<Rightarrow> 0 | Some o1 \<Rightarrow> me_version (sm_entry o1)) + 1"
      and "\<And>sid. r \<noteq> SessionRef sid \<Longrightarrow> bytes_of sid (mm_entries st') \<le> bytes_of sid (mm_entries st)"
      and "\<And>sid m. r = SessionRef sid \<Longrightarrow> po_max_session_bytes po = Some m \<Longrightarrow> bytes_of sid (mm_entries st') \<le> m"
      and "\<And>o1. live_memory now st k = Some o1 \<Longrightarrow> mc_same mc (me_value (sm_entry o1)) (mc_parse mc serialized)"
proof (cases "prepare_put mc r key v po st")
  case (Inl e)
  then show thesis using assms by (intro failed) (auto simp: memory_put_def)
next
  case (Inr p)
  obtain serialized val metadata where p: "p = (serialized, val, metadata)" by (cases p)
  note prep = prepare_put_Inr [OF Inr [unfolded p]]
  obtain got st1 where got: "get_stored now r key kind st = (got, st1)" by (cases "get_stored now r key kind st")
  from got assms(2) show thesis
  proof (cases rule: get_stored_cases)
    case (malformed e)
    then show thesis using assms Inr p got by (intro failed) (auto simp: memory_put_def)
  next
    case (found k)
    let ?old = "live_memory now st k" and ?bytes = "utf8_length serialized"
    have later: "live_memory t st1 k' = live_memory t st k'" if "now \<le> t" for t k'
    proof (cases "k' = k")
      case True
      have "memory_expired now s \<Longrightarrow> memory_expired t s" for s :: "'a stored_memory"
        using that by (auto simp: memory_expired_def split: option.splits)
      then show ?thesis using found(4) True by (auto simp: live_memory_def split: option.splits if_splits)
    next
      case False
      then show ?thesis using found(5) by (simp add: live_memory_def)
    qed
    show thesis
    proof (cases "?old \<noteq> None \<and> po_if_not_exists po")
      case True
      then obtain s where "?old = Some s" "po_if_not_exists po" by blast
      then show thesis using assms Inr p got found kept [of k s] by (simp add: memory_put_def)
    next
      case fresh: False
      show thesis
      proof (cases "?old \<noteq> None \<and> \<not> mc_same mc (me_value (sm_entry (the ?old))) val")
        case True
        then show thesis using assms Inr p got found fresh later
          by (intro failed) (auto simp: memory_put_def)
      next
        case same: False
        show thesis
        proof (cases "check_quota r po ?old ?bytes st1")
          case (Inl e)
          then show thesis using assms Inr p got found fresh same later
            by (intro failed) (auto simp: memory_put_def)
        next
          case quota: (Inr u)
          obtain entry st2 where w: "write_stored now r key kind val metadata ?bytes po ?old k st1 = (entry, st2)"
            by (cases "write_stored now r key kind val metadata ?bytes po ?old k st1")
          have res: "res = clone_memory_entry mc entry" "st' = st2"
            using assms(1) Inr p got found(1,2) fresh same quota w by (auto simp: memory_put_def)
          have max: "\<And>m. mm_max_entry_bytes st1 = Some m \<Longrightarrow> ?bytes \<le> m" using prep found(6) by simp
          note inv = write_stored_inv [OF w found(3,1,4) utf8_length_nonneg max]
          from w obtain s where s: "mm_entries st2 = AList.update k s (mm_entries st1)" "sm_entry s = entry"
            "sm_expires s = me_expires entry" "me_value entry = val"
            "me_version entry = (case ?old of None \<Rightarrow> 0 | Some o1 \<Rightarrow> me_version (sm_entry o1)) + 1"
            by (rule write_stored_fields)
          have "bytes_of sid (mm_entries st2) \<le> m" if "r = SessionRef sid" "po_max_session_bytes po = Some m" for sid m
            using inv(2) [of sid] quota that found(3)
            by (simp add: check_quota_def memory_inv_def Let_def split: if_splits)
          then show thesis
            using res s prep same found inv
            by (intro written [of k s serialized]) (auto simp: update_conv')
        qed
      qed
    qed
  qed
qed

section \<open>Listing and deleting\<close>

lemma delete_where_spec:
  assumes "memory_inv st" and "distinct (map fst al)" and "\<forall>(k, s) \<in> set al. map_of (mm_entries st) k = Some s"
    and "delete_where P al st = (n, st')"
  shows "memory_inv st' \<and> n = length (filter (case_prod P) al)
    \<and> mm_entries st' = filter (\<lambda>p. \<not> (p \<in> set al \<and> case_prod P p)) (mm_entries st)"
  using assms
proof (induction al arbitrary: st n st')
  case Nil
  then show ?case by auto
next
  case (Cons p rest)
  obtain k s where p: "p = (k, s)" by (cases p)
  have d: "distinct (map fst (mm_entries st))" using Cons(2) by (simp add: memory_inv_def)
  have ks: "map_of (mm_entries st) k = Some s" using Cons(4) p by simp
  show ?case
  proof (cases "P k s")
    case True
    obtain m st1 where rec: "delete_where P rest (delete_stored k s st) = (m, st1)"
      by (cases "delete_where P rest (delete_stored k s st)")
    have res: "n = Suc m" "st' = st1" using Cons(5) True p rec by auto
    have "\<forall>(k', s') \<in> set rest. map_of (mm_entries (delete_stored k s st)) k' = Some s'"
      using Cons(3,4) p by (auto simp: delete_stored_fields [OF ks] delete_conv' rev_image_eqI)
    from Cons(1) [OF delete_stored_inv [OF Cons(2) ks] _ this rec] Cons(3)
    have IH: "memory_inv st1 \<and> m = length (filter (case_prod P) rest)
        \<and> mm_entries st1 = filter (\<lambda>p. \<not> (p \<in> set rest \<and> case_prod P p)) (mm_entries (delete_stored k s st))" by simp
    have "AList.delete k (mm_entries st) = filter (\<lambda>p. fst p \<noteq> k) (mm_entries st)" by (auto simp: AList.delete_eq intro!: filter_cong)
    moreover have "fst q \<noteq> k \<longleftrightarrow> q \<noteq> (k, s)" if "q \<in> set (mm_entries st)" for q
      using that d ks by (metis eq_fst_iff map_of_eq_Some_iff option.inject)
    ultimately have "mm_entries st1 = filter (\<lambda>q. \<not> (q \<in> set rest \<and> case_prod P q) \<and> q \<noteq> (k, s)) (mm_entries st)"
      using IH by (auto simp: delete_stored_fields [OF ks] intro!: filter_cong)
    then show ?thesis using IH res p True by (auto intro!: filter_cong)
  next
    case False
    then have rec: "delete_where P rest st = (n, st')" using Cons(5) p by simp
    from Cons(1) [OF Cons(2) _ _ rec] Cons(3,4)
    have "memory_inv st' \<and> n = length (filter (case_prod P) rest)
        \<and> mm_entries st' = filter (\<lambda>p. \<not> (p \<in> set rest \<and> case_prod P p)) (mm_entries st)" by simp
    then show ?thesis using False p by (auto intro!: filter_cong)
  qed
qed

lemma delete_where_all:
  assumes "memory_inv st" and "delete_where P (mm_entries st) st = (n, st')"
  shows "memory_inv st'" and "n = length (filter (case_prod P) (mm_entries st))"
    and "mm_entries st' = filter (\<lambda>p. \<not> case_prod P p) (mm_entries st)"
proof -
  have d: "distinct (map fst (mm_entries st))" using assms(1) by (simp add: memory_inv_def)
  then have "\<forall>(k, s) \<in> set (mm_entries st). map_of (mm_entries st) k = Some s" by auto
  from delete_where_spec [OF assms(1) d this assms(2)]
  show "memory_inv st'" and "n = length (filter (case_prod P) (mm_entries st))"
    and "mm_entries st' = filter (\<lambda>p. \<not> case_prod P p) (mm_entries st)"
    by (auto intro!: filter_cong)
qed

lemma drop_expired_delete_where:
  "drop_expired now prefix al st =
    (map snd (filter (\<lambda>(k, s). starts_with k prefix \<and> \<not> memory_expired now s) al),
     snd (delete_where (\<lambda>k s. starts_with k prefix \<and> memory_expired now s) al st))"
  by (induction al arbitrary: st) (auto simp: split_beta)

lemma memory_list_inv: "memory_inv st \<Longrightarrow> memory_inv (snd (memory_list mc coll now r q st))"
  using delete_where_all(1) [of st]
  by (auto simp: memory_list_def Let_def drop_expired_delete_where split: sum.splits prod.splits)
    (metis prod.collapse)

lemma delete_all_inv: "memory_inv st \<Longrightarrow> memory_inv (snd (memory_delete_all r st))"
  using delete_where_all(1) [of st]
  by (auto simp: memory_delete_all_def Let_def split: sum.splits prod.splits)

section \<open>Runs\<close>

datatype 'v memory_op =
    MemoryGet int memory_ref js_string memory_kind
  | MemoryPut int memory_ref js_string memory_kind 'v "'v memory_put_options"
  | MemoryList int memory_ref memory_query
  | MemoryDelete memory_ref js_string memory_kind
  | MemoryDeleteAll memory_ref
  | MemoryDeleteForUser js_string

fun memory_step :: "'v memory_codec \<Rightarrow> (js_string \<Rightarrow> rat) \<Rightarrow> 'v memory_op \<Rightarrow> 'v memory_store \<Rightarrow> 'v memory_store" where
  "memory_step mc coll (MemoryGet now r key kind) st = snd (memory_get mc now r key kind st)"
| "memory_step mc coll (MemoryPut now r key kind v po) st = snd (memory_put mc now r key kind v po st)"
| "memory_step mc coll (MemoryList now r q) st = snd (memory_list mc coll now r q st)"
| "memory_step mc coll (MemoryDelete r key kind) st = snd (memory_delete r key kind st)"
| "memory_step mc coll (MemoryDeleteAll r) st = snd (memory_delete_all r st)"
| "memory_step mc coll (MemoryDeleteForUser u) st = snd (memory_delete_for_user u st)"

lemma memory_put_inv: "memory_inv st \<Longrightarrow> memory_inv (snd (memory_put mc now r key kind v po st))"
  by (cases "memory_put mc now r key kind v po st") (auto elim: memory_put_cases)

lemma delete_for_user_inv: "memory_inv st \<Longrightarrow> memory_inv (snd (memory_delete_for_user u st))"
  using delete_all_inv [of st "UserRef u"]
  by (auto simp: memory_delete_for_user_def Let_def split: prod.splits sum.splits dest: delete_where_all(1))

lemma memory_delete_inv: "memory_inv st \<Longrightarrow> memory_inv (snd (memory_delete r key kind st))"
  by (auto simp: memory_delete_def delete_stored_inv split: sum.splits option.splits)

lemma memory_step_inv: "memory_inv st \<Longrightarrow> memory_inv (memory_step mc coll op st)"
  by (cases op) (simp_all add: memory_get_snd get_stored_inv memory_put_inv memory_list_inv delete_all_inv
      delete_for_user_inv memory_delete_inv)

lemma memory_run_inv: "memory_inv st \<Longrightarrow> memory_inv (fold (memory_step mc coll) ops st)"
  by (induction ops arbitrary: st) (simp_all add: memory_step_inv)

lemma new_memory_inv: "new_memory prefix max_bytes = Inr st \<Longrightarrow> memory_inv st"
  by (auto simp: new_memory_def memory_inv_def session_used_def split: option.splits if_splits)

text \<open>
  After any sequence of operations the byte counter of every session is exactly the sum
  of the sizes of its entries, every entry sits under its own storage key, and none is larger than
  the configured maximum.
\<close>

theorem memory_accounting_exact:
  assumes "new_memory prefix max_bytes = Inr st0" and "st = fold (memory_step mc coll) ops st0"
  shows "session_used (SessionRef sid) st = bytes_of sid (mm_entries st)
    \<and> (\<forall>(k, s) \<in> set (mm_entries st). entry_at k s
        \<and> (\<forall>m. mm_max_entry_bytes st = Some m \<longrightarrow> sm_bytes s \<le> m))"
  using memory_run_inv [OF new_memory_inv [OF assms(1)], of mc coll ops] assms(2)
  by (auto simp: memory_inv_def)

text \<open>
  A put with a quota never takes its session over the quota: it writes only if the session
  fits afterwards, and it never makes a session that is already over the quota any larger.
\<close>

theorem memory_quota_respected:
  assumes "memory_inv st" and "memory_put mc now (SessionRef sid) key kind v po st = (res, st')"
    and "po_max_session_bytes po = Some quota"
  shows "session_used (SessionRef sid) st' \<le> max quota (session_used (SessionRef sid) st)
    \<and> (is_ok res \<and> \<not> po_if_not_exists po \<longrightarrow> session_used (SessionRef sid) st' \<le> quota)"
proof -
  have used: "session_used (SessionRef sid) st' = bytes_of sid (mm_entries st')" if "memory_inv st'"
    using that by (simp add: memory_inv_def)
  have used0: "session_used (SessionRef sid) st = bytes_of sid (mm_entries st)"
    using assms(1) by (simp add: memory_inv_def)
  from assms(2,1) show ?thesis
  proof (cases rule: memory_put_cases)
    case (failed e)
    then show ?thesis using used used0 by (simp add: max.coboundedI2)
  next
    case (kept k s)
    then show ?thesis using used used0 by (simp add: max.coboundedI2)
  next
    case (written k s serialized)
    then show ?thesis using used assms(3) by (simp add: max.coboundedI1)
  qed
qed

text \<open>
  Property C20: what a successful put returns is what get returns under the same scope, key and kind
  until it expires, and no other scope, key or kind sees a difference: storage keys never collide.
\<close>

theorem memory_put_get:
  assumes "memory_inv st" and "memory_put mc now r key kind v po st = (Inr e, st')"
  shows "(\<forall>t. (case me_expires e of None \<Rightarrow> True | Some x \<Rightarrow> of_int t < x) \<longrightarrow>
        fst (memory_get mc t r key kind st') = Inr (Some e))
    \<and> (\<forall>r' key' kind' t. (r', key', kind') \<noteq> (r, key, kind) \<longrightarrow>
        fst (memory_get mc t r' key' kind' st') = fst (memory_get mc t r' key' kind' st))"
proof -
  obtain k s where k: "entry_key r key kind = Inr k" and st': "memory_inv st'" "map_of (mm_entries st') k = Some s"
    and e: "clone_memory_entry mc (sm_entry s) = Inr e"
    and rest: "\<And>k'. k' \<noteq> k \<Longrightarrow> map_of (mm_entries st') k' = map_of (mm_entries st) k'"
    using assms(2,1) by (cases rule: memory_put_cases) (auto)
  have ex: "sm_expires s = me_expires e"
    using map_of_entry [OF st'] e by (auto simp: entry_at_def clone_memory_entry_def rbind_eq_Inr)
  have "fst (memory_get mc t r key kind st') = Inr (Some e)"
    if "case me_expires e of None \<Rightarrow> True | Some x \<Rightarrow> of_int t < x" for t
  proof -
    have "live_memory t st' k = Some s"
      using st'(2) ex that by (auto simp: live_memory_def memory_expired_def split: option.splits)
    then show ?thesis using e by (simp add: memory_get_fst [OF st'(1) k])
  qed
  moreover have "fst (memory_get mc t r' key' kind' st') = fst (memory_get mc t r' key' kind' st)"
    if "(r', key', kind') \<noteq> (r, key, kind)" for r' key' kind' t
  proof (cases "entry_key r' key' kind'")
    case (Inl x)
    then show ?thesis by (simp add: memory_get_def get_stored_def)
  next
    case (Inr k')
    then have "k' \<noteq> k" using entry_key_inj [OF k] that by auto
    then show ?thesis
      using rest by (simp add: memory_get_fst [OF st'(1) Inr] memory_get_fst [OF assms(1) Inr] live_memory_def)
  qed
  ultimately show ?thesis by blast
qed

definition owned_by :: "js_string \<Rightarrow> 'v stored_memory \<Rightarrow> bool" where
  "owned_by u s \<longleftrightarrow> me_ref (sm_entry s) = UserRef u \<or> is_session_ref (me_ref (sm_entry s)) \<and> sm_user s = Some u"

text \<open>
  Deleting a user removes exactly the user's own entries and the session entries
  attributed to the user, and nothing else, and returns their number.
\<close>

theorem delete_for_user_exact:
  assumes "memory_inv st" and "memory_delete_for_user u st = (Inr n, st')"
  shows "mm_entries st' = filter (\<lambda>(k, s). \<not> owned_by u s) (mm_entries st)
    \<and> n = length (filter (\<lambda>(k, s). owned_by u s) (mm_entries st))"
proof -
  let ?P1 = "\<lambda>rk (k :: js_string) (s :: 'a stored_memory). starts_with k (rk @ colon)"
    and ?P2 = "\<lambda>(k :: js_string) s. is_session_ref (me_ref (sm_entry s)) \<and> sm_user s = Some u"
  obtain rk where rk: "ref_key (UserRef u) = Inr rk"
    using assms(2) by (cases "ref_key (UserRef u)") (auto simp: memory_delete_for_user_def memory_delete_all_def)
  obtain n1 st1 where d1: "delete_where (?P1 rk) (mm_entries st) st = (n1, st1)"
    by (cases "delete_where (?P1 rk) (mm_entries st) st")
  obtain n2 where d2: "delete_where ?P2 (mm_entries st1) st1 = (n2, st')" and n: "n = n1 + n2"
    using assms(2) rk d1 by (auto simp: memory_delete_for_user_def memory_delete_all_def Let_def split: prod.splits)
  note one = delete_where_all [OF assms(1) d1] and two = delete_where_all [OF delete_where_all(1) [OF assms(1) d1] d2]
  have own: "starts_with k (rk @ colon) \<longleftrightarrow> me_ref (sm_entry s) = UserRef u" if "(k, s) \<in> set (mm_entries st)" for k s
  proof -
    have "entry_at k s" using assms(1) that by (auto simp: memory_inv_def)
    then show ?thesis using starts_with_ref [OF _ rk] by (auto simp: entry_at_def)
  qed
  have "mm_entries st' = filter (\<lambda>(k, s). \<not> owned_by u s) (mm_entries st)"
    using own unfolding two(3) one(3) filter_filter by (intro filter_cong) (auto simp: owned_by_def)
  moreover have "n = length (filter (\<lambda>(k, s). owned_by u s) (mm_entries st))"
  proof -
    have "length (filter (case_prod ?P2) (filter (\<lambda>p. \<not> case_prod (?P1 rk) p) al))
        + length (filter (case_prod (?P1 rk)) al) = length (filter (\<lambda>(k, s). owned_by u s) al)"
      if "set al \<subseteq> set (mm_entries st)" for al
      using that own by (induction al) (auto simp: owned_by_def)
    from this [OF subset_refl] show ?thesis unfolding n one(2) two(2) one(3) by simp
  qed
  ultimately show ?thesis by simp
qed

section \<open>Concrete runs\<close>

definition number_codec :: "nat memory_codec" where
  "number_codec = \<lparr>mc_serialize = (\<lambda>n. Inr (decimal n)), mc_parse = (\<lambda>s. nat (decimal_value s)), mc_same = (=),
     mc_is_object = (\<lambda>_. False)\<rparr>"

definition put_for :: "js_string option \<Rightarrow> int option \<Rightarrow> nat memory_put_options" where
  "put_for u quota = \<lparr>po_tags = None, po_metadata = None, po_ttl = None, po_session_user = u,
     po_max_session_bytes = quota, po_if_not_exists = False\<rparr>"

definition empty_memory :: "nat memory_store" where
  "empty_memory = \<lparr>mm_entries = [], mm_session_bytes = Map.empty, mm_next_id = 1, mm_prefix = js ''mem'',
     mm_max_entry_bytes = Some 4\<rparr>"

lemma sample_keys:
  "entry_key (SessionRef [97]) [107] KRaw = Inr (js ''session:a:raw:k'')"
  "entry_key (UserRef [118]) [107] KRaw = Inr (js ''user:v:raw:k'')"
  "entry_key (SessionRef [97]) [108] KRaw = Inr (js ''session:a:raw:l'')"
  by code_simp+

lemma sample_numbers: "decimal 512 = [53,49,50]" "decimal 12 = [49,50]" "decimal 7 = [55]" "decimal 1234 = [49,50,51,52]"
  "decimal (Suc 0) = [49]" "decimal (Suc (Suc 0)) = [50]"
  "decimal_value [53,49,50] = 512" "decimal_value [49,50] = 12"  "decimal_value [55] = 7"  "decimal_value [49,50,51,52] = 1234"
  by code_simp+
lemma sample_trim: "trim [117] = [117]" by code_simp

definition first_entry :: "nat stored_memory" where
  "first_entry = \<lparr>sm_entry = \<lparr>me_id = js ''mem_1'', me_ref = SessionRef [97], me_key = [107], me_kind = KRaw, me_value = 512,
     me_version = 1, me_created_at = 1, me_updated_at = 1, me_expires = None, me_tags = None, me_metadata = None\<rparr>,
     sm_bytes = 3, sm_expires = None, sm_user = Some [117]\<rparr>"

definition small_memory :: "nat memory_store" where
  "small_memory = empty_memory\<lparr>mm_entries := [(js ''session:a:raw:k'', first_entry)], mm_session_bytes := [[97] \<mapsto> 3], mm_next_id := 2\<rparr>"

lemmas sample_simps = memory_put_def prepare_put_def sample_keys sample_numbers sample_trim number_codec_def
  put_for_def empty_memory_def validate_session_quota_def serialize_memory_value_def enforce_size_def get_stored_def
  is_safe_integer_def max_safe_integer_def check_quota_def session_used_def write_stored_def next_entry_id_def
  small_memory_def first_entry_def js_def Let_def

definition first_put :: "nat memory_op" where
  "first_put = MemoryPut 1 (SessionRef [97]) [107] KRaw 512 (put_for (Some [117]) (Some 6))"

lemma small_memory_put: "small_memory = fold (memory_step number_codec (\<lambda>_. 0)) [first_put] empty_memory"
  by (simp add: sample_simps first_put_def)

lemma empty_memory_new: "new_memory None (Some 4) = Inr empty_memory"
  by (simp add: new_memory_def empty_memory_def is_safe_integer_def max_safe_integer_def)

lemma small_memory_inv: "memory_inv small_memory"
  unfolding small_memory_put by (rule memory_run_inv [OF new_memory_inv [OF empty_memory_new]])

theorem memory_accounting_exact_witness:
  "bytes_of [97] (mm_entries small_memory) = 3"
  using memory_accounting_exact [OF empty_memory_new small_memory_put, of "[97]"]
  by (simp add: session_used_def small_memory_def)

theorem memory_quota_respected_witness:
  "fst (memory_put number_codec 3 (SessionRef [97]) [108] KRaw 1234 (put_for None (Some 6)) small_memory)
      = Inl (MemorySessionQuotaExceededError [97] 3 4 6)
    \<and> session_used (SessionRef [97])
      (snd (memory_put number_codec 3 (SessionRef [97]) [108] KRaw 1234 (put_for None (Some 6)) small_memory)) \<le> 6"
proof
  let ?put = "memory_put number_codec 3 (SessionRef [97]) [108] KRaw 1234 (put_for None (Some 6)) small_memory"
  show "fst ?put = Inl (MemorySessionQuotaExceededError [97] 3 4 6)" by (simp add: sample_simps)
  have "session_used (SessionRef [97]) small_memory = 3" by (simp add: session_used_def small_memory_def)
  moreover have "po_max_session_bytes (put_for None (Some 6)) = Some 6" by (simp add: put_for_def)
  ultimately show "session_used (SessionRef [97]) (snd ?put) \<le> 6"
    using memory_quota_respected [OF small_memory_inv, of number_codec 3 "[97]" "[108]" KRaw 1234 "put_for None (Some 6)"
      "fst ?put" "snd ?put" 6] by simp
qed

theorem memory_put_get_witness:
  "\<exists>e. fst (memory_get number_codec 9 (SessionRef [97]) [108] KRaw
      (snd (memory_put number_codec 3 (SessionRef [97]) [108] KRaw 12 (put_for None None) small_memory))) = Inr (Some e)
    \<and> me_value e = 12"
proof -
  let ?put = "memory_put number_codec 3 (SessionRef [97]) [108] KRaw 12 (put_for None None) small_memory"
  obtain e where e: "fst ?put = Inr e" "me_value e = 12" "me_expires e = None"
    by (simp add: sample_simps clone_memory_entry_def copy_value_def)
  then have put: "?put = (Inr e, snd ?put)" by (simp add: prod_eq_iff)
  show ?thesis using memory_put_get [OF small_memory_inv put] e by auto
qed

theorem delete_for_user_exact_witness:
  "fst (memory_delete_for_user [117] small_memory) = Inr 1"
proof -
  let ?del = "memory_delete_for_user [117] small_memory"
  have "ref_key (UserRef [117]) = Inr (js ''user:u'')" by code_simp
  then have "is_ok (fst ?del)" by (simp add: memory_delete_for_user_def memory_delete_all_def Let_def split_beta)
  then obtain n where n: "fst ?del = Inr n" by (auto simp: is_ok_iff)
  then have "?del = (Inr n, snd ?del)" by (simp add: prod_eq_iff)
  from delete_for_user_exact [OF small_memory_inv this] have "n = 1"
    by (simp add: small_memory_def first_entry_def owned_by_def)
  then show ?thesis using n by simp
qed

end
