(* ===== verification/Json_Text.thy ===== *)
theory Json_Text
  imports Text_Encoding
begin

text \<open>
  \<open>JSON.stringify\<close> of plain JSON values, as ECMAScript defines it, and the characters its result can
  contain. A number is given by its sign, its shortest decimal digits \<open>s\<close> and the position \<open>n\<close> of the
  decimal point, the form from which \<open>Number::toString\<close> prints it.
\<close>

section \<open>Values\<close>

datatype js_value =
    JNull
  | JBool bool
  | JNumber bool nat int
  | JString js_string
  | JArray "js_value list"
  | JObject "(js_string \<times> js_value) list"

definition number_text :: "bool \<Rightarrow> nat \<Rightarrow> int \<Rightarrow> js_string" where
  "number_text negative s n =
     (let ds = decimal s; k = int (length ds); zeros = (\<lambda>m. replicate (nat m) (48 :: 16 word)) in
      (if negative \<and> s \<noteq> 0 then [45] else []) @
      (if s = 0 then [48]
       else if k \<le> n \<and> n \<le> 21 then ds @ zeros (n - k)
       else if 0 < n \<and> n \<le> 21 then take (nat n) ds @ [46] @ drop (nat n) ds
       else if - 6 < n \<and> n \<le> 0 then [48, 46] @ zeros (- n) @ ds
       else take 1 ds @ (if k = 1 then [] else [46] @ drop 1 ds) @ [101]
         @ (if n - 1 < 0 then [45] else [43]) @ decimal (nat \<bar>n - 1\<bar>)))"

definition lower_hex_digit :: "nat \<Rightarrow> 16 word" where
  "lower_hex_digit d = (if d < 10 then of_nat (48 + d) else of_nat (87 + d))"

definition unicode_escape :: "16 word \<Rightarrow> js_string" where
  "unicode_escape u = [92, 117, lower_hex_digit (unat u div 4096), lower_hex_digit (unat u div 256 mod 16),
     lower_hex_digit (unat u div 16 mod 16), lower_hex_digit (unat u mod 16)]"

fun json_escape :: "js_string \<Rightarrow> js_string" where
  "json_escape [] = []"
| "json_escape (u # us) =
     (if u = 34 then [92, 34] @ json_escape us
      else if u = 92 then [92, 92] @ json_escape us
      else if u = 8 then [92, 98] @ json_escape us
      else if u = 12 then [92, 102] @ json_escape us
      else if u = 10 then [92, 110] @ json_escape us
      else if u = 13 then [92, 114] @ json_escape us
      else if u = 9 then [92, 116] @ json_escape us
      else if unat u < 32 then unicode_escape u @ json_escape us
      else if is_high u then
        (case us of
           v # rest \<Rightarrow> if is_low v then [u, v] @ json_escape rest else unicode_escape u @ json_escape us
         | [] \<Rightarrow> unicode_escape u)
      else if is_low u then unicode_escape u @ json_escape us
      else u # json_escape us)"

declare json_escape.simps [simp del]

definition json_quote :: "js_string \<Rightarrow> js_string" where
  "json_quote s = [34] @ json_escape s @ [34]"

fun join :: "js_string \<Rightarrow> js_string list \<Rightarrow> js_string" where
  "join sep [] = []"
| "join sep [s] = s"
| "join sep (s # t # rest) = s @ sep @ join sep (t # rest)"

fun json_text :: "js_value \<Rightarrow> js_string" where
  "json_text JNull = js ''null''"
| "json_text (JBool b) = (if b then js ''true'' else js ''false'')"
| "json_text (JNumber negative s n) = number_text negative s n"
| "json_text (JString s) = json_quote s"
| "json_text (JArray vs) = [91] @ join [44] (map json_text vs) @ [93]"
| "json_text (JObject kvs) = [123] @ join [44] (map (\<lambda>(k, v). json_quote k @ [58] @ json_text v) kvs) @ [125]"

section \<open>Printable text\<close>

text \<open>No control character: in particular a JSON text is one line.\<close>

definition printable :: "js_string \<Rightarrow> bool" where
  "printable s \<longleftrightarrow> (\<forall>u \<in> set s. 32 \<le> unat u)"

lemma printable_simps [simp]:
  "printable []"
  "printable (u # s) \<longleftrightarrow> 32 \<le> unat u \<and> printable s"
  "printable (s @ t) \<longleftrightarrow> printable s \<and> printable t"
  by (auto simp: printable_def)

lemma printable_sub: "printable s \<Longrightarrow> printable (take n s)" "printable s \<Longrightarrow> printable (drop n s)"
  by (auto simp: printable_def dest: in_set_takeD in_set_dropD)

lemma printable_replicate: "32 \<le> unat u \<Longrightarrow> printable (replicate n u)"
  by (simp add: printable_def)

lemma decimal_printable: "printable (decimal n)"
proof (induction n rule: decimal.induct)
  case (1 n)
  have "printable [of_nat (48 + n mod 10)]" using unat_digit [of "n mod 10"] by (simp del: of_nat_add)
  moreover have "printable [of_nat (48 + n)]" if "n < 10" using unat_digit [OF that] by (simp del: of_nat_add)
  ultimately show ?case using 1 by (simp add: decimal.simps [of n] del: of_nat_add)
qed

lemma number_text_printable: "printable (number_text negative s n)"
  using decimal_printable [of s] decimal_printable [of "nat \<bar>n - 1\<bar>"]
  by (auto simp: number_text_def Let_def printable_sub printable_replicate)

lemma lower_hex_printable: "d < 16 \<Longrightarrow> 32 \<le> unat (lower_hex_digit d)"
  by (simp add: lower_hex_digit_def unat_of_nat take_bit_eq_mod del: of_nat_add)

lemma unicode_escape_printable: "printable (unicode_escape u)"
proof -
  have "unat u div 4096 < 16" using unat_16 [of u] by auto
  then show ?thesis by (simp add: unicode_escape_def lower_hex_printable)
qed

lemma surrogate_printable: "is_high u \<Longrightarrow> 32 \<le> unat u" "is_low u \<Longrightarrow> 32 \<le> unat u"
  by (auto simp: is_high_def is_low_def)

lemma json_escape_printable: "printable (json_escape s)"
proof (induction s rule: length_induct)
  case (1 s)
  show ?case
  proof (cases s)
    case (Cons u us)
    then have us: "printable (json_escape us)" using 1 by simp
    have "printable (json_escape rest)" if "us = v # rest" for v rest using 1 Cons that by simp
    then have "printable (case us of v # rest \<Rightarrow> if is_low v then [u, v] @ json_escape rest
          else unicode_escape u @ json_escape us | [] \<Rightarrow> unicode_escape u)" if "is_high u"
      using that us unicode_escape_printable [of u] by (auto simp: surrogate_printable split: list.split)
    then show ?thesis using Cons us unicode_escape_printable [of u] by (simp add: json_escape.simps)
  qed (simp add: json_escape.simps)
qed

lemma json_quote_printable: "printable (json_quote s)"
  by (simp add: json_quote_def json_escape_printable)

lemma join_printable: "printable sep \<Longrightarrow> \<forall>s \<in> set ss. printable s \<Longrightarrow> printable (join sep ss)"
  by (induction sep ss rule: join.induct) auto

lemma json_text_printable: "printable (json_text v)"
proof (induction v)
  case JNull
  show ?case by (simp add: js_def)
next
  case (JBool b)
  show ?case by (simp add: js_def)
next
  case (JNumber negative s n)
  show ?case by (simp add: number_text_printable)
next
  case (JString s)
  show ?case by (simp add: json_quote_printable)
next
  case (JArray vs)
  then show ?case by (simp add: join_printable)
next
  case (JObject kvs)
  then have "printable (json_quote k @ [58] @ json_text v)" if "(k, v) \<in> set kvs" for k v
    using that by (fastforce simp: json_quote_printable)
  then show ?case by (auto intro!: join_printable)
qed

end
