(* ===== verification/Memory_Paging.thy ===== *)
theory Memory_Paging
  imports Prompt_Context
begin

text \<open>
  The pre-call loader of \<open>packages/runtime/src/memory-loader.ts\<close> on the in-memory adapter of
  \<open>packages/dal/src/in-memory-memory.ts\<close>: the ids of the adapter are never reused, so its pages are the
  slices of one listing, and the loader reads that listing to the end.
\<close>

section \<open>Every stored entry has an id of its own\<close>

text \<open>A step that only removes entries.\<close>

definition shrinks :: "'v memory_store \<Rightarrow> 'v memory_store \<Rightarrow> bool" where
  "shrinks st st' \<longleftrightarrow> mm_prefix st' = mm_prefix st \<and> mm_next_id st' = mm_next_id st
     \<and> (\<exists>P. mm_entries st' = filter P (mm_entries st))"

lemma shrinks_refl [simp, intro]: "shrinks st st"
  unfolding shrinks_def by (auto intro!: exI [of _ "\<lambda>_. True"])

lemma shrinks_trans: "shrinks a b \<Longrightarrow> shrinks b c \<Longrightarrow> shrinks a c"
  unfolding shrinks_def by (auto simp: filter_filter)

lemma shrinks_delete_stored: "shrinks st (delete_stored k s st)"
proof (cases "map_of (mm_entries st) k")
  case (Some s')
  then show ?thesis
    using delete_stored_fields [OF Some]
    by (auto simp: shrinks_def delete_stored_def Let_def AList.delete_eq split: memory_ref.splits)
qed (simp add: delete_stored_def)

lemma shrinks_delete_where: "shrinks st (snd (delete_where P al st))"
proof (induction al arbitrary: st)
  case (Cons p al)
  then show ?case using shrinks_trans [OF shrinks_delete_stored Cons] by (cases p) (simp add: split_beta)
qed simp

lemma shrinks_get_stored: "shrinks st (snd (get_stored now r key kind st))"
  by (auto simp: get_stored_def shrinks_delete_stored split: sum.splits option.splits)

lemma shrinks_delete_all: "shrinks st (snd (memory_delete_all r st))"
  using shrinks_delete_where [of st] by (auto simp: memory_delete_all_def Let_def split_beta split: sum.splits)

lemma shrinks_operations:
  "shrinks st (snd (memory_get mc now r key kind st))"
  "shrinks st (snd (memory_list mc coll now r q st))"
  "shrinks st (snd (memory_delete r key kind st))"
  "shrinks st (snd (memory_delete_for_user u st))"
  using shrinks_delete_all [of st "UserRef u"] shrinks_trans [OF _ shrinks_delete_where]
  by (auto simp: memory_get_snd shrinks_get_stored memory_list_def Let_def drop_expired_delete_where shrinks_delete_where
      memory_delete_def shrinks_delete_stored memory_delete_for_user_def split_beta split: sum.splits option.splits)

text \<open>
  The ids are numbered by a counter that never goes back, and a value in the store is what the codec
  parsed, so that serializing it again gives it back.
\<close>

definition stable_value :: "'v memory_codec \<Rightarrow> 'v \<Rightarrow> bool" where
  "stable_value mc v \<longleftrightarrow> copy_value mc v = Inr v"

definition listed_ok :: "'v memory_codec \<Rightarrow> js_string \<Rightarrow> nat \<Rightarrow> 'v memory_entry \<Rightarrow> bool" where
  "listed_ok mc pre next e \<longleftrightarrow> (\<exists>n < next. me_id e = pre @ [95] @ decimal n) \<and> stable_value mc (me_value e)
     \<and> (\<forall>m. me_metadata e = Some m \<longrightarrow> stable_value mc m)"

definition memory_ids_inv :: "'v memory_codec \<Rightarrow> 'v memory_store \<Rightarrow> bool" where
  "memory_ids_inv mc st \<longleftrightarrow> distinct (map fst (mm_entries st)) \<and> distinct (map (\<lambda>p. me_id (sm_entry (snd p))) (mm_entries st))
     \<and> (\<forall>p \<in> set (mm_entries st). listed_ok mc (mm_prefix st) (mm_next_id st) (sm_entry (snd p)))"

definition codec_stable :: "'v memory_codec \<Rightarrow> bool" where
  "codec_stable mc \<longleftrightarrow> (\<forall>v s. mc_serialize mc v = Inr s \<longrightarrow> mc_serialize mc (mc_parse mc s) = Inr s)"

lemma shrinks_ids: "shrinks st st' \<Longrightarrow> memory_ids_inv mc st \<Longrightarrow> memory_ids_inv mc st'"
  by (auto simp: shrinks_def memory_ids_inv_def distinct_map_filter)

lemma update_ids:
  assumes "distinct (map fst al)" and "distinct (map f al)"
    and "case map_of al k of Some s' \<Rightarrow> f (k, s) = f (k, s') | None \<Rightarrow> f (k, s) \<notin> f ` set al"
  shows "distinct (map f (AList.update k s al))"
proof (cases "map_of al k")
  case None
  then have "AList.update k s al = al @ [(k, s)]" by (induction al) (auto split: if_splits)
  then show ?thesis using assms None by auto
next
  case (Some s')
  then have "map f (AList.update k s al) = map f al"
    using assms(1,3) by (induction al) (auto split: if_splits)
  then show ?thesis using assms(2) by simp
qed

lemma write_stored_listed:
  "\<exists>s. mm_entries (snd (write_stored now r key kind v metadata bytes po existing k st)) = AList.update k s (mm_entries st)
    \<and> mm_prefix (snd (write_stored now r key kind v metadata bytes po existing k st)) = mm_prefix st
    \<and> mm_next_id (snd (write_stored now r key kind v metadata bytes po existing k st))
        = (case existing of None \<Rightarrow> mm_next_id st + 1 | Some _ \<Rightarrow> mm_next_id st)
    \<and> me_id (sm_entry s) = (case existing of None \<Rightarrow> mm_prefix st @ [95] @ decimal (mm_next_id st) | Some o1 \<Rightarrow> me_id (sm_entry o1))
    \<and> me_value (sm_entry s) = v
    \<and> me_metadata (sm_entry s) = (case metadata of Some m \<Rightarrow> Some m | None \<Rightarrow> Option.bind (map_option sm_entry existing) me_metadata)"
  by (cases existing; cases metadata; cases "is_session_ref r") (auto simp: write_stored_def Let_def next_entry_id_def intro!: exI)

lemma write_stored_ids:
  assumes "memory_ids_inv mc st" and "map_of (mm_entries st) k = existing" and "stable_value mc v"
    and "\<And>m. metadata = Some m \<Longrightarrow> stable_value mc m"
  shows "memory_ids_inv mc (snd (write_stored now r key kind v metadata bytes po existing k st))"
proof -
  let ?st' = "snd (write_stored now r key kind v metadata bytes po existing k st)"
  have d: "distinct (map fst (mm_entries st))" using assms(1) by (simp add: memory_ids_inv_def)
  have ok: "p \<in> set (mm_entries st) \<Longrightarrow> listed_ok mc (mm_prefix st) (mm_next_id st) (sm_entry (snd p))" for p
    using assms(1) by (auto simp: memory_ids_inv_def)
  obtain s where st': "mm_entries ?st' = AList.update k s (mm_entries st)" "mm_prefix ?st' = mm_prefix st"
      "mm_next_id ?st' = (case existing of None \<Rightarrow> mm_next_id st + 1 | Some _ \<Rightarrow> mm_next_id st)"
      "me_id (sm_entry s) = (case existing of None \<Rightarrow> mm_prefix st @ [95] @ decimal (mm_next_id st) | Some o1 \<Rightarrow> me_id (sm_entry o1))"
      "me_value (sm_entry s) = v"
      "me_metadata (sm_entry s) = (case metadata of Some m \<Rightarrow> Some m | None \<Rightarrow> Option.bind (map_option sm_entry existing) me_metadata)"
    using write_stored_listed [of now r key kind v metadata bytes po existing k st] by blast
  have mono: "listed_ok mc (mm_prefix st) (mm_next_id st) e \<Longrightarrow> listed_ok mc (mm_prefix ?st') (mm_next_id ?st') e" for e
    unfolding st' listed_ok_def by (auto split: option.splits intro: less_SucI)
  have new: "listed_ok mc (mm_prefix ?st') (mm_next_id ?st') (sm_entry s)"
  proof (cases existing)
    case None
    then show ?thesis using assms(3,4) unfolding listed_ok_def st' by (auto split: option.splits)
  next
    case (Some o1)
    have "(k, o1) \<in> set (mm_entries st)" using assms(2) Some map_of_SomeD by fast
    then show ?thesis using ok [of "(k, o1)"] assms(3,4) Some
      unfolding listed_ok_def st' by (auto split: option.splits)
  qed
  have "distinct (map (\<lambda>p. me_id (sm_entry (snd p))) (mm_entries ?st'))"
    unfolding st'(1)
  proof (rule update_ids [OF d])
    show "distinct (map (\<lambda>p. me_id (sm_entry (snd p))) (mm_entries st))" using assms(1) by (simp add: memory_ids_inv_def)
    have "mm_prefix st @ [95] @ decimal (mm_next_id st) \<noteq> me_id (sm_entry (snd p))" if "p \<in> set (mm_entries st)" for p
      using ok [OF that] by (auto simp: listed_ok_def decimal_inj)
    then show "case map_of (mm_entries st) k of
        None \<Rightarrow> me_id (sm_entry (snd (k, s))) \<notin> (\<lambda>p. me_id (sm_entry (snd p))) ` set (mm_entries st)
      | Some s' \<Rightarrow> me_id (sm_entry (snd (k, s))) = me_id (sm_entry (snd (k, s')))"
      using st'(4) assms(2) by (auto split: option.splits)
  qed
  then show ?thesis
    unfolding memory_ids_inv_def using d new mono ok
    by (auto simp: st'(1) in_set_update distinct_update)
qed

lemma parsed_stable: "codec_stable mc \<Longrightarrow> mc_serialize mc v = Inr s \<Longrightarrow> stable_value mc (mc_parse mc s)"
  by (simp add: codec_stable_def stable_value_def copy_value_def)

lemma prepare_put_stable:
  assumes "prepare_put mc r key v po st = Inr (serialized, v', metadata)" and "codec_stable mc"
  shows "stable_value mc v'" and "metadata = Some m \<Longrightarrow> stable_value mc m"
  using assms parsed_stable [OF assms(2)]
  by (auto simp: prepare_put_def rbind_eq_Inr serialize_memory_value_def split: sum.splits option.splits if_splits)

lemma memory_put_ids:
  assumes "memory_ids_inv mc st" and "memory_inv st" and "codec_stable mc"
  shows "memory_ids_inv mc (snd (memory_put mc now r key kind v po st))"
proof (cases "prepare_put mc r key v po st")
  case (Inl e)
  then show ?thesis using assms(1) by (simp add: memory_put_def)
next
  case (Inr p)
  obtain serialized v' metadata where p: "p = (serialized, v', metadata)" by (cases p)
  obtain got st1 where got: "get_stored now r key kind st = (got, st1)" by (cases "get_stored now r key kind st")
  have inv1: "memory_ids_inv mc st1" using shrinks_ids [OF shrinks_get_stored assms(1)] got by (metis snd_conv)
  from got assms(2) show ?thesis
  proof (cases rule: get_stored_cases)
    case (malformed e)
    then show ?thesis using Inr p got inv1 by (simp add: memory_put_def)
  next
    case (found k)
    have "memory_ids_inv mc (snd (write_stored now r key kind v' metadata bytes po (live_memory now st k) k st1))" for bytes
      by (intro write_stored_ids inv1 found(4) prepare_put_stable [OF Inr [unfolded p] assms(3)])
    then show ?thesis
      using Inr p got found(1,2) inv1
      by (cases "live_memory now st k") (simp_all add: memory_put_def Let_def split_beta split: sum.split)
  qed
qed

lemma memory_step_ids:
  assumes "memory_ids_inv mc st" and "memory_inv st" and "codec_stable mc"
  shows "memory_ids_inv mc (memory_step mc coll op st)"
  using assms shrinks_ids [OF _ assms(1)]
  by (cases op) (auto simp: memory_put_ids shrinks_operations shrinks_delete_all)

lemma memory_run_ids:
  "codec_stable mc \<Longrightarrow> memory_ids_inv mc st \<Longrightarrow> memory_inv st \<Longrightarrow> memory_ids_inv mc (fold (memory_step mc coll) ops st)"
  by (induction ops arbitrary: st) (simp_all add: memory_step_ids memory_step_inv)

lemma new_memory_ids: "new_memory pre max_bytes = Inr st \<Longrightarrow> memory_ids_inv mc st"
  by (auto simp: new_memory_def memory_ids_inv_def split: option.splits if_splits)

section \<open>The adapter pages one listing\<close>

text \<open>What the loader asks of the adapter, at one moment and for one scope and kind.\<close>

definition page_query :: "memory_kind option \<Rightarrow> int \<Rightarrow> js_string option \<Rightarrow> memory_query" where
  "page_query kind limit cursor = \<lparr>qy_key = None, qy_prefix = None, qy_kind = kind, qy_tags = [],
     qy_limit = Some limit, qy_cursor = cursor\<rparr>"

definition store_page ::
    "'v memory_codec \<Rightarrow> (js_string \<Rightarrow> rat) \<Rightarrow> int \<Rightarrow> memory_ref \<Rightarrow> memory_kind option \<Rightarrow> ('v, 'v memory_store) page_op" where
  "store_page mc coll now r kind limit cursor st = memory_list mc coll now r (page_query kind limit cursor) st"

text \<open>The live entries of the scope and kind, newest first.\<close>

definition live_listing ::
    "(js_string \<Rightarrow> rat) \<Rightarrow> int \<Rightarrow> memory_ref \<Rightarrow> memory_kind option \<Rightarrow> 'v memory_store \<Rightarrow> 'v memory_entry list" where
  "live_listing coll now r kind st = sort_key (list_rank coll)
     (filter (\<lambda>e. me_ref e = r \<and> (case kind of None \<Rightarrow> True | Some k \<Rightarrow> me_kind e = k))
       (map (\<lambda>p. sm_entry (snd p)) (filter (\<lambda>(k, s). \<not> memory_expired now s) (mm_entries st))))"

definition pageable :: "'v memory_codec \<Rightarrow> memory_ref \<Rightarrow> 'v memory_store \<Rightarrow> bool" where
  "pageable mc r st \<longleftrightarrow> memory_inv st \<and> memory_ids_inv mc st \<and> is_ok (ref_key r)"

lemma decimal_is_cursor: "is_cursor (decimal n)"
proof -
  have "(n = 0 \<longrightarrow> decimal n = [48]) \<and> decimal n \<noteq> [] \<and> list_all is_digit (decimal n) \<and> (0 < n \<longrightarrow> hd (decimal n) \<noteq> 48)"
  proof (induction n rule: decimal.induct)
    case (1 n)
    have digit: "is_digit (of_nat (48 + d))" "0 < d \<Longrightarrow> of_nat (48 + d) \<noteq> (48 :: 16 word)" if "d < 10" for d
      using unat_digit [OF that] that by (auto simp: is_digit_def simp del: of_nat_add)
    show ?case
    proof (cases "n < 10")
      case True
      then have "decimal n = [of_nat (48 + n)]" by (simp add: decimal.simps [of n] del: of_nat_add)
      then show ?thesis using digit [OF True] by (cases "n = 0") (simp_all del: of_nat_add)
    next
      case False
      then have "0 < n div 10" by auto
      then show ?thesis using 1 [OF False] digit(1) [of "n mod 10"] False
        by (auto simp: decimal.simps [of n] simp del: of_nat_add)
    qed
  qed
  then show ?thesis by (cases "n = 0") (auto simp: is_cursor_def)
qed

lemma parse_decimal_cursor: "is_safe_integer (int n) \<Longrightarrow> parse_memory_cursor (Some (decimal n)) = Inr (int n)"
  by (simp add: parse_memory_cursor_def decimal_is_cursor decimal_value_decimal)

lemma map_result_all: "(\<And>x. x \<in> set xs \<Longrightarrow> f x = Inr (g x)) \<Longrightarrow> map_result f xs = Inr (map g xs)"
  by (induction xs) simp_all

lemma clone_listed: "listed_ok mc pre n e \<Longrightarrow> clone_memory_entry mc e = Inr e"
  by (auto simp: listed_ok_def stable_value_def clone_memory_entry_def split: option.splits)

lemma store_page_listing:
  assumes "pageable mc r st" and "is_safe_integer limit" "0 < limit" and "parse_memory_cursor cursor = Inr (int n)"
  shows "\<exists>st'. store_page mc coll now r kind limit cursor st
      = (Inr (take (nat limit) (drop n (live_listing coll now r kind st))), st')
    \<and> pageable mc r st' \<and> live_listing coll now r kind st' = live_listing coll now r kind st"
proof -
  obtain rk where rk: "ref_key r = Inr rk" using assms(1) by (auto simp: pageable_def is_ok_iff)
  let ?gone = "\<lambda>k s. starts_with k (rk @ colon) \<and> memory_expired now s"
  let ?kept = "filter (\<lambda>(k, s). starts_with k (rk @ colon) \<and> \<not> memory_expired now s) (mm_entries st)"
  obtain m st' where d: "delete_where ?gone (mm_entries st) st = (m, st')"
    by (cases "delete_where ?gone (mm_entries st) st")
  have inv: "memory_inv st" "memory_ids_inv mc st" using assms(1) by (auto simp: pageable_def)
  have own: "starts_with k (rk @ colon) \<longleftrightarrow> me_ref (sm_entry s) = r" if "(k, s) \<in> set (mm_entries st)" for k s
    using starts_with_ref [OF _ rk] inv(1) that by (fastforce simp: memory_inv_def entry_at_def)
  have clones: "clone_memory_entry mc (sm_entry s) = Inr (sm_entry s)" if "s \<in> set (map snd ?kept)" for s
    using that inv(2) clone_listed by (fastforce simp: memory_ids_inv_def)
  have kept: "filter (\<lambda>p. me_ref (sm_entry (snd p)) = r) (filter (\<lambda>(k, s). \<not> memory_expired now s) (mm_entries st)) = ?kept"
    using own by (auto simp: filter_filter intro!: filter_cong)
  have listing: "live_listing coll now r kind st
      = sort_key (list_rank coll) (filter (matches_query (page_query kind limit cursor)) (map sm_entry (map snd ?kept)))"
    unfolding live_listing_def kept [symmetric] filter_filter filter_map comp_def map_map
    by (intro arg_cong [of _ _ "sort_key (list_rank coll)"] arg_cong [of _ _ "map (\<lambda>p. sm_entry (snd p))"] filter_cong)
      (auto simp: matches_query_def page_query_def tags_match_def split: option.splits)
  have "store_page mc coll now r kind limit cursor st
      = (Inr (take (nat limit) (drop n (live_listing coll now r kind st))), st')"
    unfolding listing store_page_def memory_list_def
    using rk assms(2-4) map_result_all [of "map snd ?kept" "\<lambda>s. clone_memory_entry mc (sm_entry s)" sm_entry, OF clones] d
    by (simp add: page_query_def validate_memory_limit_def drop_expired_delete_where)
  moreover have "pageable mc r st'"
    using delete_where_all(1) [OF inv(1) d] shrinks_ids [OF shrinks_delete_where inv(2)] d rk
    by (metis pageable_def is_ok_iff snd_conv)
  moreover have "live_listing coll now r kind st' = live_listing coll now r kind st"
    unfolding live_listing_def delete_where_all(3) [OF inv(1) d] filter_filter
    by (intro arg_cong [of _ _ "sort_key (list_rank coll)"] arg_cong2 [of _ _ _ _ filter] arg_cong2 [of _ _ _ _ map] filter_cong)
      auto
  ultimately show ?thesis by blast
qed

interpretation pages: paged_memory "store_page mc coll now r kind" "live_listing coll now r kind" "pageable mc r"
  for mc coll now r kind
proof
  show "\<exists>st'. store_page mc coll now r kind limit None st = (Inr (take (nat limit) (live_listing coll now r kind st)), st')
      \<and> pageable mc r st' \<and> live_listing coll now r kind st' = live_listing coll now r kind st"
    if "pageable mc r st" "is_safe_integer limit" "0 < limit" for st limit
    using store_page_listing [OF that, of None 0 coll now kind] by (simp add: parse_memory_cursor_def)
  show "\<exists>st'. store_page mc coll now r kind limit (Some (decimal n)) st
        = (Inr (take (nat limit) (drop n (live_listing coll now r kind st))), st')
      \<and> pageable mc r st' \<and> live_listing coll now r kind st' = live_listing coll now r kind st"
    if "pageable mc r st" "is_safe_integer limit" "0 < limit" "is_safe_integer (int n)" for st limit n
    using store_page_listing [OF that(1-3) parse_decimal_cursor [OF that(4)]] .
  show "distinct (map me_id (live_listing coll now r kind st))" if "pageable mc r st" for st
  proof -
    have "distinct (map (\<lambda>p. me_id (sm_entry (snd p))) (mm_entries st))"
      using that by (simp add: pageable_def memory_ids_inv_def)
    then have "distinct (map me_id (map (\<lambda>p. sm_entry (snd p)) (filter (\<lambda>(k, s). \<not> memory_expired now s) (mm_entries st))))"
      by (simp add: distinct_map_filter comp_def)
    then show ?thesis unfolding live_listing_def distinct_map [of me_id] by (auto simp: inj_on_def dest: distinct_filter)
  qed
qed


lemma number_codec_stable: "codec_stable number_codec"
  by (simp add: codec_stable_def number_codec_def decimal_value_decimal)


end
