(* ===== verification/Conversation_Policy.thy ===== *)
theory Conversation_Policy
  imports Prompt_Context
begin

text \<open>
  What the language model sees of a call: \<open>packages/runtime/src/conversation-policy.ts\<close>. The policy
  keeps the system message and a window of past exchanges within a byte and a message budget, builds
  the requests, and buffers the final transcript segments of a turn.

  A message is its role, its content and its remaining fields; its size is the UTF-8 length of its JSON
  text. Tools are their names.
\<close>

section \<open>Messages\<close>

datatype message_role = RoleSystem | RoleUser | RoleAssistant | RoleTool

text \<open>The fields of a message besides its role and content, in their order.\<close>

record llm_message =
  lm_role :: message_role
  lm_content :: js_string
  lm_fields :: "(js_string \<times> js_value) list"

fun role_name :: "message_role \<Rightarrow> js_string" where
  "role_name RoleSystem = js ''system''"
| "role_name RoleUser = js ''user''"
| "role_name RoleAssistant = js ''assistant''"
| "role_name RoleTool = js ''tool''"

definition message_json :: "llm_message \<Rightarrow> js_value" where
  "message_json m = JObject ([(js ''role'', JString (role_name (lm_role m))), (js ''content'', JString (lm_content m))]
     @ lm_fields m)"

definition message_bytes :: "llm_message \<Rightarrow> int" where
  "message_bytes m = utf8_length (json_text (message_json m))"

definition plain_message :: "message_role \<Rightarrow> js_string \<Rightarrow> llm_message" where
  "plain_message r s = \<lparr>lm_role = r, lm_content = s, lm_fields = []\<rparr>"

section \<open>Variables in the instructions\<close>

definition is_key_char :: "16 word \<Rightarrow> bool" where
  "is_key_char u \<longleftrightarrow> 65 \<le> unat u \<and> unat u \<le> 90 \<or> 97 \<le> unat u \<and> unat u \<le> 122 \<or> 48 \<le> unat u \<and> unat u \<le> 57
     \<or> u = 95 \<or> u = 46 \<or> u = 45"

text \<open>
  A match of the placeholder pattern at the start of the text: its key and what follows it. The parts
  of the pattern have no character in common, so that its first match is its only one.
\<close>

definition match_placeholder :: "js_string \<Rightarrow> (js_string \<times> js_string) option" where
  "match_placeholder s =
     (case s of
        a # b # t \<Rightarrow>
          if a = 123 \<and> b = 123 then
            let u = dropWhile is_js_space t; key = takeWhile is_key_char u;
                v = dropWhile is_js_space (dropWhile is_key_char u) in
            (case v of
               c # d # rest \<Rightarrow> if key \<noteq> [] \<and> c = 125 \<and> d = 125 then Some (key, rest) else None
             | _ \<Rightarrow> None)
          else None
      | _ \<Rightarrow> None)"

lemma match_placeholder_shorter:
  assumes "match_placeholder s = Some (key, rest)"
  shows "length rest < length s"
proof -
  obtain a b t c d where s: "s = a # b # t"
    and v: "dropWhile is_js_space (dropWhile is_key_char (dropWhile is_js_space t)) = c # d # rest"
    using assms by (auto simp: match_placeholder_def Let_def split: list.splits if_splits)
  have "length (c # d # rest) \<le> length t"
    unfolding v [symmetric] by (meson length_dropWhile_le order_trans)
  then show ?thesis using s by simp
qed

function substitute_variables :: "js_string \<Rightarrow> (js_string \<times> js_string) list \<Rightarrow> js_string" where
  "substitute_variables s vars =
     (case match_placeholder s of
        Some (key, rest) \<Rightarrow>
          (case map_of vars key of Some v \<Rightarrow> v | None \<Rightarrow> take (length s - length rest) s)
          @ substitute_variables rest vars
      | None \<Rightarrow> (case s of [] \<Rightarrow> [] | u # us \<Rightarrow> u # substitute_variables us vars))"
  by pat_completeness auto
termination by (relation "measure (\<lambda>(s, vars). length s)") (auto dest: match_placeholder_shorter)

declare substitute_variables.simps [simp del]

section \<open>State\<close>

record conversation_policy =
  cp_history :: "llm_message list"
  cp_pre_call :: "js_value option pre_call_context option"
  cp_base :: js_string
  cp_override :: "js_string option"
  cp_turn :: "js_string option"
  cp_variables :: "(js_string \<times> js_string) list"
  cp_buffer :: js_string
  cp_max_bytes :: int
  cp_max_messages :: int
  cp_max_pre_call :: int
  cp_tools :: "js_string list"

record context_policy =
  xp_max_bytes :: "int option"
  xp_max_messages :: "int option"
  xp_max_pre_call :: "int option"

definition positive_budget :: "int \<Rightarrow> int \<Rightarrow> int result" where
  "positive_budget v minimum =
     (if \<not> is_safe_integer v \<or> v < minimum then Inl (TvicThrowableError (js ''llm.invalid_context_policy'')) else Inr v)"

definition or_else :: "'a option \<Rightarrow> 'a option \<Rightarrow> 'a \<Rightarrow> 'a" where
  "or_else a b d = (case a of Some x \<Rightarrow> x | None \<Rightarrow> (case b of Some y \<Rightarrow> y | None \<Rightarrow> d))"

definition variables_block :: "(js_string \<times> js_string) list \<Rightarrow> js_string" where
  "variables_block vars = join newline
     ([js ''<variables>''] @ map (\<lambda>(k, v). js ''  '' @ k @ js '' = '' @ v) vars @ [js ''</variables>''])"

definition render_system_instruction :: "(js_string \<Rightarrow> rat) \<Rightarrow> conversation_policy \<Rightarrow> js_string result" where
  "render_system_instruction coll st =
     (let instruction = or_else (cp_turn st) (cp_override st) (cp_base st);
          blocks = [substitute_variables instruction (cp_variables st)]
            @ (if cp_variables st = [] then [] else [variables_block (cp_variables st)]) in
      case cp_pre_call st of
        None \<Rightarrow> Inr (join (newline @ newline) blocks)
      | Some ctx \<Rightarrow> rbind (format_pre_call_context coll ctx (cp_max_pre_call st)) (\<lambda>text.
          Inr (join (newline @ newline) (blocks @ [text]))))"

section \<open>The window over the history\<close>

text \<open>The loop of \<open>#buildRequest\<close> and \<open>#trimHistory\<close>, which differ only in where they stop.\<close>

function retain_loop ::
    "int \<Rightarrow> int \<Rightarrow> llm_message list \<Rightarrow> int \<Rightarrow> int \<Rightarrow> int \<Rightarrow> int \<Rightarrow> llm_message list \<Rightarrow> llm_message list" where
  "retain_loop max_bytes max_messages history first index bytes messages retained =
     (if index < first then retained
      else
        let pair = take 2 (drop (nat index) history) in
        if length pair \<noteq> 2 then retain_loop max_bytes max_messages history first (index - 2) bytes messages retained
        else
          let pair_bytes = message_bytes (pair ! 0) + message_bytes (pair ! 1) in
          if max_messages < messages + int (length pair) \<or> max_bytes < bytes + pair_bytes then retained
          else retain_loop max_bytes max_messages history first (index - 2) (bytes + pair_bytes)
                 (messages + int (length pair)) (pair @ retained))"
  by pat_completeness auto
termination
  by (relation "measure (\<lambda>(mb, mm, h, first, index, b, m, r). nat (index - first + 1))") auto

declare retain_loop.simps [simp del]

definition trim_history :: "conversation_policy \<Rightarrow> conversation_policy" where
  "trim_history st =
     (case cp_history st of
        [] \<Rightarrow> st
      | system # _ \<Rightarrow> st\<lparr>cp_history := system # retain_loop (cp_max_bytes st) (cp_max_messages st) (cp_history st) 1
          (int (length (cp_history st)) - 2) (message_bytes system) 1 []\<rparr>)"

definition build_request ::
    "llm_message \<Rightarrow> llm_message list \<Rightarrow> llm_message list \<Rightarrow> conversation_policy \<Rightarrow> llm_message list result" where
  "build_request current history active st =
     (case cp_history st of
        [] \<Rightarrow> Inl (TvicThrowableError (js ''llm.context_limit''))
      | system # _ \<Rightarrow>
          let required = system # current # active; required_bytes = sum_list (map message_bytes required) in
          if cp_max_messages st < int (length required) \<or> cp_max_bytes st < required_bytes
          then Inl (TvicThrowableError (js ''llm.context_limit''))
          else Inr (system # retain_loop (cp_max_bytes st) (cp_max_messages st) history 0 (int (length history) - 2)
                 required_bytes (int (length required)) [] @ current # active))"

section \<open>Operations\<close>

definition new_conversation ::
    "(js_string \<Rightarrow> rat) \<Rightarrow> js_string \<Rightarrow> js_string list \<Rightarrow> context_policy \<Rightarrow> context_policy
      \<Rightarrow> js_value option pre_call_context option \<Rightarrow> conversation_policy result" where
  "new_conversation coll instructions tools policy options ctx =
     rbind (positive_budget (or_else (xp_max_bytes options) (xp_max_bytes policy) 32768) 1) (\<lambda>max_bytes.
     rbind (positive_budget (or_else (xp_max_messages options) (xp_max_messages policy) 32) 2) (\<lambda>max_messages.
     rbind (positive_budget (or_else (xp_max_pre_call options) (xp_max_pre_call policy) 16384) 1) (\<lambda>max_pre_call.
       let st = \<lparr>cp_history = [], cp_pre_call = ctx, cp_base = instructions, cp_override = None, cp_turn = None,
                 cp_variables = [], cp_buffer = [], cp_max_bytes = max_bytes, cp_max_messages = max_messages,
                 cp_max_pre_call = max_pre_call, cp_tools = tools\<rparr> in
       rbind (render_system_instruction coll st) (\<lambda>text.
         Inr (trim_history (st\<lparr>cp_history := cp_history st @ [plain_message RoleSystem text]\<rparr>))))))"

definition refresh_system :: "(js_string \<Rightarrow> rat) \<Rightarrow> conversation_policy \<Rightarrow> unit result \<times> conversation_policy" where
  "refresh_system coll st =
     (case render_system_instruction coll st of
        Inl e \<Rightarrow> (Inl e, st)
      | Inr text \<Rightarrow> (Inr (), trim_history (st\<lparr>cp_history :=
          (if cp_history st = [] then [plain_message RoleSystem text]
           else (cp_history st)[0 := plain_message RoleSystem text])\<rparr>)))"

definition replace_system_instruction ::
    "(js_string \<Rightarrow> rat) \<Rightarrow> js_string \<Rightarrow> conversation_policy \<Rightarrow> unit result \<times> conversation_policy" where
  "replace_system_instruction coll instruction st =
     refresh_system coll (st\<lparr>cp_override := Some instruction, cp_turn := None\<rparr>)"

definition set_turn_instruction ::
    "(js_string \<Rightarrow> rat) \<Rightarrow> js_string option \<Rightarrow> conversation_policy \<Rightarrow> unit result \<times> conversation_policy" where
  "set_turn_instruction coll instruction st = refresh_system coll (st\<lparr>cp_turn := instruction\<rparr>)"

definition set_static_variables ::
    "(js_string \<Rightarrow> rat) \<Rightarrow> (js_string \<times> js_string) list \<Rightarrow> conversation_policy \<Rightarrow> unit result \<times> conversation_policy" where
  "set_static_variables coll vars st = refresh_system coll (st\<lparr>cp_variables := vars\<rparr>)"

definition record_turn :: "js_string \<Rightarrow> js_string \<Rightarrow> conversation_policy \<Rightarrow> conversation_policy" where
  "record_turn transcript text st =
     trim_history (st\<lparr>cp_history := cp_history st @ [plain_message RoleUser transcript, plain_message RoleAssistant text]\<rparr>)"

definition interrupted_text :: "js_string \<Rightarrow> js_string" where
  "interrupted_text text =
     (if text = [] then js ''[Response interrupted before completion.]''
      else js ''[Response interrupted before completion; some of this may not have been heard.] '' @ text)"

definition record_interrupted_turn :: "js_string \<Rightarrow> js_string \<Rightarrow> conversation_policy \<Rightarrow> conversation_policy" where
  "record_interrupted_turn transcript text st =
     trim_history (st\<lparr>cp_history := cp_history st
       @ [plain_message RoleUser transcript, plain_message RoleAssistant (interrupted_text text)]\<rparr>)"

record past_turn =
  pt_sequence :: int
  pt_id :: js_string
  pt_status :: js_string
  pt_transcript :: "js_string option"
  pt_text :: "js_string option"

definition hydrate_turn :: "past_turn \<Rightarrow> conversation_policy \<Rightarrow> conversation_policy" where
  "hydrate_turn t st =
     (case pt_transcript t of
        None \<Rightarrow> st
      | Some transcript \<Rightarrow>
          let text = (case pt_text t of None \<Rightarrow> [] | Some s \<Rightarrow> s) in
          if transcript = [] then st
          else if pt_status t = js ''completed'' then record_turn transcript text st
          else if pt_status t = js ''cancelled'' \<or> pt_status t = js ''interrupted''
          then record_interrupted_turn transcript text st
          else st)"

definition hydrate_turns :: "(js_string \<Rightarrow> rat) \<Rightarrow> past_turn list \<Rightarrow> conversation_policy \<Rightarrow> conversation_policy" where
  "hydrate_turns coll ts st = fold hydrate_turn (sort_key (\<lambda>t. (pt_sequence t, coll (pt_id t))) ts) st"

datatype transcript_event = SttPartial js_string | SttFinal js_string | SttEndpoint | SttSpeechStarted

definition flush_buffered_transcript :: "conversation_policy \<Rightarrow> js_string option \<times> conversation_policy" where
  "flush_buffered_transcript st =
     ((if cp_buffer st = [] then None else Some (cp_buffer st)), st\<lparr>cp_buffer := []\<rparr>)"

fun accept_transcript :: "transcript_event \<Rightarrow> conversation_policy \<Rightarrow> js_string option \<times> conversation_policy" where
  "accept_transcript SttEndpoint st = flush_buffered_transcript st"
| "accept_transcript SttSpeechStarted st = (None, st)"
| "accept_transcript (SttPartial text) st = (None, st)"
| "accept_transcript (SttFinal text) st = (None, st\<lparr>cp_buffer := trim (cp_buffer st @ [32] @ text)\<rparr>)"

definition has_buffered_transcript :: "conversation_policy \<Rightarrow> bool" where
  "has_buffered_transcript st \<longleftrightarrow> 0 < length (cp_buffer st)"

definition messages_for_transcript :: "js_string \<Rightarrow> conversation_policy \<Rightarrow> llm_message list result" where
  "messages_for_transcript transcript st =
     build_request (plain_message RoleUser transcript) (drop 1 (cp_history st)) [] st"

definition assistant_calls :: "js_string \<Rightarrow> js_value list \<Rightarrow> llm_message" where
  "assistant_calls text calls =
     (plain_message RoleAssistant text)\<lparr>lm_fields := (if calls = [] then [] else [(js ''toolCalls'', JArray calls)])\<rparr>"

definition messages_for_tool_continuation ::
    "llm_message list \<Rightarrow> js_string \<Rightarrow> llm_message list \<Rightarrow> js_value list \<Rightarrow> conversation_policy
      \<Rightarrow> llm_message list result" where
  "messages_for_tool_continuation messages text tool_messages calls st =
     (if messages = [] \<or> lm_role (hd messages) \<noteq> RoleSystem \<or> lm_role (last messages) \<noteq> RoleUser
      then Inl (TvicThrowableError (js ''llm.context_limit''))
      else build_request (last messages) (butlast (tl messages)) (assistant_calls text calls # tool_messages) st)"

definition find_tool :: "js_string \<Rightarrow> conversation_policy \<Rightarrow> js_string option" where
  "find_tool name st = find (\<lambda>t. t = name) (cp_tools st)"

section \<open>Windows of exchanges\<close>

text \<open>The exchanges that fit a budget, from the newest one back; the list has the newest first.\<close>

type_synonym exchange = "llm_message \<times> llm_message"

fun exchange_bytes :: "exchange \<Rightarrow> int" where
  "exchange_bytes (u, a) = message_bytes u + message_bytes a"

fun flat :: "exchange list \<Rightarrow> llm_message list" where
  "flat [] = []"
| "flat ((u, a) # ps) = u # a # flat ps"

fun window :: "int \<Rightarrow> int \<Rightarrow> exchange list \<Rightarrow> exchange list" where
  "window bytes messages [] = []"
| "window bytes messages (p # ps) =
     (if messages < 2 \<or> bytes < exchange_bytes p then []
      else p # window (bytes - exchange_bytes p) (messages - 2) ps)"

lemma message_bytes_nonneg: "0 \<le> message_bytes m"
  by (simp add: message_bytes_def utf8_length_nonneg)

lemma exchange_bytes_nonneg: "0 \<le> exchange_bytes p"
  by (cases p) (simp add: message_bytes_nonneg)

lemma flat_append [simp]: "flat (ps @ qs) = flat ps @ flat qs"
  by (induction ps rule: flat.induct) simp_all

lemma length_flat [simp]: "length (flat ps) = 2 * length ps"
  by (induction ps rule: flat.induct) simp_all

lemma sum_flat: "sum_list (map message_bytes (flat ps)) = sum_list (map exchange_bytes ps)"
  by (induction ps rule: flat.induct) simp_all

lemma flat_onto: "even (length ms) \<Longrightarrow> \<exists>ps. ms = flat ps"
proof (induction ms rule: induct_list012)
  case 1
  then show ?case by (intro exI [of _ "[]"]) simp
next
  case (3 a b ms)
  then obtain ps where "ms = flat ps" by auto
  then show ?case by (intro exI [of _ "(a, b) # ps"]) simp
qed simp

text \<open>A window within a window: what did not fit the larger budget does not fit the smaller.\<close>

lemma window_window:
  "b \<le> b' \<Longrightarrow> n \<le> n' \<Longrightarrow> window b n (window b' n' ps) = window b n ps"
  by (induction ps arbitrary: b b' n n') (auto simp: not_less)

lemma window_Cons_window: "window b n (p # window b n ps) = window b n (p # ps)"
  using exchange_bytes_nonneg [of p] by (auto intro: window_window)

lemma window_longest:
  "\<exists>k \<le> length ps. window b n ps = take k ps
     \<and> (0 \<le> b \<and> 0 \<le> n \<longrightarrow> 2 * int k \<le> n \<and> sum_list (map exchange_bytes (take k ps)) \<le> b)
     \<and> (\<forall>j. k < j \<and> j \<le> length ps \<longrightarrow> n < 2 * int j \<or> b < sum_list (map exchange_bytes (take j ps)))"
proof (induction b n ps rule: window.induct)
  case (2 b n p ps)
  have sum: "exchange_bytes p \<le> sum_list (map exchange_bytes (take j (p # ps)))" if "0 < j" for j
  proof -
    have "0 \<le> sum_list (map exchange_bytes (take (j - 1) ps))"
      by (intro sum_list_nonneg) (auto simp: message_bytes_nonneg)
    then show ?thesis using that by (cases j) simp_all
  qed
  show ?case
  proof (cases "n < 2 \<or> b < exchange_bytes p")
    case True
    have "n < 2 * int j \<or> b < sum_list (map exchange_bytes (take j (p # ps)))" if "0 < j" for j
      using sum [OF that] True that by fastforce
    then show ?thesis using True by (intro exI [of _ 0]) auto
  next
    case False
    from 2 [OF False] obtain k where k: "k \<le> length ps" "window (b - exchange_bytes p) (n - 2) ps = take k ps"
      "0 \<le> b - exchange_bytes p \<and> 0 \<le> n - 2 \<longrightarrow> 2 * int k \<le> n - 2 \<and> sum_list (map exchange_bytes (take k ps)) \<le> b - exchange_bytes p"
      "\<And>j. k < j \<Longrightarrow> j \<le> length ps \<Longrightarrow> n - 2 < 2 * int j \<or> b - exchange_bytes p < sum_list (map exchange_bytes (take j ps))"
      by blast
    have "n < 2 * int j \<or> b < sum_list (map exchange_bytes (take j (p # ps)))" if "Suc k < j" "j \<le> Suc (length ps)" for j
      using k(4) [of "j - 1"] that by (cases j) auto
    then show ?thesis using False k(1-3) by (intro exI [of _ "Suc k"]) auto
  qed
qed simp

section \<open>The loop computes the window\<close>

lemma retain_loop_window:
  assumes "first \<le> int (length pre)" and "int (length pre) < first + 2"
  shows "retain_loop max_bytes max_messages (pre @ flat ps @ rest) first (int (length pre + 2 * length ps) - 2) bytes messages retained
    = flat (rev (window (max_bytes - bytes) (max_messages - messages) (rev ps))) @ retained"
proof (induction ps arbitrary: rest bytes messages retained rule: rev_induct)
  case Nil
  then show ?case using assms by (simp add: retain_loop.simps)
next
  case (snoc p ps)
  obtain u a where p: "p = (u, a)" by (cases p)
  let ?i = "length pre + 2 * length ps"
  have index: "int (length pre + 2 * length (ps @ [p])) - 2 = int ?i" by simp
  have pair: "take 2 (drop (nat (int ?i)) (pre @ flat (ps @ [p]) @ rest)) = [u, a]" by (simp add: p)
  have "\<not> int ?i < first" using assms(1) by simp
  then have "retain_loop max_bytes max_messages (pre @ flat (ps @ [p]) @ rest) first (int ?i) bytes messages retained =
    (if max_messages < messages + 2 \<or> max_bytes < bytes + exchange_bytes p then retained
     else retain_loop max_bytes max_messages (pre @ flat (ps @ [p]) @ rest) first (int ?i - 2) (bytes + exchange_bytes p)
            (messages + 2) ([u, a] @ retained))"
    by (subst retain_loop.simps) (simp only: pair Let_def, simp add: p)
  moreover have "pre @ flat (ps @ [p]) @ rest = pre @ flat ps @ u # a # rest" by (simp add: p)
  ultimately show ?case
    unfolding index using snoc [of "u # a # rest" "bytes + exchange_bytes p" "messages + 2" "[u, a] @ retained"]
    by (auto simp: p algebra_simps)
qed


section \<open>Requests\<close>

text \<open>
  The request in terms of the exchanges of the history: a history of odd length, which the operations
  never build, has a message in front that no exchange contains.
\<close>

lemma history_exchanges:
  obtains pre ps where "history = pre @ flat ps" and "length pre = length history mod 2" and "length ps = length history div 2"
proof -
  have "even (length (drop (length history mod 2) history))"
    using odd_two_times_div_two_succ by (cases "even (length history)") auto
  then obtain ps where ps: "drop (length history mod 2) history = flat ps" using flat_onto by blast
  then have h: "history = take (length history mod 2) history @ flat ps" by (metis append_take_drop_id)
  have n: "2 * length ps = length history - length history mod 2" using ps by (metis length_drop length_flat)
  have "length history mod 2 \<le> length history" by (rule mod_less_eq_dividend)
  then show thesis using that [OF h] n by (simp add: min_def)
qed

lemma retain_window:
  assumes "length pre \<le> 1"
  shows "retain_loop max_bytes max_messages (pre @ flat ps) 0 (int (length (pre @ flat ps)) - 2) bytes messages []
    = flat (rev (window (max_bytes - bytes) (max_messages - messages) (rev ps)))"
  using retain_loop_window [of 0 pre max_bytes max_messages ps "[]" bytes messages "[]"] assms by simp

lemma trim_history_window:
  assumes "cp_history st = system # flat ps"
  shows "trim_history st = st\<lparr>cp_history := system # flat (rev (window (cp_max_bytes st - message_bytes system)
    (cp_max_messages st - 1) (rev ps)))\<rparr>"
  using retain_loop_window [of 1 "[system]" "cp_max_bytes st" "cp_max_messages st" ps "[]" "message_bytes system" 1 "[]"]
  by (simp add: trim_history_def assms)

lemma build_request_window:
  assumes "cp_history st = system # h" and "length pre \<le> 1"
  shows "build_request current (pre @ flat ps) active st =
    (let required = system # current # active in
     if cp_max_messages st < int (length required) \<or> cp_max_bytes st < sum_list (map message_bytes required)
     then Inl (TvicThrowableError (js ''llm.context_limit''))
     else Inr (system # flat (rev (window (cp_max_bytes st - sum_list (map message_bytes required))
       (cp_max_messages st - int (length required)) (rev ps))) @ current # active))"
  unfolding build_request_def retain_window [OF assms(2)] by (simp add: assms(1) Let_def)

lemma flat_rev_take: "k \<le> length ps \<Longrightarrow> flat (rev (take k (rev ps))) = drop (2 * (length ps - k)) (flat ps)"
proof -
  assume k: "k \<le> length ps"
  have "flat ps = flat (take (length ps - k) ps) @ flat (drop (length ps - k) ps)"
    unfolding flat_append [symmetric] by simp
  then have "drop (2 * (length ps - k)) (flat ps) = flat (drop (length ps - k) ps)"
    using k by (metis append_eq_conv_conj length_flat length_take min.absorb2 diff_le_self)
  then show ?thesis using k by (simp add: rev_take)
qed

definition recent :: "nat \<Rightarrow> llm_message list \<Rightarrow> llm_message list" where
  "recent k history = drop (length history - 2 * k) history"

definition within_budget :: "conversation_policy \<Rightarrow> llm_message list \<Rightarrow> bool" where
  "within_budget st ms \<longleftrightarrow> int (length ms) \<le> cp_max_messages st \<and> sum_list (map message_bytes ms) \<le> cp_max_bytes st"

text \<open>
  Property C24: a request is refused exactly when the system message, the current message and the
  active ones alone exceed a budget. Otherwise it keeps both budgets and consists of the system
  message, the longest run of the most recent exchanges that fits, and the current and active messages.
\<close>

theorem request_fits_and_is_longest:
  assumes "cp_history st = system # h"
  shows "if within_budget st (system # current # active)
    then \<exists>k. 2 * k \<le> length history
      \<and> build_request current history active st = Inr (system # recent k history @ current # active)
      \<and> within_budget st (system # recent k history @ current # active)
      \<and> (\<forall>j. k < j \<and> 2 * j \<le> length history \<longrightarrow> \<not> within_budget st (system # recent j history @ current # active))
    else build_request current history active st = Inl (TvicThrowableError (js ''llm.context_limit''))"
proof -
  let ?required = "system # current # active"
  let ?b = "cp_max_bytes st - sum_list (map message_bytes ?required)" and ?n = "cp_max_messages st - int (length ?required)"
  obtain pre ps where h: "history = pre @ flat ps" "length pre = length history mod 2" "length ps = length history div 2"
    by (rule history_exchanges)
  have "length pre \<le> 1" using h(2) by simp
  note request = build_request_window [OF assms(1) this, of current ps active, folded h(1)]
  obtain k where k: "k \<le> length ps" "window ?b ?n (rev ps) = take k (rev ps)"
    "0 \<le> ?b \<and> 0 \<le> ?n \<longrightarrow> 2 * int k \<le> ?n \<and> sum_list (map exchange_bytes (take k (rev ps))) \<le> ?b"
    "\<And>j. k < j \<Longrightarrow> j \<le> length ps \<Longrightarrow> ?n < 2 * int j \<or> ?b < sum_list (map exchange_bytes (take j (rev ps)))"
    using window_longest [of "rev ps" ?b ?n] by auto
  have tail: "recent j history = flat (rev (take j (rev ps)))" if "j \<le> length ps" for j
  proof -
    have "length history - 2 * j = length pre + 2 * (length ps - j)" using that by (simp add: h(1))
    then show ?thesis unfolding recent_def flat_rev_take [OF that] by (simp only: h(1) drop_append) simp
  qed
  have sum_tail: "sum_list (map message_bytes (recent j history)) = sum_list (map exchange_bytes (take j (rev ps)))"
    and len_tail: "length (recent j history) = 2 * j" if "j \<le> length ps" for j
    using that by (simp_all add: tail sum_flat rev_map [symmetric] sum_list_rev)
  have fits: "within_budget st (system # recent j history @ current # active) \<longleftrightarrow>
      2 * int j \<le> ?n \<and> sum_list (map exchange_bytes (take j (rev ps))) \<le> ?b" if "j \<le> length ps" for j
    using that by (auto simp: within_budget_def sum_tail len_tail)
  show ?thesis
  proof (cases "within_budget st ?required")
    case False
    then show ?thesis using request by (auto simp: within_budget_def Let_def not_le)
  next
    case True
    have "build_request current history active st = Inr (system # recent k history @ current # active)"
      using request True k(1,2) by (auto simp: within_budget_def tail Let_def)
    moreover have "within_budget st (system # recent k history @ current # active)"
      using fits [OF k(1)] k(3) True by (auto simp: within_budget_def)
    moreover have "\<not> within_budget st (system # recent j history @ current # active)" if "k < j" "2 * j \<le> length history" for j
    proof -
      have "j \<le> length ps" using that(2) h(3) by simp
      then show ?thesis using fits k(4) [OF that(1)] by fastforce
    qed
    ultimately show ?thesis using k(1) h(3) True by (auto intro!: exI [of _ k])
  qed
qed

section \<open>Trimming is invisible\<close>

datatype spoken = Completed js_string js_string | Interrupted js_string js_string

fun record_spoken :: "spoken \<Rightarrow> conversation_policy \<Rightarrow> conversation_policy" where
  "record_spoken (Completed t a) st = record_turn t a st"
| "record_spoken (Interrupted t a) st = record_interrupted_turn t a st"

fun spoken_exchange :: "spoken \<Rightarrow> exchange" where
  "spoken_exchange (Completed t a) = (plain_message RoleUser t, plain_message RoleAssistant a)"
| "spoken_exchange (Interrupted t a) = (plain_message RoleUser t, plain_message RoleAssistant (interrupted_text a))"

lemma record_spoken_trim:
  "record_spoken s st = trim_history (st\<lparr>cp_history := cp_history st @ flat [spoken_exchange s]\<rparr>)"
  by (cases s) (simp_all add: record_turn_def record_interrupted_turn_def)

lemma record_all:
  assumes "cp_history st = [system]"
  shows "fold record_spoken ss st = st\<lparr>cp_history := system # flat (rev (window (cp_max_bytes st - message_bytes system)
    (cp_max_messages st - 1) (rev (map spoken_exchange ss))))\<rparr>"
proof (induction ss rule: rev_induct)
  case Nil
  then show ?case using assms by (cases st) simp
next
  case (snoc s ss)
  let ?w = "window (cp_max_bytes st - message_bytes system) (cp_max_messages st - 1)"
  let ?ps = "rev (map spoken_exchange ss)"
  have "fold record_spoken (ss @ [s]) st
      = trim_history (st\<lparr>cp_history := system # flat (rev (spoken_exchange s # ?w ?ps))\<rparr>)"
    by (simp add: snoc record_spoken_trim)
  also have "\<dots> = st\<lparr>cp_history := system # flat (rev (?w (spoken_exchange s # ?ps)))\<rparr>"
    using trim_history_window [of "st\<lparr>cp_history := system # flat (rev (spoken_exchange s # ?w ?ps))\<rparr>" system
        "rev (spoken_exchange s # ?w ?ps)"] by (simp add: window_Cons_window del: window.simps)
  finally show ?case by simp
qed

text \<open>
  Property C23: the history the policy has dropped could not have been sent anyway. While the system
  message stays, every request for a transcript, and every continuation of such a request after tool
  calls, is the one that would be built from the complete conversation since the start of the call.
\<close>

theorem trimming_is_invisible:
  assumes "cp_history st = [system]" and "lm_role system = RoleSystem" and "st' = fold record_spoken ss st"
  shows "messages_for_transcript t st' = build_request (plain_message RoleUser t) (flat (map spoken_exchange ss)) [] st
    \<and> (\<forall>ms. messages_for_transcript t st' = Inr ms \<longrightarrow>
        messages_for_tool_continuation ms text tools calls st'
          = build_request (plain_message RoleUser t) (flat (map spoken_exchange ss)) (assistant_calls text calls # tools) st)"
proof -
  let ?ps = "map spoken_exchange ss" and ?user = "plain_message RoleUser t"
  let ?kept = "rev (window (cp_max_bytes st - message_bytes system) (cp_max_messages st - 1) (rev ?ps))"
  have st': "st' = st\<lparr>cp_history := system # flat ?kept\<rparr>" using record_all [OF assms(1)] assms(3) by simp
  have sum: "0 \<le> sum_list (map message_bytes ms)" for ms
    by (intro sum_list_nonneg) (auto simp: message_bytes_nonneg)
  have request: "build_request ?user (flat (rev (window b n (rev ?ps)))) active st' = build_request ?user (flat ?ps) active st"
    if "cp_max_bytes st - sum_list (map message_bytes (system # ?user # active)) \<le> b"
      "cp_max_messages st - int (length (system # ?user # active)) \<le> n" for b n active
    using build_request_window [of st' system "flat ?kept" "[]" ?user "rev (window b n (rev ?ps))" active]
      build_request_window [OF assms(1), of "[]" ?user ?ps active] window_window [OF that, of "rev ?ps"]
    by (simp add: st' Let_def)
  have first: "messages_for_transcript t st' = build_request ?user (flat ?ps) [] st"
    using request [where b = "cp_max_bytes st - message_bytes system" and n = "cp_max_messages st - 1" and active = "[]"] message_bytes_nonneg [of ?user]
    by (simp add: messages_for_transcript_def st')
  moreover have "messages_for_tool_continuation ms text tools calls st'
      = build_request ?user (flat ?ps) (assistant_calls text calls # tools) st"
    if ms: "messages_for_transcript t st' = Inr ms" for ms
  proof -
    define b n where "b = cp_max_bytes st - sum_list (map message_bytes [system, ?user])" and "n = cp_max_messages st - 2"
    have "ms = system # flat (rev (window b n (rev ?ps))) @ [?user]"
      using ms [unfolded first] build_request_window [OF assms(1), of "[]" ?user ?ps "[]"]
      by (simp add: Let_def b_def n_def split: if_splits)
    then have "messages_for_tool_continuation ms text tools calls st'
        = build_request ?user (flat (rev (window b n (rev ?ps)))) (assistant_calls text calls # tools) st'"
      using assms(2) by (simp add: messages_for_tool_continuation_def plain_message_def)
    also have "\<dots> = build_request ?user (flat ?ps) (assistant_calls text calls # tools) st"
      using sum [of tools] message_bytes_nonneg [of "assistant_calls text calls"]
      by (intro request) (simp_all add: b_def n_def)
    finally show ?thesis .
  qed
  ultimately show ?thesis by blast
qed

section \<open>A short conversation\<close>

definition sample_policy :: conversation_policy where
  "sample_policy = \<lparr>cp_history = [plain_message RoleSystem (js ''s'')], cp_pre_call = None, cp_base = js ''s'',
     cp_override = None, cp_turn = None, cp_variables = [], cp_buffer = [], cp_max_bytes = 400, cp_max_messages = 4,
     cp_max_pre_call = 100, cp_tools = []\<rparr>"

definition sample_exchange :: exchange where
  "sample_exchange = (plain_message RoleUser (js ''a''), plain_message RoleAssistant (js ''b''))"

lemma sample_message_bytes:
  "message_bytes (plain_message RoleSystem (js ''s'')) = 31"
  "message_bytes (plain_message RoleUser (js ''a'')) = 29"
  "message_bytes (plain_message RoleAssistant (js ''b'')) = 34"
  by code_simp+

theorem request_fits_and_is_longest_witness:
  "build_request (plain_message RoleUser (js ''a'')) (flat [sample_exchange, sample_exchange]) [] sample_policy
    = Inr (plain_message RoleSystem (js ''s'') # recent 1 (flat [sample_exchange, sample_exchange])
        @ [plain_message RoleUser (js ''a'')])"
proof -
  let ?h = "flat [sample_exchange, sample_exchange]" and ?s = "plain_message RoleSystem (js ''s'')"
    and ?u = "plain_message RoleUser (js ''a'')"
  have hist: "cp_history sample_policy = ?s # []" by (simp add: sample_policy_def)
  have fits: "within_budget sample_policy (?s # recent k ?h @ ?u # []) \<longleftrightarrow> k \<le> 1" if "2 * k \<le> 4" for k
  proof -
    from that consider "k = 0" | "k = 1" | "k = 2" by linarith
    then show ?thesis
      by cases (simp_all add: within_budget_def recent_def sample_policy_def sample_exchange_def sample_message_bytes)
  qed
  have "within_budget sample_policy (?s # ?u # [])"
    by (simp add: within_budget_def sample_policy_def sample_message_bytes)
  with request_fits_and_is_longest [OF hist, of ?u "[]" ?h]
  obtain k where k: "2 * k \<le> 4" "build_request ?u ?h [] sample_policy = Inr (?s # recent k ?h @ ?u # [])"
      "within_budget sample_policy (?s # recent k ?h @ ?u # [])"
      "\<forall>j. k < j \<and> 2 * j \<le> 4 \<longrightarrow> \<not> within_budget sample_policy (?s # recent j ?h @ ?u # [])"
    by auto
  have "\<not> k < 1" using k(4) fits [of 1] by auto
  then have "k = 1" using fits [OF k(1)] k(3) by simp
  then show ?thesis using k(2) by simp
qed

theorem trimming_is_invisible_witness:
  "messages_for_transcript (js ''a'') (fold record_spoken (replicate 9 (Completed (js ''a'') (js ''b''))) sample_policy)
    = build_request (plain_message RoleUser (js ''a''))
        (flat (map spoken_exchange (replicate 9 (Completed (js ''a'') (js ''b''))))) [] sample_policy"
proof -
  have "cp_history sample_policy = [plain_message RoleSystem (js ''s'')]"
    and "lm_role (plain_message RoleSystem (js ''s'')) = RoleSystem"
    by (simp_all add: sample_policy_def plain_message_def)
  from trimming_is_invisible [OF this refl] show ?thesis by blast
qed

end
