(* ===== verification/Schema_Validation.thy ===== *)
theory Schema_Validation
  imports Json_Text Numbers
begin

text \<open>
  The validator of tool inputs and outputs, tools/src/schema-validation.ts. Values and schemas are
  plain JSON data; a schema is the list of its keys with their values, and an object has no key twice.
  The operator \<open>in\<close> and the property access of the source also find what an object inherits from
  \<open>Object.prototype\<close>; the model keeps that. Error messages are lists of strings, in the order in which
  they are pushed.
\<close>

section \<open>Values at run time\<close>

definition number_value :: "bool \<Rightarrow> nat \<Rightarrow> int \<Rightarrow> rat" where
  "number_value negative s n =
     (if negative then -1 else 1) * of_nat s * (if 0 \<le> n - int (length (decimal s)) then 10 ^ nat (n - int (length (decimal s)))
        else 1 / 10 ^ nat (int (length (decimal s)) - n))"

text \<open>The names every object inherits from \<open>Object.prototype\<close>.\<close>

definition prototype_names :: "js_string list" where
  "prototype_names = map js [''constructor'', ''__defineGetter__'', ''__defineSetter__'', ''hasOwnProperty'',
     ''__lookupGetter__'', ''__lookupSetter__'', ''isPrototypeOf'', ''propertyIsEnumerable'', ''toString'', ''valueOf'',
     ''__proto__'', ''toLocaleString'']"

text \<open>
  A value the validator looks at is plain data or, when a key was only inherited, what the prototype
  has under it: \<open>Object.prototype\<close> itself under \<open>__proto__\<close>, a function under the others.
\<close>

datatype subject = Plain js_value | Prototype | Function js_string

datatype js_object = Own "(js_string \<times> js_value) list" | ObjectPrototype

fun own_keys :: "js_object \<Rightarrow> js_string list" where
  "own_keys (Own kvs) = map fst kvs"
| "own_keys ObjectPrototype = []"

fun has_key :: "js_string \<Rightarrow> js_object \<Rightarrow> bool" where
  "has_key k (Own kvs) \<longleftrightarrow> k \<in> set (map fst kvs) \<or> k \<in> set prototype_names"
| "has_key k ObjectPrototype \<longleftrightarrow> k \<in> set prototype_names"

definition inherited :: "js_string \<Rightarrow> subject" where
  "inherited k = (if k = js ''__proto__'' then Prototype else Function k)"

text \<open>The value under a key the object has.\<close>

fun property_of :: "js_string \<Rightarrow> js_object \<Rightarrow> subject" where
  "property_of k (Own kvs) = (case map_of kvs k of Some v \<Rightarrow> Plain v | None \<Rightarrow> inherited k)"
| "property_of k ObjectPrototype = (if k = js ''__proto__'' then Plain JNull else Function k)"

fun type_of :: "subject \<Rightarrow> js_string" where
  "type_of (Plain JNull) = js ''null''"
| "type_of (Plain (JBool b)) = js ''boolean''"
| "type_of (Plain (JNumber negative s n)) = js ''number''"
| "type_of (Plain (JString s)) = js ''string''"
| "type_of (Plain (JArray vs)) = js ''array''"
| "type_of (Plain (JObject kvs)) = js ''object''"
| "type_of Prototype = js ''object''"
| "type_of (Function k) = js ''function''"

fun as_object :: "subject \<Rightarrow> js_object option" where
  "as_object (Plain (JObject kvs)) = Some (Own kvs)"
| "as_object Prototype = Some ObjectPrototype"
| "as_object (Plain JNull) = None"
| "as_object (Plain (JBool b)) = None"
| "as_object (Plain (JNumber negative s n)) = None"
| "as_object (Plain (JString s)) = None"
| "as_object (Plain (JArray vs)) = None"
| "as_object (Function k) = None"

section \<open>deepEqual\<close>

lemma size_map_of: "map_of kvs k = Some v \<Longrightarrow> size v \<le> size_list (size_prod (\<lambda>_. 0) size) kvs"
  using size_list_estimation' [of "(k, v)" kvs "size v" "size_prod (\<lambda>_. 0) size"] map_of_SomeD [of kvs k v] by force

text \<open>A plain value against the prototype: only an object without keys but \<open>__proto__: null\<close> is equal to it.\<close>

definition equals_prototype :: "js_value \<Rightarrow> bool" where
  "equals_prototype v =
     (case v of JObject kvs \<Rightarrow> list_all (\<lambda>(k, x). k = js ''__proto__'' \<and> x = JNull) kvs | _ \<Rightarrow> False)"

text \<open>A key one of two objects has of its own and the other not: \<open>undefined\<close> or inherited.\<close>

definition equals_absent :: "js_string \<Rightarrow> js_value \<Rightarrow> bool" where
  "equals_absent k v \<longleftrightarrow> k = js ''__proto__'' \<and> equals_prototype v"

function deep_equal :: "js_value \<Rightarrow> js_value \<Rightarrow> bool" where
  "deep_equal a b =
     (case (a, b) of
        (JNull, JNull) \<Rightarrow> True
      | (JBool p, JBool q) \<Rightarrow> p = q
      | (JNumber p s n, JNumber q t m) \<Rightarrow> number_value p s n = number_value q t m
      | (JString s, JString t) \<Rightarrow> s = t
      | (JArray xs, JArray ys) \<Rightarrow> length xs = length ys \<and> list_all (\<lambda>(x, y). deep_equal x y) (zip xs ys)
      | (JObject kvs, JObject lvs) \<Rightarrow>
          list_all (\<lambda>k. case map_of kvs k of
              Some x \<Rightarrow> (case map_of lvs k of Some y \<Rightarrow> deep_equal x y | None \<Rightarrow> equals_absent k x)
            | None \<Rightarrow> (case map_of lvs k of Some y \<Rightarrow> equals_absent k y | None \<Rightarrow> True)) (map fst kvs @ map fst lvs)
      | _ \<Rightarrow> False)"
  by pat_completeness auto
termination
  by (relation "measure (size \<circ> fst)")
    (auto simp: size_map_of less_Suc_eq_le size_list_estimation' dest: set_zip_leftD)


section \<open>The validator\<close>

type_synonym schema = "(js_string \<times> js_value) list"

definition get :: "schema \<Rightarrow> string \<Rightarrow> js_value option" where
  "get schema k = map_of schema (js k)"

fun equals_constant :: "subject \<Rightarrow> js_value \<Rightarrow> bool" where
  "equals_constant (Plain v) c = deep_equal v c"
| "equals_constant Prototype c = equals_prototype c"
| "equals_constant (Function k) c = False"

fun option_equals :: "js_value \<Rightarrow> subject \<Rightarrow> bool" where
  "option_equals c (Plain v) = deep_equal c v"
| "option_equals c Prototype = equals_prototype c"
| "option_equals c (Function k) = False"

definition is_integral :: "rat \<Rightarrow> bool" where
  "is_integral x \<longleftrightarrow> x = of_int \<lfloor>x\<rfloor>"

definition matches_type :: "subject \<Rightarrow> js_string \<Rightarrow> bool" where
  "matches_type value expected =
     (if expected = js ''integer''
      then (case value of Plain (JNumber negative s n) \<Rightarrow> is_integral (number_value negative s n) | _ \<Rightarrow> False)
      else expected = type_of value)"

definition const_errors :: "subject \<Rightarrow> schema \<Rightarrow> js_string \<Rightarrow> js_string list" where
  "const_errors value schema path =
     (case get schema ''const'' of
        Some c \<Rightarrow> if equals_constant value c then [] else [path @ js '' must equal '' @ json_text c]
      | None \<Rightarrow> [])"

definition enum_errors :: "subject \<Rightarrow> schema \<Rightarrow> js_string \<Rightarrow> js_string list" where
  "enum_errors value schema path =
     (case get schema ''enum'' of
        Some (JArray options) \<Rightarrow> if list_ex (\<lambda>c. option_equals c value) options then []
          else [path @ js '' must be one of '' @ json_text (JArray options)]
      | _ \<Rightarrow> [])"

definition bound_error :: "schema \<Rightarrow> string \<Rightarrow> (rat \<Rightarrow> bool) \<Rightarrow> js_string \<Rightarrow> js_string \<Rightarrow> js_string list" where
  "bound_error schema keyword violated before after =
     (case get schema keyword of
        Some (JNumber negative s n) \<Rightarrow>
          if violated (number_value negative s n) then [before @ number_text negative s n @ after] else []
      | _ \<Rightarrow> [])"

definition validate_scalar :: "subject \<Rightarrow> js_string \<Rightarrow> schema \<Rightarrow> js_string \<Rightarrow> js_string list" where
  "validate_scalar value expected schema path =
     (case value of
        Plain (JString t) \<Rightarrow>
          if expected = js ''string'' then
            bound_error schema ''minLength'' (\<lambda>m. of_nat (length t) < m) (path @ js '' must have length >= '') []
            @ bound_error schema ''maxLength'' (\<lambda>m. m < of_nat (length t)) (path @ js '' must have length <= '') []
          else []
      | Plain (JNumber negative s n) \<Rightarrow>
          if expected = js ''number'' \<or> expected = js ''integer'' then
            bound_error schema ''minimum'' (\<lambda>m. number_value negative s n < m) (path @ js '' must be >= '') []
            @ bound_error schema ''maximum'' (\<lambda>m. m < number_value negative s n) (path @ js '' must be <= '') []
          else []
      | _ \<Rightarrow> [])"

definition required_keys :: "schema \<Rightarrow> js_string list" where
  "required_keys schema =
     (case get schema ''required'' of
        Some (JArray items) \<Rightarrow> List.map_filter (\<lambda>item. case item of JString k \<Rightarrow> Some k | _ \<Rightarrow> None) items
      | _ \<Rightarrow> [])"

definition required_errors :: "js_object \<Rightarrow> schema \<Rightarrow> js_string \<Rightarrow> js_string list" where
  "required_errors ob schema path =
     concat (map (\<lambda>key. if has_key key ob then [] else [path @ [46] @ key @ js '' is required'']) (required_keys schema))"

definition additional_errors :: "js_object \<Rightarrow> schema \<Rightarrow> js_string \<Rightarrow> js_string list" where
  "additional_errors ob schema path =
     (case (get schema ''additionalProperties'', get schema ''properties'') of
        (Some (JBool False), Some (JObject properties)) \<Rightarrow>
          concat (map (\<lambda>key. if has_key key (Own properties) then []
            else [path @ [46] @ key @ js '' is not an allowed property'']) (own_keys ob))
      | _ \<Rightarrow> [])"

lemma size_get: "get schema k = Some v \<Longrightarrow> size v \<le> size_list (size_prod (\<lambda>_. 0) size) schema"
  by (simp add: get_def size_map_of)

lemma size_entry: "(k, v) \<in> set kvs \<Longrightarrow> size v \<le> size_list (size_prod (\<lambda>_. 0) size) kvs"
  using size_list_estimation' [of "(k, v)" kvs "size v" "size_prod (\<lambda>_. 0) size"] by force

function validate_node :: "subject \<Rightarrow> schema \<Rightarrow> js_string \<Rightarrow> js_string list"
  and validate_object_node :: "subject \<Rightarrow> schema \<Rightarrow> js_string \<Rightarrow> js_string list"
  and validate_array_node :: "subject \<Rightarrow> schema \<Rightarrow> js_string \<Rightarrow> js_string list" where
  "validate_node value schema path =
     const_errors value schema path @ enum_errors value schema path @
     (case get schema ''type'' of
        Some (JString expected) \<Rightarrow>
          if \<not> matches_type value expected
          then [path @ js '' expected '' @ expected @ js '', received '' @ type_of value]
          else if expected = js ''object'' then validate_object_node value schema path
          else if expected = js ''array'' then validate_array_node value schema path
          else validate_scalar value expected schema path
      | _ \<Rightarrow> [])"
| "validate_object_node value schema path =
     (case as_object value of
        None \<Rightarrow> [path @ js '' expected object'']
      | Some ob \<Rightarrow>
          required_errors ob schema path @
          (case get schema ''properties'' of
             Some (JObject properties) \<Rightarrow>
               concat (map (\<lambda>(key, property_schema).
                 case property_schema of
                   JObject s \<Rightarrow> if has_key key ob then validate_node (property_of key ob) s (path @ [46] @ key) else []
                 | _ \<Rightarrow> []) properties)
           | _ \<Rightarrow> []) @
          additional_errors ob schema path)"
| "validate_array_node value schema path =
     (case value of
        Plain (JArray items) \<Rightarrow>
          bound_error schema ''minItems'' (\<lambda>m. of_nat (length items) < m) (path @ js '' must have >= '') (js '' items'')
          @ bound_error schema ''maxItems'' (\<lambda>m. m < of_nat (length items)) (path @ js '' must have <= '') (js '' items'')
          @ (case get schema ''items'' of
               Some (JObject s) \<Rightarrow> concat (map (\<lambda>(index, item).
                 validate_node (Plain item) s (path @ [91] @ decimal index @ [93])) (enumerate 0 items))
             | _ \<Rightarrow> [])
      | _ \<Rightarrow> [path @ js '' expected array''])"
  by pat_completeness auto
termination
  by (relation "measure (\<lambda>x. case x of Inl (v, s, p) \<Rightarrow> Suc (2 * size_list (size_prod (\<lambda>_. 0) size) s)
      | Inr (Inl (v, s, p)) \<Rightarrow> 2 * size_list (size_prod (\<lambda>_. 0) size) s
      | Inr (Inr (v, s, p)) \<Rightarrow> 2 * size_list (size_prod (\<lambda>_. 0) size) s)")
    (auto dest!: size_get size_entry)

declare validate_node.simps [simp del] validate_object_node.simps [simp del] validate_array_node.simps [simp del]

definition validate_json_schema_subset :: "subject \<Rightarrow> schema \<Rightarrow> js_string \<Rightarrow> bool \<times> js_string list" where
  "validate_json_schema_subset value schema path =
     (let errors = validate_node value schema path in (errors = [], errors))"

section \<open>What a schema means\<close>

text \<open>Equality of JSON data: objects are maps.\<close>

inductive same_json :: "js_value \<Rightarrow> js_value \<Rightarrow> bool" where
  same_null: "same_json JNull JNull"
| same_bool: "same_json (JBool b) (JBool b)"
| same_number: "number_value p s n = number_value q t m \<Longrightarrow> same_json (JNumber p s n) (JNumber q t m)"
| same_string: "same_json (JString s) (JString s)"
| same_array: "list_all2 same_json xs ys \<Longrightarrow> same_json (JArray xs) (JArray ys)"
| same_object: "(\<And>k. rel_option same_json (map_of kvs k) (map_of lvs k)) \<Longrightarrow> same_json (JObject kvs) (JObject lvs)"

inductive_simps same_json_simps:
  "same_json JNull v" "same_json (JBool b) v" "same_json (JNumber p s n) v" "same_json (JString s) v"
  "same_json (JArray xs) v" "same_json (JObject kvs) v"

text \<open>No key at any depth is one that every object inherits.\<close>

fun ordinary_keys :: "js_value \<Rightarrow> bool" where
  "ordinary_keys (JArray vs) = list_all ordinary_keys vs"
| "ordinary_keys (JObject kvs) = list_all (\<lambda>(k, v). k \<notin> set prototype_names \<and> ordinary_keys v) kvs"
| "ordinary_keys JNull = True"
| "ordinary_keys (JBool b) = True"
| "ordinary_keys (JNumber p s n) = True"
| "ordinary_keys (JString s) = True"

lemma ordinary_keys_map_of:
  "list_all (\<lambda>(k, v). k \<notin> set prototype_names \<and> ordinary_keys v) kvs \<Longrightarrow> map_of kvs k = Some v \<Longrightarrow>
    k \<notin> set prototype_names \<and> ordinary_keys v"
  by (drule map_of_SomeD) (auto simp: list_all_iff)

declare deep_equal.simps [simp del]

lemma proto_in_names: "js ''__proto__'' \<in> set prototype_names"
  by (simp add: prototype_names_def)

lemma deep_equal_iff: "ordinary_keys a \<Longrightarrow> ordinary_keys b \<Longrightarrow> deep_equal a b \<longleftrightarrow> same_json a b"
proof (induction a b rule: deep_equal.induct)
  case (1 a b)
  show ?case
  proof (cases a)
    case (JArray xs)
    show ?thesis
    proof (cases b)
      case b: (JArray ys)
      have "deep_equal x y \<longleftrightarrow> same_json x y" if "(x, y) \<in> set (zip xs ys)" "length xs = length ys" for x y
        using 1(1) [OF refl JArray b that(1) refl] 1(3,4) set_zip_leftD [OF that(1)] set_zip_rightD [OF that(1)]
        by (simp add: JArray b list_all_iff)
      then show ?thesis unfolding JArray b
        by (subst deep_equal.simps) (auto simp: same_json_simps list_all2_iff list_all_iff)
    qed (subst deep_equal.simps, simp add: JArray same_json_simps)+
  next
    case (JObject kvs)
    show ?thesis
    proof (cases b)
      case b: (JObject lvs)
      let ?same = "\<lambda>k. rel_option same_json (map_of kvs k) (map_of lvs k)"
      let ?test = "\<lambda>k. case map_of kvs k of
          Some x \<Rightarrow> (case map_of lvs k of Some y \<Rightarrow> deep_equal x y | None \<Rightarrow> equals_absent k x)
        | None \<Rightarrow> (case map_of lvs k of Some y \<Rightarrow> equals_absent k y | None \<Rightarrow> True)"
      note fine = ordinary_keys_map_of [of kvs] ordinary_keys_map_of [of lvs]
      have ok: "list_all (\<lambda>(k, v). k \<notin> set prototype_names \<and> ordinary_keys v) kvs"
        "list_all (\<lambda>(k, v). k \<notin> set prototype_names \<and> ordinary_keys v) lvs" using 1(3,4) JObject b by simp_all
      have "?test k \<longleftrightarrow> ?same k" if "k \<in> set (map fst kvs @ map fst lvs)" for k
      proof (cases "map_of kvs k"; cases "map_of lvs k")
        fix x y assume *: "map_of kvs k = Some x" "map_of lvs k = Some y"
        then show ?thesis using 1(2) [OF refl JObject b that *] fine(1) [OF ok(1) *(1)] fine(2) [OF ok(2) *(2)] by simp
      qed (use fine(1) [OF ok(1)] fine(2) [OF ok(2)] proto_in_names in \<open>auto simp: equals_absent_def\<close>)
      moreover have "?same k" if "k \<notin> set (map fst kvs @ map fst lvs)" for k
        using that by (simp add: map_of_eq_None_iff [THEN iffD2])
      ultimately have "(\<forall>k \<in> set (map fst kvs @ map fst lvs). ?test k) \<longleftrightarrow> (\<forall>k. ?same k)" by blast
      then show ?thesis unfolding JObject b
        by (subst deep_equal.simps) (simp add: same_json_simps list_all_iff)
    qed (subst deep_equal.simps, simp add: JObject same_json_simps)+
  qed (cases b; auto simp: deep_equal.simps same_json_simps)+
qed

text \<open>The meaning of the keywords.\<close>

definition at_least :: "schema \<Rightarrow> string \<Rightarrow> rat \<Rightarrow> bool" where
  "at_least schema keyword x \<longleftrightarrow> (\<forall>p s n. get schema keyword = Some (JNumber p s n) \<longrightarrow> number_value p s n \<le> x)"

definition at_most :: "schema \<Rightarrow> string \<Rightarrow> rat \<Rightarrow> bool" where
  "at_most schema keyword x \<longleftrightarrow> (\<forall>p s n. get schema keyword = Some (JNumber p s n) \<longrightarrow> x \<le> number_value p s n)"

definition one_of_allowed :: "js_value \<Rightarrow> schema \<Rightarrow> bool" where
  "one_of_allowed v schema \<longleftrightarrow>
     (\<forall>c. get schema ''const'' = Some c \<longrightarrow> same_json v c) \<and>
     (\<forall>cs. get schema ''enum'' = Some (JArray cs) \<longrightarrow> (\<exists>c \<in> set cs. same_json c v))"

inductive conforms :: "js_value \<Rightarrow> schema \<Rightarrow> bool" where
  untyped_value: "one_of_allowed v schema \<Longrightarrow> (\<And>t. get schema ''type'' \<noteq> Some (JString t)) \<Longrightarrow> conforms v schema"
| null_value: "one_of_allowed JNull schema \<Longrightarrow> get schema ''type'' = Some (JString (js ''null'')) \<Longrightarrow> conforms JNull schema"
| boolean_value: "one_of_allowed (JBool b) schema \<Longrightarrow> get schema ''type'' = Some (JString (js ''boolean'')) \<Longrightarrow>
    conforms (JBool b) schema"
| string_value: "one_of_allowed (JString s) schema \<Longrightarrow> get schema ''type'' = Some (JString (js ''string'')) \<Longrightarrow>
    at_least schema ''minLength'' (of_nat (length s)) \<Longrightarrow> at_most schema ''maxLength'' (of_nat (length s)) \<Longrightarrow>
    conforms (JString s) schema"
| number_value: "one_of_allowed (JNumber p d n) schema \<Longrightarrow>
    get schema ''type'' = Some (JString (js ''number'')) \<or>
      get schema ''type'' = Some (JString (js ''integer'')) \<and> is_integral (number_value p d n) \<Longrightarrow>
    at_least schema ''minimum'' (number_value p d n) \<Longrightarrow> at_most schema ''maximum'' (number_value p d n) \<Longrightarrow>
    conforms (JNumber p d n) schema"
| array_value: "one_of_allowed (JArray vs) schema \<Longrightarrow> get schema ''type'' = Some (JString (js ''array'')) \<Longrightarrow>
    at_least schema ''minItems'' (of_nat (length vs)) \<Longrightarrow> at_most schema ''maxItems'' (of_nat (length vs)) \<Longrightarrow>
    (\<And>s v. get schema ''items'' = Some (JObject s) \<Longrightarrow> v \<in> set vs \<Longrightarrow> conforms v s) \<Longrightarrow> conforms (JArray vs) schema"
| object_value: "one_of_allowed (JObject kvs) schema \<Longrightarrow> get schema ''type'' = Some (JString (js ''object'')) \<Longrightarrow>
    (\<And>k. k \<in> set (required_keys schema) \<Longrightarrow> k \<in> dom (map_of kvs)) \<Longrightarrow>
    (\<And>ps k s v. get schema ''properties'' = Some (JObject ps) \<Longrightarrow> (k, JObject s) \<in> set ps \<Longrightarrow> map_of kvs k = Some v \<Longrightarrow>
      conforms v s) \<Longrightarrow>
    (\<And>ps. get schema ''properties'' = Some (JObject ps) \<Longrightarrow> get schema ''additionalProperties'' = Some (JBool False) \<Longrightarrow>
      dom (map_of kvs) \<subseteq> dom (map_of ps)) \<Longrightarrow> conforms (JObject kvs) schema"

inductive_simps conforms_simps:
  "conforms JNull schema" "conforms (JBool b) schema" "conforms (JString s) schema" "conforms (JNumber p d n) schema"
  "conforms (JArray vs) schema" "conforms (JObject kvs) schema"

lemma bound_error_Nil:
  "bound_error schema k (\<lambda>m. x < m) before after = [] \<longleftrightarrow> at_least schema k x"
  "bound_error schema k (\<lambda>m. m < x) before after = [] \<longleftrightarrow> at_most schema k x"
  by (auto simp: bound_error_def at_least_def at_most_def linorder_not_less split: option.split js_value.split)

lemma ordinary_get: "ordinary_keys (JObject schema) \<Longrightarrow> get schema k = Some v \<Longrightarrow> ordinary_keys v"
  using ordinary_keys_map_of [of schema "js k" v] by (simp add: get_def)

lemma allowed_iff:
  assumes "ordinary_keys v" "ordinary_keys (JObject schema)"
  shows "const_errors (Plain v) schema path = [] \<and> enum_errors (Plain v) schema path = [] \<longleftrightarrow> one_of_allowed v schema"
proof -
  have "deep_equal v c = same_json v c" if "get schema ''const'' = Some c" for c
    using deep_equal_iff assms(1) ordinary_get [OF assms(2) that] by blast
  moreover have "deep_equal c v = same_json c v" if "get schema ''enum'' = Some (JArray cs)" "c \<in> set cs" for c cs
    using deep_equal_iff assms(1) ordinary_get [OF assms(2) that(1)] that(2) by (simp add: list_all_iff)
  ultimately show ?thesis
    by (auto simp: const_errors_def enum_errors_def one_of_allowed_def list_ex_iff split: option.split js_value.split)
qed


lemma type_names_distinct:
  "js ''null'' \<noteq> js ''object''" "js ''null'' \<noteq> js ''array''" "js ''null'' \<noteq> js ''integer''"
  "js ''boolean'' \<noteq> js ''object''" "js ''boolean'' \<noteq> js ''array''" "js ''boolean'' \<noteq> js ''integer''"
  "js ''string'' \<noteq> js ''object''" "js ''string'' \<noteq> js ''array''" "js ''string'' \<noteq> js ''integer''"
  "js ''number'' \<noteq> js ''object''" "js ''number'' \<noteq> js ''array''" "js ''number'' \<noteq> js ''integer''"
  "js ''integer'' \<noteq> js ''object''" "js ''integer'' \<noteq> js ''array''" "js ''object'' \<noteq> js ''array''"
  "js ''object'' \<noteq> js ''integer''" "js ''array'' \<noteq> js ''integer''"
  by (simp_all add: js_def)

lemma no_message: "concat (map (\<lambda>k. if ok k then [] else [message k]) ks) = [] \<longleftrightarrow> (\<forall>k \<in> set ks. ok k)"
  by (induction ks) auto

lemma required_errors_Nil:
  "required_errors ob schema path = [] \<longleftrightarrow> (\<forall>k \<in> set (required_keys schema). has_key k ob)"
  unfolding required_errors_def by (rule no_message)

lemma additional_errors_Nil:
  "additional_errors (Own kvs) schema path = [] \<longleftrightarrow>
    (\<forall>ps. get schema ''additionalProperties'' = Some (JBool False) \<longrightarrow> get schema ''properties'' = Some (JObject ps) \<longrightarrow>
      (\<forall>k \<in> set (map fst kvs). has_key k (Own ps)))"
proof (cases "get schema ''additionalProperties'' = Some (JBool False) \<and> (\<exists>ps. get schema ''properties'' = Some (JObject ps))")
  case True
  then obtain ps where *: "get schema ''additionalProperties'' = Some (JBool False)" "get schema ''properties'' = Some (JObject ps)"
    by blast
  have "additional_errors (Own kvs) schema path = [] \<longleftrightarrow> (\<forall>k \<in> set (map fst kvs). has_key k (Own ps))"
    unfolding additional_errors_def * prod.case option.case js_value.case bool.case own_keys.simps by (rule no_message)
  with * show ?thesis by simp
next
  case False
  then have "additional_errors (Own kvs) schema path = []"
    by (simp add: additional_errors_def split: option.split js_value.split bool.split) blast
  with False show ?thesis by blast
qed

lemma ordinary_key:
  "ordinary_keys (JObject kvs) \<Longrightarrow> k \<in> fst ` set kvs \<Longrightarrow> k \<notin> set prototype_names"
  by (auto simp: list_all_iff)

lemma required_ordinary_has:
  "k \<notin> set prototype_names \<Longrightarrow> has_key k (Own kvs) \<longleftrightarrow> k \<in> dom (map_of kvs)"
  by (simp add: dom_map_of_conv_image_fst)

lemma property_of_own: "map_of kvs k = Some v \<Longrightarrow> property_of k (Own kvs) = Plain v"
  by simp

text \<open>The strings that \<open>required\<close> lists are ordinary names as well.\<close>

fun ordinary_schema :: "js_value \<Rightarrow> bool" where
  "ordinary_schema (JObject schema) \<longleftrightarrow> (\<forall>k \<in> set (required_keys schema). k \<notin> set prototype_names) \<and>
     list_all (\<lambda>(k, v). ordinary_schema v) schema"
| "ordinary_schema (JArray vs) \<longleftrightarrow> list_all ordinary_schema vs"
| "ordinary_schema JNull \<longleftrightarrow> True"
| "ordinary_schema (JBool b) \<longleftrightarrow> True"
| "ordinary_schema (JNumber p s n) \<longleftrightarrow> True"
| "ordinary_schema (JString s) \<longleftrightarrow> True"

lemma ordinary_schema_get: "ordinary_schema (JObject schema) \<Longrightarrow> get schema k = Some v \<Longrightarrow> ordinary_schema v"
  by (auto simp: get_def list_all_iff dest!: map_of_SomeD)

lemma ordinary_schema_entry: "ordinary_schema (JObject ps) \<Longrightarrow> (k, v) \<in> set ps \<Longrightarrow> ordinary_schema v"
  by (auto simp: list_all_iff)

lemma ordinary_keys_entry:
  "ordinary_keys (JObject ps) \<Longrightarrow> (k, v) \<in> set ps \<Longrightarrow> k \<notin> set prototype_names \<and> ordinary_keys v"
  by (auto simp: list_all_iff)

lemma concat_Nil_iff: "concat (map f xs) = [] \<longleftrightarrow> (\<forall>x \<in> set xs. f x = [])"
  by auto

abbreviation ordinary :: "schema \<Rightarrow> bool" where
  "ordinary schema \<equiv> ordinary_keys (JObject schema) \<and> ordinary_schema (JObject schema)"

text \<open>One level of the validation of an object, given what the nested calls do.\<close>

lemma validate_object_level:
  assumes v: "ordinary_keys (JObject kvs)" and s: "ordinary schema"
    and rec: "\<And>ps k s v. get schema ''properties'' = Some (JObject ps) \<Longrightarrow> (k, JObject s) \<in> set ps \<Longrightarrow>
      map_of kvs k = Some v \<Longrightarrow> validate_node (Plain v) s (path @ [46] @ k) = [] \<longleftrightarrow> conforms v s"
    and allowed: "one_of_allowed (JObject kvs) schema" and type: "get schema ''type'' = Some (JString (js ''object''))"
  shows "validate_object_node (Plain (JObject kvs)) schema path = [] \<longleftrightarrow> conforms (JObject kvs) schema"
proof -
  have req: "required_errors (Own kvs) schema path = [] \<longleftrightarrow> (\<forall>k \<in> set (required_keys schema). k \<in> dom (map_of kvs))"
    using s required_ordinary_has by (auto simp: required_errors_Nil simp del: has_key.simps)
  have add: "additional_errors (Own kvs) schema path = [] \<longleftrightarrow> (\<forall>ps. get schema ''properties'' = Some (JObject ps) \<longrightarrow>
      get schema ''additionalProperties'' = Some (JBool False) \<longrightarrow> dom (map_of kvs) \<subseteq> dom (map_of ps))"
  proof -
    have "has_key k (Own ps) \<longleftrightarrow> k \<in> dom (map_of ps)" if "k \<in> set (map fst kvs)" for k ps
      using ordinary_key [OF v] required_ordinary_has that by simp
    then have "(\<forall>k \<in> set (map fst kvs). has_key k (Own ps)) \<longleftrightarrow> dom (map_of kvs) \<subseteq> dom (map_of ps)" for ps
      unfolding dom_map_of_conv_image_fst [of kvs] by auto
    then show ?thesis unfolding additional_errors_Nil by blast
  qed
  have props: "(case get schema ''properties'' of
       Some (JObject properties) \<Rightarrow>
         concat (map (\<lambda>(key, property_schema).
           case property_schema of
             JObject s \<Rightarrow> if has_key key (Own kvs) then validate_node (property_of key (Own kvs)) s (path @ [46] @ key) else []
           | _ \<Rightarrow> []) properties)
     | _ \<Rightarrow> []) = [] \<longleftrightarrow> (\<forall>ps k s v. get schema ''properties'' = Some (JObject ps) \<longrightarrow> (k, JObject s) \<in> set ps \<longrightarrow>
       map_of kvs k = Some v \<longrightarrow> conforms v s)"
  proof (cases "\<exists>ps. get schema ''properties'' = Some (JObject ps)")
    case True
    then obtain ps where ps: "get schema ''properties'' = Some (JObject ps)" by blast
    have ok: "ordinary_keys (JObject ps)" using ordinary_get ps s by blast
    have "(case p of JObject s \<Rightarrow> if has_key k (Own kvs) then validate_node (property_of k (Own kvs)) s (path @ [46] @ k) else []
        | _ \<Rightarrow> []) = [] \<longleftrightarrow> (\<forall>s v. p = JObject s \<longrightarrow> map_of kvs k = Some v \<longrightarrow> conforms v s)"
      if "(k, p) \<in> set ps" for k p
    proof (cases p)
      case (JObject s)
      then show ?thesis using rec [OF ps that [unfolded JObject]] ordinary_keys_entry [OF ok that] required_ordinary_has
        by (cases "map_of kvs k") (auto simp del: has_key.simps)
    qed simp_all
    then show ?thesis unfolding ps option.case js_value.case concat_Nil_iff by fastforce
  qed (auto split: option.split js_value.split)
  show ?thesis using allowed type
    by (subst validate_object_node.simps) (simp add: req add props conforms_simps type_names_distinct Ball_def)
qed

lemma enumerate_items:
  "concat (map (\<lambda>(index, item). f index item) (enumerate n items)) = [] \<longleftrightarrow>
    (\<forall>i < length items. f (n + i) (items ! i) = [])"
proof (induction items arbitrary: n)
  case (Cons x xs)
  have "(\<forall>i < length (x # xs). f (n + i) ((x # xs) ! i) = []) \<longleftrightarrow>
      f n x = [] \<and> (\<forall>i < length xs. f (Suc n + i) (xs ! i) = [])"
    by (simp add: All_less_Suc2)
  then show ?case using Cons [of "Suc n"] by simp
qed simp

lemma validate_array_level:
  assumes rec: "\<And>s v p. get schema ''items'' = Some (JObject s) \<Longrightarrow> v \<in> set vs \<Longrightarrow>
      validate_node (Plain v) s p = [] \<longleftrightarrow> conforms v s"
    and allowed: "one_of_allowed (JArray vs) schema" and type: "get schema ''type'' = Some (JString (js ''array''))"
  shows "validate_array_node (Plain (JArray vs)) schema path = [] \<longleftrightarrow> conforms (JArray vs) schema"
proof -
  have items: "(case get schema ''items'' of
       Some (JObject s) \<Rightarrow> concat (map (\<lambda>(index, item).
         validate_node (Plain item) s (path @ [91] @ decimal index @ [93])) (enumerate 0 vs))
     | _ \<Rightarrow> []) = [] \<longleftrightarrow> (\<forall>s v. get schema ''items'' = Some (JObject s) \<longrightarrow> v \<in> set vs \<longrightarrow> conforms v s)"
  proof (cases "\<exists>s. get schema ''items'' = Some (JObject s)")
    case True
    then obtain s where s: "get schema ''items'' = Some (JObject s)" by blast
    show ?thesis unfolding s option.case js_value.case enumerate_items
      using rec [OF s] by (auto simp: in_set_conv_nth)
  qed (auto split: option.split js_value.split)
  show ?thesis using allowed type
    by (subst validate_array_node.simps) (simp add: items bound_error_Nil conforms_simps type_names_distinct)
qed

lemma scalar_level:
  assumes "one_of_allowed v schema" and "get schema ''type'' = Some (JString t)" and "matches_type (Plain v) t"
    and "t \<noteq> js ''object''" and "t \<noteq> js ''array''"
  shows "validate_scalar (Plain v) t schema path = [] \<longleftrightarrow> conforms v schema"
  using assms type_names_distinct
  by (cases v; cases "t = js ''integer''")
    (auto simp: validate_scalar_def matches_type_def conforms_simps bound_error_Nil)

text \<open>A value the type does not match conforms to nothing.\<close>

lemma conforms_matches_type:
  "conforms v schema \<Longrightarrow> get schema ''type'' = Some (JString t) \<Longrightarrow> matches_type (Plain v) t"
  by (erule conforms.cases) (auto simp: matches_type_def type_names_distinct)

lemma conforms_allowed: "conforms v schema \<Longrightarrow> one_of_allowed v schema"
  by (erule conforms.cases) auto

lemma validate_node_iff:
  "ordinary_keys v \<Longrightarrow> ordinary schema \<Longrightarrow> validate_node (Plain v) schema path = [] \<longleftrightarrow> conforms v schema"
proof (induction "size_list (size_prod (\<lambda>_. 0) size) schema" arbitrary: v schema path rule: less_induct)
  case less
  note v = less.prems(1) and s = less.prems(2)
  note allowed = allowed_iff [OF v conjunct1 [OF s], of path]
  have sub: "ordinary r \<and> size_list (size_prod (\<lambda>_. 0) size) r < size_list (size_prod (\<lambda>_. 0) size) schema"
    if "get schema k = Some (JObject r)" for k r
    using that s size_get [OF that] ordinary_get [OF conjunct1 [OF s] that] ordinary_schema_get [OF conjunct2 [OF s] that]
    by simp
  have nested: "ordinary r \<and> size_list (size_prod (\<lambda>_. 0) size) r < size_list (size_prod (\<lambda>_. 0) size) schema"
    if "get schema k = Some (JObject ps)" "(n, JObject r) \<in> set ps" for k ps n r
    using sub [OF that(1)] size_entry [OF that(2)] ordinary_keys_entry [OF _ that(2)] ordinary_schema_entry [OF _ that(2)]
    by auto
  show ?case
  proof (cases "\<exists>t. get schema ''type'' = Some (JString t)")
    case False
    then have "conforms v schema \<longleftrightarrow> one_of_allowed v schema" using conforms_allowed untyped_value by blast
    moreover have "(case get schema ''type'' of Some (JString expected) \<Rightarrow> f expected | _ \<Rightarrow> []) = []" for f :: "js_string \<Rightarrow> js_string list"
      using False by (auto split: option.split js_value.split)
    ultimately show ?thesis using allowed by (subst validate_node.simps) simp
  next
    case True
    then obtain t where t: "get schema ''type'' = Some (JString t)" by blast
    show ?thesis
    proof (cases "one_of_allowed v schema \<and> matches_type (Plain v) t")
      case False
      then show ?thesis using allowed conforms_allowed conforms_matches_type t
        by (subst validate_node.simps) auto
    next
      case True
      then have ok: "one_of_allowed v schema" "matches_type (Plain v) t" by auto
      consider (object) kvs where "v = JObject kvs" "t = js ''object''" | (array) vs where "v = JArray vs" "t = js ''array''"
        | (scalar) "t \<noteq> js ''object''" "t \<noteq> js ''array''"
        using ok(2) type_names_distinct by (cases v) (auto simp: matches_type_def split: if_splits)
      then show ?thesis
      proof cases
        case object
        have "validate_node (Plain x) r (path @ [46] @ k) = [] \<longleftrightarrow> conforms x r"
          if "get schema ''properties'' = Some (JObject ps)" "(k, JObject r) \<in> set ps" "map_of kvs k = Some x" for ps k r x
          using less.hyps nested [OF that(1,2)] ordinary_keys_entry [OF v [unfolded object(1)] map_of_SomeD [OF that(3)]] by blast
        from validate_object_level [OF v [unfolded object(1)] s this ok(1) [unfolded object(1)] t [unfolded object(2)]]
        show ?thesis using allowed ok t object by (subst validate_node.simps) simp
      next
        case array
        have "validate_node (Plain x) r p = [] \<longleftrightarrow> conforms x r"
          if "get schema ''items'' = Some (JObject r)" "x \<in> set vs" for r x p
          using less.hyps sub [OF that(1)] v that(2) by (auto simp: array(1) list_all_iff)
        from validate_array_level [OF this ok(1) [unfolded array(1)] t [unfolded array(2)]]
        show ?thesis using allowed ok t array by (subst validate_node.simps) (simp add: type_names_distinct type_names_distinct [symmetric])
      next
        case scalar
        then show ?thesis using allowed ok t scalar_level [OF ok(1) t ok(2) scalar]
          by (subst validate_node.simps) simp
      qed
    qed
  qed
qed

section \<open>Validation decides conformance\<close>


definition order_schema :: schema where
  "order_schema = [(js ''type'', JString (js ''object'')), (js ''required'', JArray [JString (js ''qty'')]),
     (js ''additionalProperties'', JBool False),
     (js ''properties'', JObject [(js ''qty'', JObject [(js ''type'', JString (js ''integer'')),
        (js ''minimum'', JNumber False 1 1)])])]"

lemma order_schema_ordinary: "ordinary order_schema"
  by code_simp


text \<open>
  The names of \<open>Object.prototype\<close> are the exception: a required key with such a name is never missed,
  and an additional key with such a name is never noticed.
\<close>

theorem inherited_names_are_not_checked:
  "fst (validate_json_schema_subset (Plain (JObject []))
      [(js ''type'', JString (js ''object'')), (js ''required'', JArray [JString (js ''toString'')])] (js ''$''))"
  "fst (validate_json_schema_subset (Plain (JObject [(js ''qty'', JNumber False 25 2), (js ''constructor'', JNull)]))
      order_schema (js ''$''))"
  by code_simp+

end
