(* ===== verification/Typed_Tools.thy ===== *)
theory Typed_Tools
  imports Tool_Execution Schema_Validation
begin

text \<open>
  Tool execution (tools/src/index.ts) with the schema validator of tools/src/schema-validation.ts as
  its input and output check: what an executed call says of the types of its input and output.
\<close>

section \<open>Calls with the validator\<close>

definition schema_check :: "schema \<Rightarrow> js_value \<Rightarrow> validation" where
  "schema_check schema v =
     (if fst (validate_json_schema_subset (Plain v) schema (js ''$'')) then Valid else Invalid)"

definition checked_call :: "schema \<Rightarrow> schema \<Rightarrow> (js_value, 'st) tool_request \<Rightarrow> (js_value, 'st) tool_request" where
  "checked_call input_schema output_schema rq =
     rq\<lparr>rq_input_valid := schema_check input_schema, rq_output_valid := schema_check output_schema\<rparr>"

lemma executed_input_valid:
  assumes "execute_tool rq st = (res, n, st')" and "0 < n"
  shows "\<exists>input. rq_copy rq (rq_input rq) = Inr input \<and> rq_input_valid rq input = Valid"
proof (rule ccontr)
  assume no: "\<not> ?thesis"
  have "fst (snd (execute_tool rq st)) = 0"
    using no unfolding execute_tool_def Let_def
    by (cases "snapshot_tool_definition (rq_tool rq)"; cases "rq_copy rq (rq_input rq)") auto
  then show False using assms by simp
qed

lemma attempt_output_valid:
  "tc_status (fst (run_tool_attempt copy validate key n env)) = TcSucceeded \<Longrightarrow>
    \<exists>out. tc_output (fst (run_tool_attempt copy validate key n env)) = Some out \<and> validate out = Valid"
  by (auto simp: run_tool_attempt_def failed_attempt_def tool_result_def tool_failure_status_def Let_def
      split: if_splits sum.splits)

lemma loop_output_valid:
  assumes "tc_status (after_loop key' (run_attempts rq key)) = TcSucceeded"
  shows "\<exists>out. tc_output (after_loop key' (run_attempts rq key)) = Some out \<and> rq_output_valid rq out = Valid"
proof -
  have "after_loop key' (run_attempts rq key) = lp_result (run_attempts rq key)"
    using assms by (auto simp: after_loop_def Let_def split: if_splits)
  then show ?thesis using run_attempts_run [of rq key] attempt_output_valid assms by metis
qed

lemma executed_output_valid:
  assumes "execute_tool rq st = (Inr r, n, st')" and "0 < n" and "tc_status r = TcSucceeded"
  shows "\<exists>out. tc_output r = Some out \<and> rq_output_valid rq out = Valid"
  using assms(1)
proof (cases rule: execute_tool_cases)
  case (unguarded rq' key)
  have "rq_output_valid rq' = rq_output_valid rq" by (subst unguarded(1)) simp
  then show ?thesis using loop_output_valid [of key rq' key] unguarded(2) assms(3) by simp
next
  case (guarded rq' i ops)
  have same: "rq_output_valid rq' = rq_output_valid rq" by (subst guarded(1)) simp
  from guarded(5) show ?thesis
  proof (cases rule: with_idempotency_cases)
    case (ran st1 e st2)
    from ran(3) assms(2) show ?thesis
    proof (cases rule: record_result_cases)
      case (recorded r')
      then show ?thesis using loop_output_valid [of "Some (id_key i)" rq' "Some (id_key i)"] assms(3) same by simp
    next
      case (unrecorded r')
      then show ?thesis using assms(3) by (simp add: completion_failure_def)
    qed
  qed (use assms(2) in simp)
qed (use assms(2) in simp)


definition order_call :: "(js_value, js_value idem_store) tool_request" where
  "order_call = \<lparr>rq_tool = plain_tool 10 5, rq_input = JObject [(js ''qty'', JNumber False 25 2)], rq_attempt = None,
     rq_identity = Inr None, rq_store = None,
     rq_env = (\<lambda>n. \<lparr>ae_aborted_at_start = False, ae_events = [PromiseResolves (JBool True)],
       ae_aborted_at_check = False, ae_aborted_after_sleep = False\<rparr>),
     rq_meanwhile = id, rq_input_valid = (\<lambda>_. Valid), rq_output_valid = (\<lambda>_. Valid),
     rq_copy = Inr, rq_stored_error = (\<lambda>_. tool_cancelled_error)\<rparr>"


end
