(* ===== verification/Audio_Normalizer.thy ===== *)
theory Audio_Normalizer
  imports Audio_Codec Complex_Main
begin

text \<open>
  The streaming audio normalizer of media/src/audio-normalizer.ts: decoding of PCM frames, the
  windowed-sinc resampler with its sliding buffer, encoding. Samples are real numbers, where the
  source computes with doubles; everything else is as in the source. Encodings are those of the type
  \<open>AudioFormat\<close>, so the check for an unknown encoding has no case here, and \<open>fork\<close> copies the state,
  which the model does anyway.
\<close>

section \<open>Formats\<close>

datatype channel_policy = Average | LeftChannel | OtherPolicy

definition same_audio_format :: "audio_format \<Rightarrow> audio_format \<Rightarrow> bool" where
  "same_audio_format l r \<longleftrightarrow> encoding l = encoding r \<and> sampleRateHz l = sampleRateHz r \<and> channels l = channels r"

definition audio_error :: "string \<Rightarrow> js_error" where
  "audio_error code = TvicThrowableError (js code)"

definition validate_format :: "audio_format \<Rightarrow> unit result" where
  "validate_format f =
     (if \<not> is_sample_rate_hz (sampleRateHz f) then Inl (audio_error ''audio.normalization.sample_rate_unsupported'')
      else if channels f \<noteq> 1 \<and> channels f \<noteq> 2 then Inl (audio_error ''audio.normalization.channels_unsupported'')
      else Inr ())"

definition validate_output_format :: "audio_format \<Rightarrow> unit result" where
  "validate_output_format f =
     (case validate_format f of
        Inl e \<Rightarrow> Inl e
      | Inr _ \<Rightarrow>
          if encoding f \<noteq> pcm_s16le \<or> channels f \<noteq> 1 then Inl (audio_error ''audio.normalization.target_unsupported'')
          else Inr ())"

section \<open>Decoding and encoding\<close>

text \<open>
  \<open>DataView.getFloat32\<close>: an IEEE 754 single from its four bytes, \<open>None\<close> for infinities and NaN.
\<close>

definition get_float32_le :: "8 word \<Rightarrow> 8 word \<Rightarrow> 8 word \<Rightarrow> 8 word \<Rightarrow> real option" where
  "get_float32_le b0 b1 b2 b3 =
     (let mantissa = unat b0 + 256 * unat b1 + 65536 * (unat b2 mod 128);
          exponent = 2 * (unat b3 mod 128) + unat b2 div 128;
          magnitude = (if exponent = 0 then real mantissa / 2 ^ 149
            else if 150 \<le> exponent then real (2 ^ 23 + mantissa) * 2 ^ (exponent - 150)
            else real (2 ^ 23 + mantissa) / 2 ^ (150 - exponent))
      in if exponent = 255 then None else Some (if 128 \<le> unat b3 then - magnitude else magnitude))"

fun decode_sample :: "audio_encoding \<Rightarrow> 8 word list \<Rightarrow> real option" where
  "decode_sample pcm_s16le [lo, hi] = Some (of_int (get_int16_le lo hi) / 32768)"
| "decode_sample pcm_s16be [hi, lo] = Some (of_int (get_int16_le lo hi) / 32768)"
| "decode_sample pcm_f32le [b0, b1, b2, b3] = get_float32_le b0 b1 b2 b3"
| "decode_sample e _ = None"

definition sample_bytes :: "audio_format \<Rightarrow> nat" where
  "sample_bytes f = (if encoding f = pcm_f32le then 4 else 2)"

definition frame_bytes :: "audio_format \<Rightarrow> nat" where
  "frame_bytes f = sample_bytes f * nat (channels f)"

definition clamp_sample :: "real \<Rightarrow> real" where
  "clamp_sample x = max (- 1) (min 1 x)"

text \<open>The channels of one frame, from the first on; a sample that is not finite stops the decoder.\<close>

fun add_channels :: "audio_format \<Rightarrow> channel_policy \<Rightarrow> nat \<Rightarrow> nat \<Rightarrow> 8 word list \<Rightarrow> real \<Rightarrow> real option" where
  "add_channels f policy 0 channel bytes acc = Some acc"
| "add_channels f policy (Suc left) channel bytes acc =
     (case decode_sample (encoding f) (take (sample_bytes f) bytes) of
        None \<Rightarrow> None
      | Some sample \<Rightarrow> add_channels f policy left (Suc channel) (drop (sample_bytes f) bytes)
          (if policy = LeftChannel \<and> 0 < channel then acc else acc + clamp_sample sample))"

definition decode_frame :: "audio_format \<Rightarrow> channel_policy \<Rightarrow> 8 word list \<Rightarrow> real option" where
  "decode_frame f policy bytes =
     map_option (\<lambda>v. if policy = Average then v / of_int (channels f) else v)
       (add_channels f policy (nat (channels f)) 0 bytes 0)"

function decode_audio :: "audio_format \<Rightarrow> channel_policy \<Rightarrow> 8 word list \<Rightarrow> real list result" where
  "decode_audio f policy bytes =
     (if 0 < frame_bytes f \<and> frame_bytes f \<le> length bytes then
        (case decode_frame f policy (take (frame_bytes f) bytes) of
           None \<Rightarrow> Inl (audio_error ''audio.normalization.float_non_finite'')
         | Some v \<Rightarrow> (case decode_audio f policy (drop (frame_bytes f) bytes) of
             Inl e \<Rightarrow> Inl e
           | Inr vs \<Rightarrow> Inr (v # vs)))
      else Inr [])"
  by pat_completeness auto
termination
  by (relation "measure (\<lambda>(f, policy, bytes). length bytes)") auto

declare decode_audio.simps [simp del]

definition math_round :: "real \<Rightarrow> int" where
  "math_round x = \<lfloor>x + 1 / 2\<rfloor>"

definition encode_sample :: "real \<Rightarrow> 8 word list" where
  "encode_sample x =
     (let sample = clamp_sample x
      in set_int16_le (if sample < 0 then math_round (sample * 32768) else math_round (sample * 32767)))"

definition encode_samples :: "real list \<Rightarrow> 8 word list" where
  "encode_samples samples = concat (map encode_sample samples)"

section \<open>The resampler\<close>

definition filter_half_width :: nat where "filter_half_width = 16"

function greatest_common_divisor :: "int \<Rightarrow> int \<Rightarrow> int" where
  "greatest_common_divisor a b = (if b \<noteq> 0 then greatest_common_divisor b (a mod b) else a)"
  by pat_completeness auto
termination
  by (relation "measure (\<lambda>(a, b). nat \<bar>b\<bar>)") (auto simp: abs_mod_less)

declare greatest_common_divisor.simps [simp del]

record resampler =
  rz_input_rate :: int
  rz_output_rate :: int
  rz_cutoff :: real
  rz_phase_count :: int
  rz_filters :: "real list list"
  rz_samples :: "real list"
  rz_start :: int
  rz_total :: int
  rz_next :: int

definition kernel :: "real \<Rightarrow> real \<Rightarrow> real" where
  "kernel cutoff distance =
     (if of_nat filter_half_width \<le> \<bar>distance\<bar> then 0
      else
        (let argument = 2 * cutoff * distance;
             sinc = (if argument = 0 then 1 else sin (pi * argument) / (pi * argument));
             window = 1 / 2 * (1 + cos (pi * \<bar>distance\<bar> / of_nat filter_half_width))
         in 2 * cutoff * sinc * window))"

definition make_filters :: "real \<Rightarrow> int \<Rightarrow> real list list" where
  "make_filters cutoff phase_count =
     map (\<lambda>phase. map (\<lambda>index. kernel cutoff (real index - real filter_half_width + 1 - real phase / of_int phase_count))
       [0..<filter_half_width * 2]) [0..<nat phase_count]"

definition new_resampler :: "int \<Rightarrow> int \<Rightarrow> resampler" where
  "new_resampler input_rate output_rate =
     (let cutoff = 1 / 2 * min 1 (of_int output_rate / of_int input_rate);
          phase_count = output_rate div greatest_common_divisor input_rate output_rate
      in \<lparr>rz_input_rate = input_rate, rz_output_rate = output_rate, rz_cutoff = cutoff, rz_phase_count = phase_count,
          rz_filters = make_filters cutoff phase_count, rz_samples = [], rz_start = 0, rz_total = 0, rz_next = 0\<rparr>)"

definition resampler_push :: "real list \<Rightarrow> resampler \<Rightarrow> resampler" where
  "resampler_push samples rz = rz\<lparr>rz_samples := rz_samples rz @ samples, rz_total := rz_total rz + int (length samples)\<rparr>"

definition read_sample :: "resampler \<Rightarrow> int \<Rightarrow> real" where
  "read_sample rz index =
     (if rz_total rz = 0 then 0
      else
        (let bounded = max 0 (min (rz_total rz - 1) index)
         in if bounded < rz_start rz then (if rz_samples rz = [] then 0 else hd (rz_samples rz))
            else if nat (bounded - rz_start rz) < length (rz_samples rz) then rz_samples rz ! nat (bounded - rz_start rz)
            else if rz_samples rz = [] then 0 else last (rz_samples rz)))"

text \<open>The loop over the filter, with what it reads as an argument.\<close>

fun weigh :: "(int \<Rightarrow> real) \<Rightarrow> int \<Rightarrow> int \<Rightarrow> real list \<Rightarrow> real \<Rightarrow> real \<Rightarrow> real \<times> real" where
  "weigh read center index [] weighted weights_sum = (weighted, weights_sum)"
| "weigh read center index (weight # weights) weighted weights_sum =
     (if weight = 0 then weigh read center (index + 1) weights weighted weights_sum
      else weigh read center (index + 1) weights
        (weighted + read (center + (index - int filter_half_width + 1)) * weight) (weights_sum + weight))"

definition filtered :: "(int \<Rightarrow> real) \<Rightarrow> int \<Rightarrow> real list list \<Rightarrow> real \<Rightarrow> real" where
  "filtered read phase_count filters position =
     (let center = \<lfloor>position\<rfloor>;
          fractional = position - of_int center;
          phase = math_round (fractional * of_int phase_count) mod phase_count;
          taps = (if 0 \<le> phase \<and> nat phase < length filters then filters ! nat phase
            else if filters = [] then [] else hd filters)
      in (case weigh read center 0 taps 0 0 of (weighted, weights_sum) \<Rightarrow>
            if weights_sum = 0 then read center else weighted / weights_sum))"

definition sample_at :: "resampler \<Rightarrow> real \<Rightarrow> real" where
  "sample_at rz = filtered (read_sample rz) (rz_phase_count rz) (rz_filters rz)"

definition rate_position :: "int \<Rightarrow> int \<Rightarrow> int \<Rightarrow> real" where
  "rate_position input_rate output_rate n = of_int (n * input_rate) / of_int output_rate"

definition target_count :: "int \<Rightarrow> int \<Rightarrow> int \<Rightarrow> int" where
  "target_count input_rate output_rate frames = math_round (of_int (frames * output_rate) / of_int input_rate)"

text \<open>
  The loop of \<open>produce\<close> from output index \<open>n\<close> on. Both rates are positive for every accepted format
  (\<open>sample_rate_pos\<close>); the guard makes the recursion total without that.
\<close>

definition produces :: "resampler \<Rightarrow> bool \<Rightarrow> int \<Rightarrow> bool" where
  "produces rz finalize n \<longleftrightarrow>
     0 < rz_input_rate rz \<and> 0 < rz_output_rate rz \<and>
     (if finalize then n < target_count (rz_input_rate rz) (rz_output_rate rz) (rz_total rz)
      else rate_position (rz_input_rate rz) (rz_output_rate rz) n + real filter_half_width < of_int (rz_total rz))"

lemma produces_bound:
  assumes "produces rz finalize n"
  shows "n < max (target_count (rz_input_rate rz) (rz_output_rate rz) (rz_total rz)) (\<bar>rz_total rz\<bar> * rz_output_rate rz)"
proof (cases finalize)
  case False
  let ?i = "rz_input_rate rz" and ?o = "rz_output_rate rz"
  have pos: "1 \<le> ?i" "0 < ?o" and "of_int (n * ?i) / real_of_int ?o < of_int (rz_total rz)"
    using assms False by (auto simp: produces_def rate_position_def)
  then have "real_of_int (n * ?i) < of_int (rz_total rz * ?o)"
    by (simp add: pos_divide_less_eq)
  then have less: "n * ?i < rz_total rz * ?o" by linarith
  have "n < \<bar>rz_total rz\<bar> * ?o"
  proof (cases "0 \<le> n")
    case True
    then have "n * 1 \<le> n * ?i" using pos by (intro mult_left_mono) auto
    moreover have "rz_total rz * ?o \<le> \<bar>rz_total rz\<bar> * ?o" using pos by (intro mult_right_mono) auto
    ultimately show ?thesis using less by linarith
  next
    case False
    moreover have "0 \<le> \<bar>rz_total rz\<bar> * ?o" using pos by simp
    ultimately show ?thesis by linarith
  qed
  then show ?thesis by simp
qed (use assms in \<open>simp add: produces_def less_max_iff_disj\<close>)

function produce_from :: "resampler \<Rightarrow> bool \<Rightarrow> int \<Rightarrow> real list" where
  "produce_from rz finalize n =
     (if produces rz finalize n
      then sample_at rz (rate_position (rz_input_rate rz) (rz_output_rate rz) n) # produce_from rz finalize (n + 1)
      else [])"
  by pat_completeness auto
termination
  by (relation "measure (\<lambda>(rz, finalize, n).
      nat (max (target_count (rz_input_rate rz) (rz_output_rate rz) (rz_total rz)) (\<bar>rz_total rz\<bar> * rz_output_rate rz) - n))")
    (use produces_bound in force)+

declare produce_from.simps [simp del]

definition trim_buffer :: "resampler \<Rightarrow> resampler" where
  "trim_buffer rz =
     (let next_position = rate_position (rz_input_rate rz) (rz_output_rate rz) (rz_next rz);
          keep_from = max 0 (max (\<lfloor>next_position\<rfloor> - int filter_half_width - 2)
            (rz_total rz - int filter_half_width * 2 - 2));
          remove = keep_from - rz_start rz
      in if remove \<le> 0 then rz else rz\<lparr>rz_samples := drop (nat remove) (rz_samples rz), rz_start := keep_from\<rparr>)"

definition produce :: "bool \<Rightarrow> resampler \<Rightarrow> real list \<times> resampler" where
  "produce finalize rz =
     (if rz_total rz = 0 then ([], rz)
      else (let output = produce_from rz finalize (rz_next rz)
            in (output, trim_buffer (rz\<lparr>rz_next := rz_next rz + int (length output)\<rparr>))))"

section \<open>The normalizer\<close>

record normalizer =
  nz_input :: audio_format
  nz_output :: audio_format
  nz_policy :: channel_policy
  nz_resampler :: "resampler option"
  nz_finished :: bool
  nz_segment_finished :: bool

definition create_audio_normalizer :: "audio_format \<Rightarrow> audio_format option \<Rightarrow> channel_policy option \<Rightarrow> normalizer result" where
  "create_audio_normalizer input output policy =
     (let out = (case output of Some f \<Rightarrow> f
            | None \<Rightarrow> \<lparr>encoding = pcm_s16le, sampleRateHz = 16000, channels = 1, frameDurationMs = None\<rparr>);
          chosen = (case policy of Some p \<Rightarrow> p | None \<Rightarrow> Average)
      in rbind (validate_format input) (\<lambda>_. rbind (validate_output_format out) (\<lambda>_.
         if channels input = 2 \<and> chosen = OtherPolicy
         then Inl (audio_error ''audio.normalization.channel_policy_invalid'')
         else Inr \<lparr>nz_input = input, nz_output = out, nz_policy = chosen,
                nz_resampler = (if sampleRateHz input = sampleRateHz out then None
                  else Some (new_resampler (sampleRateHz input) (sampleRateHz out))),
                nz_finished = False, nz_segment_finished = False\<rparr>)))"

definition normalizer_push :: "8 word list \<Rightarrow> normalizer \<Rightarrow> 8 word list result \<times> normalizer" where
  "normalizer_push bytes nz =
     (if nz_finished nz then (Inl (audio_error ''audio.normalization.finished''), nz)
      else if length bytes mod frame_bytes (nz_input nz) \<noteq> 0
      then (Inl (audio_error ''audio.normalization.incomplete_frame''), nz)
      else if bytes = [] then (Inr [], nz)
      else if same_audio_format (nz_input nz) (nz_output nz) then (Inr bytes, nz)
      else (case decode_audio (nz_input nz) (nz_policy nz) bytes of
          Inl e \<Rightarrow> (Inl e, nz)
        | Inr samples \<Rightarrow>
            (case nz_resampler nz of
               None \<Rightarrow> (Inr (encode_samples samples), nz\<lparr>nz_segment_finished := False\<rparr>)
             | Some rz \<Rightarrow> (case produce False (resampler_push samples rz) of (output, rz') \<Rightarrow>
                 (Inr (encode_samples output), nz\<lparr>nz_segment_finished := False, nz_resampler := Some rz'\<rparr>)))))"

definition normalizer_finish_segment :: "normalizer \<Rightarrow> 8 word list result \<times> normalizer" where
  "normalizer_finish_segment nz =
     (if nz_finished nz then (Inl (audio_error ''audio.normalization.finished''), nz)
      else if nz_segment_finished nz then (Inr [], nz)
      else (case nz_resampler nz of
          None \<Rightarrow> (Inr [], nz\<lparr>nz_segment_finished := True\<rparr>)
        | Some rz \<Rightarrow> (case produce True rz of (output, rz') \<Rightarrow>
            (Inr (encode_samples output), nz\<lparr>nz_segment_finished := True, nz_resampler := Some rz'\<rparr>))))"

definition normalizer_finish :: "normalizer \<Rightarrow> 8 word list result \<times> normalizer" where
  "normalizer_finish nz =
     (if nz_finished nz then (Inr [], nz)
      else (case normalizer_finish_segment nz of
          (Inl e, nz') \<Rightarrow> (Inl e, nz')
        | (Inr tail, nz') \<Rightarrow> (Inr tail, nz'\<lparr>nz_finished := True\<rparr>)))"

section \<open>Positions\<close>

definition rates_ok :: "int \<Rightarrow> int \<Rightarrow> bool" where
  "rates_ok i out \<longleftrightarrow> 0 < i \<and> 0 < out \<and> i \<le> 6 * out"

lemma sample_rates_ok: "is_sample_rate_hz i \<Longrightarrow> is_sample_rate_hz out \<Longrightarrow> rates_ok i out"
  by (auto simp: is_sample_rate_hz_def rates_ok_def)

lemma position_mono: "rates_ok i out \<Longrightarrow> n \<le> m \<Longrightarrow> rate_position i out n \<le> rate_position i out m"
  by (auto simp: rate_position_def rates_ok_def intro!: divide_right_mono mult_right_mono)

lemma position_step: "rates_ok i out \<Longrightarrow> rate_position i out (n + 1) \<le> rate_position i out n + 6"
  by (simp add: rate_position_def rates_ok_def add_divide_distrib ring_distribs pos_divide_le_eq)

lemma position_zero [simp]: "rate_position i out 0 = 0"
  by (simp add: rate_position_def)

lemma position_nonneg: "rates_ok i out \<Longrightarrow> 0 \<le> n \<Longrightarrow> 0 \<le> rate_position i out n"
  using position_mono [of i out 0 n] by simp

lemma round_bounds: "of_int (math_round x) \<le> x + 1 / 2" "x - 1 / 2 < of_int (math_round x)"
  unfolding math_round_def by linarith+

lemma target_position:
  assumes "rates_ok i out"
  shows "rate_position i out (target_count i out t) \<le> of_int t + 3"
    and "of_int t - 3 \<le> rate_position i out (target_count i out t)"
proof -
  let ?x = "real_of_int (t * out) / of_int i"
  have pos: "0 < real_of_int i" "0 < real_of_int out" "real_of_int i \<le> 6 * of_int out"
    using assms by (auto simp: rates_ok_def simp flip: of_int_le_iff)
  have x: "?x * of_int i / of_int out = of_int t" using pos by simp
  have half: "1 / 2 * of_int i / real_of_int out \<le> 3" using pos by (simp add: pos_divide_le_eq)
  have p: "rate_position i out (target_count i out t) = of_int (math_round ?x) * of_int i / of_int out"
    by (simp add: rate_position_def target_count_def)
  have "of_int (math_round ?x) * of_int i / of_int out \<le> (?x + 1 / 2) * of_int i / real_of_int out"
    using round_bounds(1) [of ?x] pos by (intro divide_right_mono mult_right_mono) auto
  also have "\<dots> = of_int t + 1 / 2 * of_int i / of_int out" using x by (simp add: ring_distribs add_divide_distrib)
  finally show "rate_position i out (target_count i out t) \<le> of_int t + 3" using half p by simp
  have "of_int t - 1 / 2 * of_int i / of_int out = (?x - 1 / 2) * of_int i / real_of_int out"
    using x by (simp add: left_diff_distrib diff_divide_distrib)
  also have "\<dots> \<le> of_int (math_round ?x) * of_int i / of_int out"
    using round_bounds(2) [of ?x] pos by (intro divide_right_mono mult_right_mono) auto
  finally show "of_int t - 3 \<le> rate_position i out (target_count i out t)" using half p by simp
qed

text \<open>An output that needs no sample beyond the end is one of the final count.\<close>

lemma settled_below_target:
  assumes "rates_ok i out" and "rate_position i out n + 16 < of_int t"
  shows "n < target_count i out t"
proof -
  have pos: "0 < real_of_int i" "0 < real_of_int out" "real_of_int i \<le> 6 * of_int out"
    using assms by (auto simp: rates_ok_def simp flip: of_int_le_iff)
  have "real_of_int n < (of_int t - 16) * of_int out / of_int i"
    using assms(2) pos by (simp add: rate_position_def field_simps)
  also have "\<dots> = of_int (t * out) / of_int i - 16 * of_int out / of_int i" by (simp add: left_diff_distrib diff_divide_distrib)
  finally have "real_of_int n + 16 * of_int out / of_int i < of_int (t * out) / of_int i" by simp
  moreover have "2 \<le> 16 * of_int out / real_of_int i" using pos by (simp add: pos_le_divide_eq)
  ultimately have "real_of_int n + 1 < of_int (target_count i out t)"
    using round_bounds(2) [of "of_int (t * out) / of_int i"] unfolding target_count_def by linarith
  then show ?thesis by linarith
qed

lemma target_mono: "rates_ok i out \<Longrightarrow> t \<le> u \<Longrightarrow> target_count i out t \<le> target_count i out u"
  by (auto simp: target_count_def math_round_def rates_ok_def intro!: floor_mono divide_right_mono mult_right_mono)

lemma position_below_target:
  assumes "rates_ok i out" and "n < target_count i out t"
  shows "rate_position i out n < of_int t"
proof -
  have pos: "0 < real_of_int i" "0 < real_of_int out" using assms by (auto simp: rates_ok_def)
  have "real_of_int n \<le> of_int (target_count i out t) - 1" using assms(2) by linarith
  then have "real_of_int n < of_int (t * out) / of_int i"
    using round_bounds(1) [of "of_int (t * out) / of_int i"] by (simp add: target_count_def)
  then show ?thesis using pos by (simp add: rate_position_def field_simps)
qed

section \<open>The whole signal at once\<close>

definition clamped_read :: "real list \<Rightarrow> int \<Rightarrow> real" where
  "clamped_read xs i = (if xs = [] then 0 else xs ! nat (max 0 (min (int (length xs) - 1) i)))"

definition ideal_sample :: "int \<Rightarrow> int \<Rightarrow> real list \<Rightarrow> int \<Rightarrow> real" where
  "ideal_sample i out xs n =
     (let rz = new_resampler i out
      in filtered (clamped_read xs) (rz_phase_count rz) (rz_filters rz) (rate_position i out n))"

definition resample_whole :: "int \<Rightarrow> int \<Rightarrow> real list \<Rightarrow> real list" where
  "resample_whole i out xs = map (ideal_sample i out xs) [0 .. target_count i out (int (length xs)) - 1]"

lemma weigh_cong:
  assumes "\<And>j. j < length taps \<Longrightarrow> r (c + (k + int j - 15)) = r' (c + (k + int j - 15))"
  shows "weigh r c k taps w t = weigh r' c k taps w t"
  using assms
proof (induction taps arbitrary: k w t)
  case (Cons x taps)
  have "r (c + (k + 1 + int j - 15)) = r' (c + (k + 1 + int j - 15))" if "j < length taps" for j
    using Cons.prems [of "Suc j"] that by (simp add: algebra_simps)
  moreover have "r (c + (k - 15)) = r' (c + (k - 15))" using Cons.prems [of 0] by simp
  ultimately show ?case using Cons.IH [of "k + 1"] by (simp add: filter_half_width_def)
qed simp

lemma filtered_cong:
  assumes reads: "\<And>k. - 15 \<le> k \<Longrightarrow> k \<le> 16 \<Longrightarrow> r (\<lfloor>p\<rfloor> + k) = r' (\<lfloor>p\<rfloor> + k)" and taps: "\<forall>f \<in> set fs. length f = 32"
  shows "filtered r phases fs p = filtered r' phases fs p"
proof -
  have "weigh r \<lfloor>p\<rfloor> 0 f 0 0 = weigh r' \<lfloor>p\<rfloor> 0 f 0 0" if "f \<in> set fs \<or> f = []" for f
    using taps that by (intro weigh_cong reads) auto
  moreover have "(if b \<and> nat n < length fs then fs ! nat n else if fs = [] then [] else hd fs) \<in> set fs \<or>
      (if b \<and> nat n < length fs then fs ! nat n else if fs = [] then [] else hd fs) = []" for b n by auto
  moreover have "r \<lfloor>p\<rfloor> = r' \<lfloor>p\<rfloor>" using reads [of 0] by simp
  ultimately show ?thesis unfolding filtered_def Let_def split_beta by simp
qed

section \<open>The sliding buffer\<close>

text \<open>The resampler after it was given the samples \<open>xs\<close>: its buffer is the end of them.\<close>

definition represents :: "resampler \<Rightarrow> real list \<Rightarrow> bool" where
  "represents rz xs \<longleftrightarrow>
     (let i = rz_input_rate rz; out = rz_output_rate rz in
      rates_ok i out \<and> rz_phase_count rz = rz_phase_count (new_resampler i out)
      \<and> rz_filters rz = rz_filters (new_resampler i out)
      \<and> rz_total rz = int (length xs) \<and> rz_samples rz = drop (nat (rz_start rz)) xs
      \<and> 0 \<le> rz_start rz \<and> rz_start rz \<le> int (length xs) \<and> 0 \<le> rz_next rz
      \<and> rz_next rz \<le> target_count i out (int (length xs))
      \<and> rz_start rz \<le> max 0 (\<lfloor>rate_position i out (rz_next rz)\<rfloor> - 18))"

lemma new_resampler_rates [simp]:
  "rz_input_rate (new_resampler i out) = i" "rz_output_rate (new_resampler i out) = out"
  by (simp_all add: new_resampler_def Let_def)

lemma math_round_0 [simp]: "math_round 0 = 0"
  by (simp add: math_round_def)

lemma target_count_0 [simp]: "target_count i out 0 = 0"
  by (simp add: target_count_def)

lemma new_resampler_represents: "rates_ok i out \<Longrightarrow> represents (new_resampler i out) []"
  by (auto simp: represents_def Let_def) (simp_all add: new_resampler_def Let_def)

lemma filters_length: "\<forall>f \<in> set (rz_filters (new_resampler i out)). length f = 32"
  by (simp add: new_resampler_def make_filters_def filter_half_width_def Let_def)

lemma push_represents: "represents rz xs \<Longrightarrow> represents (resampler_push zs rz) (xs @ zs)"
  using target_mono [of "rz_input_rate rz" "rz_output_rate rz" "int (length xs)" "int (length xs) + int (length zs)"]
  by (auto simp: represents_def resampler_push_def Let_def)

lemma buffer_index:
  assumes "s \<le> c" "0 \<le> s" "c < int (length xs)"
  shows "(if c < s then x else if nat (c - s) < length (drop (nat s) xs) then drop (nat s) xs ! nat (c - s) else y)
    = xs ! nat c"
proof -
  have "nat (c - s) < length xs - nat s" "nat s + nat (c - s) = nat c" "nat s \<le> length xs" using assms by linarith+
  then show ?thesis using assms by simp
qed

lemma read_represents:
  assumes r: "represents rz xs" and n: "rz_next rz \<le> n"
    and pos: "rate_position (rz_input_rate rz) (rz_output_rate rz) n < of_int (rz_total rz)"
    and k: "\<lfloor>rate_position (rz_input_rate rz) (rz_output_rate rz) n\<rfloor> - 15 \<le> k"
  shows "read_sample rz k = clamped_read xs k"
proof -
  let ?p = "rate_position (rz_input_rate rz) (rz_output_rate rz)"
  have total: "rz_total rz = int (length xs)" and samples: "rz_samples rz = drop (nat (rz_start rz)) xs"
    and start: "0 \<le> rz_start rz" "rz_start rz \<le> max 0 (\<lfloor>?p (rz_next rz)\<rfloor> - 18)"
    and rates: "rates_ok (rz_input_rate rz) (rz_output_rate rz)"
    using r by (auto simp: represents_def Let_def)
  show ?thesis
  proof (cases "xs = []")
    case False
    let ?b = "max 0 (min (int (length xs) - 1) k)"
    have "?p (rz_next rz) \<le> ?p n" using position_mono [OF rates n] .
    then have "\<lfloor>?p (rz_next rz)\<rfloor> \<le> \<lfloor>?p n\<rfloor>" by (rule floor_mono)
    moreover have "\<lfloor>?p n\<rfloor> \<le> int (length xs) - 1" using pos total by linarith
    ultimately have b: "rz_start rz \<le> ?b" using start k by auto
    have "0 < int (length xs)" using False by simp
    then have below: "?b < int (length xs)" by linarith
    have nonempty: "int (length xs) \<noteq> 0" using False by simp
    show ?thesis
      unfolding read_sample_def clamped_read_def Let_def samples total if_not_P [OF nonempty] if_not_P [OF False]
      by (rule buffer_index [OF b start(1) below])
  qed (use total in \<open>simp add: read_sample_def clamped_read_def\<close>)
qed

lemma sample_represents:
  assumes r: "represents rz xs" and n: "rz_next rz \<le> n"
    and pos: "rate_position (rz_input_rate rz) (rz_output_rate rz) n < of_int (rz_total rz)"
  shows "sample_at rz (rate_position (rz_input_rate rz) (rz_output_rate rz) n)
    = ideal_sample (rz_input_rate rz) (rz_output_rate rz) xs n"
proof -
  have "rz_phase_count rz = rz_phase_count (new_resampler (rz_input_rate rz) (rz_output_rate rz))"
    "rz_filters rz = rz_filters (new_resampler (rz_input_rate rz) (rz_output_rate rz))"
    using r by (auto simp: represents_def Let_def)
  then show ?thesis unfolding sample_at_def ideal_sample_def Let_def
    using read_represents [OF r n pos] by (auto intro!: filtered_cong filters_length)
qed

text \<open>A settled output does not change when samples are appended.\<close>

lemma ideal_append:
  assumes rates: "rates_ok i out" and n: "0 \<le> n" and settled: "rate_position i out n + 16 < of_int (int (length xs))"
  shows "ideal_sample i out (xs @ zs) n = ideal_sample i out xs n"
proof -
  let ?p = "rate_position i out n"
  have "clamped_read (xs @ zs) (\<lfloor>?p\<rfloor> + k) = clamped_read xs (\<lfloor>?p\<rfloor> + k)" if "k \<le> 16" for k
  proof -
    have xs: "xs \<noteq> []" using settled position_nonneg [OF rates n] by auto
    have "\<lfloor>?p\<rfloor> + k \<le> int (length xs) - 1" using settled that by linarith
    then have "min (int (length xs) - 1) (\<lfloor>?p\<rfloor> + k) = \<lfloor>?p\<rfloor> + k"
      "min (int (length xs) + int (length zs) - 1) (\<lfloor>?p\<rfloor> + k) = \<lfloor>?p\<rfloor> + k"
      "nat (max 0 (\<lfloor>?p\<rfloor> + k)) < length xs" using length_greater_0_conv [of xs] xs by linarith+
    then show ?thesis using xs by (simp add: clamped_read_def nth_append)
  qed
  then show ?thesis unfolding ideal_sample_def Let_def by (intro filtered_cong filters_length) simp
qed

text \<open>The loop computes a run of ideal samples and stops at the first index it does not produce.\<close>

lemma produce_from_run:
  assumes "rz_next rz \<le> n" and "represents rz xs"
  shows "produce_from rz finalize n =
      map (ideal_sample (rz_input_rate rz) (rz_output_rate rz) xs) [n .. n + int (length (produce_from rz finalize n)) - 1]
    \<and> \<not> produces rz finalize (n + int (length (produce_from rz finalize n)))
    \<and> (\<forall>m. n \<le> m \<and> m < n + int (length (produce_from rz finalize n)) \<longrightarrow> produces rz finalize m)"
  using assms
proof (induction rz finalize n rule: produce_from.induct)
  case (1 rz finalize n)
  show ?case
  proof (cases "produces rz finalize n")
    case False
    then show ?thesis by (auto simp: produce_from.simps [of rz finalize n])
  next
    case True
    let ?rest = "produce_from rz finalize (n + 1)"
    let ?ideal = "ideal_sample (rz_input_rate rz) (rz_output_rate rz) xs"
    note IH = 1(1) [OF True _ 1(3)]
    have rates: "rates_ok (rz_input_rate rz) (rz_output_rate rz)" and total: "rz_total rz = int (length xs)"
      using 1(3) by (auto simp: represents_def Let_def)
    have "rate_position (rz_input_rate rz) (rz_output_rate rz) n < of_int (rz_total rz)"
    proof (cases finalize)
      case True
      then show ?thesis using \<open>produces rz finalize n\<close> position_below_target [OF rates, of n "rz_total rz"]
        by (simp add: produces_def)
    next
      case False
      then show ?thesis using \<open>produces rz finalize n\<close> by (simp add: produces_def filter_half_width_def)
    qed
    then have "sample_at rz (rate_position (rz_input_rate rz) (rz_output_rate rz) n) = ?ideal n"
      using sample_represents [OF 1(3,2)] by simp
    then have run: "produce_from rz finalize n = ?ideal n # ?rest"
      using True by (subst produce_from.simps) simp
    have next': "rz_next rz \<le> n + 1" using 1(2) by simp
    have "[n .. n + int (length (produce_from rz finalize n)) - 1] = n # [n + 1 .. n + 1 + int (length ?rest) - 1]"
      unfolding run by (subst upto.simps) simp
    moreover have "produces rz finalize m" if "n \<le> m" "m < n + int (length (produce_from rz finalize n))" for m
      using IH [OF next'] True that unfolding run by (cases "m = n") auto
    ultimately show ?thesis using IH [OF next'] unfolding run by (simp add: algebra_simps)
  qed
qed

lemma trim_represents:
  assumes rates: "rates_ok (rz_input_rate rz) (rz_output_rate rz)"
    and config: "rz_phase_count rz = rz_phase_count (new_resampler (rz_input_rate rz) (rz_output_rate rz))"
      "rz_filters rz = rz_filters (new_resampler (rz_input_rate rz) (rz_output_rate rz))"
    and total: "rz_total rz = int (length xs)" and samples: "rz_samples rz = drop (nat (rz_start rz)) xs"
    and start: "0 \<le> rz_start rz" "rz_start rz \<le> int (length xs)"
      "rz_start rz \<le> max 0 (\<lfloor>rate_position (rz_input_rate rz) (rz_output_rate rz) (rz_next rz)\<rfloor> - 18)"
    and nxt: "0 \<le> rz_next rz" "rz_next rz \<le> target_count (rz_input_rate rz) (rz_output_rate rz) (int (length xs))"
    and late: "of_int (rz_total rz) - 16 \<le> rate_position (rz_input_rate rz) (rz_output_rate rz) (rz_next rz)"
  shows "represents (trim_buffer rz) xs \<and> length (rz_samples (trim_buffer rz)) \<le> 34"
proof -
  let ?p = "rate_position (rz_input_rate rz) (rz_output_rate rz) (rz_next rz)"
  let ?keep = "max 0 (max (\<lfloor>?p\<rfloor> - 18) (rz_total rz - 34))"
  have "?p \<le> of_int (int (length xs)) + 3"
    using position_mono [OF rates nxt(2)] target_position(1) [OF rates, of "int (length xs)"] by linarith
  then have upper: "\<lfloor>?p\<rfloor> - 18 \<le> int (length xs)" by linarith
  have lower: "rz_total rz - 34 \<le> \<lfloor>?p\<rfloor> - 18" using late by linarith
  have keep: "?keep = max 0 (\<lfloor>?p\<rfloor> - 18)" using lower by linarith
  have trim_buffer: "trim_buffer rz = (if ?keep - rz_start rz \<le> 0 then rz
      else rz\<lparr>rz_samples := drop (nat (?keep - rz_start rz)) (rz_samples rz), rz_start := ?keep\<rparr>)"
    by (simp add: trim_buffer_def filter_half_width_def Let_def algebra_simps)
  have same: "?keep = rz_start rz" if "?keep - rz_start rz \<le> 0" using that start(3) keep by linarith
  have "rz_start (trim_buffer rz) = ?keep" unfolding trim_buffer using same by simp
  moreover have "rz_samples (trim_buffer rz) = drop (nat ?keep) xs"
  proof (cases "?keep - rz_start rz \<le> 0")
    case True
    then show ?thesis using same samples trim_buffer by simp
  next
    case False
    then have "nat (?keep - rz_start rz) + nat (rz_start rz) = nat ?keep" using start(1) by linarith
    then show ?thesis unfolding trim_buffer if_not_P [OF False] using samples by simp
  qed
  moreover have "rz_input_rate (trim_buffer rz) = rz_input_rate rz" "rz_output_rate (trim_buffer rz) = rz_output_rate rz"
    "rz_phase_count (trim_buffer rz) = rz_phase_count rz" "rz_filters (trim_buffer rz) = rz_filters rz"
    "rz_total (trim_buffer rz) = rz_total rz" "rz_next (trim_buffer rz) = rz_next rz" unfolding trim_buffer by simp_all
  moreover have "0 \<le> ?keep" "?keep \<le> int (length xs)" using upper unfolding keep by auto
  moreover have "int (length xs) - ?keep \<le> 34" using total by linarith
  ultimately show ?thesis using assms keep unfolding represents_def Let_def by simp
qed

text \<open>
  One run of the loop: it goes on from the next index, computes ideal samples, and the buffer that is
  left still represents the signal and is short.
\<close>

lemma produce_step:
  fixes rz xs finalize
  defines "i \<equiv> rz_input_rate rz" and "out \<equiv> rz_output_rate rz"
  assumes r: "represents rz xs" and p: "produce finalize rz = (ys, rz')"
  shows "represents rz' xs \<and> (xs \<noteq> [] \<longrightarrow> length (rz_samples rz') \<le> 34)
    \<and> rz_input_rate rz' = i \<and> rz_output_rate rz' = out \<and> rz_next rz \<le> rz_next rz'
    \<and> ys = map (ideal_sample i out xs) [rz_next rz .. rz_next rz' - 1]
    \<and> (if finalize then rz_next rz' = target_count i out (int (length xs))
       else rz_next rz' = rz_next rz \<or> rate_position i out (rz_next rz' - 1) + 16 < of_int (int (length xs)))"
proof (cases "xs = []")
  case True
  then have "rz_total rz = 0" "rz_next rz = 0" using r by (auto simp: represents_def Let_def)
  then show ?thesis using p r True by (auto simp: produce_def i_def out_def)
next
  case False
  let ?run = "produce_from rz finalize (rz_next rz)"
  let ?rz = "rz\<lparr>rz_next := rz_next rz + int (length ?run)\<rparr>"
  have rates: "rates_ok i out" and total: "rz_total rz = int (length xs)" and next0: "0 \<le> rz_next rz"
    and next1: "rz_next rz \<le> target_count i out (int (length xs))"
    using r by (auto simp: represents_def Let_def i_def out_def)
  have guard: "0 < i" "0 < out" using rates by (auto simp: rates_ok_def)
  have eq: "ys = ?run" "rz' = trim_buffer ?rz" using p False total by (auto simp: produce_def Let_def)
  note run = produce_from_run [OF order_refl r, of finalize, folded i_def out_def]
  have last_run: "produces rz finalize (rz_next rz + int (length ?run) - 1)" if "?run \<noteq> []"
    using run that by auto
  have target: "rz_next rz + int (length ?run) \<le> target_count i out (int (length xs))"
  proof (cases "?run = []")
    case False
    show ?thesis
    proof (cases finalize)
      case True
      then show ?thesis using last_run [OF False] total by (simp add: produces_def i_def out_def)
    next
      case no: False
      then have "rate_position i out (rz_next rz + int (length ?run) - 1) + 16 < of_int (int (length xs))"
        using last_run [OF False] total by (simp add: produces_def i_def out_def filter_half_width_def)
      from settled_below_target [OF rates this] show ?thesis by simp
    qed
  qed (use next1 in simp)
  have stop: "if finalize then rz_next rz + int (length ?run) = target_count i out (int (length xs))
      else of_int (int (length xs)) - 16 \<le> rate_position i out (rz_next rz + int (length ?run))"
    using run target guard total unfolding produces_def by (auto simp: i_def out_def filter_half_width_def)
  have late: "of_int (rz_total rz) - 16 \<le> rate_position i out (rz_next rz + int (length ?run))"
    using stop target_position(2) [OF rates, of "int (length xs)"] total by (auto split: if_splits)
  have start_ok: "rz_start rz \<le> max 0 (\<lfloor>rate_position i out (rz_next rz + int (length ?run))\<rfloor> - 18)"
  proof -
    have "\<lfloor>rate_position i out (rz_next rz)\<rfloor> \<le> \<lfloor>rate_position i out (rz_next rz + int (length ?run))\<rfloor>"
      using position_mono [OF rates] by (intro floor_mono) simp
    moreover have "rz_start rz \<le> max 0 (\<lfloor>rate_position i out (rz_next rz)\<rfloor> - 18)"
      using r by (simp add: represents_def Let_def i_def out_def)
    ultimately show ?thesis by linarith
  qed
  have rep: "represents (trim_buffer ?rz) xs" "length (rz_samples (trim_buffer ?rz)) \<le> 34"
    using r rates total next0 target late start_ok trim_represents [of ?rz xs]
    by (auto simp: represents_def Let_def i_def out_def)
  have trimmed: "rz_input_rate (trim_buffer ?rz) = i" "rz_output_rate (trim_buffer ?rz) = out"
    "rz_next (trim_buffer ?rz) = rz_next rz + int (length ?run)"
    by (simp_all add: trim_buffer_def Let_def i_def out_def)
  have ideal: "?run = map (ideal_sample i out xs) [rz_next rz .. rz_next rz + int (length ?run) - 1]"
    using run by blast
  have ended: "if finalize then rz_next rz + int (length ?run) = target_count i out (int (length xs))
      else rz_next rz + int (length ?run) = rz_next rz \<or>
        rate_position i out (rz_next rz + int (length ?run) - 1) + 16 < of_int (int (length xs))"
    using stop last_run total by (cases "?run = []") (auto simp: produces_def i_def out_def filter_half_width_def)
  show ?thesis unfolding eq trimmed using rep ideal ended by (intro conjI) (blast | simp)+
qed

text \<open>What was given to the resampler in pieces, and what it has put out before the end.\<close>

definition streaming :: "resampler \<Rightarrow> real list \<Rightarrow> real list \<Rightarrow> bool" where
  "streaming rz xs ys \<longleftrightarrow>
     represents rz xs
     \<and> ys = map (ideal_sample (rz_input_rate rz) (rz_output_rate rz) xs) [0 .. rz_next rz - 1]
     \<and> (rz_next rz = 0 \<or>
         rate_position (rz_input_rate rz) (rz_output_rate rz) (rz_next rz - 1) + 16 < of_int (int (length xs)))"

lemma new_resampler_streaming: "rates_ok i out \<Longrightarrow> streaming (new_resampler i out) [] []"
  using new_resampler_represents [of i out] by (auto simp: streaming_def) (auto simp: new_resampler_def Let_def)

lemma streaming_push:
  assumes "streaming rz xs ys"
  shows "streaming (resampler_push zs rz) (xs @ zs) ys"
proof -
  let ?i = "rz_input_rate rz" and ?o = "rz_output_rate rz"
  have rates: "rates_ok ?i ?o" using assms by (simp add: streaming_def represents_def Let_def)
  have "ideal_sample ?i ?o (xs @ zs) n = ideal_sample ?i ?o xs n" if "n \<in> set [0 .. rz_next rz - 1]" for n
  proof (rule ideal_append [OF rates])
    have n: "0 \<le> n" "n \<le> rz_next rz - 1" using that by auto
    then show "0 \<le> n" by simp
    have "rate_position ?i ?o (rz_next rz - 1) + 16 < of_int (int (length xs))"
      using assms n by (auto simp: streaming_def)
    then show "rate_position ?i ?o n + 16 < of_int (int (length xs))"
      using position_mono [OF rates n(2)] by linarith
  qed
  then show ?thesis using assms push_represents [of rz xs zs]
    by (auto simp: streaming_def resampler_push_def intro: map_cong)
qed

lemma upto_join: "0 \<le> a \<Longrightarrow> a \<le> b \<Longrightarrow> [0 .. b - 1] = [0 .. a - 1] @ [a .. b - (1 :: int)]"
  using upto_split2 [of 0 "a - 1" "b - 1"] by (cases "a = 0") auto

lemma streaming_produce:
  assumes "streaming rz xs ys" and "produce False rz = (zs, rz')"
  shows "streaming rz' xs (ys @ zs)"
proof -
  have r: "represents rz xs" using assms by (simp add: streaming_def)
  then have "0 \<le> rz_next rz" by (simp add: represents_def Let_def)
  moreover note produce_step [OF r assms(2)]
  moreover from this have "[0 .. rz_next rz' - 1] = [0 .. rz_next rz - 1] @ [rz_next rz .. rz_next rz' - 1]"
    using \<open>0 \<le> rz_next rz\<close> upto_join by blast
  ultimately show ?thesis using assms(1) by (auto simp: streaming_def)
qed

lemma streaming_finish:
  assumes "streaming rz xs ys" and "produce True rz = (zs, rz')"
  shows "ys @ zs = resample_whole (rz_input_rate rz) (rz_output_rate rz) xs"
proof -
  have r: "represents rz xs" using assms by (simp add: streaming_def)
  then have "0 \<le> rz_next rz" by (simp add: represents_def Let_def)
  moreover note produce_step [OF r assms(2)]
  moreover from this have "[0 .. rz_next rz' - 1] = [0 .. rz_next rz - 1] @ [rz_next rz .. rz_next rz' - 1]"
    using \<open>0 \<le> rz_next rz\<close> upto_join by blast
  ultimately show ?thesis using assms(1) by (auto simp: streaming_def resample_whole_def)
qed

section \<open>Bytes\<close>

lemma decode_append:
  assumes "length a mod frame_bytes f = 0" and "0 < frame_bytes f"
  shows "decode_audio f policy (a @ b) =
    rbind (decode_audio f policy a) (\<lambda>xs. rbind (decode_audio f policy b) (\<lambda>ys. Inr (xs @ ys)))"
  using assms
proof (induction f policy a rule: decode_audio.induct)
  case (1 f policy a)
  show ?case
  proof (cases "a = []")
    case True
    then show ?thesis using 1(3) by (subst (2) decode_audio.simps) (simp add: rbind_def split: sum.split)
  next
    case False
    then have long: "frame_bytes f \<le> length a" using 1(2) by (metis length_0_conv mod_less not_less)
    then have "length (drop (frame_bytes f) a) mod frame_bytes f = 0" using 1(2) by (simp add: le_mod_geq)
    note IH = 1(1) [OF conjI [OF 1(3) long] _ this 1(3)]
    show ?thesis
    proof (cases "decode_frame f policy (take (frame_bytes f) a)")
      case None
      then show ?thesis using long 1(3)
        by (subst decode_audio.simps, subst (2) decode_audio.simps) (simp add: rbind_def)
    next
      case (Some v)
      then show ?thesis using long 1(3) IH [OF Some]
        by (subst decode_audio.simps, subst (2) decode_audio.simps) (simp add: rbind_def split: sum.split)
    qed
  qed
qed

lemma encode_append [simp]: "encode_samples (xs @ ys) = encode_samples xs @ encode_samples ys"
  by (simp add: encode_samples_def)

lemma encode_Nil [simp]: "encode_samples [] = []"
  by (simp add: encode_samples_def)

lemma encode_length [simp]: "length (encode_samples xs) = 2 * length xs"
  by (induction xs) (simp_all add: encode_samples_def encode_sample_def set_int16_le_def Let_def)

section \<open>Chunks\<close>

fun feed :: "8 word list list \<Rightarrow> normalizer \<Rightarrow> 8 word list result \<times> normalizer" where
  "feed [] nz = (Inr [], nz)"
| "feed (c # cs) nz =
     (case normalizer_push c nz of
        (Inl e, nz') \<Rightarrow> (Inl e, nz')
      | (Inr out, nz') \<Rightarrow>
          (case feed cs nz' of
             (Inl e, nz'') \<Rightarrow> (Inl e, nz'')
           | (Inr outs, nz'') \<Rightarrow> (Inr (out @ outs), nz'')))"

definition accepted :: "normalizer \<Rightarrow> bool" where
  "accepted nz \<longleftrightarrow>
     is_sample_rate_hz (sampleRateHz (nz_input nz)) \<and> is_sample_rate_hz (sampleRateHz (nz_output nz))
     \<and> (channels (nz_input nz) = 1 \<or> channels (nz_input nz) = 2)"

lemma validate_format_Inr [simp]:
  "validate_format f = Inr u \<longleftrightarrow> is_sample_rate_hz (sampleRateHz f) \<and> (channels f = 1 \<or> channels f = 2)"
  by (auto simp: validate_format_def)

lemma validate_output_format_Inr [simp]:
  "validate_output_format f = Inr u \<longleftrightarrow> is_sample_rate_hz (sampleRateHz f) \<and> encoding f = pcm_s16le \<and> channels f = 1"
  by (cases "validate_format f") (auto simp: validate_output_format_def validate_format_def split: if_splits)

lemma create_accepted:
  assumes "create_audio_normalizer input out policy = Inr nz"
  shows "accepted nz \<and> nz_input nz = input \<and> \<not> nz_finished nz \<and> \<not> nz_segment_finished nz
    \<and> nz_resampler nz = (if sampleRateHz input = sampleRateHz (nz_output nz) then None
        else Some (new_resampler (sampleRateHz input) (sampleRateHz (nz_output nz))))"
  using assms unfolding create_audio_normalizer_def Let_def
  by (cases "channels input = 2 \<and> (case policy of Some p \<Rightarrow> p | None \<Rightarrow> Average) = OtherPolicy")
    (simp_all only: rbind_eq_Inr if_True if_False validate_format_Inr validate_output_format_Inr, auto simp: accepted_def)

lemma accepted_frame_bytes: "accepted nz \<Longrightarrow> 0 < frame_bytes (nz_input nz)"
  by (auto simp: accepted_def frame_bytes_def sample_bytes_def)

definition converts :: "normalizer \<Rightarrow> bool" where
  "converts nz \<longleftrightarrow> sampleRateHz (nz_input nz) \<noteq> sampleRateHz (nz_output nz)"

text \<open>The state after some bytes were pushed, and what was put out.\<close>

definition normalizing :: "normalizer \<Rightarrow> 8 word list \<Rightarrow> 8 word list \<Rightarrow> bool" where
  "normalizing nz bytes put \<longleftrightarrow>
     accepted nz \<and> \<not> nz_finished nz \<and> \<not> nz_segment_finished nz
     \<and> (if same_audio_format (nz_input nz) (nz_output nz) then put = bytes \<and> nz_resampler nz = None
        else (\<exists>xs. decode_audio (nz_input nz) (nz_policy nz) bytes = Inr xs
          \<and> (case nz_resampler nz of
               None \<Rightarrow> \<not> converts nz \<and> put = encode_samples xs
             | Some rz \<Rightarrow> converts nz \<and> rz_input_rate rz = sampleRateHz (nz_input nz)
                 \<and> rz_output_rate rz = sampleRateHz (nz_output nz)
                 \<and> (\<exists>ys. streaming rz xs ys \<and> put = encode_samples ys))))"

lemma decode_Nil [simp]: "decode_audio f policy [] = Inr []"
  by (subst decode_audio.simps) auto

lemma create_normalizing:
  assumes "create_audio_normalizer input out policy = Inr nz"
  shows "normalizing nz [] []"
  using create_accepted [OF assms] new_resampler_streaming [OF sample_rates_ok]
  by (auto simp: normalizing_def converts_def accepted_def same_audio_format_def intro!: exI [of _ "[] :: real list"])

lemma push_normalizing:
  assumes n: "normalizing nz bytes put" and full: "length bytes mod frame_bytes (nz_input nz) = 0"
    "length c mod frame_bytes (nz_input nz) = 0"
    and decoded: "decode_audio (nz_input nz) (nz_policy nz) c = Inr zs"
  shows "\<exists>out nz'. normalizer_push c nz = (Inr out, nz') \<and> normalizing nz' (bytes @ c) (put @ out)
    \<and> nz_input nz' = nz_input nz \<and> nz_output nz' = nz_output nz \<and> nz_policy nz' = nz_policy nz"
proof -
  let ?decode = "decode_audio (nz_input nz) (nz_policy nz)"
  have acc: "accepted nz" and open_nz: "\<not> nz_finished nz" "\<not> nz_segment_finished nz"
    using n by (auto simp: normalizing_def)
  have append: "?decode (bytes @ c) = rbind (?decode bytes) (\<lambda>xs. Inr (xs @ zs))"
    using decode_append [OF full(1) accepted_frame_bytes [OF acc], of "nz_policy nz" c] decoded by simp
  consider (none) "c = []" | (direct) "c \<noteq> []" "same_audio_format (nz_input nz) (nz_output nz)"
    | (plain) xs where "c \<noteq> []" "\<not> same_audio_format (nz_input nz) (nz_output nz)" "nz_resampler nz = None"
        "?decode bytes = Inr xs" "put = encode_samples xs" "\<not> converts nz"
    | (rates) rz xs ys where "c \<noteq> []" "\<not> same_audio_format (nz_input nz) (nz_output nz)" "nz_resampler nz = Some rz"
        "?decode bytes = Inr xs" "streaming rz xs ys" "put = encode_samples ys" "converts nz"
        "rz_input_rate rz = sampleRateHz (nz_input nz)" "rz_output_rate rz = sampleRateHz (nz_output nz)"
    using n by (cases "c = []"; cases "same_audio_format (nz_input nz) (nz_output nz)"; cases "nz_resampler nz")
      (auto simp: normalizing_def)
  then show ?thesis
  proof cases
    case none
    then show ?thesis using n open_nz full by (simp add: normalizer_push_def)
  next
    case direct
    then show ?thesis using n open_nz full by (simp add: normalizer_push_def normalizing_def)
  next
    case plain
    then show ?thesis using n open_nz full decoded append
      by (simp add: normalizer_push_def normalizing_def accepted_def converts_def)
  next
    case rates
    obtain os rz' where p: "produce False (resampler_push zs rz) = (os, rz')" by fastforce
    note stream = streaming_produce [OF streaming_push [OF rates(5)] p]
    have "represents (resampler_push zs rz) (xs @ zs)" using streaming_push [OF rates(5), of zs] by (simp add: streaming_def)
    from produce_step [OF this p] have "rz_input_rate rz' = rz_input_rate rz" "rz_output_rate rz' = rz_output_rate rz"
      by (simp_all add: resampler_push_def)
    then show ?thesis using open_nz full decoded append rates p stream acc
      by (auto simp: normalizer_push_def normalizing_def accepted_def converts_def)
  qed
qed

lemma feed_normalizing:
  assumes "normalizing nz bytes put" and "length bytes mod frame_bytes (nz_input nz) = 0"
    and "\<forall>c \<in> set chunks. length c mod frame_bytes (nz_input nz) = 0"
    and "\<forall>c \<in> set chunks. is_ok (decode_audio (nz_input nz) (nz_policy nz) c)"
  shows "\<exists>outs nz'. feed chunks nz = (Inr outs, nz') \<and> normalizing nz' (bytes @ concat chunks) (put @ outs)
    \<and> nz_input nz' = nz_input nz \<and> nz_output nz' = nz_output nz \<and> nz_policy nz' = nz_policy nz"
  using assms
proof (induction chunks arbitrary: nz bytes put)
  case (Cons c chunks)
  obtain zs where zs: "decode_audio (nz_input nz) (nz_policy nz) c = Inr zs" using Cons.prems(4) by (auto simp: is_ok_iff)
  have c: "length c mod frame_bytes (nz_input nz) = 0" using Cons.prems(3) by simp
  from push_normalizing [OF Cons.prems(1,2) c zs] obtain out nz' where
    p: "normalizer_push c nz = (Inr out, nz')" "normalizing nz' (bytes @ c) (put @ out)"
      "nz_input nz' = nz_input nz" "nz_output nz' = nz_output nz" "nz_policy nz' = nz_policy nz" by blast
  have "length (bytes @ c) mod frame_bytes (nz_input nz') = 0" using Cons.prems(2) c p(3) by (simp add: mod_add_eq [symmetric])
  from Cons.IH [OF p(2) this] Cons.prems(3,4) p(3,5) obtain outs nz'' where
    q: "feed chunks nz' = (Inr outs, nz'')" "normalizing nz'' ((bytes @ c) @ concat chunks) ((put @ out) @ outs)"
      "nz_input nz'' = nz_input nz'" "nz_output nz'' = nz_output nz'" "nz_policy nz'' = nz_policy nz'" by auto
  then show ?case using p by simp
qed simp

lemma decode_concat_ok:
  assumes "\<forall>c \<in> set chunks. length c mod frame_bytes f = 0" and "0 < frame_bytes f"
    and "is_ok (decode_audio f policy (concat chunks))"
  shows "\<forall>c \<in> set chunks. is_ok (decode_audio f policy c)"
  using assms
proof (induction chunks)
  case (Cons c chunks)
  then have "length c mod frame_bytes f = 0" by simp
  from decode_append [OF this Cons.prems(2), of policy "concat chunks"] Cons show ?case
    by (cases "decode_audio f policy c"; cases "decode_audio f policy (concat chunks)") simp_all
qed simp

definition normalized :: "audio_format \<Rightarrow> audio_format \<Rightarrow> 8 word list \<Rightarrow> real list \<Rightarrow> 8 word list" where
  "normalized input out bytes samples =
     (if same_audio_format input out then bytes
      else if sampleRateHz input = sampleRateHz out then encode_samples samples
      else encode_samples (resample_whole (sampleRateHz input) (sampleRateHz out) samples))"

lemma finish_normalizing:
  assumes n: "normalizing nz bytes put" and decoded: "decode_audio (nz_input nz) (nz_policy nz) bytes = Inr samples"
  shows "\<exists>tail nz'. normalizer_finish nz = (Inr tail, nz')
    \<and> put @ tail = normalized (nz_input nz) (nz_output nz) bytes samples"
proof (cases "nz_resampler nz")
  case None
  then show ?thesis using n decoded
    by (auto simp: normalizing_def normalizer_finish_def normalizer_finish_segment_def normalized_def converts_def split: if_splits)
next
  case (Some rz)
  then obtain ys where s: "streaming rz samples ys" "put = encode_samples ys" "converts nz"
      "rz_input_rate rz = sampleRateHz (nz_input nz)" "rz_output_rate rz = sampleRateHz (nz_output nz)"
      "\<not> same_audio_format (nz_input nz) (nz_output nz)"
    using n decoded by (auto simp: normalizing_def split: if_splits)
  obtain zs rz' where p: "produce True rz = (zs, rz')" by fastforce
  from streaming_finish [OF s(1) p] have "encode_samples ys @ encode_samples zs
      = encode_samples (resample_whole (rz_input_rate rz) (rz_output_rate rz) samples)"
    by (simp flip: encode_append)
  then show ?thesis using n Some s p
    by (auto simp: normalizing_def normalizer_finish_def normalizer_finish_segment_def normalized_def converts_def)
qed

text \<open>
  Property C4: however the bytes of a stream are cut into chunks of whole frames, the chunks and the
  end of the stream put out together exactly what one conversion of the whole signal gives: nothing
  at all is changed when the formats agree, every sample is converted when the rates agree, and
  otherwise the whole signal is resampled at once, although the normalizer only ever keeps its end.
\<close>

theorem chunking_is_invisible:
  assumes "create_audio_normalizer input out policy = Inr nz"
    and "\<forall>c \<in> set chunks. length c mod frame_bytes input = 0"
    and "decode_audio input (nz_policy nz) (concat chunks) = Inr samples"
  shows "\<exists>outs nz' tail nz''. feed chunks nz = (Inr outs, nz') \<and> normalizer_finish nz' = (Inr tail, nz'')
    \<and> outs @ tail = normalized input (nz_output nz) (concat chunks) samples"
proof -
  have nz: "accepted nz" "nz_input nz = input" using create_accepted [OF assms(1)] by auto
  have "\<forall>c \<in> set chunks. is_ok (decode_audio input (nz_policy nz) c)"
    using decode_concat_ok [OF assms(2)] accepted_frame_bytes [OF nz(1)] assms(3) nz(2) by simp
  then obtain outs nz' where "feed chunks nz = (Inr outs, nz')" "normalizing nz' (concat chunks) outs"
      "nz_input nz' = input" "nz_output nz' = nz_output nz" "nz_policy nz' = nz_policy nz"
    using feed_normalizing [OF create_normalizing [OF assms(1)], of chunks] assms(2) nz(2) by auto
  then show ?thesis using finish_normalizing [of nz' "concat chunks" outs samples] assms(3) by auto
qed

lemma decode_length:
  "decode_audio f policy bytes = Inr xs \<Longrightarrow> 0 < frame_bytes f \<Longrightarrow> length xs = length bytes div frame_bytes f"
proof (induction f policy bytes arbitrary: xs rule: decode_audio.induct)
  case (1 f policy bytes)
  show ?case
  proof (cases "frame_bytes f \<le> length bytes")
    case True
    then obtain v ys where "decode_frame f policy (take (frame_bytes f) bytes) = Some v"
        "decode_audio f policy (drop (frame_bytes f) bytes) = Inr ys" "xs = v # ys"
      using 1(2,3) by (subst (asm) decode_audio.simps) (auto split: option.splits sum.splits)
    then show ?thesis using 1(1) [of v ys] 1(3) True by (simp add: le_div_geq)
  next
    case False
    then show ?thesis using 1(2) by (subst (asm) decode_audio.simps) simp
  qed
qed

section \<open>Segments\<close>

datatype stream_call = PushBytes "8 word list" | FinishSegment

fun normalizer_call :: "stream_call \<Rightarrow> normalizer \<Rightarrow> 8 word list result \<times> normalizer" where
  "normalizer_call (PushBytes bytes) nz = normalizer_push bytes nz"
| "normalizer_call FinishSegment nz = normalizer_finish_segment nz"

fun run_calls :: "stream_call list \<Rightarrow> normalizer \<Rightarrow> 8 word list result \<times> normalizer" where
  "run_calls [] nz = (Inr [], nz)"
| "run_calls (c # cs) nz =
     (case normalizer_call c nz of
        (Inl e, nz') \<Rightarrow> (Inl e, nz')
      | (Inr out, nz') \<Rightarrow>
          (case run_calls cs nz' of
             (Inl e, nz'') \<Rightarrow> (Inl e, nz'')
           | (Inr outs, nz'') \<Rightarrow> (Inr (out @ outs), nz'')))"

fun call_ok :: "audio_format \<Rightarrow> channel_policy \<Rightarrow> stream_call \<Rightarrow> bool" where
  "call_ok f policy (PushBytes bytes) \<longleftrightarrow> length bytes mod frame_bytes f = 0 \<and> is_ok (decode_audio f policy bytes)"
| "call_ok f policy FinishSegment \<longleftrightarrow> True"

fun call_frames :: "audio_format \<Rightarrow> stream_call \<Rightarrow> nat" where
  "call_frames f (PushBytes bytes) = length bytes div frame_bytes f"
| "call_frames f FinishSegment = 0"

definition counting :: "normalizer \<Rightarrow> nat \<Rightarrow> 8 word list \<Rightarrow> bool" where
  "counting nz frames put \<longleftrightarrow>
     accepted nz \<and> \<not> nz_finished nz \<and> converts nz \<and>
     (\<exists>rz xs. nz_resampler nz = Some rz \<and> represents rz xs \<and> length xs = frames
       \<and> rz_input_rate rz = sampleRateHz (nz_input nz) \<and> rz_output_rate rz = sampleRateHz (nz_output nz)
       \<and> length put = 2 * nat (rz_next rz) \<and> length (rz_samples rz) \<le> 34
       \<and> (nz_segment_finished nz \<longrightarrow>
           rz_next rz = target_count (sampleRateHz (nz_input nz)) (sampleRateHz (nz_output nz)) (int frames)))"

lemma produce_empty: "represents rz [] \<Longrightarrow> produce finalize rz = (ys, rz') \<Longrightarrow> ys = [] \<and> rz' = rz"
  by (auto simp: produce_def represents_def Let_def)

lemma produce_counting:
  assumes r: "represents rz xs" and short: "xs = [] \<Longrightarrow> length (rz_samples rz) \<le> 34" and p: "produce finalize rz = (ys, rz')"
    and put: "length put = 2 * nat (rz_next rz)"
  shows "length (put @ encode_samples ys) = 2 * nat (rz_next rz') \<and> length (rz_samples rz') \<le> 34"
proof -
  have "0 \<le> rz_next rz" using r by (simp add: represents_def Let_def)
  then show ?thesis using produce_step [OF r p] put produce_empty [of rz finalize ys rz'] r p short
    by (cases "xs = []") (auto simp: nat_add_distrib [symmetric])
qed

lemma call_counting:
  assumes c: "counting nz frames put" and ok: "call_ok (nz_input nz) (nz_policy nz) call"
  shows "\<exists>out nz'. normalizer_call call nz = (Inr out, nz') \<and> counting nz' (frames + call_frames (nz_input nz) call) (put @ out)
    \<and> nz_input nz' = nz_input nz \<and> nz_output nz' = nz_output nz \<and> nz_policy nz' = nz_policy nz
    \<and> (call = FinishSegment \<longrightarrow> length (put @ out) =
        2 * nat (target_count (sampleRateHz (nz_input nz)) (sampleRateHz (nz_output nz)) (int frames)))"
proof -
  let ?i = "sampleRateHz (nz_input nz)" and ?o = "sampleRateHz (nz_output nz)"
  obtain rz xs where acc: "accepted nz" "\<not> nz_finished nz" "converts nz" and rz: "nz_resampler nz = Some rz" "represents rz xs"
      "length xs = frames" "rz_input_rate rz = ?i" "rz_output_rate rz = ?o" "length put = 2 * nat (rz_next rz)"
      "length (rz_samples rz) \<le> 34" "nz_segment_finished nz \<longrightarrow> rz_next rz = target_count ?i ?o (int frames)"
    using c by (auto simp: counting_def)
  have differ: "\<not> same_audio_format (nz_input nz) (nz_output nz)"
    using acc(3) by (simp add: converts_def same_audio_format_def)
  show ?thesis
  proof (cases call)
    case (PushBytes bytes)
    show ?thesis
    proof (cases "bytes = []")
      case True
      then show ?thesis using PushBytes c acc by (auto simp: normalizer_push_def)
    next
      case False
      obtain zs where zs: "decode_audio (nz_input nz) (nz_policy nz) bytes = Inr zs"
        using ok PushBytes by (auto simp: is_ok_iff)
      obtain ys rz' where p: "produce False (resampler_push zs rz) = (ys, rz')" by fastforce
      have frames: "length zs = call_frames (nz_input nz) call" "0 < length zs"
        using decode_length [OF zs accepted_frame_bytes [OF acc(1)]] ok False accepted_frame_bytes [OF acc(1)]
        by (auto simp: PushBytes div_greater_zero_iff dest: dvd_imp_le)
      have r: "represents (resampler_push zs rz) (xs @ zs)" using push_represents rz(2) by blast
      have "length (put @ encode_samples ys) = 2 * nat (rz_next rz') \<and> length (rz_samples rz') \<le> 34"
        using produce_counting [OF r _ p, of put] frames(2) rz(6) by (auto simp: resampler_push_def)
      moreover have "represents rz' (xs @ zs)" "rz_input_rate rz' = ?i" "rz_output_rate rz' = ?o"
        using produce_step [OF r p] rz(4,5) by (simp_all add: resampler_push_def)
      moreover have "normalizer_call call nz =
          (Inr (encode_samples ys), nz\<lparr>nz_segment_finished := False, nz_resampler := Some rz'\<rparr>)"
        using PushBytes ok False acc(2) differ zs rz(1) p by (simp add: normalizer_push_def)
      ultimately show ?thesis using acc rz(3) frames(1)
        by (auto simp: counting_def accepted_def converts_def PushBytes intro!: exI [of _ "xs @ zs"])
    qed
  next
    case FinishSegment
    show ?thesis
    proof (cases "nz_segment_finished nz")
      case True
      then show ?thesis using FinishSegment c acc(2) rz(6,8) by (simp add: normalizer_finish_segment_def)
    next
      case False
      obtain ys rz' where p: "produce True rz = (ys, rz')" by fastforce
      have count: "length (put @ encode_samples ys) = 2 * nat (rz_next rz') \<and> length (rz_samples rz') \<le> 34"
        using produce_counting [OF rz(2) rz(7) p rz(6)] .
      moreover have "represents rz' xs" "rz_input_rate rz' = ?i" "rz_output_rate rz' = ?o"
        "rz_next rz' = target_count ?i ?o (int frames)"
        using produce_step [OF rz(2) p] rz(3,4,5) by simp_all
      moreover have "normalizer_call call nz =
          (Inr (encode_samples ys), nz\<lparr>nz_segment_finished := True, nz_resampler := Some rz'\<rparr>)"
        using FinishSegment False acc(2) rz(1) p by (simp add: normalizer_finish_segment_def)
      ultimately show ?thesis using acc rz(3)
        by (auto simp: counting_def accepted_def converts_def FinishSegment)
    qed
  qed
qed

lemma run_counting:
  assumes "counting nz frames put" and "\<forall>c \<in> set calls. call_ok (nz_input nz) (nz_policy nz) c"
  shows "\<exists>outs nz'. run_calls calls nz = (Inr outs, nz')
    \<and> counting nz' (frames + (\<Sum>c \<leftarrow> calls. call_frames (nz_input nz) c)) (put @ outs)
    \<and> nz_input nz' = nz_input nz \<and> nz_output nz' = nz_output nz \<and> nz_policy nz' = nz_policy nz"
  using assms
proof (induction calls arbitrary: nz frames put)
  case (Cons c calls)
  have ok: "call_ok (nz_input nz) (nz_policy nz) c" using Cons.prems(2) by simp
  from call_counting [OF Cons.prems(1) ok] obtain out nz' where
    p: "normalizer_call c nz = (Inr out, nz')" "counting nz' (frames + call_frames (nz_input nz) c) (put @ out)"
      "nz_input nz' = nz_input nz" "nz_output nz' = nz_output nz" "nz_policy nz' = nz_policy nz" by blast
  from Cons.IH [OF p(2)] Cons.prems(2) p(3,5) obtain outs nz'' where
    "run_calls calls nz' = (Inr outs, nz'')"
    "counting nz'' ((frames + call_frames (nz_input nz) c) + (\<Sum>c \<leftarrow> calls. call_frames (nz_input nz) c)) ((put @ out) @ outs)"
    "nz_input nz'' = nz_input nz'" "nz_output nz'' = nz_output nz'" "nz_policy nz'' = nz_policy nz'" by auto
  then show ?case using p by (simp add: algebra_simps)
qed simp

text \<open>
  Converting between rates does not drift: whatever chunks and segment ends there were,
  at the end of a segment the samples put out since the stream began are the input frames times the
  ratio of the rates, rounded once, and at any time the resampler keeps at most 34 samples.
\<close>

theorem segments_do_not_drift:
  assumes "create_audio_normalizer input out policy = Inr nz" and "sampleRateHz input \<noteq> sampleRateHz (nz_output nz)"
    and "\<forall>c \<in> set calls. call_ok input (nz_policy nz) c"
  shows "\<exists>outs nz' tail nz''. run_calls calls nz = (Inr outs, nz') \<and> normalizer_finish_segment nz' = (Inr tail, nz'')
    \<and> length (outs @ tail) = 2 * nat (math_round (of_int (int (\<Sum>c \<leftarrow> calls. call_frames input c) * sampleRateHz (nz_output nz))
        / of_int (sampleRateHz input)))
    \<and> (\<exists>rz. nz_resampler nz' = Some rz \<and> length (rz_samples rz) \<le> 34)"
proof -
  note nz = create_accepted [OF assms(1)]
  have rep: "represents (new_resampler (sampleRateHz input) (sampleRateHz (nz_output nz))) []"
    using nz sample_rates_ok by (intro new_resampler_represents) (auto simp: accepted_def)
  have "counting nz 0 []"
    unfolding counting_def converts_def using nz assms(2) rep
    by (auto intro!: exI [of _ "[] :: real list"] simp: represents_def Let_def)
  from run_counting [OF this, of calls] assms(3) nz obtain outs nz' where
    run: "run_calls calls nz = (Inr outs, nz')" "counting nz' (\<Sum>c \<leftarrow> calls. call_frames input c) outs"
      "nz_input nz' = input" "nz_output nz' = nz_output nz" by auto
  from call_counting [OF run(2), of FinishSegment] obtain tail nz'' where
    "normalizer_finish_segment nz' = (Inr tail, nz'')"
    "length (outs @ tail) = 2 * nat (target_count (sampleRateHz input) (sampleRateHz (nz_output nz)) (int (\<Sum>c \<leftarrow> calls. call_frames input c)))"
    using run(3,4) by auto
  moreover have "\<exists>rz. nz_resampler nz' = Some rz \<and> length (rz_samples rz) \<le> 34" using run(2) by (auto simp: counting_def)
  ultimately show ?thesis using run(1) unfolding target_count_def by blast
qed

section \<open>Concrete streams\<close>

definition mono16 :: "int \<Rightarrow> audio_format" where
  "mono16 r = \<lparr>encoding = pcm_s16le, sampleRateHz = r, channels = 1, frameDurationMs = None\<rparr>"

lemma mono16_frame_bytes [simp]: "frame_bytes (mono16 r) = 2"
  by (simp add: mono16_def frame_bytes_def sample_bytes_def)

lemma mono16_decodes: "is_ok (decode_audio (mono16 r) Average [a, b])"
  by (simp add: decode_audio.simps decode_frame_def mono16_def sample_bytes_def frame_bytes_def)

lemma mono16_create:
  "\<exists>nz. create_audio_normalizer (mono16 8000) None None = Inr nz \<and> nz_policy nz = Average \<and> sampleRateHz (nz_output nz) = 16000
    \<and> channels (nz_output nz) = 1 \<and> encoding (nz_output nz) = pcm_s16le"
  by (simp add: create_audio_normalizer_def mono16_def rbind_def validate_format_def validate_output_format_def is_sample_rate_hz_def)

theorem segments_do_not_drift_witness:
  "\<exists>nz outs nz' tail nz''. create_audio_normalizer (mono16 8000) None None = Inr nz
    \<and> run_calls [PushBytes [1, 2], FinishSegment, PushBytes [3, 4]] nz = (Inr outs, nz')
    \<and> normalizer_finish_segment nz' = (Inr tail, nz'') \<and> length (outs @ tail) = 8"
proof -
  obtain nz where nz: "create_audio_normalizer (mono16 8000) None None = Inr nz" "nz_policy nz = Average"
      "sampleRateHz (nz_output nz) = 16000" using mono16_create by blast
  have "sampleRateHz (mono16 8000) \<noteq> sampleRateHz (nz_output nz)" using nz(3) by (simp add: mono16_def)
  moreover have "\<forall>c \<in> set [PushBytes [1, 2], FinishSegment, PushBytes [3, 4]]. call_ok (mono16 8000) (nz_policy nz) c"
    using mono16_decodes nz(2) by simp
  ultimately show ?thesis using segments_do_not_drift [OF nz(1)] nz
    by (fastforce simp: mono16_def math_round_def frame_bytes_def sample_bytes_def)
qed

theorem chunking_is_invisible_witness:
  "\<exists>nz outs nz' tail nz'' samples. create_audio_normalizer (mono16 8000) None None = Inr nz
    \<and> feed [[1, 2], [], [3, 4]] nz = (Inr outs, nz') \<and> normalizer_finish nz' = (Inr tail, nz'')
    \<and> outs @ tail = encode_samples (resample_whole 8000 16000 samples)"
proof -
  obtain nz where nz: "create_audio_normalizer (mono16 8000) None None = Inr nz" "nz_policy nz = Average"
      "sampleRateHz (nz_output nz) = 16000" using mono16_create by blast
  have "is_ok (decode_audio (mono16 8000) Average [1, 2, 3, 4])"
    by (simp add: decode_audio.simps decode_frame_def mono16_def sample_bytes_def frame_bytes_def)
  then obtain samples where "decode_audio (mono16 8000) (nz_policy nz) (concat [[1, 2], [], [3, 4]]) = Inr samples"
    using nz(2) by (auto simp: is_ok_iff)
  from chunking_is_invisible [OF nz(1) _ this] show ?thesis using nz
    by (fastforce simp: normalized_def same_audio_format_def mono16_def frame_bytes_def sample_bytes_def)
qed

end
