(* ===== verification/Audio_Resampling.thy ===== *)
theory Audio_Resampling
  imports Audio_Codec Complex_Main
begin

text \<open>
  The one-shot linear resampler and the duration of a buffer, media/src/audio-codec.ts. Positions
  between samples are rationals, where the source computes with doubles.
\<close>

section \<open>Linear resampling\<close>

definition frame_sample :: "8 word list \<Rightarrow> nat \<Rightarrow> int" where
  "frame_sample pcm i = get_int16_le (pcm ! (2 * i)) (pcm ! (2 * i + 1))"

definition round_rat :: "rat \<Rightarrow> int" where
  "round_rat x = \<lfloor>x + 1 / 2\<rfloor>"

definition output_samples :: "nat \<Rightarrow> int \<Rightarrow> int \<Rightarrow> nat" where
  "output_samples input_samples from_rate to_rate =
     nat (max 1 (round_rat (of_int (int input_samples * to_rate) / of_int from_rate)))"

definition interpolated :: "8 word list \<Rightarrow> nat \<Rightarrow> nat \<Rightarrow> nat \<Rightarrow> int" where
  "interpolated pcm input_samples outputs i =
     (let source_index = of_nat (i * (input_samples - 1)) / (of_nat (max 1 (outputs - 1)) :: rat);
          left = nat \<lfloor>source_index\<rfloor>;
          right = min (input_samples - 1) (left + 1);
          fraction = source_index - of_nat left
      in round_rat (of_int (frame_sample pcm left) + of_int (frame_sample pcm right - frame_sample pcm left) * fraction))"

definition resample_pcm16le :: "8 word list \<Rightarrow> int \<Rightarrow> int \<Rightarrow> 8 word list" where
  "resample_pcm16le pcm from_rate to_rate =
     (if from_rate = to_rate then pcm
      else
        (let input_samples = length pcm div 2 in
         if input_samples = 0 then []
         else
           (let outputs = output_samples input_samples from_rate to_rate
            in concat (map (\<lambda>i. set_int16_le (interpolated pcm input_samples outputs i)) [0..<outputs]))))"

definition duration_ms_for_pcm16le :: "8 word list \<Rightarrow> int \<Rightarrow> rat" where
  "duration_ms_for_pcm16le bytes rate = of_nat (frame_count_for_pcm16le bytes) / of_int rate * 1000"

text \<open>
  An interpolated sample lies between two neighbouring input samples, so nothing wraps around when it
  is written, and the first and the last sample are those of the input.
\<close>

lemma round_between: "of_int a \<le> x \<Longrightarrow> x \<le> of_int b \<Longrightarrow> a \<le> round_rat x \<and> round_rat x \<le> b"
  unfolding round_rat_def by linarith

lemma between_convex:
  fixes a b f :: rat
  assumes "0 \<le> f" "f \<le> 1"
  shows "min a b \<le> a + (b - a) * f \<and> a + (b - a) * f \<le> max a b"
proof -
  have *: "min x y \<le> x + (y - x) * f \<and> x + (y - x) * f \<le> max x y" if "x \<le> y" "0 \<le> f" "f \<le> 1" for x y f :: rat
  proof -
    have "0 * f \<le> (y - x) * f" using that by (intro mult_right_mono) simp_all
    moreover have "(y - x) * f \<le> (y - x) * 1" using that by (intro mult_left_mono) simp_all
    ultimately show ?thesis using that(1) by simp
  qed
  show ?thesis
  proof (cases "a \<le> b")
    case False
    have "a + (b - a) * f = b + (a - b) * (1 - f)" by (simp add: algebra_simps)
    then show ?thesis using * [of b a "1 - f"] False assms by (simp add: min.commute max.commute)
  qed (use * assms in simp)
qed

lemma interpolated_between:
  assumes "i < outputs" and "0 < input_samples"
  obtains l r where "l < input_samples" and "r < input_samples"
    and "min (frame_sample pcm l) (frame_sample pcm r) \<le> interpolated pcm input_samples outputs i"
    and "interpolated pcm input_samples outputs i \<le> max (frame_sample pcm l) (frame_sample pcm r)"
proof -
  let ?s = "of_nat (i * (input_samples - 1)) / (of_nat (max 1 (outputs - 1)) :: rat)"
  let ?l = "nat \<lfloor>?s\<rfloor>" and ?r = "min (input_samples - 1) (nat \<lfloor>?s\<rfloor> + 1)"
  have "0 \<le> ?s" by simp
  then have f: "0 \<le> ?s - of_nat ?l" "?s - of_nat ?l \<le> 1" by linarith+
  have "i * (input_samples - 1) \<le> max 1 (outputs - 1) * (input_samples - 1)" using assms(1) by (intro mult_right_mono) auto
  then have "of_nat (i * (input_samples - 1)) \<le> (of_nat (max 1 (outputs - 1) * (input_samples - 1)) :: rat)"
    by (simp only: of_nat_le_iff)
  then have "?s \<le> of_nat (input_samples - 1)" by (simp add: pos_divide_le_eq mult.commute)
  then have l: "?l < input_samples" using \<open>0 \<le> ?s\<close> assms(2) by linarith
  let ?A = "frame_sample pcm ?l" and ?B = "frame_sample pcm ?r"
  have val: "interpolated pcm input_samples outputs i = round_rat (of_int ?A + of_int (?B - ?A) * (?s - of_nat ?l))"
    by (simp add: interpolated_def Let_def)
  have bounds: "of_int (min ?A ?B) \<le> of_int ?A + of_int (?B - ?A) * (?s - of_nat ?l)
      \<and> of_int ?A + of_int (?B - ?A) * (?s - of_nat ?l) \<le> of_int (max ?A ?B)"
    unfolding of_int_min of_int_max of_int_diff by (rule between_convex [OF f])
  have r: "?r < input_samples" using assms(2) by simp
  note round_between [OF conjunct1 [OF bounds] conjunct2 [OF bounds], folded val]
  then show thesis using that [OF l r] by blast
qed

lemma get_int16_le_range: "- 32768 \<le> get_int16_le lo hi \<and> get_int16_le lo hi \<le> 32767"
proof -
  have *: "- 32768 \<le> (if b < 32768 then b else b - 65536) \<and> (if b < 32768 then b else b - 65536) \<le> 32767"
    if "0 \<le> b" "b < 65536" for b :: int using that by simp
  have "uint lo < 256" "uint hi < 256" "0 \<le> uint lo" "0 \<le> uint hi"
    using uint_lt2p [of lo] uint_lt2p [of hi] by simp_all
  then have "0 \<le> uint lo + 256 * uint hi" "uint lo + 256 * uint hi < 65536" by linarith+
  then show ?thesis unfolding get_int16_le_def Let_def by (rule *)
qed

lemma nth_samples:
  "i < n \<Longrightarrow> concat (map (\<lambda>i. set_int16_le (f i)) [0..<n]) ! (2 * i) = word_of_int (f i)
    \<and> concat (map (\<lambda>i. set_int16_le (f i)) [0..<n]) ! (2 * i + 1) = word_of_int (f i div 256)"
proof (induction n)
  case (Suc n)
  have len: "length (concat (map (\<lambda>i. set_int16_le (f i)) [0..<n])) = 2 * n"
    by (induction n) (simp_all add: set_int16_le_def)
  show ?case
  proof (cases "i = n")
    case True
    then show ?thesis using len by (simp add: nth_append set_int16_le_def)
  next
    case False
    then show ?thesis using Suc len by (simp add: nth_append)
  qed
qed simp

text \<open>
  Linear resampling stays within the signal: every sample of the result lies between two
  samples of the input, so writing it never wraps around.
\<close>

theorem resampled_within_input:
  assumes "from_rate \<noteq> to_rate" and "2 \<le> length pcm" and "i < output_samples (length pcm div 2) from_rate to_rate"
  shows "\<exists>l r. l < length pcm div 2 \<and> r < length pcm div 2
    \<and> min (frame_sample pcm l) (frame_sample pcm r) \<le> frame_sample (resample_pcm16le pcm from_rate to_rate) i
    \<and> frame_sample (resample_pcm16le pcm from_rate to_rate) i \<le> max (frame_sample pcm l) (frame_sample pcm r)"
proof -
  let ?n = "length pcm div 2" and ?m = "output_samples (length pcm div 2) from_rate to_rate"
  have pos: "0 < ?n" using assms(2) by (simp add: div_greater_zero_iff)
  from interpolated_between [OF assms(3) pos, of pcm] obtain l r where
    lr: "l < ?n" "r < ?n" "min (frame_sample pcm l) (frame_sample pcm r) \<le> interpolated pcm ?n ?m i"
      "interpolated pcm ?n ?m i \<le> max (frame_sample pcm l) (frame_sample pcm r)" by blast
  have "- 32768 \<le> interpolated pcm ?n ?m i" "interpolated pcm ?n ?m i \<le> 32767"
    using lr(3,4) get_int16_le_range unfolding frame_sample_def by (auto simp: min_le_iff_disj le_max_iff_disj intro: order_trans)
  then have "frame_sample (resample_pcm16le pcm from_rate to_rate) i = interpolated pcm ?n ?m i"
    using nth_samples [OF assms(3), of "interpolated pcm ?n ?m"] get_set_int16_le [of "interpolated pcm ?n ?m i"] assms(1) pos
    by (simp add: frame_sample_def resample_pcm16le_def Let_def)
  then show ?thesis using lr by auto
qed

theorem resampled_within_input_witness:
  "\<exists>l r. l < 2 \<and> r < 2 \<and>
    min (frame_sample [0, 0, 100, 0] l) (frame_sample [0, 0, 100, 0] r) \<le> frame_sample (resample_pcm16le [0, 0, 100, 0] 8000 16000) 2"
proof -
  have "2 < output_samples (length [0, 0, 100, 0 :: 8 word] div 2) 8000 16000" by code_simp
  then obtain l r where "l < length [0, 0, 100, 0 :: 8 word] div 2" "r < length [0, 0, 100, 0 :: 8 word] div 2"
      and le: "min (frame_sample [0, 0, 100, 0] l) (frame_sample [0, 0, 100, 0] r)
        \<le> frame_sample (resample_pcm16le [0, 0, 100, 0] 8000 16000) 2"
    using resampled_within_input [of 8000 16000 "[0, 0, 100, 0]" 2] by fastforce
  then have "l < 2" "r < 2" by simp_all
  then show ?thesis using le by blast
qed

end
