(* ===== verification/Tts_Input.thy ===== *)
theory Tts_Input
  imports Text_Encoding
begin

text \<open>
  The incremental speech input of a turn, runtime/src/incremental-tts-input.ts (without the forwarding
  of the session's events and the cancelling of the session, which only call the provider): how text
  is cut into sentences and batches, and the operation queue that sends them. An operation gets the
  results of what it awaits as a list; \<open>ti_log\<close> records the calls on the speech session.
\<close>

section \<open>Characters\<close>

text \<open>The characters a loop \<open>for (const character of text)\<close> sees: surrogate pairs stay together.\<close>

fun characters :: "js_string \<Rightarrow> js_string list" where
  "characters [] = []"
| "characters [u] = [[u]]"
| "characters (u # v # rest) =
     (if is_high u \<and> is_low v then [u, v] # characters rest else [u] # characters (v # rest))"

fun utf8_code_point_byte_length :: "js_string \<Rightarrow> int" where
  "utf8_code_point_byte_length [u] = (if unat u \<le> 0x7f then 1 else if unat u \<le> 0x7ff then 2 else 3)"
| "utf8_code_point_byte_length c = 4"

fun byte_length_loop :: "js_string list \<Rightarrow> int \<Rightarrow> int \<Rightarrow> int option" where
  "byte_length_loop [] limit bytes = Some bytes"
| "byte_length_loop (c # cs) limit bytes =
     (let next = bytes + utf8_code_point_byte_length c
      in if limit < next then None else byte_length_loop cs limit next)"

definition utf8_byte_length_within_limit :: "js_string \<Rightarrow> int \<Rightarrow> int option" where
  "utf8_byte_length_within_limit s limit = byte_length_loop (characters s) limit 0"

text \<open>
  What the code takes from the Unicode database and the locale: which characters end a sentence,
  which are closing punctuation, and how a text falls into sentences.
\<close>

record text_rules =
  tr_terminal :: "js_string \<Rightarrow> bool"
  tr_closing :: "js_string \<Rightarrow> bool"
  tr_segments :: "js_string \<Rightarrow> js_string list"

definition ellipsis :: js_string where "ellipsis = [0x2026]"

definition is_space_character :: "js_string \<Rightarrow> bool" where
  "is_space_character c = (case c of [u] \<Rightarrow> is_js_space u | _ \<Rightarrow> False)"

definition has_sentence_terminal :: "text_rules \<Rightarrow> js_string \<Rightarrow> bool" where
  "has_sentence_terminal tr s = list_ex (\<lambda>c. tr_terminal tr c \<or> c = ellipsis) (characters s)"

fun ends_sentence_reversed :: "text_rules \<Rightarrow> js_string list \<Rightarrow> bool" where
  "ends_sentence_reversed tr [] = False"
| "ends_sentence_reversed tr (c # cs) =
     (tr_terminal tr c \<or> c = ellipsis \<or>
      ((is_space_character c \<or> tr_closing tr c \<or> c \<in> set [[0x22], [0x27], [0x2019], [0x201D]])
        \<and> ends_sentence_reversed tr cs))"

definition ends_sentence :: "text_rules \<Rightarrow> js_string \<Rightarrow> bool" where
  "ends_sentence tr s = ends_sentence_reversed tr (rev (characters s))"

section \<open>Batches\<close>

fun boundary_loop :: "js_string list \<Rightarrow> nat \<Rightarrow> nat \<Rightarrow> nat \<Rightarrow> bool \<Rightarrow> nat \<Rightarrow> nat" where
  "boundary_loop [] maximum count last_word seen_word safe = (if 0 < last_word then last_word else safe)"
| "boundary_loop (c # cs) maximum count last_word seen_word safe =
     (if maximum < count + length c then (if 0 < last_word then last_word else safe)
      else
        (let count' = count + length c in
         if is_space_character c
         then boundary_loop cs maximum count' (if seen_word then count' else last_word) seen_word count'
         else boundary_loop cs maximum count' last_word True count'))"

definition find_batch_boundary :: "js_string \<Rightarrow> nat \<Rightarrow> nat" where
  "find_batch_boundary text maximum = boundary_loop (characters text) maximum 0 0 False 0"

text \<open>\<open>None\<close> when the loop does not end.\<close>

partial_function (option) split_text_into_batches :: "js_string \<Rightarrow> nat \<Rightarrow> js_string list option" where
  "split_text_into_batches remaining maximum =
     (if maximum < length remaining then
        (let boundary = find_batch_boundary remaining maximum
         in Option.bind (split_text_into_batches (drop boundary remaining) maximum)
              (\<lambda>batches. Some (take boundary remaining # batches)))
      else Some (if remaining = [] then [] else [remaining]))"

definition flush_batch :: "js_string list \<times> js_string \<Rightarrow> js_string list \<times> js_string" where
  "flush_batch = (\<lambda>(batches, batch). if batch = [] then (batches, batch) else (batches @ [batch], []))"

definition add_character :: "nat \<Rightarrow> js_string list \<times> js_string \<Rightarrow> js_string \<Rightarrow> js_string list \<times> js_string" where
  "add_character maximum acc c =
     (let (batches, batch) = acc;
          (batches', batch') =
            (if maximum < length batch + length c then
               (let boundary = find_batch_boundary batch maximum
                in if 0 < boundary \<and> boundary < length batch
                   then (batches @ [take boundary batch], drop boundary batch)
                   else flush_batch (batches, batch))
             else (batches, batch))
      in (batches', batch' @ c))"

definition individual_sentences :: nat where "individual_sentences = 32"

fun sentence_loop ::
    "text_rules \<Rightarrow> nat \<Rightarrow> js_string list \<Rightarrow> nat \<Rightarrow> nat \<Rightarrow> js_string list \<times> js_string \<Rightarrow> nat \<times> (js_string list \<times> js_string)" where
  "sentence_loop tr maximum [] count consumed acc = (consumed, acc)"
| "sentence_loop tr maximum (segment # segments) count consumed acc =
     (if \<not> ends_sentence tr segment then (consumed, acc)
      else
        (let acc' = foldl (add_character maximum) acc (characters segment)
         in sentence_loop tr maximum segments (count + 1) (consumed + length segment)
              (if count + 1 \<le> individual_sentences then flush_batch acc' else acc')))"

definition take_complete_sentences :: "text_rules \<Rightarrow> nat \<Rightarrow> js_string \<Rightarrow> js_string list \<times> js_string" where
  "take_complete_sentences tr maximum buffer =
     (let (consumed, acc) = sentence_loop tr maximum (tr_segments tr buffer) 0 0 ([], [])
      in (fst (flush_batch acc), drop consumed buffer))"

section \<open>The input\<close>

datatype session_slot = NoSession | Opening | ClosedSession

datatype tts_call = SendText js_string | FlushSession | FinishSession

datatype queued_op = QueuedPush js_string bool | QueuedFlush | QueuedFinish

record tts_input =
  ti_max_batch :: nat
  ti_session :: session_slot
  ti_buffer :: js_string
  ti_finishing :: bool
  ti_cancelled :: bool
  ti_flush_failed :: bool
  ti_stuck :: bool
  ti_queue :: "queued_op list"
  ti_log :: "tts_call list"

definition new_tts_input :: "int option \<Rightarrow> tts_input result" where
  "new_tts_input max_batch =
     (let maximum = (case max_batch of Some n \<Rightarrow> n | None \<Rightarrow> 10000)
      in if \<not> is_safe_integer maximum \<or> maximum < 1
         then Inl (TvicThrowableError (js ''provider.invalid_request''))
         else Inr \<lparr>ti_max_batch = nat maximum, ti_session = NoSession, ti_buffer = [], ti_finishing = False,
           ti_cancelled = False, ti_flush_failed = False, ti_stuck = False, ti_queue = [], ti_log = []\<rparr>)"

text \<open>
  What an operation waits for: whether the promise is fulfilled, and whether \<open>cancel\<close> was called
  before it settled. Without an entry the promise never settles.
\<close>

record await_result =
  aw_ok :: bool
  aw_cancel :: bool

datatype op_result = Returned | Threw js_error | Waiting

definition cancel_input :: "tts_input \<Rightarrow> tts_input" where
  "cancel_input st =
     (if ti_cancelled st then st
      else st\<lparr>ti_cancelled := True, ti_session := (if ti_session st = NoSession then ClosedSession else ti_session st)\<rparr>)"

definition settle :: "tts_input \<Rightarrow> await_result list \<Rightarrow> op_result \<times> tts_input \<times> await_result list" where
  "settle st awaits =
     (case awaits of
        [] \<Rightarrow> (Waiting, st, [])
      | a # rest \<Rightarrow> (if aw_ok a then Returned else Threw (ForeignError 0),
          if aw_cancel a then cancel_input st else st, rest))"

definition log_call :: "tts_call \<Rightarrow> tts_input \<Rightarrow> tts_input" where
  "log_call c st = st\<lparr>ti_log := ti_log st @ [c]\<rparr>"

definition ensure_session :: "tts_input \<Rightarrow> tts_input" where
  "ensure_session st = (if ti_session st = NoSession then st\<lparr>ti_session := Opening\<rparr> else st)"

definition await_session :: "bool \<Rightarrow> tts_input \<Rightarrow> await_result list \<Rightarrow> op_result \<times> tts_input \<times> await_result list" where
  "await_session closed st awaits =
     (if closed then (Threw (PlainError (js ''Incremental TTS input is closed'')), st, awaits) else settle st awaits)"

definition send_text :: "js_string \<Rightarrow> tts_input \<Rightarrow> await_result list \<Rightarrow> op_result \<times> tts_input \<times> await_result list" where
  "send_text text st awaits = settle (log_call (SendText text) st) awaits"

definition flush_and_remember :: "tts_input \<Rightarrow> await_result list \<Rightarrow> op_result \<times> tts_input \<times> await_result list" where
  "flush_and_remember st awaits =
     (case settle (log_call FlushSession st) awaits of
        (Threw e, st', rest) \<Rightarrow> (Returned, st'\<lparr>ti_flush_failed := True\<rparr>, rest)
      | r \<Rightarrow> r)"

text \<open>Sequencing: only an operation that returned goes on.\<close>

definition and_then ::
    "op_result \<times> tts_input \<times> await_result list \<Rightarrow> (tts_input \<Rightarrow> await_result list \<Rightarrow> op_result \<times> tts_input \<times> await_result list)
      \<Rightarrow> op_result \<times> tts_input \<times> await_result list" where
  "and_then r k = (case r of (Returned, st, awaits) \<Rightarrow> k st awaits | _ \<Rightarrow> r)"

text \<open>Nothing more is done once the input is cancelled.\<close>

definition unless_cancelled ::
    "(tts_input \<Rightarrow> await_result list \<Rightarrow> op_result \<times> tts_input \<times> await_result list) \<Rightarrow>
      tts_input \<Rightarrow> await_result list \<Rightarrow> op_result \<times> tts_input \<times> await_result list" where
  "unless_cancelled k st awaits = (if ti_cancelled st then (Returned, st, awaits) else k st awaits)"

fun send_sentences :: "bool \<Rightarrow> js_string list \<Rightarrow> tts_input \<Rightarrow> await_result list \<Rightarrow> op_result \<times> tts_input \<times> await_result list" where
  "send_sentences closed [] st awaits = (Returned, st, awaits)"
| "send_sentences closed (batch # batches) st awaits =
     and_then (await_session closed st awaits) (unless_cancelled (\<lambda>st awaits.
       and_then (send_text batch st awaits) (unless_cancelled (\<lambda>st awaits.
         and_then (flush_and_remember st awaits) (send_sentences closed batches)))))"

fun send_text_batches :: "js_string list \<Rightarrow> tts_input \<Rightarrow> await_result list \<Rightarrow> op_result \<times> tts_input \<times> await_result list" where
  "send_text_batches [] st awaits = (Returned, st, awaits)"
| "send_text_batches (batch # batches) st awaits =
     unless_cancelled (\<lambda>st awaits. and_then (send_text batch st awaits) (send_text_batches batches)) st awaits"

definition send_buffer :: "tts_input \<Rightarrow> await_result list \<Rightarrow> op_result \<times> tts_input \<times> await_result list" where
  "send_buffer st awaits =
     (let st' = st\<lparr>ti_buffer := []\<rparr> in
      case split_text_into_batches (ti_buffer st) (ti_max_batch st) of
        None \<Rightarrow> (Waiting, st', awaits)
      | Some batches \<Rightarrow> send_text_batches batches st' awaits)"

definition max_buffer_bytes :: int where "max_buffer_bytes = 1024 * 1024"

definition run_push ::
    "text_rules \<Rightarrow> js_string \<Rightarrow> bool \<Rightarrow> tts_input \<Rightarrow> await_result list \<Rightarrow> op_result \<times> tts_input \<times> await_result list" where
  "run_push tr text closed st awaits =
     (if ti_cancelled st then await_session closed st awaits
      else if ti_finishing st then (Threw (PlainError (js ''Cannot add TTS text after finishing input'')), st, awaits)
      else
        (let next = ti_buffer st @ text in
         if utf8_byte_length_within_limit next max_buffer_bytes = None
         then (Threw (TvicThrowableError (js ''provider.stream_buffer_overflow'')), st\<lparr>ti_buffer := []\<rparr>, awaits)
         else if has_sentence_terminal tr text then
           (case take_complete_sentences tr (ti_max_batch st) next of (batches, rest) \<Rightarrow>
              send_sentences closed batches (st\<lparr>ti_buffer := rest\<rparr>) awaits)
         else (Returned, st\<lparr>ti_buffer := next\<rparr>, awaits)))"

definition run_flush :: "tts_input \<Rightarrow> await_result list \<Rightarrow> op_result \<times> tts_input \<times> await_result list" where
  "run_flush st awaits =
     (if ti_cancelled st \<or> ti_buffer st = [] then (Returned, st, awaits)
      else
        (let st' = ensure_session st in
         and_then (await_session (ti_session st' = ClosedSession) st' awaits) (unless_cancelled (\<lambda>st awaits.
           and_then (send_buffer st awaits) (unless_cancelled flush_and_remember)))))"

definition finish_session :: "tts_input \<Rightarrow> await_result list \<Rightarrow> op_result \<times> tts_input \<times> await_result list" where
  "finish_session st awaits =
     and_then (settle (log_call FinishSession st) awaits) (\<lambda>st awaits.
       (if ti_flush_failed st then Threw (ForeignError 1) else Returned, st, awaits))"

definition run_finish :: "tts_input \<Rightarrow> await_result list \<Rightarrow> op_result \<times> tts_input \<times> await_result list" where
  "run_finish st awaits =
     (if ti_finishing st \<or> ti_cancelled st then (Returned, st, awaits)
      else
        (let st' = st\<lparr>ti_finishing := True\<rparr> in
         case ti_session st of
           NoSession \<Rightarrow> (Returned, st'\<lparr>ti_session := ClosedSession\<rparr>, awaits)
         | ClosedSession \<Rightarrow> (Returned, st', awaits)
         | Opening \<Rightarrow>
             and_then (settle st' awaits) (unless_cancelled (\<lambda>st awaits.
               and_then (if ti_buffer st \<noteq> [] then send_buffer st awaits else (Returned, st, awaits))
                 (unless_cancelled finish_session)))))"

fun run_op :: "text_rules \<Rightarrow> queued_op \<Rightarrow> tts_input \<Rightarrow> await_result list \<Rightarrow> op_result \<times> tts_input \<times> await_result list" where
  "run_op tr (QueuedPush text closed) = run_push tr text closed"
| "run_op tr QueuedFlush = run_flush"
| "run_op tr QueuedFinish = run_finish"

text \<open>
  The calls of the class and the operation queue: a call only enqueues, operations run one after the
  other, and an operation that waits for ever blocks the ones behind it.
\<close>

datatype input_step = PushToken js_string | FlushBoundary | FinishInput | CancelInput | RunNext "await_result list"

fun tts_step :: "text_rules \<Rightarrow> input_step \<Rightarrow> tts_input \<Rightarrow> op_result \<times> tts_input" where
  "tts_step tr (PushToken text) st =
     (Returned,
      if text = [] then st
      else (let st' = ensure_session st
            in st'\<lparr>ti_queue := ti_queue st' @ [QueuedPush text (ti_session st' = ClosedSession)]\<rparr>))"
| "tts_step tr FlushBoundary st = (Returned, st\<lparr>ti_queue := ti_queue st @ [QueuedFlush]\<rparr>)"
| "tts_step tr FinishInput st = (Returned, st\<lparr>ti_queue := ti_queue st @ [QueuedFinish]\<rparr>)"
| "tts_step tr CancelInput st = (Returned, cancel_input st)"
| "tts_step tr (RunNext awaits) st =
     (case ti_queue st of
        [] \<Rightarrow> (Returned, st)
      | q # qs \<Rightarrow>
          if ti_stuck st then (Returned, st)
          else (case run_op tr q (st\<lparr>ti_queue := qs\<rparr>) awaits of
             (Waiting, st', rest) \<Rightarrow> (Waiting, st'\<lparr>ti_stuck := True\<rparr>)
           | (r, st', rest) \<Rightarrow> (r, st')))"

fun run_tts :: "text_rules \<Rightarrow> input_step list \<Rightarrow> tts_input \<Rightarrow> op_result list \<times> tts_input" where
  "run_tts tr [] st = ([], st)"
| "run_tts tr (s # steps) st =
     (case tts_step tr s st of (r, st') \<Rightarrow> (case run_tts tr steps st' of (rs, st'') \<Rightarrow> (r # rs, st'')))"

section \<open>Text is cut between characters\<close>

lemma concat_characters [simp]: "concat (characters s) = s"
  by (induction s rule: characters.induct) auto

lemma characters_length: "c \<in> set (characters s) \<Longrightarrow> 1 \<le> length c \<and> length c \<le> 2"
  by (induction s rule: characters.induct) (auto split: if_splits)

lemma space_character_length: "is_space_character c \<Longrightarrow> length c = 1"
  by (auto simp: is_space_character_def split: list.splits)

text \<open>
  The boundary loop returns the length of some characters from the front, at most the maximum. If all
  of them fit it returns the whole length or, after a space, at least two; and it makes progress when
  the first character fits.
\<close>

definition boundary_ok :: "js_string list \<Rightarrow> nat \<Rightarrow> nat \<Rightarrow> bool" where
  "boundary_ok cs maximum r \<longleftrightarrow>
     (\<exists>k. r = length (concat (take k cs))) \<and> r \<le> maximum
     \<and> (length (concat cs) \<le> maximum \<longrightarrow> r = length (concat cs) \<or> 2 \<le> r)"

lemma boundary_loop_ok:
  assumes "\<forall>c \<in> set (ps @ cs). 1 \<le> length c \<and> length c \<le> 2" and "length (concat ps) \<le> maximum"
    and "last_word = 0 \<or> 2 \<le> last_word \<and> last_word \<le> length (concat ps) \<and> (\<exists>k. last_word = length (concat (take k (ps @ cs))))"
    and "seen \<longrightarrow> ps \<noteq> []"
    and "r = boundary_loop cs maximum (length (concat ps)) last_word seen (length (concat ps))"
  shows "boundary_ok (ps @ cs) maximum r \<and> (ps \<noteq> [] \<or> cs \<noteq> [] \<and> 2 \<le> maximum \<longrightarrow> 0 < r)"
  using assms
proof (induction cs arbitrary: ps last_word seen)
  case Nil
  have "\<exists>k. length (concat ps) = length (concat (take k ps))" by (intro exI [of _ "length ps"]) simp
  moreover have "ps \<noteq> [] \<Longrightarrow> 0 < length (concat ps)" using Nil(1) by (cases ps) auto
  ultimately show ?case using Nil by (auto simp: boundary_ok_def)
next
  case (Cons c cs)
  let ?n = "length (concat ps)"
  have c: "1 \<le> length c" "length c \<le> 2" using Cons.prems(1) by auto
  have k: "?n = length (concat (take (length ps) (ps @ c # cs)))" by simp
  have full: "ps \<noteq> [] \<Longrightarrow> 0 < ?n" using Cons.prems(1) by (cases ps) auto
  show ?case
  proof (cases "maximum < ?n + length c")
    case True
    have long: "\<not> length (concat (ps @ c # cs)) \<le> maximum" using True by simp
    have r: "r = (if 0 < last_word then last_word else ?n)" using Cons.prems(5) True by simp
    have "\<exists>k. r = length (concat (take k (ps @ c # cs)))" unfolding r using Cons.prems(3) k by (metis neq0_conv)
    moreover have "r \<le> maximum" unfolding r using Cons.prems(2,3) by auto
    ultimately have "boundary_ok (ps @ c # cs) maximum r" using long unfolding boundary_ok_def by blast
    moreover have "ps = [] \<Longrightarrow> maximum < 2" using True c by auto
    moreover have "ps \<noteq> [] \<Longrightarrow> 0 < r" unfolding r using full by simp
    ultimately show ?thesis by (metis not_less)
  next
    case False
    have n: "length (concat (ps @ [c])) = ?n + length c" by simp
    have len: "\<forall>c \<in> set ((ps @ [c]) @ cs). 1 \<le> length c \<and> length c \<le> 2" using Cons.prems(1) by simp
    have fits: "length (concat (ps @ [c])) \<le> maximum" using False by simp
    have kk: "?n + length c = length (concat (take (Suc (length ps)) ((ps @ [c]) @ cs)))" by simp
    have "\<exists>last' seen'. r = boundary_loop cs maximum (length (concat (ps @ [c]))) last' seen' (length (concat (ps @ [c])))
      \<and> (last' = 0 \<or> 2 \<le> last' \<and> last' \<le> length (concat (ps @ [c])) \<and> (\<exists>k. last' = length (concat (take k ((ps @ [c]) @ cs)))))"
    proof (cases "is_space_character c \<and> seen")
      case True
      then have "0 < ?n" using full Cons.prems(4) by blast
      then have "2 \<le> ?n + length c" using c by linarith
      moreover have "r = boundary_loop cs maximum (?n + length c) (?n + length c) seen (?n + length c)"
        using Cons.prems(5) False True by (simp add: Let_def)
      ultimately show ?thesis using kk unfolding n by blast
    next
      case no: False
      have "r = boundary_loop cs maximum (?n + length c) last_word (seen \<or> \<not> is_space_character c) (?n + length c)"
        using Cons.prems(5) False no by (auto simp: Let_def)
      moreover have "last_word = 0 \<or> 2 \<le> last_word \<and> last_word \<le> ?n + length c
          \<and> (\<exists>k. last_word = length (concat (take k ((ps @ [c]) @ cs))))"
        using Cons.prems(3) by auto
      ultimately show ?thesis unfolding n by blast
    qed
    then obtain last' seen' where "r = boundary_loop cs maximum (length (concat (ps @ [c]))) last' seen' (length (concat (ps @ [c])))"
      "last' = 0 \<or> 2 \<le> last' \<and> last' \<le> length (concat (ps @ [c])) \<and> (\<exists>k. last' = length (concat (take k ((ps @ [c]) @ cs))))"
      by blast
    from Cons.IH [OF len fits this(2) _ this(1)] show ?thesis by simp
  qed
qed

lemma find_batch_boundary_ok:
  "boundary_ok (characters s) maximum (find_batch_boundary s maximum)"
  "s \<noteq> [] \<Longrightarrow> 2 \<le> maximum \<Longrightarrow> 0 < find_batch_boundary s maximum"
  using boundary_loop_ok [of "[]" "characters s" maximum 0 False "find_batch_boundary s maximum"] characters_length [of _ s] concat_characters [of s]
  by (auto simp: find_batch_boundary_def simp del: concat_characters)

lemma characters_Cons: "\<exists>w cs. characters (v # rest) = (v # w) # cs"
  by (cases rest) auto

lemma characters_take:
  "characters (concat (take k (characters s))) = take k (characters s)
    \<and> characters (concat (drop k (characters s))) = drop k (characters s)"
proof (induction s arbitrary: k rule: characters.induct)
  case (3 u v rest)
  show ?case
  proof (cases k)
    case (Suc n)
    show ?thesis
    proof (cases "is_high u \<and> is_low v")
      case True
      then show ?thesis using 3(1) [OF True, of n] Suc by simp
    next
      case False
      have "characters (u # concat (take n (characters (v # rest)))) = [u] # characters (concat (take n (characters (v # rest))))"
      proof (cases n)
        case (Suc m)
        obtain w cs where "characters (v # rest) = (v # w) # cs" using characters_Cons by blast
        then show ?thesis using False Suc by simp
      qed simp
      then show ?thesis using 3(2) [OF False, of n] Suc False by (auto simp del: characters.simps(3) simp add: characters.simps(3) [of u v rest])
    qed
  qed simp
qed (auto simp: take_Cons' drop_Cons')

lemma take_characters:
  assumes "n = length (concat (take k (characters s)))"
  shows "take n s = concat (take k (characters s))" and "drop n s = concat (drop k (characters s))"
proof -
  have "s = concat (take k (characters s)) @ concat (drop k (characters s))"
    by (metis append_take_drop_id concat_append concat_characters)
  then show "take n s = concat (take k (characters s))" "drop n s = concat (drop k (characters s))"
    by (metis append_eq_conv_conj assms)+
qed

lemma split_text_into_batches_ok:
  assumes "2 \<le> maximum"
  shows "\<exists>batches. split_text_into_batches s maximum = Some batches \<and> concat batches = s
    \<and> (\<forall>b \<in> set batches. 0 < length b \<and> length b \<le> maximum) \<and> concat (map characters batches) = characters s"
proof (induction s rule: length_induct)
  case (1 s)
  show ?case
  proof (cases "maximum < length s")
    case False
    then show ?thesis by (subst split_text_into_batches.simps) auto
  next
    case True
    let ?n = "find_batch_boundary s maximum"
    have "s \<noteq> []" using True by auto
    then have n: "0 < ?n" "?n \<le> maximum"
      using find_batch_boundary_ok(2) [OF _ assms] find_batch_boundary_ok(1) [of s maximum] by (auto simp: boundary_ok_def)
    obtain k where "?n = length (concat (take k (characters s)))"
      using find_batch_boundary_ok(1) [of s maximum] by (auto simp: boundary_ok_def)
    note cut = take_characters [OF this]
    have "length (drop ?n s) < length s" using n True by simp
    then obtain bs where bs: "split_text_into_batches (drop ?n s) maximum = Some bs" "concat bs = drop ?n s"
        "\<forall>b \<in> set bs. 0 < length b \<and> length b \<le> maximum" "concat (map characters bs) = characters (drop ?n s)"
      using 1 by blast
    have "characters (take ?n s) @ characters (drop ?n s) = characters s"
      unfolding cut using characters_take [of k s] by simp
    then show ?thesis using True n bs
      by (subst split_text_into_batches.simps) (auto simp: Let_def)
  qed
qed

text \<open>
  Property C29: a text is cut into batches in finitely many steps if a batch holds at least two code
  units: the batches make up the text, none is empty or too long, and no character is cut in two.
\<close>

theorem split_text_into_batches_spec:
  assumes "2 \<le> maximum"
  shows "\<exists>batches. split_text_into_batches s maximum = Some batches \<and> concat batches = s
    \<and> (\<forall>b \<in> set batches. 0 < length b \<and> length b \<le> maximum) \<and> concat (map characters batches) = characters s"
  using assms by (rule split_text_into_batches_ok)

theorem split_text_into_batches_spec_witness:
  "\<exists>batches. split_text_into_batches [0x61, 0xD83D, 0xDE00] 2 = Some batches \<and> concat batches = [0x61, 0xD83D, 0xDE00]"
  using split_text_into_batches_spec [of 2 "[0x61, 0xD83D, 0xDE00]"] by auto

text \<open>With batches of one code unit, which the options allow, a pair of surrogates is never sent.\<close>

lemma split_pair_never: "split_text_into_batches [0xD83D, 0xDE00] 1 = None"
proof (rule ccontr)
  assume "\<not> ?thesis"
  then obtain y where y: "split_text_into_batches [0xD83D, 0xDE00] 1 = Some y" by auto
  have b: "find_batch_boundary [0xD83D, 0xDE00] 1 = 0" by (simp add: find_batch_boundary_def is_high_def is_low_def)
  let ?P = "\<lambda>a n (y :: js_string list). \<not> (a = ([0xD83D, 0xDE00] :: js_string) \<and> n = (1 :: nat))"
  have "?P [0xD83D, 0xDE00] 1 y"
  proof (rule split_text_into_batches.raw_induct [where P = ?P, OF _ y], rule notI, elim conjE)
    fix f :: "js_string \<Rightarrow> nat \<Rightarrow> js_string list option" and a n y
    assume f: "\<And>a n y. f a n = Some y \<Longrightarrow> \<not> (a = [0xD83D, 0xDE00] \<and> n = 1)" and a: "a = [0xD83D, 0xDE00]" and n: "n = 1"
      and run: "(if n < length a then let boundary = find_batch_boundary a n
          in Option.bind (f (drop boundary a) n) (\<lambda>batches. Some (take boundary a # batches))
        else Some (if a = [] then [] else [a])) = Some y"
    from run have "f a n \<noteq> None" unfolding a n by (auto simp: b [unfolded One_nat_def] Let_def split: bind_splits)
    then show False using f a n by blast
  qed
  then show False by simp
qed

section \<open>Sentences\<close>

definition pending_ok :: "nat \<Rightarrow> js_string list \<times> js_string \<Rightarrow> bool" where
  "pending_ok maximum acc \<longleftrightarrow>
     (\<forall>b \<in> set (fst acc). 0 < length b \<and> length b \<le> maximum) \<and> length (snd acc) \<le> maximum"

lemma flush_batch_spec:
  "concat (fst (flush_batch acc)) @ snd (flush_batch acc) = concat (fst acc) @ snd acc"
  "pending_ok maximum acc \<Longrightarrow> pending_ok maximum (flush_batch acc)"
  "snd (flush_batch acc) = []"
  by (cases acc; auto simp: flush_batch_def pending_ok_def)+

lemma add_character_spec:
  assumes "1 \<le> length c" "length c \<le> 2" "2 \<le> maximum"
  shows "concat (fst (add_character maximum acc c)) @ snd (add_character maximum acc c) = concat (fst acc) @ snd acc @ c"
    and "pending_ok maximum acc \<Longrightarrow> pending_ok maximum (add_character maximum acc c)"
proof -
  obtain batches batch where acc: "acc = (batches, batch)" by (cases acc)
  let ?n = "find_batch_boundary batch maximum"
  have "concat (fst (add_character maximum acc c)) @ snd (add_character maximum acc c) = concat (fst acc) @ snd acc @ c
    \<and> (pending_ok maximum acc \<longrightarrow> pending_ok maximum (add_character maximum acc c))"
  proof (cases "maximum < length batch + length c \<and> 0 < ?n \<and> ?n < length batch")
    case True
    have "2 \<le> ?n" if "length batch \<le> maximum"
      using find_batch_boundary_ok(1) [of batch maximum] True that by (auto simp: boundary_ok_def)
    then show ?thesis using True assms find_batch_boundary_ok(1) [of batch maximum]
      by (auto simp: add_character_def acc Let_def pending_ok_def boundary_ok_def)
  next
    case False
    then show ?thesis using assms by (auto simp: add_character_def acc Let_def pending_ok_def flush_batch_def)
  qed
  then show "concat (fst (add_character maximum acc c)) @ snd (add_character maximum acc c) = concat (fst acc) @ snd acc @ c"
    "pending_ok maximum acc \<Longrightarrow> pending_ok maximum (add_character maximum acc c)" by simp_all
qed

lemma add_characters_spec:
  assumes "\<forall>c \<in> set cs. 1 \<le> length c \<and> length c \<le> 2" "2 \<le> maximum"
  shows "concat (fst (foldl (add_character maximum) acc cs)) @ snd (foldl (add_character maximum) acc cs)
      = concat (fst acc) @ snd acc @ concat cs"
    and "pending_ok maximum acc \<Longrightarrow> pending_ok maximum (foldl (add_character maximum) acc cs)"
  using assms by (induction cs arbitrary: acc) (auto simp: add_character_spec)

lemma sentence_loop_spec:
  assumes "2 \<le> maximum" and "pending_ok maximum acc"
    and "sentence_loop tr maximum segments count consumed acc = (consumed', acc')"
    and "concat (fst acc) @ snd acc = take consumed s" and "s = take consumed s @ concat segments"
  shows "pending_ok maximum acc' \<and> concat (fst acc') @ snd acc' = take consumed' s"
  using assms(2-)
proof (induction segments arbitrary: count consumed acc)
  case (Cons g gs)
  show ?case
  proof (cases "ends_sentence tr g")
    case True
    let ?acc = "foldl (add_character maximum) acc (characters g)"
    let ?acc' = "if count + 1 \<le> individual_sentences then flush_batch ?acc else ?acc"
    note chars = add_characters_spec [of "characters g" maximum acc]
    have all: "\<forall>c \<in> set (characters g). 1 \<le> length c \<and> length c \<le> 2" using characters_length by blast
    have len: "length (take consumed s) = consumed \<or> g @ concat gs = []"
      using arg_cong [OF Cons.prems(4), of length] by auto
    have tk: "take (consumed + length g) s = take consumed s @ g"
    proof (cases "g @ concat gs = []")
      case True
      then show ?thesis using Cons.prems(4) by simp
    next
      case False
      then have l: "length (take consumed s) = consumed" using len by blast
      have "take (consumed + length g) (take consumed s @ g @ concat gs) = take consumed s @ g"
        using l by simp
      moreover have "take consumed s @ g @ concat gs = s" using Cons.prems(4) by simp
      ultimately show ?thesis by simp
    qed
    have "pending_ok maximum ?acc'" using chars(2) all assms(1) Cons.prems(1) flush_batch_spec(2) by simp
    moreover have "concat (fst ?acc') @ snd ?acc' = take (consumed + length g) s"
      using chars(1) [OF all assms(1)] Cons.prems(3) tk flush_batch_spec(1) [of ?acc] by simp
    moreover have "sentence_loop tr maximum gs (count + 1) (consumed + length g) ?acc' = (consumed', acc')"
      using Cons.prems(2) True by (simp add: Let_def)
    moreover have "s = take (consumed + length g) s @ concat gs" using Cons.prems(4) unfolding tk by simp
    ultimately show ?thesis using Cons.IH by blast
  qed (use Cons.prems in auto)
qed auto

lemma take_complete_sentences_spec:
  assumes "2 \<le> maximum" and "concat (tr_segments tr s) = s" and "take_complete_sentences tr maximum s = (batches, rest)"
  shows "concat batches @ rest = s \<and> (\<forall>b \<in> set batches. 0 < length b \<and> length b \<le> maximum)"
proof -
  obtain n acc where run: "sentence_loop tr maximum (tr_segments tr s) 0 0 ([], []) = (n, acc)"
    by (cases "sentence_loop tr maximum (tr_segments tr s) 0 0 ([], [])")
  have "pending_ok maximum acc \<and> concat (fst acc) @ snd acc = take n s"
    using sentence_loop_spec [OF assms(1) _ run, of s] assms(2) by (simp add: pending_ok_def)
  then show ?thesis using assms(3) run flush_batch_spec(1) [of acc] flush_batch_spec(2) [of maximum acc] flush_batch_spec(3) [of acc]
    by (auto simp: take_complete_sentences_def pending_ok_def)
qed

section \<open>The operation queue\<close>

definition calls_ok :: "nat \<Rightarrow> tts_call list \<Rightarrow> bool" where
  "calls_ok maximum calls \<longleftrightarrow> (\<forall>s. SendText s \<in> set calls \<longrightarrow> 0 < length s \<and> length s \<le> maximum)"

text \<open>What every operation does to the rest of the state, however it ends.\<close>

definition step_ok :: "tts_input \<Rightarrow> tts_input \<Rightarrow> bool" where
  "step_ok st st' \<longleftrightarrow>
     ti_max_batch st' = ti_max_batch st \<and> ti_queue st' = ti_queue st \<and> ti_stuck st' = ti_stuck st
     \<and> (ti_cancelled st \<longrightarrow> ti_cancelled st')
     \<and> (calls_ok (ti_max_batch st) (ti_log st) \<longrightarrow> calls_ok (ti_max_batch st) (ti_log st'))"

lemma step_ok_refl [simp]: "step_ok st st"
  by (simp add: step_ok_def)

lemma step_ok_trans: "step_ok a b \<Longrightarrow> step_ok b c \<Longrightarrow> step_ok a c"
  by (simp add: step_ok_def)

abbreviation state_of :: "op_result \<times> tts_input \<times> await_result list \<Rightarrow> tts_input" where
  "state_of r \<equiv> fst (snd r)"

lemma settle_ok: "step_ok st (state_of (settle st awaits))"
  by (auto simp: settle_def step_ok_def cancel_input_def split: list.split)

lemma log_call_ok:
  "(\<And>s. c = SendText s \<Longrightarrow> 0 < length s \<and> length s \<le> ti_max_batch st) \<Longrightarrow> step_ok st (log_call c st)"
  by (auto simp: step_ok_def log_call_def calls_ok_def)

lemma and_then_ok:
  assumes "step_ok st (state_of r)" and "\<And>st1 a. step_ok st st1 \<Longrightarrow> step_ok st1 (state_of (k st1 a))"
  shows "step_ok st (state_of (and_then r k))"
proof -
  obtain res st1 a where r: "r = (res, st1, a)" by (cases r)
  show ?thesis using assms step_ok_trans [of st st1 "state_of (k st1 a)"]
    by (cases res) (auto simp: and_then_def r)
qed

lemma unless_cancelled_ok: "step_ok st (state_of (k st a)) \<Longrightarrow> step_ok st (state_of (unless_cancelled k st a))"
  by (simp add: unless_cancelled_def)

lemma await_session_ok: "step_ok st (state_of (await_session closed st awaits))"
  by (simp add: await_session_def settle_ok)

lemma send_text_ok: "0 < length s \<Longrightarrow> length s \<le> ti_max_batch st \<Longrightarrow> step_ok st (state_of (send_text s st awaits))"
  unfolding send_text_def by (rule step_ok_trans [OF log_call_ok settle_ok]) auto

lemma flush_and_remember_ok: "step_ok st (state_of (flush_and_remember st awaits))"
proof -
  have "step_ok st (state_of (settle (log_call FlushSession st) awaits))"
    by (rule step_ok_trans [OF log_call_ok settle_ok]) auto
  then show ?thesis
    by (cases "settle (log_call FlushSession st) awaits"; cases "fst (settle (log_call FlushSession st) awaits)")
      (auto simp: flush_and_remember_def step_ok_def)
qed

lemma step_ok_max: "step_ok st st' \<Longrightarrow> ti_max_batch st' = ti_max_batch st"
  by (simp add: step_ok_def)

lemma send_sentences_ok:
  "\<forall>b \<in> set batches. 0 < length b \<and> length b \<le> ti_max_batch st \<Longrightarrow>
    step_ok st (state_of (send_sentences closed batches st awaits))"
proof (induction batches arbitrary: st awaits)
  case (Cons b bs)
  show ?case unfolding send_sentences.simps
    by (intro and_then_ok unless_cancelled_ok await_session_ok send_text_ok flush_and_remember_ok Cons.IH)
      (use Cons.prems step_ok_max in \<open>auto\<close>)
qed simp

lemma send_text_batches_ok:
  "\<forall>b \<in> set batches. 0 < length b \<and> length b \<le> ti_max_batch st \<Longrightarrow>
    step_ok st (state_of (send_text_batches batches st awaits))"
proof (induction batches arbitrary: st awaits)
  case (Cons b bs)
  show ?case unfolding send_text_batches.simps
    by (intro and_then_ok unless_cancelled_ok send_text_ok Cons.IH) (use Cons.prems step_ok_max in \<open>auto\<close>)
qed simp

lemma send_buffer_ok:
  assumes "2 \<le> ti_max_batch st"
  shows "step_ok st (state_of (send_buffer st awaits))"
proof -
  have clear: "step_ok st (st\<lparr>ti_buffer := []\<rparr>)" by (simp add: step_ok_def)
  obtain bs where bs: "split_text_into_batches (ti_buffer st) (ti_max_batch st) = Some bs"
      "\<forall>b \<in> set bs. 0 < length b \<and> length b \<le> ti_max_batch st"
    using split_text_into_batches_ok [OF assms] by blast
  then have "step_ok (st\<lparr>ti_buffer := []\<rparr>) (state_of (send_text_batches bs (st\<lparr>ti_buffer := []\<rparr>) awaits))"
    by (intro send_text_batches_ok) simp
  then show ?thesis using step_ok_trans [OF clear] bs(1) by (simp add: send_buffer_def Let_def)
qed

lemma run_op_ok:
  assumes "2 \<le> ti_max_batch st" and "\<And>s. concat (tr_segments tr s) = s"
  shows "step_ok st (state_of (run_op tr q st awaits))"
proof (cases q)
  case (QueuedPush s closed)
  let ?next = "ti_buffer st @ s"
  obtain bs rest where t: "take_complete_sentences tr (ti_max_batch st) ?next = (bs, rest)" by fastforce
  have clear: "step_ok st (st\<lparr>ti_buffer := buf\<rparr>)" for buf by (simp add: step_ok_def)
  have "step_ok (st\<lparr>ti_buffer := rest\<rparr>) (state_of (send_sentences closed bs (st\<lparr>ti_buffer := rest\<rparr>) awaits))"
    using take_complete_sentences_spec [OF assms(1,2) t] by (intro send_sentences_ok) simp
  from step_ok_trans [OF clear this] show ?thesis using clear
    by (simp add: QueuedPush run_push_def await_session_ok Let_def t)
next
  case QueuedFlush
  have "step_ok st (ensure_session st)" by (simp add: ensure_session_def step_ok_def)
  then have "step_ok st (state_of (and_then (await_session (ti_session (ensure_session st) = ClosedSession) (ensure_session st) awaits)
      (unless_cancelled (\<lambda>st awaits. and_then (send_buffer st awaits) (unless_cancelled flush_and_remember)))))"
    by (intro and_then_ok unless_cancelled_ok flush_and_remember_ok send_buffer_ok step_ok_trans [OF _ await_session_ok])
      (use assms(1) step_ok_max in \<open>auto\<close>)
  then show ?thesis by (simp add: QueuedFlush run_flush_def Let_def)
next
  case QueuedFinish
  have fin: "step_ok st (state_of (finish_session st awaits))" for st awaits
    unfolding finish_session_def
    by (intro and_then_ok step_ok_trans [OF log_call_ok settle_ok]) auto
  have start: "step_ok st (st\<lparr>ti_finishing := True\<rparr>)" by (simp add: step_ok_def)
  have "step_ok st (state_of (and_then (settle (st\<lparr>ti_finishing := True\<rparr>) awaits) (unless_cancelled (\<lambda>st awaits.
      and_then (if ti_buffer st \<noteq> [] then send_buffer st awaits else (Returned, st, awaits)) (unless_cancelled finish_session)))))"
  proof (intro and_then_ok unless_cancelled_ok fin step_ok_trans [OF start settle_ok])
    fix st1 a assume "step_ok st st1"
    then show "step_ok st1 (state_of (if ti_buffer st1 \<noteq> [] then send_buffer st1 a else (Returned, st1, a)))"
      using send_buffer_ok [of st1 a] assms(1) step_ok_max by auto
  qed
  then show ?thesis using start by (auto simp: QueuedFinish run_finish_def Let_def step_ok_def split: session_slot.split)
qed

lemma tts_step_ok:
  assumes "2 \<le> ti_max_batch st" and "\<And>s. concat (tr_segments tr s) = s"
  shows "ti_max_batch (snd (tts_step tr step st)) = ti_max_batch st
    \<and> (ti_cancelled st \<longrightarrow> ti_cancelled (snd (tts_step tr step st)))
    \<and> (calls_ok (ti_max_batch st) (ti_log st) \<longrightarrow> calls_ok (ti_max_batch st) (ti_log (snd (tts_step tr step st))))"
proof (cases step)
  case (RunNext awaits)
  show ?thesis
  proof (cases "ti_queue st")
    case (Cons q qs)
    have "step_ok (st\<lparr>ti_queue := qs\<rparr>) (state_of (run_op tr q (st\<lparr>ti_queue := qs\<rparr>) awaits))"
      using run_op_ok [OF _ assms(2), of "st\<lparr>ti_queue := qs\<rparr>"] assms(1) by simp
    then show ?thesis unfolding RunNext
      by (cases "run_op tr q (st\<lparr>ti_queue := qs\<rparr>) awaits"; cases "fst (run_op tr q (st\<lparr>ti_queue := qs\<rparr>) awaits)")
        (auto simp: Cons step_ok_def)
  qed (simp add: RunNext)
qed (auto simp: Let_def ensure_session_def cancel_input_def)

lemma run_tts_ok:
  assumes "2 \<le> ti_max_batch st" and "\<And>s. concat (tr_segments tr s) = s" and "calls_ok (ti_max_batch st) (ti_log st)"
  shows "calls_ok (ti_max_batch st) (ti_log (snd (run_tts tr steps st)))"
  using assms(1,3)
proof (induction steps arbitrary: st)
  case (Cons step steps)
  note ok = tts_step_ok [OF Cons.prems(1) assms(2), of step]
  then have "calls_ok (ti_max_batch st) (ti_log (snd (run_tts tr steps (snd (tts_step tr step st)))))"
    using Cons.IH [of "snd (tts_step tr step st)"] Cons.prems by simp
  then show ?case by (simp add: split_beta)
qed simp

section \<open>Nothing is lost or repeated\<close>

fun call_text :: "tts_call \<Rightarrow> js_string" where
  "call_text (SendText s) = s"
| "call_text FlushSession = []"
| "call_text FinishSession = []"

abbreviation sent_text :: "tts_input \<Rightarrow> js_string" where
  "sent_text st \<equiv> concat (map call_text (ti_log st))"

fun op_text :: "queued_op \<Rightarrow> js_string" where
  "op_text (QueuedPush s closed) = s"
| "op_text QueuedFlush = []"
| "op_text QueuedFinish = []"

fun step_text :: "input_step \<Rightarrow> js_string" where
  "step_text (PushToken s) = s"
| "step_text FlushBoundary = []"
| "step_text FinishInput = []"
| "step_text CancelInput = []"
| "step_text (RunNext awaits) = []"

text \<open>
  An operation that returned without a cancellation: what it did to the log and the buffer, and that
  it kept the rest.
\<close>

definition performed :: "tts_input \<Rightarrow> op_result \<times> tts_input \<times> await_result list \<Rightarrow> tts_call list \<Rightarrow> js_string \<Rightarrow> bool" where
  "performed st r calls buf \<longleftrightarrow>
     (fst r = Returned \<and> \<not> ti_cancelled (state_of r) \<longrightarrow>
        ti_log (state_of r) = ti_log st @ calls \<and> ti_buffer (state_of r) = buf
        \<and> ti_session (state_of r) = ti_session st \<and> ti_finishing (state_of r) = ti_finishing st)"

lemma settle_performed: "performed st (settle st awaits) [] (ti_buffer st)"
  by (auto simp: settle_def performed_def cancel_input_def split: list.split)

lemma await_session_performed: "ti_buffer st = buf \<Longrightarrow> performed st (await_session closed st awaits) [] buf"
  using settle_performed [of st awaits] by (auto simp: await_session_def performed_def)

lemma send_text_performed: "ti_buffer st = buf \<Longrightarrow> performed st (send_text s st awaits) [SendText s] buf"
  using settle_performed [of "log_call (SendText s) st" awaits] by (auto simp: send_text_def performed_def log_call_def)

lemma flush_performed: "ti_buffer st = buf \<Longrightarrow> performed st (flush_and_remember st awaits) [FlushSession] buf"
  using settle_performed [of "log_call FlushSession st" awaits]
  by (cases "settle (log_call FlushSession st) awaits")
    (auto simp: flush_and_remember_def performed_def log_call_def settle_def cancel_input_def split: op_result.split list.splits if_splits)

text \<open>Sequencing, with the fact that a cancellation is never taken back.\<close>

lemma and_then_performed:
  assumes "performed st r calls buf" and "step_ok st (state_of r)"
    and "\<And>st1 a. step_ok st st1 \<Longrightarrow> step_ok st1 (state_of (k st1 a))"
    and "\<And>st1 a. step_ok st st1 \<Longrightarrow> ti_buffer st1 = buf \<Longrightarrow> performed st1 (k st1 a) calls' buf'"
  shows "performed st (and_then r k) (calls @ calls') buf'"
proof -
  obtain res st1 a where r: "r = (res, st1, a)" by (cases r)
  show ?thesis
  proof (cases res)
    case Returned
    show ?thesis
      using assms(1,2) assms(3) [of st1 a] assms(4) [of st1 a]
      by (auto simp: performed_def and_then_def r Returned step_ok_def)
  qed (simp_all add: performed_def and_then_def r)
qed

lemma unless_cancelled_performed: "performed st (k st a) calls buf \<Longrightarrow> performed st (unless_cancelled k st a) calls buf"
  by (auto simp: performed_def unless_cancelled_def)

lemma send_sentences_performed:
  "\<forall>b \<in> set batches. 0 < length b \<and> length b \<le> ti_max_batch st \<Longrightarrow>
    performed st (send_sentences closed batches st awaits) (concat (map (\<lambda>b. [SendText b, FlushSession]) batches)) (ti_buffer st)"
proof (induction batches arbitrary: st awaits)
  case (Cons b bs)
  have "performed st (send_sentences closed (b # bs) st awaits)
      ([] @ ([SendText b] @ ([FlushSession] @ concat (map (\<lambda>b. [SendText b, FlushSession]) bs)))) (ti_buffer st)"
    unfolding send_sentences.simps
  proof (intro and_then_performed unless_cancelled_performed await_session_performed send_text_performed flush_performed
      and_then_ok unless_cancelled_ok await_session_ok send_text_ok flush_and_remember_ok send_sentences_ok)
    fix st1 st2 st3 a3
    assume ok: "step_ok st st1" "step_ok st1 st2" "step_ok st2 st3" and buf: "ti_buffer st3 = ti_buffer st"
    have "performed st3 (send_sentences closed bs st3 a3) (concat (map (\<lambda>b. [SendText b, FlushSession]) bs)) (ti_buffer st3)"
      using ok [THEN step_ok_max] Cons.prems by (intro Cons.IH) simp
    then show "performed st3 (send_sentences closed bs st3 a3) (concat (map (\<lambda>b. [SendText b, FlushSession]) bs)) (ti_buffer st)"
      using buf by simp
  qed (use Cons.prems step_ok_max in \<open>auto\<close>)
  then show ?case by simp
qed (simp add: performed_def)

lemma send_text_batches_performed:
  "\<forall>b \<in> set batches. 0 < length b \<and> length b \<le> ti_max_batch st \<Longrightarrow> ti_buffer st = buf \<Longrightarrow>
    performed st (send_text_batches batches st awaits) (map SendText batches) buf"
proof (induction batches arbitrary: st awaits)
  case (Cons b bs)
  have "performed st (send_text_batches (b # bs) st awaits) ([SendText b] @ map SendText bs) buf"
    unfolding send_text_batches.simps
  proof (intro and_then_performed unless_cancelled_performed send_text_performed send_text_ok send_text_batches_ok)
    fix st1 a assume "step_ok st st1" "ti_buffer st1 = buf"
    then show "performed st1 (send_text_batches bs st1 a) (map SendText bs) buf"
      using Cons.prems step_ok_max [of st st1] by (intro Cons.IH) auto
  qed (use Cons.prems step_ok_max in \<open>auto\<close>)
  then show ?case by simp
qed (simp add: performed_def)

lemma send_buffer_performed:
  assumes "split_text_into_batches buf m = Some bs" and "\<forall>b \<in> set bs. 0 < length b \<and> length b \<le> m"
    and "ti_buffer st = buf" and "ti_max_batch st = m"
  shows "performed st (send_buffer st awaits) (map SendText bs) []"
proof -
  have "performed (st\<lparr>ti_buffer := []\<rparr>) (send_text_batches bs (st\<lparr>ti_buffer := []\<rparr>) awaits) (map SendText bs) []"
    using assms by (intro send_text_batches_performed) simp_all
  then show ?thesis using assms by (simp add: send_buffer_def Let_def performed_def)
qed

lemma call_text_batches [simp]:
  "concat (map call_text (map SendText bs)) = concat bs" "concat (map (call_text \<circ> SendText) bs) = concat bs"
  "concat (map call_text (concat (map (\<lambda>b. [SendText b, FlushSession]) bs))) = concat bs"
  by (induction bs) simp_all

text \<open>The three operations. Together they never lose or repeat a character.\<close>

definition keeps_text :: "tts_input \<Rightarrow> js_string \<Rightarrow> op_result \<times> tts_input \<times> await_result list \<Rightarrow> bool" where
  "keeps_text st added r \<longleftrightarrow>
     (fst r = Returned \<and> \<not> ti_cancelled (state_of r) \<longrightarrow>
        sent_text (state_of r) @ ti_buffer (state_of r) = sent_text st @ ti_buffer st @ added)"

lemma performed_keeps_text:
  "performed st r calls buf \<Longrightarrow> concat (map call_text calls) @ buf = ti_buffer st @ added \<Longrightarrow> keeps_text st added r"
  by (auto simp: performed_def keeps_text_def)

lemma run_push_performed:
  assumes "2 \<le> ti_max_batch st" and "\<And>s. concat (tr_segments tr s) = s" and open_st: "\<not> ti_cancelled st"
  shows "\<exists>calls buf. performed st (run_push tr s closed st awaits) calls buf \<and> FinishSession \<notin> set calls
    \<and> concat (map call_text calls) @ buf = ti_buffer st @ s"
proof -
  let ?next = "ti_buffer st @ s"
  obtain bs rest where t: "take_complete_sentences tr (ti_max_batch st) ?next = (bs, rest)" by fastforce
  note cut = take_complete_sentences_spec [OF assms(1,2) t]
  have "performed (st\<lparr>ti_buffer := rest\<rparr>) (send_sentences closed bs (st\<lparr>ti_buffer := rest\<rparr>) awaits)
      (concat (map (\<lambda>b. [SendText b, FlushSession]) bs)) rest"
    using send_sentences_performed [of bs "st\<lparr>ti_buffer := rest\<rparr>" closed awaits] cut by simp
  then have sent: "performed st (send_sentences closed bs (st\<lparr>ti_buffer := rest\<rparr>) awaits)
      (concat (map (\<lambda>b. [SendText b, FlushSession]) bs)) rest"
    by (simp add: performed_def)
  consider (throws) "fst (run_push tr s closed st awaits) \<noteq> Returned"
    | (sentences) "run_push tr s closed st awaits = send_sentences closed bs (st\<lparr>ti_buffer := rest\<rparr>) awaits"
    | (buffered) "run_push tr s closed st awaits = (Returned, st\<lparr>ti_buffer := ?next\<rparr>, awaits)"
    using open_st by (cases "ti_finishing st"; cases "utf8_byte_length_within_limit ?next max_buffer_bytes = None";
      cases "has_sentence_terminal tr s"; simp add: run_push_def Let_def t)
  then show ?thesis
  proof cases
    case throws
    then have "performed st (run_push tr s closed st awaits) [] ?next" by (simp add: performed_def)
    then show ?thesis by fastforce
  next
    case sentences
    then show ?thesis using sent cut
      by (intro exI [of _ "concat (map (\<lambda>b. [SendText b, FlushSession]) bs)"] exI [of _ rest]) auto
  next
    case buffered
    then show ?thesis by (intro exI [of _ "[]"] exI [of _ ?next]) (simp add: performed_def)
  qed
qed

lemma run_flush_performed:
  assumes "2 \<le> ti_max_batch st"
  shows "\<exists>calls. performed (if ti_buffer st = [] then st else ensure_session st) (run_flush st awaits) calls []
    \<and> FinishSession \<notin> set calls \<and> concat (map call_text calls) = ti_buffer st"
proof -
  obtain bs where bs: "split_text_into_batches (ti_buffer st) (ti_max_batch st) = Some bs" "concat bs = ti_buffer st"
      "\<forall>b \<in> set bs. 0 < length b \<and> length b \<le> ti_max_batch st"
    using split_text_into_batches_ok [OF assms] by blast
  let ?st = "ensure_session st"
  have same: "ti_buffer ?st = ti_buffer st" "ti_max_batch ?st = ti_max_batch st" by (simp_all add: ensure_session_def)
  have "performed ?st (and_then (await_session closed ?st awaits)
      (unless_cancelled (\<lambda>st awaits. and_then (send_buffer st awaits) (unless_cancelled flush_and_remember))))
      ([] @ (map SendText bs @ [FlushSession])) []" for closed
  proof (intro and_then_performed unless_cancelled_performed await_session_performed flush_performed
      and_then_ok unless_cancelled_ok await_session_ok send_buffer_ok flush_and_remember_ok)
    fix st1 a assume "step_ok ?st st1" "ti_buffer st1 = ti_buffer st"
    then show "performed st1 (send_buffer st1 a) (map SendText bs) []"
      using same step_ok_max [of ?st st1] by (intro send_buffer_performed [OF bs(1,3)]) auto
  qed (use same step_ok_max assms in \<open>auto\<close>)
  then have sent: "performed ?st (run_flush st awaits) (map SendText bs @ [FlushSession]) []"
    if "ti_buffer st \<noteq> []" using that by (cases "ti_cancelled st") (auto simp: run_flush_def Let_def performed_def)
  show ?thesis
  proof (cases "ti_buffer st = []")
    case True
    then show ?thesis by (intro exI [of _ "[]"]) (simp add: run_flush_def performed_def)
  next
    case False
    then show ?thesis using sent bs(2) by (intro exI [of _ "map SendText bs @ [FlushSession]"]) auto
  qed
qed

lemma finish_session_performed: "ti_buffer st = buf \<Longrightarrow> performed st (finish_session st awaits) [FinishSession] buf"
  using settle_performed [of "log_call FinishSession st" awaits]
  by (cases "settle (log_call FinishSession st) awaits"; cases "fst (settle (log_call FinishSession st) awaits)")
    (auto simp: finish_session_def and_then_def performed_def log_call_def)

lemma finish_session_ok: "step_ok st (state_of (finish_session st awaits))"
  unfolding finish_session_def by (intro and_then_ok step_ok_trans [OF log_call_ok settle_ok]) auto

lemma run_finish_performed:
  assumes "2 \<le> ti_max_batch st" and "ti_session st = Opening" and "\<not> ti_finishing st" and "\<not> ti_cancelled st"
  shows "\<exists>calls. performed (st\<lparr>ti_finishing := True\<rparr>) (run_finish st awaits) (calls @ [FinishSession]) []
    \<and> FinishSession \<notin> set calls \<and> concat (map call_text calls) = ti_buffer st"
proof -
  obtain bs where bs: "split_text_into_batches (ti_buffer st) (ti_max_batch st) = Some bs" "concat bs = ti_buffer st"
      "\<forall>b \<in> set bs. 0 < length b \<and> length b \<le> ti_max_batch st"
    using split_text_into_batches_ok [OF assms(1)] by blast
  let ?st = "st\<lparr>ti_finishing := True\<rparr>"
  let ?send = "\<lambda>st awaits. if ti_buffer st \<noteq> [] then send_buffer st awaits else (Returned, st, awaits)"
  have empty: "bs = []" if "ti_buffer st = []" using bs(2,3) that by (cases bs) auto
  have send_ok: "step_ok st1 (state_of (?send st1 a))" if "step_ok ?st st1" for st1 a
    using send_buffer_ok [of st1 a] assms(1) step_ok_max [OF that] by simp
  have "performed ?st (and_then (settle ?st awaits) (unless_cancelled (\<lambda>st awaits.
      and_then (?send st awaits) (unless_cancelled finish_session))))
      ([] @ (map SendText bs @ [FinishSession])) []"
  proof (intro and_then_performed unless_cancelled_performed and_then_ok unless_cancelled_ok settle_ok finish_session_ok
      finish_session_performed)
    show "performed ?st (settle ?st awaits) [] (ti_buffer st)" using settle_performed [of ?st awaits] by simp
  next
    fix st1 a assume st1: "step_ok ?st st1" "ti_buffer st1 = ti_buffer st"
    show "performed st1 (?send st1 a) (map SendText bs) []"
      using st1 step_ok_max [OF st1(1)] send_buffer_performed [OF bs(1,3), of st1 a] empty by (auto simp: performed_def)
  qed (rule send_ok, assumption)+
  moreover have "run_finish st awaits = and_then (settle ?st awaits) (unless_cancelled (\<lambda>st awaits.
      and_then (?send st awaits) (unless_cancelled finish_session)))"
    using assms by (simp add: run_finish_def Let_def)
  ultimately show ?thesis using bs(2) by (intro exI [of _ "map SendText bs"]) auto
qed

text \<open>
  The invariant while the input is not cancelled: before the session is opened nothing is pending,
  and after the end nothing more is sent.
\<close>

definition input_inv :: "tts_input \<Rightarrow> bool" where
  "input_inv st \<longleftrightarrow>
     (ti_session st = NoSession \<longrightarrow> ti_buffer st = [] \<and> (\<forall>s c. QueuedPush s c \<notin> set (ti_queue st)))
     \<and> (ti_session st = ClosedSession \<longrightarrow> ti_finishing st)
     \<and> (ti_finishing st \<longrightarrow> ti_buffer st = [])
     \<and> (FinishSession \<in> set (ti_log st) \<longrightarrow>
         ti_finishing st \<and> (\<exists>calls. ti_log st = calls @ [FinishSession] \<and> FinishSession \<notin> set calls))"

abbreviation queue_text :: "tts_input \<Rightarrow> js_string" where
  "queue_text st \<equiv> concat (map op_text (ti_queue st))"

lemma push_returned: "run_push tr s closed st awaits = (Returned, st', a) \<Longrightarrow> \<not> ti_cancelled st \<Longrightarrow> \<not> ti_finishing st"
  by (auto simp: run_push_def split: if_splits)

lemma run_op_keeps:
  assumes max: "2 \<le> ti_max_batch st" and law: "\<And>s. concat (tr_segments tr s) = s"
    and inv: "input_inv (st\<lparr>ti_queue := q # ti_queue st\<rparr>)"
    and run: "run_op tr q st awaits = (Returned, st', a)" and not_cancelled: "\<not> ti_cancelled st'"
  shows "input_inv st' \<and> sent_text st' @ ti_buffer st' = sent_text st @ ti_buffer st @ op_text q
    \<and> ti_queue st' = ti_queue st \<and> ti_max_batch st' = ti_max_batch st"
proof -
  have ok: "step_ok st st'" using run_op_ok [OF max law, of q awaits] run by simp
  then have open_st: "\<not> ti_cancelled st" using not_cancelled by (auto simp: step_ok_def)
  have keeps: "ti_queue st' = ti_queue st" "ti_max_batch st' = ti_max_batch st" using ok by (auto simp: step_ok_def)
  have "input_inv st' \<and> sent_text st' @ ti_buffer st' = sent_text st @ ti_buffer st @ op_text q"
  proof (cases q)
    case (QueuedPush s closed)
    have r: "run_push tr s closed st awaits = (Returned, st', a)" using run QueuedPush by simp
    obtain calls buf where "performed st (Returned, st', a) calls buf" "FinishSession \<notin> set calls"
        "concat (map call_text calls) @ buf = ti_buffer st @ s"
      using run_push_performed [OF max law open_st, where s = s and closed = closed and awaits = awaits] r by auto
    then show ?thesis using inv not_cancelled push_returned [OF r open_st] keeps QueuedPush
      by (auto simp: performed_def input_inv_def)
  next
    case QueuedFlush
    have r: "run_flush st awaits = (Returned, st', a)" using run QueuedFlush by simp
    obtain calls where calls: "performed (if ti_buffer st = [] then st else ensure_session st) (Returned, st', a) calls []"
        "FinishSession \<notin> set calls" "concat (map call_text calls) = ti_buffer st"
      using run_flush_performed [OF max, of awaits] r by auto
    show ?thesis
    proof (cases "ti_buffer st = []")
      case True
      then show ?thesis using r inv by (auto simp: run_flush_def QueuedFlush input_inv_def)
    next
      case False
      then have "ti_session st \<noteq> NoSession" "\<not> ti_finishing st" using inv by (auto simp: input_inv_def)
      then show ?thesis using calls inv not_cancelled False keeps
        by (auto simp: performed_def input_inv_def ensure_session_def QueuedFlush)
    qed
  next
    case QueuedFinish
    have r: "run_finish st awaits = (Returned, st', a)" using run QueuedFinish by simp
    show ?thesis
    proof (cases "ti_session st = Opening \<and> \<not> ti_finishing st")
      case True
      then obtain calls where "performed (st\<lparr>ti_finishing := True\<rparr>) (Returned, st', a) (calls @ [FinishSession]) []"
          "FinishSession \<notin> set calls" "concat (map call_text calls) = ti_buffer st"
        using run_finish_performed [OF max, of awaits] open_st r by auto
      then show ?thesis using inv not_cancelled True keeps by (auto simp: performed_def input_inv_def QueuedFinish)
    next
      case False
      then show ?thesis using r inv open_st
        by (cases "ti_session st") (auto simp: run_finish_def input_inv_def QueuedFinish split: if_splits)
    qed
  qed
  then show ?thesis using keeps by simp
qed

lemma tts_step_keeps:
  assumes max: "2 \<le> ti_max_batch st" and law: "\<And>s. concat (tr_segments tr s) = s"
    and inv: "input_inv st" and step: "tts_step tr step st = (Returned, st')" and not_cancelled: "\<not> ti_cancelled st'"
  shows "input_inv st' \<and> sent_text st' @ ti_buffer st' @ queue_text st' = sent_text st @ ti_buffer st @ queue_text st @ step_text step"
proof (cases step)
  case (PushToken s)
  then show ?thesis using step inv
    by (cases "s = []"; cases "ti_session st") (auto simp: input_inv_def ensure_session_def Let_def)
next
  case CancelInput
  then show ?thesis using step not_cancelled inv by (auto simp: cancel_input_def split: if_splits)
next
  case (RunNext awaits)
  show ?thesis
  proof (cases "ti_queue st = [] \<or> ti_stuck st")
    case True
    then show ?thesis using step inv RunNext by (auto split: list.splits)
  next
    case False
    then obtain q qs where queue: "ti_queue st = q # qs" by (cases "ti_queue st") auto
    let ?st = "st\<lparr>ti_queue := qs\<rparr>"
    obtain a where run: "run_op tr q ?st awaits = (Returned, st', a)"
      using step RunNext False queue
      by (cases "run_op tr q ?st awaits"; cases "fst (run_op tr q ?st awaits)") auto
    have "input_inv (?st\<lparr>ti_queue := q # ti_queue ?st\<rparr>)" using inv queue by (simp add: input_inv_def)
    from run_op_keeps [OF _ law this run not_cancelled] max queue RunNext show ?thesis by simp
  qed
qed (use step inv in \<open>auto simp: input_inv_def\<close>)

lemma cancel_stays:
  assumes "2 \<le> ti_max_batch st" and "\<And>s. concat (tr_segments tr s) = s" and "ti_cancelled st"
  shows "ti_cancelled (snd (run_tts tr steps st))"
  using assms(1,3)
proof (induction steps arbitrary: st)
  case (Cons step steps)
  note tts_step_ok [OF Cons.prems(1) assms(2), of step]
  then have "ti_cancelled (snd (run_tts tr steps (snd (tts_step tr step st))))" using Cons by simp
  then show ?case by (simp add: split_beta)
qed simp

lemma run_tts_keeps:
  assumes max: "2 \<le> ti_max_batch st" and law: "\<And>s. concat (tr_segments tr s) = s" and inv: "input_inv st"
    and run: "run_tts tr steps st = (results, st')" and returned: "\<forall>r \<in> set results. r = Returned"
    and not_cancelled: "\<not> ti_cancelled st'"
  shows "input_inv st' \<and> sent_text st' @ ti_buffer st' @ queue_text st' = sent_text st @ ti_buffer st @ queue_text st @ concat (map step_text steps)"
  using max inv run returned
proof (induction steps arbitrary: st results)
  case (Cons step steps)
  obtain r st1 where s: "tts_step tr step st = (r, st1)" by (cases "tts_step tr step st")
  obtain rs where rest: "run_tts tr steps st1 = (rs, st')" "results = r # rs"
    using Cons.prems(3) s by (auto split: prod.splits)
  note ok = tts_step_ok [OF Cons.prems(1) law, of step, unfolded s, simplified]
  have "\<not> ti_cancelled st1" using cancel_stays [OF _ law, of st1 steps] ok Cons.prems(1) rest(1) not_cancelled by auto
  moreover have "r = Returned" using Cons.prems(4) rest(2) by simp
  ultimately have one: "input_inv st1 \<and> sent_text st1 @ ti_buffer st1 @ queue_text st1
      = sent_text st @ ti_buffer st @ queue_text st @ step_text step"
    using tts_step_keeps [OF Cons.prems(1) law Cons.prems(2)] s by blast
  have "input_inv st' \<and> sent_text st' @ ti_buffer st' @ queue_text st' = sent_text st1 @ ti_buffer st1 @ queue_text st1 @ concat (map step_text steps)"
    by (rule Cons.IH) (use ok one Cons.prems rest in auto)
  with one show ?case by simp
qed simp

lemma new_tts_input_facts:
  "new_tts_input maximum = Inr st \<Longrightarrow> input_inv st \<and> ti_log st = [] \<and> ti_buffer st = [] \<and> ti_queue st = []
    \<and> ti_max_batch st = nat (case maximum of Some n \<Rightarrow> n | None \<Rightarrow> 10000)"
  by (auto simp: new_tts_input_def input_inv_def Let_def split: if_splits)

text \<open>
  Property C28: while no operation fails and nothing is cancelled, the text sent so far, the buffer and
  the text of the operations still queued are together exactly what was pushed, in order; and once the
  session is finished the buffer is empty and nothing is sent after the end.
\<close>

theorem pushed_text_is_spoken_once:
  assumes "new_tts_input maximum = Inr st" and "maximum \<noteq> Some 1" and "\<And>s. concat (tr_segments tr s) = s"
    and "run_tts tr steps st = (results, st')" and "\<forall>r \<in> set results. r = Returned" and "\<not> ti_cancelled st'"
  shows "concat (map call_text (ti_log st')) @ ti_buffer st' @ concat (map op_text (ti_queue st'))
      = concat (map step_text steps)
    \<and> (FinishSession \<in> set (ti_log st') \<longrightarrow> ti_buffer st' = [] \<and> last (ti_log st') = FinishSession
        \<and> FinishSession \<notin> set (butlast (ti_log st')))"
proof -
  note new = new_tts_input_facts [OF assms(1)]
  have "2 \<le> ti_max_batch st" using assms(1,2) new by (auto simp: new_tts_input_def Let_def split: if_splits option.splits)
  from run_tts_keeps [OF this assms(3) _ assms(4-6)] new show ?thesis by (auto simp: input_inv_def)
qed

text \<open>
  No call of the speech session is ever given an empty text or one longer than the
  configured batch, whatever fails, whenever the input is cancelled and however the text is segmented.
\<close>

theorem sent_batches_bounded:
  assumes "new_tts_input maximum = Inr st" and "maximum \<noteq> Some 1" and "\<And>s. concat (tr_segments tr s) = s"
    and "SendText s \<in> set (ti_log (snd (run_tts tr steps st)))"
  shows "0 < length s \<and> int (length s) \<le> (case maximum of Some n \<Rightarrow> n | None \<Rightarrow> 10000)"
proof -
  note new = new_tts_input_facts [OF assms(1)]
  have max: "2 \<le> ti_max_batch st" "int (ti_max_batch st) = (case maximum of Some n \<Rightarrow> n | None \<Rightarrow> 10000)"
    using assms(1,2) new by (auto simp: new_tts_input_def Let_def split: if_splits option.splits)
  have "calls_ok (ti_max_batch st) (ti_log (snd (run_tts tr steps st)))"
    using run_tts_ok [OF max(1) assms(3)] new by (simp add: calls_ok_def)
  then show ?thesis using assms(4) max(2) by (auto simp: calls_ok_def)
qed

text \<open>A run over a text of two sentences, cut at the full stops.\<close>

fun cut_after_stops :: "js_string \<Rightarrow> js_string \<Rightarrow> js_string list" where
  "cut_after_stops cur [] = (if cur = [] then [] else [cur])"
| "cut_after_stops cur (u # us) = (if u = 46 then (cur @ [u]) # cut_after_stops [] us else cut_after_stops (cur @ [u]) us)"

definition plain_rules :: text_rules where
  "plain_rules = \<lparr>tr_terminal = (\<lambda>c. c = [46]), tr_closing = (\<lambda>c. False), tr_segments = cut_after_stops []\<rparr>"

lemma cut_after_stops_concat: "concat (cut_after_stops cur s) = cur @ s"
  by (induction cur s rule: cut_after_stops.induct) auto

lemma plain_rules_law: "concat (tr_segments plain_rules s) = s"
  by (simp add: plain_rules_def cut_after_stops_concat)

definition fine :: await_result where
  "fine = \<lparr>aw_ok = True, aw_cancel = False\<rparr>"

definition two_sentences :: "input_step list" where
  "two_sentences = [PushToken [65, 46, 32, 66], PushToken [66], RunNext [fine, fine, fine], RunNext [], FinishInput, RunNext [fine, fine, fine]]"

definition spoken_log :: "tts_call list" where
  "spoken_log = [SendText [65, 46], FlushSession, SendText [32, 66, 66], FinishSession]"

definition started_input :: tts_input where
  "started_input = \<lparr>ti_max_batch = 8, ti_session = NoSession, ti_buffer = [], ti_finishing = False, ti_cancelled = False,
     ti_flush_failed = False, ti_stuck = False, ti_queue = [], ti_log = []\<rparr>"

lemma started: "new_tts_input (Some 8) = Inr started_input"
  by (simp add: new_tts_input_def started_input_def is_safe_integer_def max_safe_integer_def)

lemmas text_defs = take_complete_sentences_def ends_sentence_def has_sentence_terminal_def ellipsis_def
  is_space_character_def is_js_space_def is_high_def is_low_def add_character_def flush_batch_def individual_sentences_def
  utf8_byte_length_within_limit_def max_buffer_bytes_def find_batch_boundary_def

lemmas input_defs = run_push_def run_finish_def finish_session_def send_buffer_def send_text_def flush_and_remember_def
  await_session_def settle_def log_call_def and_then_def unless_cancelled_def ensure_session_def fine_def

lemma split_short: "length s \<le> maximum \<Longrightarrow> split_text_into_batches s maximum = Some (if s = [] then [] else [s])"
  by (subst split_text_into_batches.simps) simp

lemma two_sentences_end:
  "run_tts plain_rules two_sentences started_input = ([Returned, Returned, Returned, Returned, Returned, Returned],
    started_input\<lparr>ti_session := Opening, ti_finishing := True, ti_log := spoken_log\<rparr>)"
  by (simp add: two_sentences_def started_input_def plain_rules_def spoken_log_def text_defs input_defs
      split_short)

lemma two_sentences_run:
  "fst (run_tts plain_rules two_sentences started_input) = [Returned, Returned, Returned, Returned, Returned, Returned]"
  "\<not> ti_cancelled (snd (run_tts plain_rules two_sentences started_input))"
  "ti_log (snd (run_tts plain_rules two_sentences started_input)) = spoken_log"
  unfolding two_sentences_end by (simp_all add: started_input_def)

theorem pushed_text_is_spoken_once_witness:
  "concat (map call_text (ti_log (snd (run_tts plain_rules two_sentences started_input)))) = [65, 46, 32, 66, 66]"
proof -
  obtain st' where run: "run_tts plain_rules two_sentences started_input = ([Returned, Returned, Returned, Returned, Returned, Returned], st')"
      and st': "st' = snd (run_tts plain_rules two_sentences started_input)"
    using two_sentences_run(1) by (cases "run_tts plain_rules two_sentences started_input") auto
  have "\<not> ti_cancelled st'" using two_sentences_run(2) st' by simp
  from pushed_text_is_spoken_once [OF started _ plain_rules_law run _ this]
  have "concat (map call_text (ti_log st')) @ ti_buffer st' @ concat (map op_text (ti_queue st')) = [65, 46, 32, 66, 66]"
    by (simp add: two_sentences_def)
  moreover have "ti_buffer st' = []" "ti_queue st' = []" unfolding st' two_sentences_end by (simp_all add: started_input_def)
  ultimately show ?thesis using st' by simp
qed

theorem sent_batches_bounded_witness:
  "SendText [32, 66, 66] \<in> set (ti_log (snd (run_tts plain_rules two_sentences started_input)))
    \<and> 0 < length [32 :: 16 word, 66, 66] \<and> int (length [32 :: 16 word, 66, 66]) \<le> 8"
proof -
  have sent: "SendText [32, 66, 66] \<in> set (ti_log (snd (run_tts plain_rules two_sentences started_input)))"
    unfolding two_sentences_run(3) by (simp add: spoken_log_def)
  from sent_batches_bounded [OF started _ plain_rules_law sent] sent show ?thesis by simp
qed

end
