(* ===== verification/Stt_Journal.thy ===== *)
theory Stt_Journal
  imports Numbers
begin

text \<open>
  The replay journal of the resilient speech-to-text stream: \<open>packages/runtime/src/resilient-stt-journal.ts\<close>.
  The journal holds the admitted commands; those before the cursor have been sent to the current
  provider stream. Old ones are compacted away, and after a failure the cursor goes back over
  everything the provider may not have processed.

  Clock readings are integers (milliseconds); an index of the code is a \<open>nat\<close>. What an entry only
  carries for the coordinator of the agent contexts (its promises and its previous value) is left out.
\<close>

section \<open>Entries\<close>

datatype 'c journal_entry =
    AudioEntry (je_chunk: 'c) (je_bytes: int) (je_offset: rat) (je_admitted: int) (je_dispatched: "int option")
  | CommitEntry (je_admitted: int) (je_settled: bool)
  | ContextEntry (je_context: js_string) (je_version: int) (je_settled: bool) (je_admitted: int)

fun is_audio :: "'c journal_entry \<Rightarrow> bool" where
  "is_audio (AudioEntry c b off a d) = True"
| "is_audio (CommitEntry a s) = False"
| "is_audio (ContextEntry c v s a) = False"

fun is_settled_commit :: "'c journal_entry \<Rightarrow> bool" where
  "is_settled_commit (AudioEntry c b off a d) = False"
| "is_settled_commit (CommitEntry a s) = s"
| "is_settled_commit (ContextEntry c v s a) = False"

fun is_settled_context :: "'c journal_entry \<Rightarrow> bool" where
  "is_settled_context (AudioEntry c b off a d) = False"
| "is_settled_context (CommitEntry a s) = False"
| "is_settled_context (ContextEntry c v s a) = s"

text \<open>\<open>dispatchedAtMs ?? admittedAtMs\<close> of an audio entry.\<close>

definition audio_time :: "'c journal_entry \<Rightarrow> int" where
  "audio_time e = (case je_dispatched e of Some t \<Rightarrow> t | None \<Rightarrow> je_admitted e)"

definition journal_bytes :: "'c journal_entry list \<Rightarrow> int" where
  "journal_bytes journal = foldl (\<lambda>total e. total + (if is_audio e then je_bytes e else 0)) 0 journal"

section \<open>The start of a replay\<close>

fun replay_back :: "'c journal_entry list \<Rightarrow> int \<Rightarrow> nat \<Rightarrow> nat" where
  "replay_back journal cutoff 0 = 0"
| "replay_back journal cutoff (Suc n) =
     (if length journal \<le> n then Suc n
      else case journal ! n of
        CommitEntry a s \<Rightarrow> replay_back journal cutoff n
      | ContextEntry c v s a \<Rightarrow> replay_back journal cutoff n
      | AudioEntry c b off a d \<Rightarrow> if cutoff \<le> audio_time (journal ! n) then replay_back journal cutoff n else Suc n)"

definition find_replay_start :: "'c journal_entry list \<Rightarrow> nat \<Rightarrow> int \<Rightarrow> int \<Rightarrow> nat" where
  "find_replay_start journal cursor now window = replay_back journal (now - window) cursor"

section \<open>Compaction\<close>

definition last_settled_commit :: "'c journal_entry list \<Rightarrow> nat option" where
  "last_settled_commit journal =
     foldl (\<lambda>last i. if is_settled_commit (journal ! i) then Some i else last) None [0..<length journal]"

definition retain_audio :: "'c journal_entry list \<Rightarrow> nat \<Rightarrow> int \<Rightarrow> nat \<Rightarrow> bool" where
  "retain_audio journal cursor cutoff i \<longleftrightarrow>
     is_audio (journal ! i) \<and> (cursor \<le> i \<or> cutoff \<le> audio_time (journal ! i))"

text \<open>Whether an audio entry after index \<open>i\<close> is retained; the code fills an array from the end.\<close>

definition retained_audio_after :: "'c journal_entry list \<Rightarrow> nat \<Rightarrow> int \<Rightarrow> nat \<Rightarrow> bool" where
  "retained_audio_after journal cursor cutoff i =
     list_ex (retain_audio journal cursor cutoff) [Suc i..<length journal]"

definition keeps :: "'c journal_entry list \<Rightarrow> nat \<Rightarrow> int \<Rightarrow> nat \<Rightarrow> bool" where
  "keeps journal cursor cutoff i \<longleftrightarrow>
     \<not> is_settled_context (journal ! i)
     \<and> (cursor \<le> i \<or> retain_audio journal cursor cutoff i
        \<or> (case journal ! i of
             CommitEntry a s \<Rightarrow> last_settled_commit journal = Some i \<or> retained_audio_after journal cursor cutoff i
           | _ \<Rightarrow> False))"

definition kept_indices :: "'c journal_entry list \<Rightarrow> nat \<Rightarrow> int \<Rightarrow> nat list" where
  "kept_indices journal cursor cutoff = filter (keeps journal cursor cutoff) [0..<length journal]"

definition map_index :: "nat list \<Rightarrow> nat \<Rightarrow> nat" where
  "map_index kept old = length (takeWhile (\<lambda>i. i < old) kept)"

definition compact_journal ::
    "'c journal_entry list \<Rightarrow> nat \<Rightarrow> nat \<Rightarrow> nat \<Rightarrow> int \<Rightarrow> int
      \<Rightarrow> 'c journal_entry list \<times> nat \<times> nat \<times> nat" where
  "compact_journal journal cursor replay_start replay_boundary now window =
     (let kept = kept_indices journal cursor (now - window) in
      if length kept = length journal then (journal, cursor, replay_start, replay_boundary)
      else (map ((!) journal) kept, map_index kept cursor, map_index kept replay_start, map_index kept replay_boundary))"

section \<open>What a compaction keeps\<close>

definition audio_of :: "'c journal_entry list \<Rightarrow> 'c journal_entry list" where
  "audio_of journal = filter is_audio journal"

definition recent_audio :: "int \<Rightarrow> 'c journal_entry list \<Rightarrow> 'c journal_entry list" where
  "recent_audio cutoff journal = filter (\<lambda>e. is_audio e \<and> cutoff \<le> audio_time e) journal"

lemma slice_nth: "n \<le> length xs \<Longrightarrow> map ((!) xs) [m..<n] = take (n - m) (drop m xs)"
  by (rule nth_equalityI) auto

lemma filter_slice:
  "n \<le> length xs \<Longrightarrow> map ((!) xs) (filter (\<lambda>i. Q (xs ! i)) [m..<n]) = filter Q (take (n - m) (drop m xs))"
  by (simp add: slice_nth [symmetric] filter_map comp_def)

lemma kept_all: "length (kept_indices journal cursor cutoff) = length journal \<Longrightarrow>
    kept_indices journal cursor cutoff = [0..<length journal]"
  by (metis diff_zero filter_id_conv kept_indices_def length_filter_less length_upt less_irrefl)

lemma upt_split: "m \<le> n \<Longrightarrow> n \<le> k \<Longrightarrow> [m..<k] = [m..<n] @ [n..<k]"
  by (metis le_add_diff_inverse upt_add_eq_append)

lemma map_index_kept:
  assumes "n \<le> length journal"
  shows "map_index (kept_indices journal cursor cutoff) n = length (filter (keeps journal cursor cutoff) [0..<n])"
proof -
  have "takeWhile (\<lambda>i. i < n) (filter P [0..<n] @ filter P [n..<length journal]) = filter P [0..<n]" for P
    by (subst takeWhile_append2) (auto simp: takeWhile_eq_Nil_iff dest: list.set_sel(1))
  then show ?thesis
    by (simp add: map_index_def kept_indices_def upt_split [OF le0 assms])
qed

text \<open>The indices a compaction returns point to the same entries as before.\<close>

lemma compact_journal_eq:
  fixes now window :: int
  assumes "cursor \<le> length journal" and "start \<le> length journal" and "boundary \<le> length journal"
  defines "kept \<equiv> kept_indices journal cursor (now - window)"
  shows "compact_journal journal cursor start boundary now window
    = (map ((!) journal) kept, map_index kept cursor, map_index kept start, map_index kept boundary)"
proof (cases "length kept = length journal")
  case True
  then have "kept = [0..<length journal]" unfolding kept_def by (rule kept_all)
  moreover have "takeWhile (\<lambda>i. i < n) [0..<length journal] = [0..<n]" if "n \<le> length journal" for n
    unfolding upt_split [OF le0 that]
    by (subst takeWhile_append2) (auto simp: takeWhile_eq_Nil_iff dest: list.set_sel(1))
  ultimately show ?thesis
    using assms(1-3) True by (simp add: compact_journal_def kept_def [symmetric] map_index_def map_nth)
next
  case False
  then show ?thesis by (simp add: compact_journal_def kept_def [symmetric] Let_def)
qed

lemma compact_slices:
  fixes now window :: int
  assumes "compact_journal journal cursor start boundary now window = (journal', cursor', start', boundary')"
    and "cursor \<le> length journal" and "start \<le> length journal" and "boundary \<le> length journal"
  defines "kept \<equiv> (\<lambda>m n. map ((!) journal) (filter (keeps journal cursor (now - window)) [m..<n]))"
  shows "take cursor' journal' = kept 0 cursor" and "drop cursor' journal' = kept cursor (length journal)"
    and "cursor' \<le> length journal'" and "start' \<le> length journal'" and "boundary' \<le> length journal'"
    and "take start' journal' = kept 0 start" and "start \<le> cursor \<Longrightarrow> start' \<le> cursor'"
    and "cursor' = length (kept 0 cursor)" and "start' = length (kept 0 start)" and "boundary' = length (kept 0 boundary)"
proof -
  let ?K = "keeps journal cursor (now - window)"
  have eq: "journal' = kept 0 (length journal)" "cursor' = length (kept 0 cursor)" "start' = length (kept 0 start)"
    "boundary' = length (kept 0 boundary)"
    using assms(1) compact_journal_eq [OF assms(2-4), of now window] assms(2-4)
    by (simp_all add: map_index_kept kept_def) (simp add: kept_indices_def)
  have at: "take (length (kept 0 n)) journal' = kept 0 n" "drop (length (kept 0 n)) journal' = kept n (length journal)"
      "length (kept 0 n) \<le> length journal'" if "n \<le> length journal" for n
  proof -
    have "journal' = kept 0 n @ kept n (length journal)" by (simp add: eq kept_def upt_split [OF le0 that])
    then show "take (length (kept 0 n)) journal' = kept 0 n" "drop (length (kept 0 n)) journal' = kept n (length journal)"
      "length (kept 0 n) \<le> length journal'" by simp_all
  qed
  show "take cursor' journal' = kept 0 cursor" "drop cursor' journal' = kept cursor (length journal)"
      "cursor' \<le> length journal'" "start' \<le> length journal'" "boundary' \<le> length journal'"
      "take start' journal' = kept 0 start"
      "cursor' = length (kept 0 cursor)" "start' = length (kept 0 start)" "boundary' = length (kept 0 boundary)"
    unfolding eq(2-4) using at [OF assms(2)] at [OF assms(3)] at [OF assms(4)] by blast+
  show "start' \<le> cursor'" if "start \<le> cursor"
    unfolding eq kept_def upt_split [OF le0 that] by simp
qed

lemma audio_is_no_context: "is_audio e \<Longrightarrow> \<not> is_settled_context e"
  by (cases e) simp_all

lemma keeps_audio: "is_audio (journal ! i) \<Longrightarrow>
    keeps journal cursor cutoff i \<longleftrightarrow> cursor \<le> i \<or> cutoff \<le> audio_time (journal ! i)"
  by (cases "journal ! i") (auto simp: keeps_def retain_audio_def)

text \<open>Before the cursor a compaction drops exactly the old audio; from the cursor on it keeps all audio.\<close>

lemma compact_audio:
  assumes "compact_journal journal cursor start boundary now window = (journal', cursor', start', boundary')"
    and "cursor \<le> length journal" and "start \<le> length journal" and "boundary \<le> length journal"
  shows "audio_of (take cursor' journal') = recent_audio (now - window) (take cursor journal)"
    and "audio_of (drop cursor' journal') = audio_of (drop cursor journal)"
proof -
  let ?K = "keeps journal cursor (now - window)"
  have audio: "audio_of (map ((!) journal) (filter ?K is)) = map ((!) journal) (filter (\<lambda>i. is_audio (journal ! i) \<and> ?K i) is)" for "is"
    by (simp add: audio_of_def filter_map comp_def conj_commute)
  note slices = compact_slices [OF assms]
  have "filter (\<lambda>i. is_audio (journal ! i) \<and> ?K i) [0..<cursor]
      = filter (\<lambda>i. is_audio (journal ! i) \<and> now - window \<le> audio_time (journal ! i)) [0..<cursor]"
    by (rule filter_cong) (auto simp: keeps_audio)
  then show "audio_of (take cursor' journal') = recent_audio (now - window) (take cursor journal)"
    unfolding slices(1) audio recent_audio_def
    using filter_slice [OF assms(2), of "\<lambda>e. is_audio e \<and> now - window \<le> audio_time e" 0] by simp
  have "filter (\<lambda>i. is_audio (journal ! i) \<and> ?K i) [cursor..<length journal]
      = filter (\<lambda>i. is_audio (journal ! i)) [cursor..<length journal]"
    by (rule filter_cong) (auto simp: keeps_audio)
  then show "audio_of (drop cursor' journal') = audio_of (drop cursor journal)"
    unfolding slices(2) audio using filter_slice [OF order_refl, where Q = is_audio and m = cursor and xs = journal]
    by (simp add: audio_of_def)
qed

section \<open>What a replay sends\<close>

text \<open>The audio before the cursor was accepted in the order of its times.\<close>

definition accepted_in_order :: "'c journal_entry list \<Rightarrow> bool" where
  "accepted_in_order journal \<longleftrightarrow> sorted (map audio_time (audio_of journal))"

lemma replay_back_le: "replay_back journal cutoff n \<le> n"
  by (induction n) (auto split: journal_entry.split)

lemma replay_back_spec:
  assumes "n \<le> length journal"
  shows "(\<forall>i. replay_back journal cutoff n \<le> i \<and> i < n \<longrightarrow> is_audio (journal ! i) \<longrightarrow> cutoff \<le> audio_time (journal ! i))
    \<and> (0 < replay_back journal cutoff n \<longrightarrow> is_audio (journal ! (replay_back journal cutoff n - 1))
        \<and> audio_time (journal ! (replay_back journal cutoff n - 1)) < cutoff)"
  using assms
proof (induction n)
  case (Suc n)
  then have n: "n < length journal" by simp
  show ?case
  proof (cases "is_audio (journal ! n) \<and> audio_time (journal ! n) < cutoff")
    case True
    then have "replay_back journal cutoff (Suc n) = Suc n" using n by (cases "journal ! n") auto
    then show ?thesis using True by simp
  next
    case False
    then have "replay_back journal cutoff (Suc n) = replay_back journal cutoff n"
      using n by (cases "journal ! n") auto
    then show ?thesis using False Suc by (auto simp: less_Suc_eq)
  qed
qed simp

text \<open>A replay sends the recent part of the accepted audio and then the audio not yet accepted.\<close>

lemma replay_audio:
  assumes "cursor \<le> length journal" and "accepted_in_order (take cursor journal)"
  shows "audio_of (drop (find_replay_start journal cursor now window) journal)
    = recent_audio (now - window) (take cursor journal) @ audio_of (drop cursor journal)"
proof -
  let ?cutoff = "now - window"
  define s where "s = find_replay_start journal cursor now window"
  have s: "s \<le> cursor" unfolding s_def find_replay_start_def by (rule replay_back_le)
  have later: "is_audio (journal ! i) \<Longrightarrow> ?cutoff \<le> audio_time (journal ! i)" if "s \<le> i" "i < cursor" for i
    using replay_back_spec [OF assms(1)] that unfolding s_def find_replay_start_def by blast
  have recent: "filter (\<lambda>e. is_audio e \<and> ?cutoff \<le> audio_time e) (take (cursor - s) (drop s journal))
      = audio_of (take (cursor - s) (drop s journal))"
    unfolding audio_of_def using later s assms(1)
    by (intro filter_cong refl) (auto simp: in_set_conv_nth)
  have "filter (\<lambda>e. is_audio e \<and> ?cutoff \<le> audio_time e) (take s journal) = []"
  proof (cases s)
    case (Suc m)
    then have barrier: "is_audio (journal ! m)" "audio_time (journal ! m) < ?cutoff"
      using replay_back_spec [OF assms(1), of ?cutoff] unfolding s_def find_replay_start_def by auto
    have "take cursor journal = take m journal @ journal ! m # drop (Suc m) (take cursor journal)"
      using Suc s assms(1) id_take_nth_drop [of m "take cursor journal"] by (simp add: min_def)
    then have "sorted (map audio_time (audio_of (take m journal @ journal ! m # drop (Suc m) (take cursor journal))))"
      using assms(2) unfolding accepted_in_order_def by simp
    then have "\<forall>e \<in> set (audio_of (take m journal)). audio_time e \<le> audio_time (journal ! m)"
      using barrier(1) by (simp add: audio_of_def sorted_append)
    moreover have "take s journal = take m journal @ [journal ! m]"
      using Suc s assms(1) by (simp add: take_Suc_conv_app_nth)
    ultimately show ?thesis using barrier by (fastforce simp: filter_empty_conv audio_of_def)
  qed simp
  moreover have "take cursor journal = take s journal @ take (cursor - s) (drop s journal)"
    using s by (metis le_add_diff_inverse take_add)
  ultimately have "recent_audio ?cutoff (take cursor journal) = audio_of (take (cursor - s) (drop s journal))"
    by (simp add: recent_audio_def recent)
  moreover have "drop s journal = take (cursor - s) (drop s journal) @ drop cursor journal"
    using s by (metis append_take_drop_id drop_drop le_add_diff_inverse2)
  ultimately show ?thesis unfolding s_def [symmetric] by (metis audio_of_def filter_append)
qed

lemma recent_recent: "c \<le> c' \<Longrightarrow> recent_audio c' (recent_audio c es) = recent_audio c' es"
  by (auto simp: recent_audio_def intro!: filter_cong)

lemma recent_audio_of: "recent_audio c (audio_of es) = recent_audio c es"
  by (auto simp: recent_audio_def audio_of_def intro!: filter_cong)

lemma accepted_filter: "accepted_in_order es \<Longrightarrow> sorted (map audio_time (recent_audio c es))"
proof -
  assume "accepted_in_order es"
  moreover have "recent_audio c es = filter (\<lambda>e. c \<le> audio_time e) (audio_of es)"
    by (simp add: recent_audio_def audio_of_def conj_commute)
  ultimately show ?thesis by (simp add: accepted_in_order_def sorted_filter)
qed

text \<open>
  Property C27: a compaction is invisible to recovery. At any later time the replay from the compacted
  journal sends the same audio as the replay from the journal as it was, and the audio that still has
  to be sent for the first time is the same.
\<close>

theorem compaction_preserves_replay:
  assumes "compact_journal journal cursor start boundary now window = (journal', cursor', start', boundary')"
    and "cursor \<le> length journal" "start \<le> length journal" "boundary \<le> length journal"
    and "accepted_in_order (take cursor journal)" and "now \<le> later"
  shows "audio_of (drop (find_replay_start journal' cursor' later window) journal')
      = audio_of (drop (find_replay_start journal cursor later window) journal)
    \<and> audio_of (drop cursor' journal') = audio_of (drop cursor journal)
    \<and> cursor' \<le> length journal' \<and> accepted_in_order (take cursor' journal')"
proof -
  note audio = compact_audio [OF assms(1-4)] and slices = compact_slices [OF assms(1-4)]
  have order: "accepted_in_order (take cursor' journal')"
    using accepted_filter [OF assms(5)] by (simp add: accepted_in_order_def audio(1))
  have "recent_audio (later - window) (take cursor' journal') = recent_audio (later - window) (take cursor journal)"
    using assms(6) recent_audio_of [of "later - window" "take cursor' journal'"] by (simp add: audio(1) recent_recent)
  then show ?thesis
    using replay_audio [OF slices(3) order] replay_audio [OF assms(2,5)] audio(2) slices(3) order by simp
qed

definition sample_journal :: "nat journal_entry list" where
  "sample_journal = [AudioEntry 0 2 0 1 (Some 1), CommitEntry 2 True, AudioEntry 1 2 20 50 (Some 50)]"

definition sample_compacted :: "nat journal_entry list \<times> nat \<times> nat \<times> nat" where
  "sample_compacted = ([CommitEntry 2 True, AudioEntry 1 2 20 50 (Some 50)], 2, 0, 0)"

theorem compaction_preserves_replay_witness:
  "fst sample_compacted \<noteq> sample_journal
    \<and> audio_of (drop (find_replay_start (fst sample_compacted) 2 105 60) (fst sample_compacted))
      = audio_of (drop (find_replay_start sample_journal 3 105 60) sample_journal)"
proof -
  have compacted: "compact_journal sample_journal 3 0 0 100 60 = ([CommitEntry 2 True, AudioEntry 1 2 20 50 (Some 50)], 2, 0, 0)"
    by code_simp
  have "accepted_in_order (take 3 sample_journal)"
    by (simp add: accepted_in_order_def audio_of_def sample_journal_def audio_time_def)
  from compaction_preserves_replay [OF compacted _ _ _ this, of 105]
  show ?thesis by (simp add: sample_compacted_def) (simp add: sample_journal_def)
qed

end
