(* ===== verification/Stt_Policy.thy ===== *)
theory Stt_Policy
  imports Numbers
begin

text \<open>
  The reconnect policy of the resilient speech-to-text stream: \<open>packages/runtime/src/resilient-stt-policy.ts\<close>
 . The options and their defaults, the limits derived from the audio format, the
  backoff, the errors and the shift of provider-relative audio offsets.

  An option is a rational number, so neither \<open>NaN\<close> nor infinite; \<open>random\<close> is the value of \<open>Math.random()\<close>.
\<close>

section \<open>Options\<close>

record reconnect_options =
  ro_max_attempts :: "rat option"
  ro_connect_timeout :: "rat option"
  ro_max_recovery :: "rat option"
  ro_initial_backoff :: "rat option"
  ro_max_backoff :: "rat option"
  ro_jitter :: "bool option"
  ro_stable_uptime :: "rat option"
  ro_max_quick_failures :: "rat option"
  ro_uncertain_window :: "rat option"
  ro_max_bytes :: "rat option"
  ro_max_commands :: "rat option"
  ro_send_timeout :: "rat option"
  ro_context_timeout :: "rat option"
  ro_commit_timeout :: "rat option"
  ro_audio_write_timeout :: "rat option"
  ro_close_timeout :: "rat option"

record stt_options =
  so_max_attempts :: rat
  so_connect_timeout :: rat
  so_max_recovery :: rat
  so_initial_backoff :: rat
  so_max_backoff :: rat
  so_jitter :: bool
  so_stable_uptime :: rat
  so_max_quick_failures :: rat
  so_uncertain_window :: rat
  so_max_bytes :: rat
  so_max_bytes_explicit :: bool
  so_max_commands :: rat
  so_max_commands_explicit :: bool
  so_send_timeout :: rat
  so_context_timeout :: rat
  so_audio_write_timeout :: rat
  so_audio_write_code :: js_string
  so_commit_timeout :: rat
  so_close_timeout :: rat

definition transport_timeout_code :: js_string where "transport_timeout_code = js ''provider.transport_timeout''"

definition default_stt_options :: stt_options where
  "default_stt_options = \<lparr>so_max_attempts = 3, so_connect_timeout = 10000, so_max_recovery = 30000,
     so_initial_backoff = 250, so_max_backoff = 4000, so_jitter = True, so_stable_uptime = 5000,
     so_max_quick_failures = 3, so_uncertain_window = 10000, so_max_bytes = 320000, so_max_bytes_explicit = False,
     so_max_commands = 512, so_max_commands_explicit = False, so_send_timeout = 5000, so_context_timeout = 2000,
     so_audio_write_timeout = 5000, so_audio_write_code = transport_timeout_code, so_commit_timeout = 5000,
     so_close_timeout = 5000\<rparr>"

definition the_or :: "'a option \<Rightarrow> 'a \<Rightarrow> 'a" where
  "the_or v d = (case v of Some x \<Rightarrow> x | None \<Rightarrow> d)"

definition options_invalid :: js_error where
  "options_invalid = TvicThrowableError (js ''stt.reconnect.options_invalid'')"

definition validate_integer :: "rat \<Rightarrow> rat \<Rightarrow> unit result" where
  "validate_integer v minimum = rcheck (is_safe_number v \<and> minimum \<le> v) options_invalid"

definition validate_positive :: "rat \<Rightarrow> unit result" where
  "validate_positive v = rcheck (0 < v) options_invalid"

text \<open>The checks in their order; the first that fails throws.\<close>

definition check_all :: "unit result list \<Rightarrow> unit result" where
  "check_all cs = foldl (\<lambda>r c. rbind r (\<lambda>_. c)) (Inr ()) cs"

definition with_defaults :: "reconnect_options \<Rightarrow> stt_options" where
  "with_defaults ro =
     (let d = default_stt_options in
      \<lparr>so_max_attempts = the_or (ro_max_attempts ro) (so_max_attempts d),
       so_connect_timeout = the_or (ro_connect_timeout ro) (so_connect_timeout d),
       so_max_recovery = the_or (ro_max_recovery ro) (so_max_recovery d),
       so_initial_backoff = the_or (ro_initial_backoff ro) (so_initial_backoff d),
       so_max_backoff = the_or (ro_max_backoff ro) (so_max_backoff d),
       so_jitter = the_or (ro_jitter ro) (so_jitter d),
       so_stable_uptime = the_or (ro_stable_uptime ro) (so_stable_uptime d),
       so_max_quick_failures = the_or (ro_max_quick_failures ro) (so_max_quick_failures d),
       so_uncertain_window = the_or (ro_uncertain_window ro) (so_uncertain_window d),
       so_max_bytes = the_or (ro_max_bytes ro) (so_max_bytes d),
       so_max_bytes_explicit = (ro_max_bytes ro \<noteq> None),
       so_max_commands = the_or (ro_max_commands ro) (so_max_commands d),
       so_max_commands_explicit = (ro_max_commands ro \<noteq> None),
       so_send_timeout = the_or (ro_send_timeout ro) (so_send_timeout d),
       so_context_timeout = the_or (ro_context_timeout ro) (so_context_timeout d),
       so_audio_write_timeout =
         the_or (ro_audio_write_timeout ro) (the_or (ro_send_timeout ro) (so_audio_write_timeout d)),
       so_audio_write_code = transport_timeout_code,
       so_commit_timeout = the_or (ro_commit_timeout ro) (so_commit_timeout d),
       so_close_timeout = the_or (ro_close_timeout ro) (so_close_timeout d)\<rparr>)"

definition resolve_options :: "reconnect_options \<Rightarrow> stt_options result" where
  "resolve_options ro =
     (let opts = with_defaults ro in
      rbind (check_all
        [validate_integer (so_max_attempts opts) 0, validate_positive (so_connect_timeout opts),
         validate_positive (so_max_recovery opts), validate_integer (so_initial_backoff opts) 0,
         validate_integer (so_max_backoff opts) 0, validate_positive (so_stable_uptime opts),
         validate_integer (so_max_quick_failures opts) 1, validate_integer (so_uncertain_window opts) 0,
         validate_integer (so_max_bytes opts) 1, validate_integer (so_max_commands opts) 1,
         validate_positive (so_send_timeout opts), validate_positive (so_context_timeout opts),
         validate_positive (so_audio_write_timeout opts), validate_positive (so_commit_timeout opts),
         validate_positive (so_close_timeout opts),
         rcheck (so_initial_backoff opts \<le> so_max_backoff opts) options_invalid]) (\<lambda>_.
        Inr opts))"

section \<open>Limits derived from the audio format\<close>

datatype stt_encoding = PcmS16Le | PcmS16Be | PcmF32Le

record stt_format =
  sf_encoding :: stt_encoding
  sf_rate :: rat
  sf_channels :: rat
  sf_frame_duration :: "rat option"

definition max_derived_bytes :: rat where "max_derived_bytes = 16 * 1024 * 1024"

definition max_derived_commands :: rat where "max_derived_commands = 8192"

definition clamp_derived_limit :: "rat \<Rightarrow> rat \<Rightarrow> rat" where
  "clamp_derived_limit v ceiling_value =
     (if 0 < v then min (of_int \<lceil>v\<rceil>) ceiling_value else ceiling_value)"

definition resolve_stream_options :: "stt_options \<Rightarrow> stt_format \<Rightarrow> stt_options result" where
  "resolve_stream_options opts f =
     (let frame = the_or (sf_frame_duration f) 20; command_frame = the_or (sf_frame_duration f) 10 in
      rbind (check_all [validate_integer (sf_rate f) 1, validate_integer (sf_channels f) 1,
        validate_positive frame, validate_positive command_frame]) (\<lambda>_.
        let buffered = 2 * so_uncertain_window opts + so_max_recovery opts + frame;
            sample_bytes = (if sf_encoding f = PcmF32Le then 4 else 2);
            bytes = clamp_derived_limit (of_int \<lceil>sf_rate f * sf_channels f * sample_bytes * buffered / 1000\<rceil>) max_derived_bytes;
            commands = clamp_derived_limit (of_int \<lceil>buffered / command_frame\<rceil> + 16) max_derived_commands in
        Inr (opts\<lparr>so_max_bytes := (if so_max_bytes_explicit opts then so_max_bytes opts else bytes),
               so_max_commands := (if so_max_commands_explicit opts then so_max_commands opts else commands)\<rparr>)))"

definition same_options :: "stt_options \<Rightarrow> stt_options \<Rightarrow> bool" where
  "same_options a b \<longleftrightarrow> a = b"

section \<open>Backoff\<close>

definition with_jitter :: "rat \<Rightarrow> bool \<Rightarrow> rat \<Rightarrow> rat" where
  "with_jitter base jitter random = (if jitter then of_int \<lfloor>random * (base + 1)\<rfloor> else base)"

definition next_backoff :: "stt_options \<Rightarrow> rat \<Rightarrow> rat" where
  "next_backoff opts backoff = min (so_max_backoff opts) (max 1 (backoff * 2))"

section \<open>Errors\<close>

definition provider_failure :: "js_string \<Rightarrow> normalized_error" where
  "provider_failure code = \<lparr>ne_code = code, ne_category = CatProvider, ne_retriable = False\<rparr>"

definition buffer_overflow_error :: normalized_error where
  "buffer_overflow_error = provider_failure (js ''stt.reconnect.buffer_overflow'')"

definition session_buffer_overflow_error :: normalized_error where
  "session_buffer_overflow_error = provider_failure (js ''stt.session_buffer_overflow'')"

definition recovery_exhausted_error :: normalized_error where
  "recovery_exhausted_error = provider_failure (js ''stt.reconnect.recovery_exhausted'')"

definition stt_closed_error :: normalized_error where
  "stt_closed_error = provider_failure (js ''stt.reconnect.closed'')"

definition is_recovery_exhausted :: "normalized_error \<Rightarrow> bool" where
  "is_recovery_exhausted e \<longleftrightarrow> ne_code e = js ''stt.reconnect.recovery_exhausted''"

definition audio_write_timeout_error :: "js_string \<Rightarrow> normalized_error" where
  "audio_write_timeout_error code =
     \<lparr>ne_code = (if code = transport_timeout_code \<or> code = js ''stt.audio_write_timeout'' \<or> code = js ''stt.send_timeout''
                then transport_timeout_code else code),
      ne_category = CatTimeout, ne_retriable = False\<rparr>"

section \<open>Audio offsets\<close>

datatype stt_event_type = EvPartial | EvFinal | EvEndpoint | EvSpeechStarted

datatype timestamp_origin = OriginSession | OriginGeneration

text \<open>The reconnect generation is the one in the metadata of a published event.\<close>

record stt_event =
  se_type :: stt_event_type
  se_session :: js_string
  se_text :: js_string
  se_sequence :: nat
  se_offset :: "rat option"
  se_start :: "rat option"
  se_end :: "rat option"
  se_generation :: "nat option"

definition normalize_audio_offsets :: "stt_event \<Rightarrow> timestamp_origin \<Rightarrow> rat \<Rightarrow> stt_event" where
  "normalize_audio_offsets ev origin offset =
     (if origin = OriginSession \<or> offset = 0 then ev
      else if se_type ev = EvEndpoint \<or> se_type ev = EvSpeechStarted
      then ev\<lparr>se_offset := map_option (\<lambda>x. x + offset) (se_offset ev)\<rparr>
      else ev\<lparr>se_start := map_option (\<lambda>x. x + offset) (se_start ev),
              se_end := map_option (\<lambda>x. x + offset) (se_end ev)\<rparr>)"

end
