(* ===== verification/Stt_Stream.thy ===== *)
theory Stt_Stream
  imports Stt_Journal Stt_Policy Async_Queue
begin

text \<open>
  The resilient speech-to-text stream: \<open>ResilientSttStream\<close> of \<open>packages/runtime/src/resilient-stt-stream.ts\<close>.
  Commands go to a journal, a loop sends them to the stream of the current provider generation, and when
  a generation fails a recovery loop opens the next one, to which the journal is replayed from the first
  audio the old one may not have processed.

  The state is the fields of the class. An operation is the code between two \<open>await\<close>s: \<open>rs_write\<close> is
  the generation whose write the journal loop awaits, \<open>rs_recovery\<close> the locals and the suspension point of
  the recovery loop, \<open>rs_outcome\<close> the resolved but not yet consumed promise of \<open>#waitForGeneration\<close>. A provider
  stream is named by its generation. The chunk handed to a stream counts as sent when its write begins.
  An error is given as already normalized. The coordinator of the agent contexts is represented by what it
  does to the journal and by its counters; listeners, wake-ups and usage reports are left out.

  Three fields only record the past: \<open>rs_admitted\<close> (all admitted chunks), \<open>rs_sent\<close> (what each
  generation was sent) and \<open>rs_accepted\<close> (which admitted chunk was accepted at what time).
\<close>

section \<open>State\<close>

record audio_chunk =
  ac_bytes :: "8 word list"
  ac_duration :: rat

datatype recovery_state = RsHealthy | RsRecovering | RsOpening | RsProbationary | RsFailed | RsClosed

datatype generation_outcome = GenerationFailed normalized_error | GenerationStable

record generation_wait =
  gw_generation :: nat
  gw_boundary :: nat
  gw_stable :: bool

text \<open>Where the recovery loop is suspended, and its local variables.\<close>

datatype recovery_phase = RpClosing | RpSleeping | RpOpening | RpProbing | RpReturned

record recovery =
  rc_started :: int
  rc_attempts :: nat
  rc_quick :: nat
  rc_backoff :: rat
  rc_cause :: normalized_error
  rc_generation :: nat
  rc_phase :: recovery_phase

record stt_stream =
  rs_opts :: stt_options
  rs_session :: js_string
  rs_origin :: timestamp_origin
  rs_commits :: bool
  rs_events :: "stt_event async_queue"
  rs_journal :: "audio_chunk journal_entry list"
  rs_state :: recovery_state
  rs_active :: bool
  rs_generation :: nat
  rs_offset :: rat
  rs_cursor :: nat
  rs_sequence :: nat
  rs_audio_ms :: rat
  rs_closed :: bool
  rs_closing :: bool
  rs_terminal :: bool
  rs_context_failures :: nat
  rs_error :: "normalized_error option"
  rs_recovery :: "recovery option"
  rs_restart :: "normalized_error option"
  rs_stream_closing :: bool
  rs_wait :: "generation_wait option"
  rs_outcome :: "generation_outcome option"
  rs_replay_start :: nat
  rs_replay_boundary :: nat
  rs_held :: "(stt_event \<times> nat) list"
  rs_write :: "nat option"
  rs_context_pending :: "nat \<Rightarrow> nat"
  rs_context_inflight :: nat
  rs_context_detached :: nat
  rs_admitted :: "audio_chunk list"
  rs_sent :: "nat \<Rightarrow> audio_chunk list"
  rs_accepted :: "(nat \<times> int) list"

definition new_stt_stream :: "stt_options \<Rightarrow> js_string \<Rightarrow> timestamp_origin \<Rightarrow> bool \<Rightarrow> stt_event async_queue \<Rightarrow> stt_stream" where
  "new_stt_stream opts session origin commits events =
     \<lparr>rs_opts = opts, rs_session = session, rs_origin = origin, rs_commits = commits, rs_events = events,
      rs_journal = [], rs_state = RsHealthy, rs_active = True, rs_generation = 1, rs_offset = 0, rs_cursor = 0,
      rs_sequence = 1, rs_audio_ms = 0, rs_closed = False, rs_closing = False, rs_terminal = False,
      rs_context_failures = 0, rs_error = None, rs_recovery = None, rs_restart = None, rs_stream_closing = False,
      rs_wait = None, rs_outcome = None, rs_replay_start = 0, rs_replay_boundary = 0, rs_held = [], rs_write = None,
      rs_context_pending = (\<lambda>_. 0), rs_context_inflight = 0, rs_context_detached = 0,
      rs_admitted = [], rs_sent = (\<lambda>_. []), rs_accepted = []\<rparr>"

section \<open>Small steps\<close>

definition set_recovery_state :: "recovery_state \<Rightarrow> stt_stream \<Rightarrow> stt_stream" where
  "set_recovery_state s st = (if rs_state st = s then st else st\<lparr>rs_state := s\<rparr>)"

definition clear_generation_wait :: "generation_outcome option \<Rightarrow> stt_stream \<Rightarrow> stt_stream" where
  "clear_generation_wait outcome st =
     (case rs_wait st of
        None \<Rightarrow> st
      | Some w \<Rightarrow> st\<lparr>rs_wait := None, rs_outcome := (case outcome of None \<Rightarrow> rs_outcome st | Some x \<Rightarrow> Some x)\<rparr>)"

text \<open>The promise of the generation wait is resolved once it was stable long enough, the writes of
  agent contexts are through and the cursor has passed the replay.\<close>

definition notify_progress :: "stt_stream \<Rightarrow> stt_stream" where
  "notify_progress st =
     (case rs_wait st of
        None \<Rightarrow> st
      | Some w \<Rightarrow>
          if gw_stable w \<and> rs_context_pending st (gw_generation w) = 0 \<and> gw_boundary w \<le> rs_cursor st
          then clear_generation_wait (Some GenerationStable) st else st)"

fun reject_entry :: "'c journal_entry \<Rightarrow> 'c journal_entry" where
  "reject_entry (AudioEntry c b off a d) = AudioEntry c b off a d"
| "reject_entry (CommitEntry a s) = CommitEntry a True"
| "reject_entry (ContextEntry c v s a) = ContextEntry c v s a"

definition reject_pending :: "stt_stream \<Rightarrow> stt_stream" where
  "reject_pending st = st\<lparr>rs_journal := map reject_entry (rs_journal st)\<rparr>"

definition close_active :: "stt_stream \<Rightarrow> stt_stream" where
  "close_active st = st\<lparr>rs_active := False\<rparr>"

definition fail_terminal :: "normalized_error \<Rightarrow> stt_stream \<Rightarrow> stt_stream" where
  "fail_terminal e st =
     (if rs_terminal st \<or> rs_closed st then st
      else
        let st1 = set_recovery_state RsFailed (st\<lparr>rs_terminal := True,
              rs_error := (case rs_error st of None \<Rightarrow> Some e | Some e0 \<Rightarrow> Some e0)\<rparr>);
            st2 = reject_pending (clear_generation_wait (Some (GenerationFailed e)) st1);
            st3 = st2\<lparr>rs_events := fst (fail_queue (TvicThrowableError (ne_code e)) (rs_events st2))\<rparr>
        in close_active (notify_progress st3))"

definition emit_event :: "stt_event \<times> nat \<Rightarrow> stt_stream \<Rightarrow> stt_stream" where
  "emit_event p st =
     (if rs_closed st \<or> rs_terminal st then st
      else
        let ev = (fst p)\<lparr>se_sequence := rs_sequence st, se_generation := Some (snd p)\<rparr>;
            (ok, q, out) = push_queue ev (rs_events st);
            st' = st\<lparr>rs_sequence := rs_sequence st + 1, rs_events := q\<rparr>
        in if ok then st' else fail_terminal session_buffer_overflow_error st')"

definition release_held_endpoints :: "stt_stream \<Rightarrow> stt_stream" where
  "release_held_endpoints st =
     (if rs_state st \<noteq> RsHealthy \<or> rs_cursor st < rs_replay_boundary st then st
      else fold emit_event (rs_held st) (st\<lparr>rs_held := []\<rparr>))"

definition forward_generation_event :: "stt_event \<Rightarrow> nat \<Rightarrow> stt_stream \<Rightarrow> stt_stream" where
  "forward_generation_event ev g st =
     (let normalized = normalize_audio_offsets ev (rs_origin st) (rs_offset st) in
      if se_type normalized = EvEndpoint \<and> (rs_state st \<noteq> RsHealthy \<or> rs_cursor st < rs_replay_boundary st)
      then
        if so_max_commands (rs_opts st) \<le> of_nat (length (rs_held st)) then fail_terminal buffer_overflow_error st
        else st\<lparr>rs_held := rs_held st @ [(normalized, g)]\<rparr>
      else emit_event (normalized, g) st)"

definition replay_window :: "stt_stream \<Rightarrow> int" where
  "replay_window st = \<lfloor>so_uncertain_window (rs_opts st)\<rfloor>"

definition compact_stream :: "int \<Rightarrow> stt_stream \<Rightarrow> stt_stream" where
  "compact_stream now st =
     (let (journal, cursor, start, boundary) = compact_journal (rs_journal st) (rs_cursor st) (rs_replay_start st)
            (rs_replay_boundary st) now (replay_window st)
      in st\<lparr>rs_journal := journal, rs_cursor := cursor, rs_replay_start := start, rs_replay_boundary := boundary,
            rs_wait := (case rs_wait st of
               Some w \<Rightarrow> if gw_boundary w = rs_replay_boundary st then Some (w\<lparr>gw_boundary := boundary\<rparr>) else Some w
             | None \<Rightarrow> None)\<rparr>)"

definition buffered_command_count :: "stt_stream \<Rightarrow> nat" where
  "buffered_command_count st = length (filter (\<lambda>e. \<not> is_settled_context e) (rs_journal st)) + rs_context_detached st"

definition has_command_capacity :: "stt_stream \<Rightarrow> bool" where
  "has_command_capacity st \<longleftrightarrow> of_nat (buffered_command_count st) < so_max_commands (rs_opts st)"

section \<open>Admission\<close>

definition closed_to_commands :: "stt_stream \<Rightarrow> bool" where
  "closed_to_commands st \<longleftrightarrow> rs_closed st \<or> rs_closing st \<or> rs_terminal st"

definition stt_send_audio :: "audio_chunk \<Rightarrow> int \<Rightarrow> stt_stream \<Rightarrow> unit result \<times> stt_stream" where
  "stt_send_audio chunk now st =
     (if closed_to_commands st then (Inl (TvicThrowableError (ne_code stt_closed_error)), st)
      else
        let bytes = int (length (ac_bytes chunk)); st1 = compact_stream now st in
        if \<not> has_command_capacity st1
        then (Inl (TvicThrowableError (ne_code buffer_overflow_error)), fail_terminal buffer_overflow_error st1)
        else if so_max_bytes (rs_opts st1) < of_int (journal_bytes (rs_journal st1) + bytes)
        then (Inl (TvicThrowableError (ne_code buffer_overflow_error)), fail_terminal buffer_overflow_error st1)
        else (Inr (), st1\<lparr>rs_journal := rs_journal st1 @ [AudioEntry chunk bytes (rs_audio_ms st1) now None],
                          rs_audio_ms := rs_audio_ms st1 + ac_duration chunk,
                          rs_admitted := rs_admitted st1 @ [chunk]\<rparr>))"

text \<open>An admitted command returns a promise, which its entry settles later.\<close>

definition stt_commit :: "int \<Rightarrow> stt_stream \<Rightarrow> unit result \<times> stt_stream" where
  "stt_commit now st =
     (if closed_to_commands st then (Inl (TvicThrowableError (ne_code stt_closed_error)), st)
      else
        let st1 = compact_stream now st in
        if \<not> has_command_capacity st1
        then (Inl (TvicThrowableError (ne_code buffer_overflow_error)), fail_terminal buffer_overflow_error st1)
        else (Inr (), st1\<lparr>rs_journal := rs_journal st1 @ [CommitEntry now False]\<rparr>))"

text \<open>
  The journal side of an update of the agent context, which the coordinator admits; it may coalesce
  the update with one that waits in the journal.
\<close>

definition admit_context :: "js_string \<Rightarrow> int \<Rightarrow> bool \<Rightarrow> int \<Rightarrow> stt_stream \<Rightarrow> stt_stream" where
  "admit_context ctx version coalesced now st =
     (if closed_to_commands st then st
      else
        let st1 = compact_stream now st in
        if coalesced then st1
        else if \<not> has_command_capacity st1 then fail_terminal buffer_overflow_error st1
        else st1\<lparr>rs_journal := rs_journal st1 @ [ContextEntry ctx version False now]\<rparr>)"

section \<open>Failure of a generation\<close>

definition initial_recovery_backoff :: "stt_stream \<Rightarrow> rat" where
  "initial_recovery_backoff st =
     (let opts = rs_opts st in
      ((\<lambda>d. if d < so_max_backoff opts then min (so_max_backoff opts) (max 1 (d * 2)) else d)
         ^^ (rs_context_failures st - 1)) (so_initial_backoff opts))"

definition recovery_returned :: "recovery \<Rightarrow> stt_stream \<Rightarrow> stt_stream" where
  "recovery_returned rc st = st\<lparr>rs_recovery := Some (rc\<lparr>rc_phase := RpReturned\<rparr>)\<rparr>"

text \<open>A round of the loop up to its \<open>sleep\<close>, once the failed stream is closed.\<close>

definition recover_round :: "int \<Rightarrow> recovery \<Rightarrow> stt_stream \<Rightarrow> stt_stream" where
  "recover_round now rc st =
     (if so_max_recovery (rs_opts st) \<le> of_int (now - rc_started rc) \<or> so_max_attempts (rs_opts st) \<le> of_nat (rc_attempts rc)
      then recovery_returned rc (fail_terminal recovery_exhausted_error st)
      else st\<lparr>rs_recovery := Some (rc\<lparr>rc_phase := RpSleeping\<rparr>)\<rparr>)"

definition recover_head :: "int \<Rightarrow> recovery \<Rightarrow> stt_stream \<Rightarrow> stt_stream" where
  "recover_head now rc st =
     (if rs_closed st \<or> rs_terminal st then recovery_returned rc st
      else if rs_stream_closing st then
        if so_max_recovery (rs_opts st) \<le> of_int (now - rc_started rc)
        then recovery_returned rc (fail_terminal recovery_exhausted_error st)
        else st\<lparr>rs_recovery := Some (rc\<lparr>rc_phase := RpClosing\<rparr>)\<rparr>
      else recover_round now rc st)"

definition start_recovery :: "normalized_error \<Rightarrow> int \<Rightarrow> stt_stream \<Rightarrow> stt_stream" where
  "start_recovery e now st =
     (if rs_closed st \<or> rs_terminal st then st
      else if rs_recovery st \<noteq> None then st\<lparr>rs_restart := Some e\<rparr>
      else recover_head now \<lparr>rc_started = now, rc_attempts = 0, rc_quick = 0, rc_backoff = initial_recovery_backoff st,
             rc_cause = e, rc_generation = rs_generation st, rc_phase = RpReturned\<rparr> st)"

definition context_update_failed_code :: js_string where
  "context_update_failed_code = js ''stt.context_update_failed''"

definition rewind_for_replay :: "int \<Rightarrow> stt_stream \<Rightarrow> stt_stream" where
  "rewind_for_replay now st =
     (let start = find_replay_start (rs_journal st) (rs_cursor st) now (replay_window st) in
      st\<lparr>rs_active := False, rs_replay_start := start, rs_replay_boundary := length (rs_journal st), rs_cursor := start,
         rs_stream_closing := True\<rparr>)"

definition handle_generation_failure :: "nat \<Rightarrow> normalized_error \<Rightarrow> int \<Rightarrow> stt_stream \<Rightarrow> stt_stream" where
  "handle_generation_failure g e now st =
     (if rs_closed st \<or> rs_terminal st \<or> g \<noteq> rs_generation st \<or> \<not> rs_active st then st
      else
        let st1 = rewind_for_replay now (st\<lparr>rs_held := [],
              rs_context_failures := (if ne_code e = context_update_failed_code then rs_context_failures st + 1 else 0)\<rparr>) in
        if rs_closing st1 then fail_terminal e st1
        else if \<not> ne_retriable e then fail_terminal e st1
        else start_recovery e now (clear_generation_wait (Some (GenerationFailed e)) (set_recovery_state RsRecovering st1)))"

section \<open>The journal loop\<close>

definition after_command :: "int \<Rightarrow> stt_stream \<Rightarrow> stt_stream" where
  "after_command now st = release_held_endpoints (compact_stream now (notify_progress st))"

text \<open>
  One round of the loop up to its \<open>await\<close>: the command at the cursor goes to the active stream.
  \<open>applied\<close> is the answer of the coordinator for an agent context.
\<close>

definition loop_begin :: "bool \<Rightarrow> int \<Rightarrow> stt_stream \<Rightarrow> stt_stream" where
  "loop_begin applied now st =
     (if rs_closed st \<or> rs_terminal st \<or> rs_write st \<noteq> None \<or> length (rs_journal st) \<le> rs_cursor st
         \<or> \<not> rs_active st \<or> (rs_state st \<noteq> RsHealthy \<and> rs_state st \<noteq> RsProbationary)
      then st
      else case rs_journal st ! rs_cursor st of
        AudioEntry c b off a d \<Rightarrow>
          st\<lparr>rs_write := Some (rs_generation st),
             rs_sent := (rs_sent st)(rs_generation st := rs_sent st (rs_generation st) @ [c])\<rparr>
      | ContextEntry c v s a \<Rightarrow>
          after_command now (st\<lparr>rs_journal := (rs_journal st)[rs_cursor st := ContextEntry c v (s \<or> applied) a],
                               rs_cursor := rs_cursor st + 1\<rparr>)
      | CommitEntry a s \<Rightarrow>
          if rs_commits st then st\<lparr>rs_write := Some (rs_generation st)\<rparr>
          else after_command now (st\<lparr>rs_journal := (rs_journal st)[rs_cursor st := CommitEntry a True],
                                    rs_cursor := rs_cursor st + 1\<rparr>))"

text \<open>The index of the audio at the cursor among all admitted audio.\<close>

definition audio_position :: "stt_stream \<Rightarrow> nat" where
  "audio_position st = length (rs_admitted st) - length (audio_of (drop (rs_cursor st) (rs_journal st)))"

text \<open>The awaited write was accepted; nothing is recorded if the generation is no longer the one at work.\<close>

definition write_accepted :: "int \<Rightarrow> stt_stream \<Rightarrow> stt_stream" where
  "write_accepted now st =
     (case rs_write st of
        None \<Rightarrow> st
      | Some g \<Rightarrow>
          let st1 = st\<lparr>rs_write := None\<rparr> in
          if g \<noteq> rs_generation st \<or> \<not> rs_active st \<or> length (rs_journal st) \<le> rs_cursor st then st1
          else case rs_journal st ! rs_cursor st of
            AudioEntry c b off a d \<Rightarrow>
              after_command now (st1\<lparr>rs_journal := (rs_journal st)[rs_cursor st := AudioEntry c b off a (Some now)],
                rs_cursor := rs_cursor st + 1, rs_accepted := rs_accepted st @ [(audio_position st, now)]\<rparr>)
          | CommitEntry a s \<Rightarrow>
              after_command now (st1\<lparr>rs_journal := (rs_journal st)[rs_cursor st := CommitEntry a True],
                rs_cursor := rs_cursor st + 1\<rparr>)
          | ContextEntry c v s a \<Rightarrow> st1)"

definition write_failed :: "normalized_error \<Rightarrow> int \<Rightarrow> stt_stream \<Rightarrow> stt_stream" where
  "write_failed e now st =
     (case rs_write st of
        None \<Rightarrow> st
      | Some g \<Rightarrow> handle_generation_failure g e now (st\<lparr>rs_write := None\<rparr>))"

section \<open>Events of a generation\<close>

definition identity_mismatch_error :: normalized_error where
  "identity_mismatch_error = provider_failure (js ''provider.identity_mismatch'')"

definition unexpected_eof_error :: normalized_error where
  "unexpected_eof_error = (provider_failure (js ''stt.transport.unexpected_eof''))\<lparr>ne_retriable := True\<rparr>"

definition consume_event :: "nat \<Rightarrow> stt_event \<Rightarrow> int \<Rightarrow> stt_stream \<Rightarrow> stt_stream" where
  "consume_event g ev now st =
     (if rs_closed st \<or> g \<noteq> rs_generation st \<or> \<not> rs_active st then st
      else if se_session ev \<noteq> rs_session st then handle_generation_failure g identity_mismatch_error now st
      else forward_generation_event ev g st)"

text \<open>The iterator of a generation ends, by itself or with an error.\<close>

definition generation_ended :: "nat \<Rightarrow> normalized_error option \<Rightarrow> int \<Rightarrow> stt_stream \<Rightarrow> stt_stream" where
  "generation_ended g e now st =
     (if rs_closed st \<or> rs_terminal st \<or> g \<noteq> rs_generation st \<or> \<not> rs_active st then st
      else handle_generation_failure g (case e of None \<Rightarrow> unexpected_eof_error | Some x \<Rightarrow> x) now st)"

section \<open>The recovery loop\<close>

text \<open>What the loop does after a failed round: it gives up or tries again with a longer backoff.\<close>

definition round_failed :: "normalized_error \<Rightarrow> int \<Rightarrow> recovery \<Rightarrow> stt_stream \<Rightarrow> stt_stream" where
  "round_failed e now rc st =
     (let rc' = rc\<lparr>rc_cause := e, rc_quick := rc_quick rc + 1\<rparr> in
      if so_max_quick_failures (rs_opts st) \<le> of_nat (rc_quick rc')
      then recovery_returned rc' (fail_terminal recovery_exhausted_error st)
      else recover_head now (rc'\<lparr>rc_backoff := next_backoff (rs_opts st) (rc_backoff rc)\<rparr>) st)"

definition stream_close_settled :: "normalized_error option \<Rightarrow> int \<Rightarrow> recovery \<Rightarrow> stt_stream \<Rightarrow> stt_stream" where
  "stream_close_settled e now rc st =
     (case e of
        None \<Rightarrow> recover_round now rc (st\<lparr>rs_stream_closing := False\<rparr>)
      | Some x \<Rightarrow> recovery_returned rc (fail_terminal x st))"

definition recovery_delay :: "int \<Rightarrow> recovery \<Rightarrow> rat \<Rightarrow> stt_stream \<Rightarrow> rat" where
  "recovery_delay now rc random st =
     min (with_jitter (rc_backoff rc) (so_jitter (rs_opts st)) random)
       (so_max_recovery (rs_opts st) - of_int (now - rc_started rc))"

definition sleep_finished :: "int \<Rightarrow> recovery \<Rightarrow> stt_stream \<Rightarrow> stt_stream" where
  "sleep_finished now rc st =
     (if rs_closed st \<or> rs_terminal st then recovery_returned rc st
      else if so_max_recovery (rs_opts st) \<le> of_int (now - rc_started rc)
      then recovery_returned rc (fail_terminal recovery_exhausted_error st)
      else set_recovery_state RsOpening
        (st\<lparr>rs_recovery := Some (rc\<lparr>rc_attempts := rc_attempts rc + 1, rc_phase := RpOpening\<rparr>)\<rparr>))"

definition open_failed :: "normalized_error \<Rightarrow> int \<Rightarrow> recovery \<Rightarrow> stt_stream \<Rightarrow> stt_stream" where
  "open_failed e now rc st =
     (if \<not> ne_retriable e
      then recovery_returned (rc\<lparr>rc_cause := e\<rparr>) (fail_terminal e st)
      else round_failed e now rc st)"

definition generation_audio_offset :: "stt_stream \<Rightarrow> rat" where
  "generation_audio_offset st =
     (case audio_of (drop (rs_replay_start st) (rs_journal st)) of
        [] \<Rightarrow> rs_audio_ms st
      | e # _ \<Rightarrow> je_offset e)"

definition stream_opened :: "recovery \<Rightarrow> stt_stream \<Rightarrow> stt_stream" where
  "stream_opened rc st =
     (if rs_closed st \<or> rs_terminal st then recovery_returned rc st
      else
        let g = rs_generation st + 1 in
        set_recovery_state RsProbationary
          (st\<lparr>rs_generation := g, rs_active := True, rs_offset := generation_audio_offset st,
              rs_wait := Some \<lparr>gw_generation = g, gw_boundary = rs_replay_boundary st, gw_stable = False\<rparr>,
              rs_outcome := None, rs_recovery := Some (rc\<lparr>rc_generation := g, rc_phase := RpProbing\<rparr>)\<rparr>))"

definition probing_finished :: "int \<Rightarrow> recovery \<Rightarrow> stt_stream \<Rightarrow> stt_stream" where
  "probing_finished now rc st =
     (case rs_outcome st of
        None \<Rightarrow> st
      | Some GenerationStable \<Rightarrow>
          let st1 = st\<lparr>rs_outcome := None\<rparr> in
          if rs_closed st \<or> rs_terminal st \<or> rs_generation st \<noteq> rc_generation rc \<or> \<not> rs_active st \<or> rs_state st \<noteq> RsProbationary
          then round_failed (case rs_restart st of None \<Rightarrow> rc_cause rc | Some e \<Rightarrow> e) now rc (st1\<lparr>rs_restart := None\<rparr>)
          else
            let st2 = set_recovery_state RsHealthy st1;
                st3 = release_held_endpoints (st2\<lparr>rs_replay_start := rs_cursor st2\<rparr>)
            in recovery_returned rc (st3\<lparr>rs_replay_boundary := 0\<rparr>)
      | Some (GenerationFailed e) \<Rightarrow>
          let st1 = st\<lparr>rs_outcome := None\<rparr> in
          if \<not> ne_retriable e \<or> is_recovery_exhausted e
          then recovery_returned (rc\<lparr>rc_cause := e\<rparr>) (fail_terminal e st1)
          else round_failed e now rc st1)"

text \<open>The \<open>finally\<close> of the recovery promise.\<close>

definition recovery_settled :: "int \<Rightarrow> stt_stream \<Rightarrow> stt_stream" where
  "recovery_settled now st =
     (let st1 = st\<lparr>rs_recovery := None, rs_restart := None\<rparr> in
      case rs_restart st of
        None \<Rightarrow> st1
      | Some e \<Rightarrow>
          if \<not> rs_closed st \<and> \<not> rs_terminal st \<and> rs_state st = RsRecovering \<and> \<not> rs_active st
          then start_recovery e now st1 else st1)"

definition stable_timer :: "nat \<Rightarrow> stt_stream \<Rightarrow> stt_stream" where
  "stable_timer g st =
     (case rs_wait st of
        None \<Rightarrow> st
      | Some w \<Rightarrow>
          if gw_generation w \<noteq> g \<or> rs_closed st \<or> rs_terminal st then st
          else notify_progress (st\<lparr>rs_wait := Some (w\<lparr>gw_stable := True\<rparr>)\<rparr>))"

definition deadline_timer :: "nat \<Rightarrow> stt_stream \<Rightarrow> stt_stream" where
  "deadline_timer g st =
     (case rs_wait st of
        None \<Rightarrow> st
      | Some w \<Rightarrow>
          if gw_generation w \<noteq> g \<or> rs_closed st \<or> rs_terminal st then st
          else clear_generation_wait (Some (GenerationFailed recovery_exhausted_error)) st)"

section \<open>Closing\<close>

definition journal_drained :: "stt_stream \<Rightarrow> bool" where
  "journal_drained st \<longleftrightarrow> rs_terminal st \<or> (length (rs_journal st) \<le> rs_cursor st \<and> rs_context_inflight st = 0)"

definition close_finished :: "stt_stream \<Rightarrow> stt_stream" where
  "close_finished st =
     (let st1 = set_recovery_state RsClosed (st\<lparr>rs_closed := True\<rparr>);
          st2 = close_active (notify_progress (reject_pending (clear_generation_wait (Some (GenerationFailed stt_closed_error)) st1)))
      in st2\<lparr>rs_events := fst (close_queue (rs_events st2))\<rparr>)"

definition close_begin :: "stt_stream \<Rightarrow> stt_stream" where
  "close_begin st = (if rs_closed st \<and> \<not> rs_terminal st then st else st\<lparr>rs_closing := True\<rparr>)"

definition abort_stream :: "normalized_error \<Rightarrow> stt_stream \<Rightarrow> stt_stream" where
  "abort_stream e st =
     (if rs_closed st then st
      else
        let st1 = set_recovery_state RsClosed (st\<lparr>rs_closed := True, rs_closing := True\<rparr>);
            st2 = close_active (notify_progress (reject_pending (clear_generation_wait (Some (GenerationFailed e)) st1)))
        in st2\<lparr>rs_events := fst (close_queue (rs_events st2))\<rparr>)"

section \<open>Runs\<close>

text \<open>
  What can happen to a stream. The environment is free: commands, the outcome of every awaited call,
  timers, the reader of the events, and the coordinator of the agent contexts, which settles context
  entries and counts its writes. An event that is not enabled changes nothing.
\<close>

datatype stream_input =
    SendAudio audio_chunk
  | SendCommit
  | SendContext js_string int bool
  | ContextProgress "nat list" bool "nat \<Rightarrow> nat" nat nat
  | LoopBegin bool
  | WriteAccepted
  | WriteFailed normalized_error
  | ContextFailed nat normalized_error
  | StreamEvent nat stt_event
  | StreamEnded nat "normalized_error option"
  | OldStreamClosed "normalized_error option"
  | SleepFinished
  | OpenFailed normalized_error
  | StreamOpened
  | ProbingFinished
  | RecoverySettled
  | StableTimer nat
  | DeadlineTimer nat
  | EventsRead "stt_event async_queue"
  | CloseBegin
  | CloseTimedOut normalized_error
  | CloseFinished
  | AbortStream normalized_error

fun settle_context :: "'c journal_entry \<Rightarrow> 'c journal_entry" where
  "settle_context (AudioEntry c b off a d) = AudioEntry c b off a d"
| "settle_context (CommitEntry a s) = CommitEntry a s"
| "settle_context (ContextEntry c v s a) = ContextEntry c v True a"

definition settle_contexts :: "nat list \<Rightarrow> 'c journal_entry list \<Rightarrow> 'c journal_entry list" where
  "settle_contexts is journal =
     map (\<lambda>(i, e). if i \<in> set is then settle_context e else e) (enumerate 0 journal)"

definition in_phase :: "recovery_phase \<Rightarrow> (recovery \<Rightarrow> stt_stream \<Rightarrow> stt_stream) \<Rightarrow> stt_stream \<Rightarrow> stt_stream" where
  "in_phase phase f st =
     (case rs_recovery st of Some rc \<Rightarrow> if rc_phase rc = phase then f rc st else st | None \<Rightarrow> st)"

fun stream_step :: "int \<Rightarrow> stream_input \<Rightarrow> stt_stream \<Rightarrow> stt_stream" where
  "stream_step now (SendAudio chunk) st = snd (stt_send_audio chunk now st)"
| "stream_step now SendCommit st = snd (stt_commit now st)"
| "stream_step now (SendContext ctx version coalesced) st = admit_context ctx version coalesced now st"
| "stream_step now (ContextProgress is accepted pending inflight detached) st =
     notify_progress (st\<lparr>rs_journal := settle_contexts is (rs_journal st), rs_context_pending := pending,
       rs_context_inflight := inflight, rs_context_detached := detached,
       rs_context_failures := (if accepted then 0 else rs_context_failures st)\<rparr>)"
| "stream_step now (LoopBegin applied) st = loop_begin applied now st"
| "stream_step now WriteAccepted st = write_accepted now st"
| "stream_step now (WriteFailed e) st = write_failed e now st"
| "stream_step now (ContextFailed g e) st = handle_generation_failure g e now st"
| "stream_step now (StreamEvent g ev) st = consume_event g ev now st"
| "stream_step now (StreamEnded g e) st = generation_ended g e now st"
| "stream_step now (OldStreamClosed e) st = in_phase RpClosing (stream_close_settled e now) st"
| "stream_step now SleepFinished st = in_phase RpSleeping (sleep_finished now) st"
| "stream_step now (OpenFailed e) st = in_phase RpOpening (open_failed e now) st"
| "stream_step now StreamOpened st = in_phase RpOpening stream_opened st"
| "stream_step now ProbingFinished st = in_phase RpProbing (probing_finished now) st"
| "stream_step now RecoverySettled st = in_phase RpReturned (\<lambda>_. recovery_settled now) st"
| "stream_step now (StableTimer g) st = stable_timer g st"
| "stream_step now (DeadlineTimer g) st = deadline_timer g st"
| "stream_step now (EventsRead q) st = st\<lparr>rs_events := q\<rparr>"
| "stream_step now CloseBegin st = close_begin st"
| "stream_step now (CloseTimedOut e) st = (if rs_closing st then fail_terminal e st else st)"
| "stream_step now CloseFinished st =
     (if rs_closing st \<and> \<not> rs_closed st \<and> journal_drained st then close_finished st else st)"
| "stream_step now (AbortStream e) st = abort_stream e st"

text \<open>The states of a run of a new stream, with the clock at the last event; the clock does not go back.\<close>

inductive stream_reaches :: "stt_stream \<Rightarrow> int \<Rightarrow> stt_stream \<Rightarrow> bool" for st0 where
  reach_start: "stream_reaches st0 now st0"
| reach_step: "stream_reaches st0 now st \<Longrightarrow> now \<le> later \<Longrightarrow> stream_reaches st0 later (stream_step later input st)"

end
