(* ===== verification/Stt_Replay.thy ===== *)
theory Stt_Replay
  imports Stt_Stream "HOL-Library.Sublist"
begin

text \<open>
  What the resilient speech-to-text stream of \<open>Stt_Stream\<close> promises about audio. An invariant relates the
  journal, the cursor and the clock to the record of what was admitted, sent and accepted; every step
  keeps it. Most steps are \<open>quiet\<close>: they change nothing the invariant depends on.
\<close>

section \<open>What the audio of a stream depends on\<close>

definition is_commit :: "'c journal_entry \<Rightarrow> bool" where
  "is_commit e \<longleftrightarrow> (case e of CommitEntry a s \<Rightarrow> True | _ \<Rightarrow> False)"

definition entry_shape :: "'c journal_entry \<Rightarrow> 'c journal_entry option \<times> bool" where
  "entry_shape e = (if is_audio e then Some e else None, is_commit e)"

text \<open>The accepted audio that is still in the journal, and the audio still to be sent.\<close>

definition past_audio :: "stt_stream \<Rightarrow> audio_chunk journal_entry list" where
  "past_audio st = audio_of (take (rs_cursor st) (rs_journal st))"

definition todo_audio :: "stt_stream \<Rightarrow> audio_chunk journal_entry list" where
  "todo_audio st = audio_of (drop (rs_cursor st) (rs_journal st))"

definition writing_audio :: "stt_stream \<Rightarrow> bool" where
  "writing_audio st \<longleftrightarrow> rs_write st = Some (rs_generation st) \<and> rs_cursor st < length (rs_journal st)
     \<and> is_audio (rs_journal st ! rs_cursor st)"

definition base_index :: "stt_stream \<Rightarrow> nat" where
  "base_index st = length (rs_admitted st) - (length (past_audio st) + length (todo_audio st))"

text \<open>A step that changes nothing of it, except that the active stream may be given up.\<close>

definition same_audio :: "stt_stream \<Rightarrow> stt_stream \<Rightarrow> bool" where
  "same_audio st st' \<longleftrightarrow> rs_opts st' = rs_opts st \<and> rs_cursor st' = rs_cursor st \<and> rs_generation st' = rs_generation st
     \<and> rs_write st' = rs_write st \<and> rs_admitted st' = rs_admitted st \<and> rs_sent st' = rs_sent st
     \<and> rs_accepted st' = rs_accepted st \<and> map entry_shape (rs_journal st') = map entry_shape (rs_journal st)
     \<and> rs_replay_start st' = rs_replay_start st \<and> rs_replay_boundary st' = rs_replay_boundary st
     \<and> (rs_active st' \<longrightarrow> rs_active st)"

definition dead :: "stt_stream \<Rightarrow> bool" where
  "dead st \<longleftrightarrow> rs_closed st \<or> rs_terminal st"

definition quiet :: "stt_stream \<Rightarrow> stt_stream \<Rightarrow> bool" where
  "quiet st st' \<longleftrightarrow> same_audio st st' \<and> (dead st' \<and> rs_active st' \<longrightarrow> dead st)"

lemma quiet_refl [simp]: "quiet st st"
  by (simp add: quiet_def same_audio_def)

lemma quiet_trans: "quiet a b \<Longrightarrow> quiet b c \<Longrightarrow> quiet a c"
  by (auto simp: quiet_def same_audio_def)

lemma quiet_same: "quiet a b \<Longrightarrow> same_audio a b"
  by (simp add: quiet_def)

lemma same_trans: "same_audio a b \<Longrightarrow> same_audio b c \<Longrightarrow> same_audio a c"
  by (auto simp: same_audio_def)

lemma audio_of_shape: "audio_of j = map the (filter (\<lambda>x. x \<noteq> None) (map fst (map entry_shape j)))"
  by (induction j) (auto simp: audio_of_def entry_shape_def)

lemma quiet_audio:
  assumes "quiet st st'"
  shows "past_audio st' = past_audio st" "todo_audio st' = todo_audio st" "length (rs_journal st') = length (rs_journal st)"
    "i < length (rs_journal st) \<Longrightarrow> is_audio (rs_journal st' ! i) = is_audio (rs_journal st ! i)"
    "i < length (rs_journal st) \<Longrightarrow> is_commit (rs_journal st' ! i) = is_commit (rs_journal st ! i)"
proof -
  have shapes: "map entry_shape (rs_journal st') = map entry_shape (rs_journal st)" and c: "rs_cursor st' = rs_cursor st"
    using assms by (simp_all add: quiet_def same_audio_def dead_def)
  show "past_audio st' = past_audio st" "todo_audio st' = todo_audio st"
    unfolding past_audio_def todo_audio_def audio_of_shape c take_map [symmetric] drop_map [symmetric] shapes by simp_all
  show len: "length (rs_journal st') = length (rs_journal st)" using shapes by (metis length_map)
  have "entry_shape (rs_journal st' ! i) = entry_shape (rs_journal st ! i)" if "i < length (rs_journal st)"
    using shapes that len by (metis nth_map)
  then show "is_audio (rs_journal st' ! i) = is_audio (rs_journal st ! i)"
      "is_commit (rs_journal st' ! i) = is_commit (rs_journal st ! i)" if "i < length (rs_journal st)"
    using that by (auto simp: entry_shape_def split: if_splits)
qed

lemma quiet_set_state: "quiet st (set_recovery_state s st)"
  by (simp add: set_recovery_state_def quiet_def same_audio_def dead_def)

lemma quiet_clear_wait: "quiet st (clear_generation_wait outcome st)"
  by (simp add: clear_generation_wait_def quiet_def same_audio_def dead_def split: option.split)

lemma quiet_notify: "quiet st (notify_progress st)"
  by (simp add: notify_progress_def quiet_clear_wait split: option.split)

lemma shape_reject [simp]: "entry_shape (reject_entry e) = entry_shape e"
  by (cases e) (simp_all add: entry_shape_def is_commit_def)

lemma quiet_reject: "quiet st (reject_pending st)"
  by (simp add: reject_pending_def quiet_def same_audio_def dead_def)

lemma quiet_close_active: "quiet st (close_active st)"
  by (simp add: close_active_def quiet_def same_audio_def dead_def)

lemma quiet_fields:
  "quiet st (st\<lparr>rs_events := q\<rparr>)" "quiet st (st\<lparr>rs_held := h\<rparr>)" "quiet st (st\<lparr>rs_recovery := r\<rparr>)" "quiet st (st\<lparr>rs_restart := x\<rparr>)"
  "quiet st (st\<lparr>rs_outcome := y\<rparr>)" "quiet st (st\<lparr>rs_closing := b\<rparr>)" "quiet st (st\<lparr>rs_stream_closing := b\<rparr>)"
  "quiet st (st\<lparr>rs_wait := w\<rparr>)" "quiet st (st\<lparr>rs_sequence := n, rs_events := q\<rparr>)"
  "quiet st (st\<lparr>rs_recovery := r, rs_restart := x\<rparr>)"
  by (simp_all add: quiet_def same_audio_def dead_def)

text \<open>Death: the flags are set and the active stream given up in one step.\<close>

lemma same_dying:
  "same_audio st (st\<lparr>rs_closed := b\<rparr>)" "same_audio st (st\<lparr>rs_terminal := b, rs_error := z\<rparr>)"
  "same_audio st (st\<lparr>rs_closed := b, rs_closing := b'\<rparr>)"
  by (simp_all add: same_audio_def)

lemmas same_basic = quiet_set_state [THEN quiet_same] quiet_clear_wait [THEN quiet_same] quiet_notify [THEN quiet_same]
  quiet_reject [THEN quiet_same] quiet_close_active [THEN quiet_same] quiet_fields [THEN quiet_same]

lemma quiet_dying: "same_audio st st' \<Longrightarrow> \<not> rs_active st' \<Longrightarrow> quiet st st'"
  by (simp add: quiet_def)

lemmas same_chain = same_trans [OF _ same_basic(5)] same_trans [OF _ same_basic(3)] same_trans [OF _ same_basic(6)]
  same_trans [OF _ same_basic(4)] same_trans [OF _ same_basic(2)] same_trans [OF _ same_basic(1)]

lemma quiet_fail_terminal: "quiet st (fail_terminal e st)"
proof (cases "rs_terminal st \<or> rs_closed st")
  case False
  then have "same_audio st (fail_terminal e st)"
    unfolding fail_terminal_def Let_def if_not_P [OF False] by (intro same_chain same_dying)
  moreover have "\<not> rs_active (fail_terminal e st)"
    using False by (simp add: fail_terminal_def close_active_def Let_def)
  ultimately show ?thesis by (rule quiet_dying)
qed (auto simp: fail_terminal_def)

lemma quiet_emit: "quiet st (emit_event p st)"
  by (auto simp: emit_event_def Let_def split: prod.splits
      intro: quiet_fields quiet_trans [OF quiet_fields(9) quiet_fail_terminal])

lemma quiet_fold_emit: "quiet st (fold emit_event ps st)"
  by (induction ps arbitrary: st) (auto intro: quiet_trans [OF quiet_emit])

lemma quiet_release: "quiet st (release_held_endpoints st)"
  by (auto simp: release_held_endpoints_def intro: quiet_trans [OF quiet_fields(2) quiet_fold_emit])

lemma quiet_forward: "quiet st (forward_generation_event ev g st)"
  by (auto simp: forward_generation_event_def Let_def quiet_fail_terminal quiet_emit quiet_fields)

lemma quiet_returned: "quiet st (recovery_returned rc st)"
  by (simp add: recovery_returned_def quiet_fields)

lemma quiet_recover_round: "quiet st (recover_round now rc st)"
  by (auto simp: recover_round_def quiet_fields intro: quiet_trans [OF quiet_fail_terminal quiet_returned])

lemma quiet_recover_head: "quiet st (recover_head now rc st)"
  by (auto simp: recover_head_def quiet_fields quiet_returned quiet_recover_round
      intro: quiet_trans [OF quiet_fail_terminal quiet_returned])

lemma quiet_start_recovery: "quiet st (start_recovery e now st)"
  by (auto simp: start_recovery_def quiet_fields quiet_recover_head)

lemma quiet_recovery: "quiet st (start_recovery e now (clear_generation_wait outcome (set_recovery_state s st)))"
  by (rule quiet_trans [OF quiet_set_state quiet_trans [OF quiet_clear_wait quiet_start_recovery]])

lemma quiet_round_failed: "quiet st (round_failed e now rc st)"
  by (auto simp: round_failed_def Let_def quiet_recover_head intro: quiet_trans [OF quiet_fail_terminal quiet_returned])

lemma quiet_close_settled: "quiet st (stream_close_settled e now rc st)"
  by (auto simp: stream_close_settled_def split: option.split
      intro: quiet_trans [OF quiet_fields(7) quiet_recover_round] quiet_trans [OF quiet_fail_terminal quiet_returned])

lemma quiet_sleep_finished: "quiet st (sleep_finished now rc st)"
  by (auto simp: sleep_finished_def quiet_returned
      intro: quiet_trans [OF quiet_fields(3) quiet_set_state] quiet_trans [OF quiet_fail_terminal quiet_returned])

lemma quiet_open_failed: "quiet st (open_failed e now rc st)"
  by (auto simp: open_failed_def quiet_round_failed intro: quiet_trans [OF quiet_fail_terminal quiet_returned])

lemma quiet_recovery_settled: "quiet st (recovery_settled now st)"
  by (auto simp: recovery_settled_def Let_def quiet_fields split: option.split
      intro: quiet_trans [OF quiet_fields(10) quiet_start_recovery])

lemma quiet_timers: "quiet st (stable_timer g st)" "quiet st (deadline_timer g st)"
  by (auto simp: stable_timer_def deadline_timer_def quiet_clear_wait split: option.split
      intro: quiet_trans [OF quiet_fields(8) quiet_notify])

lemma same_closing: "same_audio st (close_finished st)" "same_audio st (abort_stream e st)"
proof -
  show "same_audio st (close_finished st)"
    unfolding close_finished_def Let_def by (intro same_chain same_dying)
  show "same_audio st (abort_stream e st)"
  proof (cases "rs_closed st")
    case False
    show ?thesis unfolding abort_stream_def Let_def if_not_P [OF False] by (intro same_chain same_dying)
  qed (simp add: abort_stream_def same_audio_def)
qed

lemma quiet_closing: "quiet st (close_begin st)" "quiet st (close_finished st)" "quiet st (abort_stream e st)"
proof -
  show "quiet st (close_begin st)" by (simp add: close_begin_def quiet_fields)
  show "quiet st (close_finished st)"
    by (rule quiet_dying [OF same_closing(1)]) (simp add: close_finished_def close_active_def Let_def)
  show "quiet st (abort_stream e st)"
  proof (cases "rs_closed st")
    case False
    then have "\<not> rs_active (abort_stream e st)" by (simp add: abort_stream_def close_active_def Let_def)
    then show ?thesis by (rule quiet_dying [OF same_closing(2)])
  qed (simp add: abort_stream_def)
qed

lemma shape_settle [simp]: "entry_shape (settle_context e) = entry_shape e"
  by (cases e) (simp_all add: entry_shape_def is_commit_def)

lemma quiet_settle:
  "quiet st (notify_progress (st\<lparr>rs_journal := settle_contexts is (rs_journal st), rs_context_pending := p,
       rs_context_inflight := n, rs_context_detached := m, rs_context_failures := f\<rparr>))"
proof -
  have "map entry_shape (settle_contexts is j) = map entry_shape j" for j :: "audio_chunk journal_entry list"
    by (rule nth_equalityI) (auto simp: settle_contexts_def nth_enumerate_eq split: prod.split)
  then have "quiet st (st\<lparr>rs_journal := settle_contexts is (rs_journal st), rs_context_pending := p,
       rs_context_inflight := n, rs_context_detached := m, rs_context_failures := f\<rparr>)" by (simp add: quiet_def same_audio_def dead_def)
  then show ?thesis using quiet_notify by (rule quiet_trans)
qed

section \<open>The invariant\<close>

definition indices_ok :: "stt_stream \<Rightarrow> bool" where
  "indices_ok st \<longleftrightarrow> rs_cursor st \<le> length (rs_journal st) \<and> rs_replay_start st \<le> length (rs_journal st)
     \<and> rs_replay_boundary st \<le> length (rs_journal st)"

definition journal_inv :: "int \<Rightarrow> stt_stream \<Rightarrow> bool" where
  "journal_inv now st \<longleftrightarrow> sorted (map audio_time (past_audio st)) \<and> (\<forall>e \<in> set (past_audio st). audio_time e \<le> now)
     \<and> suffix (map je_chunk (past_audio st @ todo_audio st)) (rs_admitted st)"

definition sent_inv :: "stt_stream \<Rightarrow> bool" where
  "sent_inv st \<longleftrightarrow> (\<forall>g. sublist (rs_sent st g) (rs_admitted st)) \<and> (\<forall>g > rs_generation st. rs_sent st g = [])
     \<and> (rs_active st \<longrightarrow> suffix (rs_sent st (rs_generation st)
          @ map je_chunk (if writing_audio st then tl (todo_audio st) else todo_audio st)) (rs_admitted st))"

definition write_inv :: "stt_stream \<Rightarrow> bool" where
  "write_inv st \<longleftrightarrow> (\<forall>g. rs_write st = Some g \<longrightarrow> g \<le> rs_generation st)
     \<and> (rs_active st \<and> rs_write st = Some (rs_generation st) \<longrightarrow> rs_cursor st < length (rs_journal st)
          \<and> (is_audio (rs_journal st ! rs_cursor st) \<or> is_commit (rs_journal st ! rs_cursor st)))"

definition accepted_inv :: "int \<Rightarrow> stt_stream \<Rightarrow> bool" where
  "accepted_inv now st \<longleftrightarrow> (\<forall>(i, t) \<in> set (rs_accepted st). i < length (rs_admitted st) \<and> t \<le> now
     \<and> (i < base_index st \<longrightarrow> t < now - replay_window st)
     \<and> (\<forall>k < length (past_audio st). i = base_index st + k \<longrightarrow> t \<le> audio_time (past_audio st ! k)))"

definition audio_inv :: "int \<Rightarrow> stt_stream \<Rightarrow> bool" where
  "audio_inv now st \<longleftrightarrow> indices_ok st \<and> journal_inv now st \<and> sent_inv st \<and> write_inv st \<and> accepted_inv now st
     \<and> (dead st \<longrightarrow> \<not> rs_active st)"

lemma audio_inv_later: "audio_inv now st \<Longrightarrow> now \<le> later \<Longrightarrow> audio_inv later st"
  unfolding audio_inv_def journal_inv_def accepted_inv_def by (fastforce split: prod.splits)

lemma quiet_inv:
  assumes "quiet st st'" and "audio_inv now st"
  shows "audio_inv now st'"
proof -
  note audio = quiet_audio [OF assms(1)]
  have ok: "rs_cursor st \<le> length (rs_journal st)" using assms(2) by (simp add: audio_inv_def indices_ok_def)
  have "writing_audio st' = writing_audio st"
    using assms(1) audio(3,4) by (auto simp: writing_audio_def quiet_def same_audio_def)
  moreover have "base_index st' = base_index st" "replay_window st' = replay_window st"
    using assms(1) by (simp_all add: base_index_def audio(1,2) quiet_def same_audio_def replay_window_def)
  ultimately show ?thesis
    using assms audio(4,5) unfolding audio_inv_def indices_ok_def journal_inv_def sent_inv_def write_inv_def accepted_inv_def
      audio(1-3) by (auto simp: quiet_def same_audio_def)
qed

text \<open>What a step at the cursor does to the two audio lists.\<close>

lemma cursor_audio:
  assumes "rs_cursor st < length (rs_journal st)"
  shows "is_audio (rs_journal st ! rs_cursor st) \<Longrightarrow>
      todo_audio st = rs_journal st ! rs_cursor st # audio_of (drop (Suc (rs_cursor st)) (rs_journal st))"
    and "\<not> is_audio (rs_journal st ! rs_cursor st) \<Longrightarrow> todo_audio st = audio_of (drop (Suc (rs_cursor st)) (rs_journal st))"
  using Cons_nth_drop_Suc [OF assms, symmetric] by (simp_all add: todo_audio_def audio_of_def)

lemma advance_audio:
  assumes "rs_cursor st < length (rs_journal st)" and "rs_journal st' = (rs_journal st)[rs_cursor st := e]"
    and "rs_cursor st' = rs_cursor st + 1"
  shows "past_audio st' = past_audio st @ (if is_audio e then [e] else [])"
    and "todo_audio st' = audio_of (drop (Suc (rs_cursor st)) (rs_journal st))"
  using assms by (simp_all add: past_audio_def todo_audio_def take_Suc_conv_app_nth audio_of_def)

lemma append_audio:
  assumes "rs_journal st' = rs_journal st @ [e]" and "rs_cursor st' = rs_cursor st" and "indices_ok st"
  shows "past_audio st' = past_audio st" "todo_audio st' = todo_audio st @ (if is_audio e then [e] else [])"
  using assms by (simp_all add: past_audio_def todo_audio_def audio_of_def indices_ok_def)

lemma suffix_length_base:
  assumes "journal_inv now st"
  shows "base_index st + (length (past_audio st) + length (todo_audio st)) = length (rs_admitted st)"
  using assms by (auto simp: journal_inv_def base_index_def dest!: suffix_length_le)

section \<open>Every step keeps it\<close>

lemma filter_drop_sorted:
  fixes f :: "'a \<Rightarrow> int"
  assumes "sorted (map f xs)"
  shows "filter (\<lambda>x. c \<le> f x) xs = drop (length xs - length (filter (\<lambda>x. c \<le> f x) xs)) xs"
    and "k < length xs - length (filter (\<lambda>x. c \<le> f x) xs) \<Longrightarrow> f (xs ! k) < c"
proof -
  have "filter (\<lambda>x. c \<le> f x) xs = dropWhile (\<lambda>x. f x < c) xs"
    using assms
  proof (induction xs)
    case (Cons x xs)
    show ?case
    proof (cases "f x < c")
      case False
      then have "\<forall>y \<in> set (x # xs). c \<le> f y" using Cons.prems by fastforce
      then show ?thesis using False by (simp add: filter_True)
    qed (use Cons in simp)
  qed simp
  then have eq: "filter (\<lambda>x. c \<le> f x) xs = drop (length (takeWhile (\<lambda>x. f x < c) xs)) xs"
    by (simp add: dropWhile_eq_drop)
  have "length (takeWhile (\<lambda>x. f x < c) xs) \<le> length xs" by (rule length_takeWhile_le)
  then have n: "length xs - length (filter (\<lambda>x. c \<le> f x) xs) = length (takeWhile (\<lambda>x. f x < c) xs)"
    by (simp add: eq)
  show "filter (\<lambda>x. c \<le> f x) xs = drop (length xs - length (filter (\<lambda>x. c \<le> f x) xs)) xs"
    unfolding n by (rule eq)
  show "f (xs ! k) < c" if "k < length xs - length (filter (\<lambda>x. c \<le> f x) xs)"
    using that [unfolded n] by (metis nth_mem set_takeWhileD takeWhile_nth)
qed

lemma compact_stream_fields:
  assumes "indices_ok st"
  shows "past_audio (compact_stream now st) = recent_audio (now - replay_window st) (past_audio st)"
    and "todo_audio (compact_stream now st) = todo_audio st" and "indices_ok (compact_stream now st)"
    and "rs_active (compact_stream now st) = rs_active st" "rs_write (compact_stream now st) = rs_write st"
      "rs_generation (compact_stream now st) = rs_generation st" "rs_admitted (compact_stream now st) = rs_admitted st"
      "rs_sent (compact_stream now st) = rs_sent st" "rs_accepted (compact_stream now st) = rs_accepted st"
      "rs_opts (compact_stream now st) = rs_opts st" "dead (compact_stream now st) = dead st"
proof -
  obtain j c s b where r: "compact_journal (rs_journal st) (rs_cursor st) (rs_replay_start st) (rs_replay_boundary st)
      now (replay_window st) = (j, c, s, b)" by (metis prod_cases4)
  have ok: "rs_cursor st \<le> length (rs_journal st)" "rs_replay_start st \<le> length (rs_journal st)"
    "rs_replay_boundary st \<le> length (rs_journal st)" using assms by (simp_all add: indices_ok_def)
  show "past_audio (compact_stream now st) = recent_audio (now - replay_window st) (past_audio st)"
      "todo_audio (compact_stream now st) = todo_audio st" "indices_ok (compact_stream now st)"
    using compact_audio [OF r ok] compact_slices(3-5) [OF r ok] recent_audio_of
    by (simp_all add: compact_stream_def r past_audio_def todo_audio_def indices_ok_def recent_audio_of)
  show "rs_active (compact_stream now st) = rs_active st" "rs_write (compact_stream now st) = rs_write st"
      "rs_generation (compact_stream now st) = rs_generation st" "rs_admitted (compact_stream now st) = rs_admitted st"
      "rs_sent (compact_stream now st) = rs_sent st" "rs_accepted (compact_stream now st) = rs_accepted st"
      "rs_opts (compact_stream now st) = rs_opts st" "dead (compact_stream now st) = dead st"
    by (simp_all add: compact_stream_def r dead_def)
qed

text \<open>The command at the cursor is still there after a compaction, unless it is a settled context.\<close>

lemma compact_stream_head:
  assumes "indices_ok st" and "rs_cursor st < length (rs_journal st)"
    and "is_audio (rs_journal st ! rs_cursor st) \<or> is_commit (rs_journal st ! rs_cursor st)"
  shows "rs_cursor (compact_stream now st) < length (rs_journal (compact_stream now st))
    \<and> rs_journal (compact_stream now st) ! rs_cursor (compact_stream now st) = rs_journal st ! rs_cursor st"
proof -
  let ?K = "keeps (rs_journal st) (rs_cursor st) (now - replay_window st)"
  obtain j c s b where r: "compact_journal (rs_journal st) (rs_cursor st) (rs_replay_start st) (rs_replay_boundary st)
      now (replay_window st) = (j, c, s, b)" by (metis prod_cases4)
  have ok: "rs_cursor st \<le> length (rs_journal st)" "rs_replay_start st \<le> length (rs_journal st)"
    "rs_replay_boundary st \<le> length (rs_journal st)" using assms(1) by (simp_all add: indices_ok_def)
  have "?K (rs_cursor st)" using assms(3) by (cases "rs_journal st ! rs_cursor st") (auto simp: keeps_def is_commit_def)
  then have "drop c j = rs_journal st ! rs_cursor st # map ((!) (rs_journal st)) (filter ?K [Suc (rs_cursor st)..<length (rs_journal st)])"
    using compact_slices(2) [OF r ok] by (simp add: upt_conv_Cons [OF assms(2)])
  then have "c < length j \<and> j ! c = rs_journal st ! rs_cursor st"
    by (metis drop_eq_Nil hd_drop_conv_nth list.discI list.sel(1) not_le)
  then show ?thesis by (simp add: compact_stream_def r)
qed

lemma compact_stream_inv:
  assumes "audio_inv now st"
  shows "audio_inv now (compact_stream now st)"
proof -
  let ?st = "compact_stream now st" and ?c = "now - replay_window st"
  have inv: "indices_ok st" "journal_inv now st" "sent_inv st" "write_inv st" "accepted_inv now st"
    using assms by (simp_all add: audio_inv_def)
  note f = compact_stream_fields [OF inv(1), of now]
  have sorted: "sorted (map audio_time (past_audio st))" using inv(2) by (simp add: journal_inv_def)
  have audio: "is_audio e" if "e \<in> set (past_audio st)" for e using that by (simp add: past_audio_def audio_of_def)
  have past: "past_audio ?st = filter (\<lambda>e. ?c \<le> audio_time e) (past_audio st)"
    unfolding f(1) recent_audio_def using audio by (intro filter_cong) auto
  define m where "m = length (past_audio st) - length (past_audio ?st)"
  have drop: "past_audio ?st = drop m (past_audio st)" and old: "k < m \<Longrightarrow> audio_time (past_audio st ! k) < ?c" for k
    using filter_drop_sorted [OF sorted, where c = ?c] unfolding m_def past by blast+
  have m: "m \<le> length (past_audio st)" by (simp add: m_def)
  have "map je_chunk (past_audio ?st @ todo_audio ?st) = drop m (map je_chunk (past_audio st @ todo_audio st))"
    unfolding drop f(2) using m by (simp add: drop_map)
  then have "suffix (map je_chunk (past_audio ?st @ todo_audio ?st)) (rs_admitted st)"
    using inv(2) unfolding journal_inv_def by (metis suffix_drop suffix_order.trans)
  moreover have "sorted (map audio_time (past_audio ?st))"
    unfolding drop using sorted_wrt_drop [OF sorted, of m] by (simp add: drop_map)
  moreover have "\<forall>e \<in> set (past_audio ?st). audio_time e \<le> now"
    unfolding drop using inv(2) by (auto simp: journal_inv_def dest: in_set_dropD)
  ultimately have journal: "journal_inv now ?st" by (simp add: journal_inv_def f(7))
  have head: "rs_cursor ?st < length (rs_journal ?st) \<and> rs_journal ?st ! rs_cursor ?st = rs_journal st ! rs_cursor st"
    if "rs_active st" "rs_write st = Some (rs_generation st)"
    using compact_stream_head [OF inv(1)] inv(4) that by (simp add: write_inv_def)
  then have "rs_active st \<Longrightarrow> writing_audio ?st = writing_audio st"
    using inv(4) by (auto simp: writing_audio_def write_inv_def f)
  then have "sent_inv ?st" using inv(3) by (auto simp: sent_inv_def f)
  moreover have "write_inv ?st" using inv(4) head by (auto simp: write_inv_def f)
  moreover have "accepted_inv now ?st"
  proof -
    have base: "base_index ?st = base_index st + m"
      using suffix_length_base [OF journal] suffix_length_base [OF inv(2)] m by (simp add: f(2,7) drop)
    show ?thesis
      unfolding accepted_inv_def
    proof (intro ballI, clarify)
      fix i t assume "(i, t) \<in> set (rs_accepted ?st)"
      then have a: "i < length (rs_admitted st)" "t \<le> now" "i < base_index st \<Longrightarrow> t < ?c"
        "\<And>k. k < length (past_audio st) \<Longrightarrow> i = base_index st + k \<Longrightarrow> t \<le> audio_time (past_audio st ! k)"
        using inv(5) by (auto simp: accepted_inv_def f)
      have "t < now - replay_window st" if "i < base_index st + m"
      proof (cases "i < base_index st")
        case False
        then have "i = base_index st + (i - base_index st)" "i - base_index st < m" using that by auto
        then show ?thesis using a(4) [of "i - base_index st"] old [of "i - base_index st"] m by force
      qed (rule a(3))
      moreover have "t \<le> audio_time (past_audio ?st ! k)" if "k < length (past_audio ?st)" "i = base_index st + m + k" for k
        using a(4) [of "m + k"] that m by (simp add: drop)
      ultimately show "i < length (rs_admitted ?st) \<and> t \<le> now \<and> (i < base_index ?st \<longrightarrow> t < now - replay_window ?st)
          \<and> (\<forall>k < length (past_audio ?st). i = base_index ?st + k \<longrightarrow> t \<le> audio_time (past_audio ?st ! k))"
        using a(1,2) by (simp add: f base replay_window_def)
    qed
  qed
  ultimately show ?thesis using f(3) journal assms by (simp add: audio_inv_def f(4,11))
qed


lemma sublist_snoc: "sublist xs ys \<Longrightarrow> sublist xs (ys @ zs)"
  by (metis append_assoc sublist_def)

lemma suffix_snoc: "suffix xs ys \<Longrightarrow> suffix (xs @ zs) (ys @ zs)"
  by simp

lemma accepted_append:
  assumes "accepted_inv now st" and "rs_admitted st' = rs_admitted st @ cs" and "rs_accepted st' = rs_accepted st"
    and "past_audio st' = past_audio st" and "base_index st' = base_index st" and "replay_window st' = replay_window st"
  shows "accepted_inv now st'"
  using assms(1) unfolding accepted_inv_def assms(3-6) by (auto simp: assms(2))

lemma base_index_eq:
  assumes "journal_inv now st" and "journal_inv now st'"
    and "length (rs_admitted st') + (length (past_audio st) + length (todo_audio st))
      = length (rs_admitted st) + (length (past_audio st') + length (todo_audio st'))"
  shows "base_index st' = base_index st"
  using suffix_length_base [OF assms(1)] suffix_length_base [OF assms(2)] assms(3) by linarith

text \<open>Admission appends to the journal; what is at the cursor stays there.\<close>

lemma append_command_inv:
  assumes "audio_inv now st" and "rs_journal st' = rs_journal st @ [e]"
    and "rs_admitted st' = rs_admitted st @ (if is_audio e then [je_chunk e] else [])"
    and "rs_opts st' = rs_opts st" "rs_cursor st' = rs_cursor st" "rs_generation st' = rs_generation st"
      "rs_write st' = rs_write st" "rs_sent st' = rs_sent st" "rs_accepted st' = rs_accepted st"
      "rs_replay_start st' = rs_replay_start st" "rs_replay_boundary st' = rs_replay_boundary st" "rs_active st' = rs_active st" "dead st' = dead st"
  shows "audio_inv now st'"
proof -
  have inv: "indices_ok st" "journal_inv now st" "sent_inv st" "write_inv st" "accepted_inv now st"
    using assms(1) by (simp_all add: audio_inv_def)
  note audio = append_audio [OF assms(2,5) inv(1)]
  have journal: "journal_inv now st'"
    using inv(2) suffix_snoc [of "map je_chunk (past_audio st @ todo_audio st)" "rs_admitted st" "[je_chunk e]"]
    by (simp add: journal_inv_def audio assms(3))
  have writing: "rs_active st \<Longrightarrow> writing_audio st' = writing_audio st"
    using inv(4) by (auto simp: writing_audio_def write_inv_def assms nth_append)
  have "writing_audio st \<Longrightarrow> todo_audio st \<noteq> []"
    using cursor_audio(1) by (auto simp: writing_audio_def)
  then have todo: "rs_active st \<Longrightarrow> (if writing_audio st' then tl (todo_audio st') else todo_audio st')
      = (if writing_audio st then tl (todo_audio st) else todo_audio st) @ (if is_audio e then [e] else [])"
    using writing by (auto simp: audio tl_append split: list.split)
  have sent: "rs_active st \<Longrightarrow> suffix (rs_sent st (rs_generation st)
      @ map je_chunk (if writing_audio st then tl (todo_audio st) else todo_audio st)) (rs_admitted st)"
    using inv(3) by (simp add: sent_inv_def)
  have "suffix (rs_sent st' (rs_generation st')
      @ map je_chunk (if writing_audio st' then tl (todo_audio st') else todo_audio st')) (rs_admitted st')" if "rs_active st"
    unfolding todo [OF that] assms(3,6,8)
    using suffix_snoc [OF sent [OF that], of "if is_audio e then [je_chunk e] else []"]
    by (cases "is_audio e"; cases "writing_audio st") simp_all
  then have "sent_inv st'"
    using inv(3) by (auto simp: sent_inv_def assms(3,6,8,12) sublist_snoc)
  moreover have "write_inv st'"
    using inv(4) by (auto simp: write_inv_def assms nth_append)
  moreover have "base_index st' = base_index st"
    by (rule base_index_eq [OF inv(2) journal]) (simp add: audio assms(3))
  then have "accepted_inv now st'"
    using accepted_append [OF inv(5) assms(3,9) audio(1)] assms(4) by (simp add: replay_window_def)
  moreover have "indices_ok st'" using inv(1) by (simp add: indices_ok_def assms)
  ultimately show ?thesis using journal assms(1,12,13) by (simp add: audio_inv_def)
qed

lemma push_entry_inv:
  "audio_inv now st \<Longrightarrow> \<not> is_audio e \<Longrightarrow> audio_inv now (st\<lparr>rs_journal := rs_journal st @ [e]\<rparr>)"
  by (erule append_command_inv) (simp_all add: dead_def)

lemma push_audio_inv:
  "audio_inv now st \<Longrightarrow> audio_inv now (st\<lparr>rs_journal := rs_journal st @ [AudioEntry c b off a d], rs_audio_ms := ms,
    rs_admitted := rs_admitted st @ [c]\<rparr>)"
  by (erule append_command_inv [where e = "AudioEntry c b off a d"]) (simp_all add: dead_def)

lemma admission_inv:
  assumes "audio_inv now st"
  shows "audio_inv now (snd (stt_send_audio chunk now st))" and "audio_inv now (snd (stt_commit now st))"
    and "audio_inv now (admit_context ctx v coalesced now st)"
  using assms compact_stream_inv [OF assms]
  by (simp_all add: stt_send_audio_def stt_commit_def admit_context_def Let_def push_entry_inv push_audio_inv
      quiet_inv [OF quiet_fail_terminal])

lemma after_command_inv: "audio_inv now st \<Longrightarrow> audio_inv now (after_command now st)"
  by (simp add: after_command_def quiet_inv [OF quiet_release] compact_stream_inv quiet_inv [OF quiet_notify])

text \<open>The cursor passes a command that is not audio.\<close>

lemma pass_command_inv:
  assumes "audio_inv now st" and "rs_cursor st < length (rs_journal st)" and "\<not> is_audio (rs_journal st ! rs_cursor st)"
    and "\<not> is_audio e" and "rs_journal st' = (rs_journal st)[rs_cursor st := e]" and "rs_cursor st' = rs_cursor st + 1"
    and "rs_write st' = None" and "rs_opts st' = rs_opts st" "rs_generation st' = rs_generation st"
      "rs_sent st' = rs_sent st" "rs_accepted st' = rs_accepted st" "rs_admitted st' = rs_admitted st"
      "rs_replay_start st' = rs_replay_start st" "rs_replay_boundary st' = rs_replay_boundary st" "rs_active st' = rs_active st" "dead st' = dead st"
  shows "audio_inv now st'"
proof -
  have inv: "indices_ok st" "journal_inv now st" "sent_inv st" "write_inv st" "accepted_inv now st"
    using assms(1) by (simp_all add: audio_inv_def)
  have audio: "past_audio st' = past_audio st" "todo_audio st' = todo_audio st"
    using advance_audio [OF assms(2,5,6)] cursor_audio(2) [OF assms(2,3)] assms(4) by simp_all
  have "\<not> writing_audio st" "\<not> writing_audio st'" using assms(3,7) by (simp_all add: writing_audio_def)
  then have "sent_inv st'" using inv(3) by (simp add: sent_inv_def audio assms)
  moreover have "base_index st' = base_index st" by (simp add: base_index_def audio assms)
  then have "accepted_inv now st'"
    using inv(5) by (simp add: accepted_inv_def audio assms replay_window_def)
  ultimately show ?thesis
    using inv(1,2) assms(1,2) by (simp add: audio_inv_def indices_ok_def journal_inv_def write_inv_def audio assms(5-16))
qed

lemma loop_begin_inv:
  assumes "audio_inv now st"
  shows "audio_inv now (loop_begin applied now st)"
proof (cases "rs_closed st \<or> rs_terminal st \<or> rs_write st \<noteq> None \<or> length (rs_journal st) \<le> rs_cursor st
         \<or> \<not> rs_active st \<or> (rs_state st \<noteq> RsHealthy \<and> rs_state st \<noteq> RsProbationary)")
  case True
  then show ?thesis using assms by (simp add: loop_begin_def)
next
  case False
  then have c: "rs_cursor st < length (rs_journal st)" "rs_write st = None" "rs_active st" by auto
  show ?thesis
  proof (cases "rs_journal st ! rs_cursor st")
    case (AudioEntry ch b off a d)
    let ?st = "st\<lparr>rs_write := Some (rs_generation st),
        rs_sent := (rs_sent st)(rs_generation st := rs_sent st (rs_generation st) @ [ch])\<rparr>"
    have todo: "todo_audio st = AudioEntry ch b off a d # audio_of (drop (Suc (rs_cursor st)) (rs_journal st))"
      using cursor_audio(1) [OF c(1)] AudioEntry by simp
    have same: "past_audio ?st = past_audio st" "todo_audio ?st = todo_audio st" "base_index ?st = base_index st"
      "replay_window ?st = replay_window st"
      by (simp_all add: past_audio_def todo_audio_def base_index_def replay_window_def)
    have w: "writing_audio ?st" "\<not> writing_audio st" using c AudioEntry by (simp_all add: writing_audio_def)
    have suffix: "suffix (rs_sent st (rs_generation st) @ map je_chunk (todo_audio st)) (rs_admitted st)"
      using assms c(3) w(2) by (simp add: audio_inv_def sent_inv_def)
    then have "sublist (rs_sent st (rs_generation st) @ [ch]) (rs_admitted st)"
      unfolding todo suffix_def sublist_def by auto
    then have "sent_inv ?st"
      using assms suffix w by (auto simp: audio_inv_def sent_inv_def same todo)
    then have "audio_inv now ?st"
      using assms c AudioEntry by (simp add: dead_def audio_inv_def indices_ok_def journal_inv_def write_inv_def accepted_inv_def same)
    then show ?thesis using False AudioEntry assms by (simp add: loop_begin_def)
  next
    case (CommitEntry a s)
    let ?st = "st\<lparr>rs_write := Some (rs_generation st)\<rparr>"
    have same: "past_audio ?st = past_audio st" "todo_audio ?st = todo_audio st" "base_index ?st = base_index st"
      "replay_window ?st = replay_window st" "writing_audio ?st = writing_audio st"
      using c CommitEntry by (simp_all add: past_audio_def todo_audio_def base_index_def replay_window_def writing_audio_def)
    have "\<not> writing_audio st" using CommitEntry by (simp add: writing_audio_def)
    then have "audio_inv now ?st"
      using assms c CommitEntry
      by (simp add: dead_def audio_inv_def indices_ok_def journal_inv_def write_inv_def accepted_inv_def sent_inv_def same is_commit_def)
    moreover have "audio_inv now (st\<lparr>rs_journal := (rs_journal st)[rs_cursor st := CommitEntry a True], rs_cursor := rs_cursor st + 1\<rparr>)"
      by (rule pass_command_inv [OF assms c(1), where e = "CommitEntry a True"]) (simp_all add: CommitEntry c dead_def)
    ultimately show ?thesis using False CommitEntry assms by (simp add: loop_begin_def after_command_inv)
  next
    case (ContextEntry x v s a)
    have "audio_inv now (st\<lparr>rs_journal := (rs_journal st)[rs_cursor st := ContextEntry x v (s \<or> applied) a], rs_cursor := rs_cursor st + 1\<rparr>)"
      by (rule pass_command_inv [OF assms c(1), where e = "ContextEntry x v (s \<or> applied) a"]) (simp_all add: ContextEntry c dead_def)
    then show ?thesis using False ContextEntry assms by (simp add: loop_begin_def after_command_inv)
  qed
qed

text \<open>Giving up the write of an old generation.\<close>

lemma forget_write_inv:
  assumes "audio_inv now st" and "rs_write st \<noteq> Some (rs_generation st) \<or> \<not> rs_active st"
  shows "audio_inv now (st\<lparr>rs_write := None\<rparr>)"
proof -
  have same: "past_audio (st\<lparr>rs_write := None\<rparr>) = past_audio st" "todo_audio (st\<lparr>rs_write := None\<rparr>) = todo_audio st"
    "base_index (st\<lparr>rs_write := None\<rparr>) = base_index st" "replay_window (st\<lparr>rs_write := None\<rparr>) = replay_window st"
    by (simp_all add: past_audio_def todo_audio_def base_index_def replay_window_def)
  have "rs_active st \<Longrightarrow> \<not> writing_audio st" "\<not> writing_audio (st\<lparr>rs_write := None\<rparr>)"
    using assms(2) by (auto simp: writing_audio_def)
  then show ?thesis
    using assms(1) by (auto simp: dead_def audio_inv_def indices_ok_def journal_inv_def sent_inv_def write_inv_def accepted_inv_def same)
qed

lemma accept_audio_inv:
  assumes "audio_inv now st" and "rs_cursor st < length (rs_journal st)" and "rs_active st"
    and "rs_write st = Some (rs_generation st)" and entry: "rs_journal st ! rs_cursor st = AudioEntry ch b off a d"
  shows "audio_inv now (st\<lparr>rs_write := None, rs_journal := (rs_journal st)[rs_cursor st := AudioEntry ch b off a (Some now)],
      rs_cursor := rs_cursor st + 1, rs_accepted := rs_accepted st @ [(audio_position st, now)]\<rparr>)"
    (is "audio_inv now ?st")
proof -
  have inv: "indices_ok st" "journal_inv now st" "sent_inv st" "write_inv st" "accepted_inv now st"
    using assms(1) by (simp_all add: audio_inv_def)
  let ?new = "AudioEntry ch b off a (Some now)" and ?rest = "audio_of (drop (Suc (rs_cursor st)) (rs_journal st))"
  have todo: "todo_audio st = AudioEntry ch b off a d # ?rest"
    using cursor_audio(1) [OF assms(2)] entry by simp
  have audio: "past_audio ?st = past_audio st @ [?new]" "todo_audio ?st = ?rest"
    using advance_audio [OF assms(2), of ?st ?new] by simp_all
  have time: "audio_time ?new = now" by (simp add: audio_time_def)
  have journal: "journal_inv now ?st"
    using inv(2) unfolding journal_inv_def audio todo by (simp add: time sorted_append)
  have "writing_audio st" "\<not> writing_audio ?st"
    using assms(2,4) entry by (simp_all add: writing_audio_def)
  then have "sent_inv ?st" using inv(3) unfolding sent_inv_def audio todo by simp
  moreover have "write_inv ?st" by (simp add: write_inv_def)
  moreover have base: "base_index ?st = base_index st"
    by (rule base_index_eq [OF inv(2) journal], unfold audio todo) simp
  have position: "audio_position st = base_index st + length (past_audio st)"
    using suffix_length_base [OF inv(2)] by (simp add: audio_position_def todo_audio_def)
  have "accepted_inv now ?st"
    unfolding accepted_inv_def
  proof (intro ballI, clarify)
    fix i t assume it: "(i, t) \<in> set (rs_accepted ?st)"
    have le: "i < length (rs_admitted st) \<and> t \<le> now" and w: "i < base_index st \<longrightarrow> t < now - replay_window st"
      and k: "\<forall>k < length (past_audio st). i = base_index st + k \<longrightarrow> t \<le> audio_time (past_audio st ! k)"
      using it inv(5) suffix_length_base [OF inv(2)] by (auto simp: accepted_inv_def position todo)
    show "i < length (rs_admitted ?st) \<and> t \<le> now \<and> (i < base_index ?st \<longrightarrow> t < now - replay_window ?st)
        \<and> (\<forall>k < length (past_audio ?st). i = base_index ?st + k \<longrightarrow> t \<le> audio_time (past_audio ?st ! k))"
      using le w k unfolding audio base by (auto simp: replay_window_def nth_append time less_Suc_eq)
  qed
  moreover have "indices_ok ?st" using inv(1) assms(2) by (simp add: indices_ok_def)
  ultimately show ?thesis using journal assms(1) by (simp add: audio_inv_def dead_def)
qed

lemma write_accepted_inv:
  assumes "audio_inv now st"
  shows "audio_inv now (write_accepted now st)"
proof (cases "rs_write st = None \<or> rs_write st \<noteq> Some (rs_generation st) \<or> \<not> rs_active st")
  case True
  then show ?thesis using assms forget_write_inv [OF assms]
    by (cases "rs_write st") (auto simp: write_accepted_def)
next
  case False
  then have c: "rs_write st = Some (rs_generation st)" "rs_active st" by auto
  then have at: "rs_cursor st < length (rs_journal st)"
    "is_audio (rs_journal st ! rs_cursor st) \<or> is_commit (rs_journal st ! rs_cursor st)"
    using assms by (simp_all add: audio_inv_def write_inv_def)
  show ?thesis
  proof (cases "rs_journal st ! rs_cursor st")
    case (AudioEntry ch b off a d)
    then show ?thesis using after_command_inv [OF accept_audio_inv [OF assms at(1) c(2,1) AudioEntry]] c at
      by (simp add: write_accepted_def)
  next
    case (CommitEntry a s)
    have "audio_inv now (st\<lparr>rs_write := None, rs_journal := (rs_journal st)[rs_cursor st := CommitEntry a True],
        rs_cursor := rs_cursor st + 1\<rparr>)"
      by (rule pass_command_inv [OF assms at(1), where e = "CommitEntry a True"]) (simp_all add: CommitEntry dead_def)
    then show ?thesis using CommitEntry c at by (simp add: write_accepted_def after_command_inv)
  next
    case (ContextEntry x v s a)
    then show ?thesis using at(2) by (simp add: is_commit_def)
  qed
qed

text \<open>Going back over the uncertain audio keeps the journal in order; the stream is no longer active.\<close>

lemma rewind_fields:
  assumes "indices_ok st" and "journal_inv now st" and "now \<le> later"
  shows "past_audio (rewind_for_replay later st) @ todo_audio (rewind_for_replay later st) = past_audio st @ todo_audio st"
    and "todo_audio (rewind_for_replay later st) = recent_audio (later - replay_window st) (past_audio st) @ todo_audio st"
    and "indices_ok (rewind_for_replay later st)"
proof -
  let ?s = "find_replay_start (rs_journal st) (rs_cursor st) later (replay_window st)"
  have c: "rs_cursor st \<le> length (rs_journal st)" using assms(1) by (simp add: indices_ok_def)
  have "accepted_in_order (take (rs_cursor st) (rs_journal st))"
    using assms(2) by (simp add: accepted_in_order_def journal_inv_def past_audio_def)
  from replay_audio [OF c this, of later "replay_window st"]
  show "todo_audio (rewind_for_replay later st) = recent_audio (later - replay_window st) (past_audio st) @ todo_audio st"
    using recent_audio_of by (simp add: rewind_for_replay_def Let_def todo_audio_def past_audio_def recent_audio_of)
  have all: "past_audio x @ todo_audio x = audio_of (rs_journal x)" for x
    by (metis append_take_drop_id audio_of_def filter_append past_audio_def todo_audio_def)
  show "past_audio (rewind_for_replay later st) @ todo_audio (rewind_for_replay later st) = past_audio st @ todo_audio st"
    unfolding all by (simp add: rewind_for_replay_def Let_def)
  have "?s \<le> rs_cursor st" unfolding find_replay_start_def by (rule replay_back_le)
  then show "indices_ok (rewind_for_replay later st)"
    using c by (simp add: indices_ok_def rewind_for_replay_def Let_def)
qed

lemma rewind_inv:
  assumes "audio_inv now st"
  shows "audio_inv now (rewind_for_replay now st)"
proof -
  let ?st = "rewind_for_replay now st"
  have inv: "indices_ok st" "journal_inv now st" "sent_inv st" "write_inv st" "accepted_inv now st"
    using assms by (simp_all add: audio_inv_def)
  note f = rewind_fields [OF inv(1,2) order_refl]
  have same: "rs_admitted ?st = rs_admitted st" "rs_sent ?st = rs_sent st" "rs_generation ?st = rs_generation st"
    "rs_write ?st = rs_write st" "rs_accepted ?st = rs_accepted st" "replay_window ?st = replay_window st" "\<not> rs_active ?st"
    by (simp_all add: rewind_for_replay_def replay_window_def Let_def)
  obtain more where past: "past_audio st = past_audio ?st @ more"
    using f(1) unfolding f(2) by (metis append_assoc append_same_eq)
  have total: "length (past_audio ?st) + length (todo_audio ?st) = length (past_audio st) + length (todo_audio st)"
    using arg_cong [OF f(1), of length] by simp
  have "journal_inv now ?st"
    using inv(2) unfolding journal_inv_def f(1) same by (simp add: past sorted_append)
  moreover have base: "base_index ?st = base_index st" by (simp add: base_index_def same total)
  have "accepted_inv now ?st"
    unfolding accepted_inv_def same base
  proof (intro ballI, clarify)
    fix i t assume "(i, t) \<in> set (rs_accepted st)"
    then have a: "i < length (rs_admitted st)" "t \<le> now" "i < base_index st \<Longrightarrow> t < now - replay_window st"
      "\<And>k. k < length (past_audio st) \<Longrightarrow> i = base_index st + k \<Longrightarrow> t \<le> audio_time (past_audio st ! k)"
      using inv(5) by (auto simp: accepted_inv_def)
    have "t \<le> audio_time (past_audio ?st ! k)" if "k < length (past_audio ?st)" "i = base_index st + k" for k
      using a(4) [of k] that by (simp add: past nth_append)
    then show "i < length (rs_admitted st) \<and> t \<le> now \<and> (i < base_index st \<longrightarrow> t < now - replay_window st)
        \<and> (\<forall>k < length (past_audio ?st). i = base_index st + k \<longrightarrow> t \<le> audio_time (past_audio ?st ! k))"
      using a(1-3) by blast
  qed
  ultimately show ?thesis using inv(3,4) f(3) by (simp add: audio_inv_def sent_inv_def write_inv_def same)
qed

lemma failure_inv: "audio_inv now st \<Longrightarrow> audio_inv now (handle_generation_failure g e now st)"
proof -
  assume inv: "audio_inv now st"
  have "quiet st (st\<lparr>rs_held := [], rs_context_failures := n\<rparr>)" for n by (simp add: quiet_def same_audio_def dead_def)
  from rewind_inv [OF quiet_inv [OF this inv]] show ?thesis
    using inv by (auto simp: handle_generation_failure_def Let_def
        intro: quiet_inv [OF quiet_fail_terminal] quiet_inv [OF quiet_recovery])
qed

lemma write_failed_inv:
  assumes "audio_inv now st"
  shows "audio_inv now (write_failed e now st)"
proof (cases "rs_write st = Some (rs_generation st) \<and> rs_active st")
  case False
  then have "audio_inv now (st\<lparr>rs_write := None\<rparr>)" using forget_write_inv [OF assms] by blast
  then show ?thesis using assms by (simp add: write_failed_def failure_inv split: option.split)
next
  case True
  text \<open>The write of the current generation is forgotten together with the generation.\<close>
  let ?n = "if ne_code e = context_update_failed_code then rs_context_failures st + 1 else 0"
  let ?st = "rewind_for_replay now (st\<lparr>rs_held := [], rs_context_failures := ?n\<rparr>)"
  have alive: "\<not> rs_closed st" "\<not> rs_terminal st" using assms True by (auto simp: audio_inv_def dead_def)
  have "quiet st (st\<lparr>rs_held := [], rs_context_failures := ?n\<rparr>)" by (simp add: quiet_def same_audio_def dead_def)
  from rewind_inv [OF quiet_inv [OF this assms]] have "audio_inv now ?st" .
  moreover have "\<not> rs_active ?st" by (simp add: rewind_for_replay_def Let_def)
  ultimately have "audio_inv now (?st\<lparr>rs_write := None\<rparr>)" by (simp add: forget_write_inv)
  moreover have "?st\<lparr>rs_write := None\<rparr> = rewind_for_replay now (st\<lparr>rs_write := None, rs_held := [], rs_context_failures := ?n\<rparr>)"
    by (simp add: rewind_for_replay_def replay_window_def Let_def)
  ultimately have "audio_inv now (rewind_for_replay now (st\<lparr>rs_write := None, rs_held := [], rs_context_failures := ?n\<rparr>))" by simp
  then show ?thesis
    using True alive
    by (cases "ne_code e = context_update_failed_code") (simp_all add: write_failed_def handle_generation_failure_def Let_def quiet_inv [OF quiet_fail_terminal]
        quiet_inv [OF quiet_recovery])
qed

text \<open>A new generation starts with nothing sent to it.\<close>

lemma stream_opened_inv:
  assumes "audio_inv now st"
  shows "audio_inv now (stream_opened rc st)"
proof (cases "rs_closed st \<or> rs_terminal st")
  case False
  let ?st = "st\<lparr>rs_generation := rs_generation st + 1, rs_active := True, rs_offset := generation_audio_offset st,
      rs_wait := Some \<lparr>gw_generation = rs_generation st + 1, gw_boundary = rs_replay_boundary st, gw_stable = False\<rparr>,
      rs_outcome := None, rs_recovery := Some (rc\<lparr>rc_generation := rs_generation st + 1, rc_phase := RpProbing\<rparr>)\<rparr>"
  have inv: "indices_ok st" "journal_inv now st" "sent_inv st" "write_inv st" "accepted_inv now st"
    using assms(1) by (simp_all add: audio_inv_def)
  have same: "past_audio ?st = past_audio st" "todo_audio ?st = todo_audio st" "base_index ?st = base_index st"
    "replay_window ?st = replay_window st"
    by (simp_all add: past_audio_def todo_audio_def base_index_def replay_window_def)
  have "\<not> writing_audio ?st" using inv(4) by (auto simp: writing_audio_def write_inv_def)
  moreover have "suffix (map je_chunk (todo_audio st)) (rs_admitted st)"
    using inv(2) unfolding journal_inv_def by (metis map_append suffix_appendD)
  ultimately have "sent_inv ?st" using inv(3) unfolding sent_inv_def same by simp
  moreover have "write_inv ?st" using inv(4) by (auto simp: write_inv_def)
  ultimately have "audio_inv now ?st"
    using inv False unfolding audio_inv_def indices_ok_def journal_inv_def accepted_inv_def same
    by (simp add: dead_def)
  then show ?thesis using False quiet_inv [OF quiet_set_state] by (simp add: stream_opened_def Let_def)
qed (simp add: stream_opened_def quiet_inv [OF quiet_returned] assms)

text \<open>The indices of the replay matter only for its end.\<close>

lemma replay_indices_inv:
  assumes "audio_inv now st" and "start \<le> length (rs_journal st)" and "boundary \<le> length (rs_journal st)"
  shows "audio_inv now (st\<lparr>rs_replay_start := start, rs_replay_boundary := boundary\<rparr>)"
proof -
  let ?st = "st\<lparr>rs_replay_start := start, rs_replay_boundary := boundary\<rparr>"
  have same: "past_audio ?st = past_audio st" "todo_audio ?st = todo_audio st" "base_index ?st = base_index st"
    "replay_window ?st = replay_window st" "writing_audio ?st = writing_audio st"
    by (simp_all add: past_audio_def todo_audio_def base_index_def replay_window_def writing_audio_def)
  show ?thesis using assms
    by (auto simp: audio_inv_def indices_ok_def journal_inv_def sent_inv_def write_inv_def accepted_inv_def same dead_def)
qed

lemma probing_finished_inv:
  assumes "audio_inv now st"
  shows "audio_inv now (probing_finished now rc st)"
proof (cases "rs_outcome st = Some GenerationStable \<and> \<not> (rs_closed st \<or> rs_terminal st \<or> rs_generation st \<noteq> rc_generation rc
    \<or> \<not> rs_active st \<or> rs_state st \<noteq> RsProbationary)")
  case True
  let ?st1 = "set_recovery_state RsHealthy (st\<lparr>rs_outcome := None\<rparr>)"
  have inv1: "audio_inv now ?st1"
    using assms quiet_inv [OF quiet_trans [OF quiet_fields(5) quiet_set_state]] by blast
  have "audio_inv now (?st1\<lparr>rs_replay_start := rs_cursor ?st1\<rparr>)"
    using replay_indices_inv [OF inv1, of "rs_cursor ?st1" "rs_replay_boundary ?st1"] inv1
    by (simp add: audio_inv_def indices_ok_def)
  then have inv2: "audio_inv now (release_held_endpoints (?st1\<lparr>rs_replay_start := rs_cursor ?st1\<rparr>))" (is "audio_inv now ?st2")
    by (rule quiet_inv [OF quiet_release])
  have "audio_inv now (?st2\<lparr>rs_replay_boundary := 0\<rparr>)"
    using replay_indices_inv [OF inv2, of "rs_replay_start ?st2" 0] inv2 by (simp add: audio_inv_def indices_ok_def)
  then show ?thesis using True by (simp add: probing_finished_def Let_def quiet_inv [OF quiet_returned])
next
  case False
  then show ?thesis
    using assms unfolding probing_finished_def Let_def
    by (auto split: option.split generation_outcome.split
        intro: quiet_inv [OF quiet_trans [OF quiet_fields(5) quiet_round_failed]]
          quiet_inv [OF quiet_trans [OF quiet_trans [OF quiet_fields(5) quiet_fields(4)] quiet_round_failed]]
          quiet_inv [OF quiet_trans [OF quiet_fields(5) quiet_trans [OF quiet_fail_terminal quiet_returned]]])
qed

lemma in_phase_inv:
  "audio_inv now st \<Longrightarrow> (\<And>rc. audio_inv now (f rc st)) \<Longrightarrow> audio_inv now (in_phase phase f st)"
  by (auto simp: in_phase_def split: option.split)

lemma consume_event_inv: "audio_inv now st \<Longrightarrow> audio_inv now (consume_event g ev now st)"
  by (simp add: consume_event_def failure_inv quiet_inv [OF quiet_forward])

lemma generation_ended_inv: "audio_inv now st \<Longrightarrow> audio_inv now (generation_ended g e now st)"
  by (simp add: generation_ended_def failure_inv)

lemma stream_step_inv:
  assumes "audio_inv now st"
  shows "audio_inv now (stream_step now input st)"
proof (cases input)
  case (ContextProgress "is" accepted pending inflight detached)
  show ?thesis unfolding ContextProgress stream_step.simps by (rule quiet_inv [OF quiet_settle assms])
qed (use assms in \<open>auto simp: admission_inv loop_begin_inv write_accepted_inv write_failed_inv failure_inv
      consume_event_inv generation_ended_inv stream_opened_inv probing_finished_inv
      intro!: in_phase_inv
      intro: quiet_inv [OF quiet_close_settled] quiet_inv [OF quiet_sleep_finished] quiet_inv [OF quiet_open_failed]
        quiet_inv [OF quiet_recovery_settled] quiet_inv [OF quiet_timers(1)] quiet_inv [OF quiet_timers(2)]
        quiet_inv [OF quiet_fields(1)] quiet_inv [OF quiet_closing(1)] quiet_inv [OF quiet_closing(2)]
        quiet_inv [OF quiet_closing(3)] quiet_inv [OF quiet_fail_terminal]\<close>)

lemma new_stream_inv: "audio_inv now (new_stt_stream opts session origin commits events)"
  by (simp add: audio_inv_def indices_ok_def journal_inv_def sent_inv_def write_inv_def accepted_inv_def dead_def
      new_stt_stream_def past_audio_def todo_audio_def writing_audio_def audio_of_def)

lemma reach_inv:
  "stream_reaches (new_stt_stream opts session origin commits events) now st \<Longrightarrow> audio_inv now st"
  by (induction rule: stream_reaches.induct) (auto intro: new_stream_inv stream_step_inv audio_inv_later)

section \<open>The properties\<close>


text \<open>
  Property C26: when the active generation fails, the cursor goes back far enough. Every chunk whose last
  accepted write lies within the uncertain window, and every chunk not yet accepted, is again among the
  audio to be sent, which is an unbroken tail of the admitted audio.
\<close>

theorem recovery_replays_uncertain_audio:
  assumes "stream_reaches (new_stt_stream opts session origin commits events) now st" and "now \<le> failed_at"
    and "rs_active st" and "st' = handle_generation_failure (rs_generation st) e failed_at st"
  shows "suffix (map je_chunk (audio_of (drop (rs_cursor st') (rs_journal st')))) (rs_admitted st)
    \<and> audio_position st' \<le> audio_position st
    \<and> (\<forall>(i, t) \<in> set (rs_accepted st). failed_at - replay_window st \<le> t \<longrightarrow> audio_position st' \<le> i)"
proof -
  have inv: "audio_inv failed_at st" using reach_inv [OF assms(1)] assms(2) by (rule audio_inv_later)
  have parts: "indices_ok st" "journal_inv failed_at st" "accepted_inv failed_at st"
    using inv by (simp_all add: audio_inv_def)
  let ?mid = "st\<lparr>rs_held := [], rs_context_failures := (if ne_code e = context_update_failed_code then rs_context_failures st + 1 else 0)\<rparr>"
  let ?again = "rewind_for_replay failed_at ?mid"
  have mid: "past_audio ?mid = past_audio st" "todo_audio ?mid = todo_audio st" "replay_window ?mid = replay_window st"
    "indices_ok ?mid" "journal_inv failed_at ?mid"
    using parts(1,2) by (simp_all add: past_audio_def todo_audio_def replay_window_def indices_ok_def journal_inv_def)
  have alive: "\<not> rs_closed st" "\<not> rs_terminal st" using inv assms(3) by (auto simp: audio_inv_def dead_def)
  have "quiet ?again st'"
    unfolding assms(4) using assms(3) alive
    by (auto simp: handle_generation_failure_def Let_def quiet_fail_terminal quiet_recovery)
  note st' = this quiet_audio(2) [OF this]
  note rewound = rewind_fields [OF mid(4,5) order_refl, unfolded mid(1-3)]
  have admitted: "rs_admitted st' = rs_admitted st"
    using st'(1) by (simp add: quiet_def same_audio_def rewind_for_replay_def Let_def)
  let ?recent = "recent_audio (failed_at - replay_window st) (past_audio st)"
  have todo: "todo_audio st' = ?recent @ todo_audio st" using st'(2) rewound(2) by simp
  have total: "suffix (map je_chunk (past_audio st @ todo_audio st)) (rs_admitted st)"
    and sorted: "sorted (map audio_time (past_audio st))"
    using parts(2) by (simp_all add: journal_inv_def)
  have recent: "?recent = filter (\<lambda>e. failed_at - replay_window st \<le> audio_time e) (past_audio st)"
    unfolding recent_audio_def by (rule filter_cong) (auto simp: past_audio_def audio_of_def)
  define m where "m = length (past_audio st) - length ?recent"
  have drop: "?recent = drop m (past_audio st)"
    and old: "k < m \<Longrightarrow> audio_time (past_audio st ! k) < failed_at - replay_window st" for k
    using filter_drop_sorted [OF sorted, where c = "failed_at - replay_window st"] unfolding m_def recent by blast+
  have m: "m \<le> length (past_audio st)" by (simp add: m_def)
  have base: "base_index st + (length (past_audio st) + length (todo_audio st)) = length (rs_admitted st)"
    by (rule suffix_length_base [OF parts(2)])
  have position: "audio_position st' = base_index st + m" "audio_position st = base_index st + length (past_audio st)"
    using base m unfolding audio_position_def todo_audio_def [symmetric] todo admitted by (simp_all add: drop)
  have "map je_chunk (todo_audio st') = drop m (map je_chunk (past_audio st @ todo_audio st))"
    unfolding todo drop using m by (simp add: drop_map)
  then have "suffix (map je_chunk (todo_audio st')) (rs_admitted st)"
    using total by (metis suffix_drop suffix_order.trans)
  moreover have "audio_position st' \<le> i" if it: "(i, t) \<in> set (rs_accepted st)" "failed_at - replay_window st \<le> t" for i t
  proof (rule ccontr)
    assume "\<not> audio_position st' \<le> i"
    then have i: "i < base_index st + m" by (simp add: position)
    have a: "i < base_index st \<Longrightarrow> t < failed_at - replay_window st"
      "\<And>k. k < length (past_audio st) \<Longrightarrow> i = base_index st + k \<Longrightarrow> t \<le> audio_time (past_audio st ! k)"
      using parts(3) it(1) by (auto simp: accepted_inv_def)
    then have "\<not> i < base_index st" using it(2) by auto
    then have "i = base_index st + (i - base_index st)" "i - base_index st < m" using i by auto
    then show False using a(2) [of "i - base_index st"] old [of "i - base_index st"] m it(2) by force
  qed
  ultimately show ?thesis using m by (auto simp: position todo_audio_def)
qed

section \<open>A concrete run\<close>

lemma run_reaches: "stream_reaches st0 now (fold (stream_step now) inputs st0)"
proof (induction inputs rule: rev_induct)
  case (snoc input inputs)
  then show ?case using reach_step [OF snoc order_refl] by simp
qed (simp add: reach_start)

definition sample_chunk :: audio_chunk where
  "sample_chunk = \<lparr>ac_bytes = [1, 2], ac_duration = 20\<rparr>"

definition sample_events :: "stt_event async_queue" where
  "sample_events = \<lparr>q_values = [], q_waiters = [], q_closed = False, q_failed = False, q_claimed = False,
     q_error = PlainError [], q_max_buffered = None, q_on_overflow = None, q_unsettled = {}, q_next_iterator = 0\<rparr>"

definition sample_start :: stt_stream where
  "sample_start = new_stt_stream default_stt_options [] OriginSession True sample_events"

definition sample_sending :: "stream_input list" where
  "sample_sending = [SendAudio sample_chunk, LoopBegin False, WriteAccepted]"

definition sample_recovery :: "stream_input list" where
  "sample_recovery = sample_sending @ [StreamEnded 1 None, OldStreamClosed None, SleepFinished, StreamOpened, LoopBegin False]"

lemma sample_sent:
  "rs_sent (fold (stream_step 5) sample_recovery sample_start) 2 = [sample_chunk]
    \<and> rs_admitted (fold (stream_step 5) sample_recovery sample_start) = [sample_chunk]"
  by code_simp

lemma sample_accepted:
  "rs_active (fold (stream_step 5) sample_sending sample_start)
    \<and> rs_accepted (fold (stream_step 5) sample_sending sample_start) = [(0, 5)]
    \<and> replay_window (fold (stream_step 5) sample_sending sample_start) = 10000"
  by code_simp


theorem recovery_replays_uncertain_audio_witness:
  "audio_position (handle_generation_failure (rs_generation (fold (stream_step 5) sample_sending sample_start))
    unexpected_eof_error 9000 (fold (stream_step 5) sample_sending sample_start)) = 0"
proof -
  let ?st = "fold (stream_step 5) sample_sending sample_start"
  have "stream_reaches (new_stt_stream default_stt_options [] OriginSession True sample_events) 5 ?st"
    using run_reaches unfolding sample_start_def by blast
  from recovery_replays_uncertain_audio [OF this _ _ refl, where failed_at = 9000 and e = unexpected_eof_error]
  show ?thesis using sample_accepted by auto
qed

end
