(* ===== verification/Recovery_Timing.thy ===== *)
theory Recovery_Timing
  imports Prelude
begin

text \<open>
  The timers that end an utterance without an endpoint from the provider, and the clock that stops
  while a provider generation recovers: runtime/src/recovery-timing.ts. Every call and every timer
  callback runs at one reading of the clock, in whole milliseconds. A timer of the platform is the time from
  which it may run its callback. The reference is a pair of stopwatches that know nothing of timers
  and time stamps.
\<close>

section \<open>State\<close>

datatype timing_state = TmHealthy | TmRecovering | TmOpening | TmProbationary | TmFailed | TmClosed

text \<open>One deadline: the timer, the active time it was started at, and the time it has left.\<close>

record countdown =
  cd_due :: "int option"
  cd_started :: "int option"
  cd_remaining :: "int option"

record timing =
  tm_endpoint_timeout :: int
  tm_max_duration :: int
  tm_state :: timing_state
  tm_recovery_started :: "int option"
  tm_recovery_elapsed :: int
  tm_endpoint :: countdown
  tm_duration :: countdown

definition no_countdown :: countdown where
  "no_countdown = \<lparr>cd_due = None, cd_started = None, cd_remaining = None\<rparr>"

definition new_timing :: "int \<Rightarrow> int \<Rightarrow> timing" where
  "new_timing endpoint_timeout max_duration = \<lparr>tm_endpoint_timeout = endpoint_timeout, tm_max_duration = max_duration,
     tm_state = TmHealthy, tm_recovery_started = None, tm_recovery_elapsed = 0,
     tm_endpoint = no_countdown, tm_duration = no_countdown\<rparr>"

definition is_healthy :: "timing \<Rightarrow> bool" where
  "is_healthy t \<longleftrightarrow> tm_state t = TmHealthy"

section \<open>Operations\<close>

definition active_now :: "int \<Rightarrow> timing \<Rightarrow> int" where
  "active_now now t = now - tm_recovery_elapsed t
     - (case tm_recovery_started t of None \<Rightarrow> 0 | Some s \<Rightarrow> max 0 (now - s))"

text \<open>
  \<open>setTimeout\<close> of the platform: a delay that is not between one millisecond and the largest
  32 bit integer becomes one millisecond.
\<close>

definition largest_delay :: int where
  "largest_delay = 2147483647"

definition set_timeout :: "int \<Rightarrow> int \<Rightarrow> int" where
  "set_timeout now delay = now + (if 1 \<le> delay \<and> delay \<le> largest_delay then delay else 1)"

definition start_countdown :: "int \<Rightarrow> int \<Rightarrow> countdown \<Rightarrow> countdown" where
  "start_countdown now active c =
     (case (cd_remaining c, cd_due c) of
        (Some r, None) \<Rightarrow> c\<lparr>cd_started := Some active, cd_due := Some (set_timeout now r)\<rparr>
      | _ \<Rightarrow> c)"

definition schedule_timers :: "int \<Rightarrow> timing \<Rightarrow> timing" where
  "schedule_timers now t =
     (if \<not> is_healthy t then t
      else t\<lparr>tm_endpoint := start_countdown now (active_now now t) (tm_endpoint t),
             tm_duration := start_countdown now (active_now now t) (tm_duration t)\<rparr>)"

definition stop_countdown :: "int \<Rightarrow> bool \<Rightarrow> countdown \<Rightarrow> countdown" where
  "stop_countdown active reset c =
     (let stopped = (case cd_due c of
          None \<Rightarrow> c
        | Some _ \<Rightarrow>
            (let elapsed = (case cd_started c of None \<Rightarrow> 0 | Some s \<Rightarrow> max 0 (active - s))
             in c\<lparr>cd_remaining := Some (max 0 ((case cd_remaining c of None \<Rightarrow> 0 | Some r \<Rightarrow> r) - elapsed)),
                  cd_due := None, cd_started := None\<rparr>))
      in if reset then stopped\<lparr>cd_remaining := None\<rparr> else stopped)"

definition stop_endpoint_timer :: "int \<Rightarrow> bool \<Rightarrow> timing \<Rightarrow> timing" where
  "stop_endpoint_timer now reset t = t\<lparr>tm_endpoint := stop_countdown (active_now now t) reset (tm_endpoint t)\<rparr>"

definition stop_duration_timer :: "int \<Rightarrow> bool \<Rightarrow> timing \<Rightarrow> timing" where
  "stop_duration_timer now reset t = t\<lparr>tm_duration := stop_countdown (active_now now t) reset (tm_duration t)\<rparr>"

definition pause_timers :: "int \<Rightarrow> timing \<Rightarrow> timing" where
  "pause_timers now t = stop_duration_timer now False (stop_endpoint_timer now False t)"

definition cancel_endpoint_timer :: "int \<Rightarrow> timing \<Rightarrow> timing" where
  "cancel_endpoint_timer now t = stop_endpoint_timer now True t"

definition cancel_endpoint_timers :: "int \<Rightarrow> timing \<Rightarrow> timing" where
  "cancel_endpoint_timers now t = stop_duration_timer now True (stop_endpoint_timer now True t)"

definition default_remaining :: "int \<Rightarrow> countdown \<Rightarrow> countdown" where
  "default_remaining ms c = (case cd_remaining c of None \<Rightarrow> c\<lparr>cd_remaining := Some ms\<rparr> | Some _ \<Rightarrow> c)"

definition set_timing_state :: "int \<Rightarrow> timing_state \<Rightarrow> bool \<Rightarrow> timing \<Rightarrow> timing" where
  "set_timing_state now state has_buffered_transcript t =
     (let previous = tm_state t;
          was_recovering = (previous \<noteq> TmHealthy);
          is_recovering = (state \<noteq> TmHealthy);
          t1 = t\<lparr>tm_state := state\<rparr>
      in if previous = state then t
         else if \<not> was_recovering \<and> is_recovering then pause_timers now (t1\<lparr>tm_recovery_started := Some now\<rparr>)
         else if was_recovering \<and> \<not> is_recovering then
           (let elapsed = (case tm_recovery_started t1 of None \<Rightarrow> 0 | Some s \<Rightarrow> max 0 (now - s));
                t2 = t1\<lparr>tm_recovery_elapsed := tm_recovery_elapsed t1 + elapsed, tm_recovery_started := None\<rparr>
            in if state = TmHealthy \<and> has_buffered_transcript
               then schedule_timers now
                 (t2\<lparr>tm_endpoint := default_remaining (tm_endpoint_timeout t2) (tm_endpoint t2),
                     tm_duration := default_remaining (tm_max_duration t2) (tm_duration t2)\<rparr>)
               else t2)
         else if is_recovering then pause_timers now t1
         else t1)"

definition arm_endpoint_timers :: "int \<Rightarrow> bool \<Rightarrow> timing \<Rightarrow> timing" where
  "arm_endpoint_timers now has_buffered_transcript t =
     (if \<not> has_buffered_transcript \<or> \<not> is_healthy t then t
      else (let t1 = stop_endpoint_timer now False t
            in schedule_timers now
                 (t1\<lparr>tm_endpoint := (tm_endpoint t1)\<lparr>cd_remaining := Some (tm_endpoint_timeout t1)\<rparr>,
                     tm_duration := default_remaining (tm_max_duration t1) (tm_duration t1)\<rparr>)))"

text \<open>The two timer callbacks; the flag tells whether \<open>onEndpoint\<close> is called.\<close>

definition endpoint_callback :: "int \<Rightarrow> timing \<Rightarrow> timing \<times> bool" where
  "endpoint_callback now t =
     (if \<not> is_healthy t then (pause_timers now t, False) else (cancel_endpoint_timer now t, True))"

definition duration_callback :: "int \<Rightarrow> timing \<Rightarrow> timing \<times> bool" where
  "duration_callback now t =
     (if \<not> is_healthy t then (pause_timers now t, False) else (cancel_endpoint_timers now t, True))"

text \<open>The loop of \<open>waitForActive\<close>, over what it observes at each turn; None when the observations end first.\<close>

record wait_look =
  wl_predicate :: bool
  wl_aborted :: bool
  wl_state :: timing_state
  wl_active :: int

fun wait_loop :: "int \<Rightarrow> int \<Rightarrow> wait_look list \<Rightarrow> bool option" where
  "wait_loop started timeout [] = None"
| "wait_loop started timeout (l # ls) =
     (if wl_predicate l then Some True
      else if wl_aborted l \<or> wl_state l = TmFailed \<or> wl_state l = TmClosed then Some False
      else if timeout - max 0 (wl_active l - started) \<le> 0 then Some False
      else wait_loop started timeout ls)"

section \<open>Runs\<close>

datatype timing_event =
    SetTimingState timing_state bool
  | ArmTimers bool
  | CancelEndpointTimer
  | CancelTimers
  | EndpointTimer
  | DurationTimer

text \<open>A timer runs its callback only from its time on; before that, or without a timer, nothing happens.\<close>

definition timer_ready :: "int \<Rightarrow> countdown \<Rightarrow> bool" where
  "timer_ready now c \<longleftrightarrow> (case cd_due c of None \<Rightarrow> False | Some due \<Rightarrow> due \<le> now)"

fun timing_step :: "int \<Rightarrow> timing_event \<Rightarrow> timing \<Rightarrow> timing \<times> bool" where
  "timing_step now (SetTimingState s b) t = (set_timing_state now s b t, False)"
| "timing_step now (ArmTimers b) t = (arm_endpoint_timers now b t, False)"
| "timing_step now CancelEndpointTimer t = (cancel_endpoint_timer now t, False)"
| "timing_step now CancelTimers t = (cancel_endpoint_timers now t, False)"
| "timing_step now EndpointTimer t =
     (if timer_ready now (tm_endpoint t) then endpoint_callback now t else (t, False))"
| "timing_step now DurationTimer t =
     (if timer_ready now (tm_duration t) then duration_callback now t else (t, False))"

fun run_timing :: "(int \<times> timing_event) list \<Rightarrow> timing \<Rightarrow> bool list \<times> timing" where
  "run_timing [] t = ([], t)"
| "run_timing ((now, e) # es) t =
     (let (t1, called) = timing_step now e t; (calls, t2) = run_timing es t1 in (called # calls, t2))"

section \<open>The reference: two stopwatches\<close>

text \<open>
  A stopwatch has some time left and runs or stands. The watch has the total active time, which grows
  only while the provider is healthy, and calls the endpoint only when a running stopwatch has nothing left.
\<close>

record stopwatch =
  sw_left :: "int option"
  sw_running :: bool

record silence_watch =
  ws_healthy :: bool
  ws_active :: int
  ws_endpoint :: stopwatch
  ws_duration :: stopwatch

definition off :: stopwatch where
  "off = \<lparr>sw_left = None, sw_running = False\<rparr>"

definition halted :: "stopwatch \<Rightarrow> stopwatch" where
  "halted s = s\<lparr>sw_running := False\<rparr>"

definition running_from :: "int \<Rightarrow> stopwatch" where
  "running_from ms = \<lparr>sw_left = Some ms, sw_running = True\<rparr>"

definition resumed :: "int \<Rightarrow> stopwatch \<Rightarrow> stopwatch" where
  "resumed ms s = running_from (case sw_left s of None \<Rightarrow> ms | Some l \<Rightarrow> l)"

definition tick_stopwatch :: "int \<Rightarrow> stopwatch \<Rightarrow> stopwatch" where
  "tick_stopwatch d s = (if sw_running s then s\<lparr>sw_left := map_option (\<lambda>l. max 0 (l - d)) (sw_left s)\<rparr> else s)"

definition tick :: "int \<Rightarrow> silence_watch \<Rightarrow> silence_watch" where
  "tick d w = (if ws_healthy w
     then w\<lparr>ws_active := ws_active w + d, ws_endpoint := tick_stopwatch d (ws_endpoint w),
            ws_duration := tick_stopwatch d (ws_duration w)\<rparr>
     else w)"

definition used_up :: "stopwatch \<Rightarrow> bool" where
  "used_up s \<longleftrightarrow> sw_running s \<and> sw_left s = Some 0"

fun watch_event :: "int \<Rightarrow> int \<Rightarrow> timing_event \<Rightarrow> bool \<Rightarrow> silence_watch \<Rightarrow> silence_watch option" where
  "watch_event timeout longest (SetTimingState s b) called w =
     (if called then None
      else if ws_healthy w = (s = TmHealthy) then Some w
      else if ws_healthy w
      then Some (w\<lparr>ws_healthy := False, ws_endpoint := halted (ws_endpoint w), ws_duration := halted (ws_duration w)\<rparr>)
      else if b
      then Some (w\<lparr>ws_healthy := True, ws_endpoint := resumed timeout (ws_endpoint w),
                   ws_duration := resumed longest (ws_duration w)\<rparr>)
      else Some (w\<lparr>ws_healthy := True\<rparr>))"
| "watch_event timeout longest (ArmTimers b) called w =
     (if called then None
      else if b \<and> ws_healthy w
      then Some (w\<lparr>ws_endpoint := running_from timeout, ws_duration := resumed longest (ws_duration w)\<rparr>)
      else Some w)"
| "watch_event timeout longest CancelEndpointTimer called w =
     (if called then None else Some (w\<lparr>ws_endpoint := off\<rparr>))"
| "watch_event timeout longest CancelTimers called w =
     (if called then None else Some (w\<lparr>ws_endpoint := off, ws_duration := off\<rparr>))"
| "watch_event timeout longest EndpointTimer called w =
     (if \<not> called then Some w
      else if ws_healthy w \<and> used_up (ws_endpoint w) then Some (w\<lparr>ws_endpoint := off\<rparr>) else None)"
| "watch_event timeout longest DurationTimer called w =
     (if \<not> called then Some w
      else if ws_healthy w \<and> used_up (ws_duration w)
      then Some (w\<lparr>ws_endpoint := off, ws_duration := off\<rparr>) else None)"

fun watch_run :: "int \<Rightarrow> int \<Rightarrow> int \<Rightarrow> (int \<times> timing_event) list \<Rightarrow> bool list \<Rightarrow> silence_watch \<Rightarrow> silence_watch option" where
  "watch_run timeout longest before [] calls w = (if calls = [] then Some w else None)"
| "watch_run timeout longest before ((now, e) # es) [] w = None"
| "watch_run timeout longest before ((now, e) # es) (called # calls) w =
     (case watch_event timeout longest e called (tick (now - before) w) of
        None \<Rightarrow> None
      | Some w' \<Rightarrow> watch_run timeout longest now es calls w')"

text \<open>What the timers and time stamps amount to at a time.\<close>

definition stopwatch_of :: "int \<Rightarrow> countdown \<Rightarrow> stopwatch" where
  "stopwatch_of active c =
     \<lparr>sw_left = (case cd_due c of
          None \<Rightarrow> cd_remaining c
        | Some _ \<Rightarrow> map_option (\<lambda>r. max 0 (r - (case cd_started c of None \<Rightarrow> 0 | Some s \<Rightarrow> max 0 (active - s)))) (cd_remaining c)),
      sw_running = (cd_due c \<noteq> None)\<rparr>"

definition watch_of :: "int \<Rightarrow> timing \<Rightarrow> silence_watch" where
  "watch_of now t = \<lparr>ws_healthy = is_healthy t, ws_active = active_now now t,
     ws_endpoint = stopwatch_of (active_now now t) (tm_endpoint t),
     ws_duration = stopwatch_of (active_now now t) (tm_duration t)\<rparr>"

section \<open>The timers follow the stopwatches\<close>

text \<open>
  A countdown with a timer belongs to a healthy provider, and its timer is due when the time it had left
  has passed since it was started, not counting the time spent recovering before that.
\<close>

definition countdown_ok :: "bool \<Rightarrow> int \<Rightarrow> int \<Rightarrow> countdown \<Rightarrow> bool" where
  "countdown_ok healthy now recovered c \<longleftrightarrow>
     (\<forall>r. cd_remaining c = Some r \<longrightarrow> 0 \<le> r \<and> r \<le> largest_delay)
     \<and> (\<forall>due. cd_due c = Some due \<longrightarrow> healthy \<and>
         (\<exists>r s. cd_remaining c = Some r \<and> cd_started c = Some s \<and> s \<le> now - recovered \<and> due = s + recovered + max 1 r))"

definition timing_ok :: "int \<Rightarrow> timing \<Rightarrow> bool" where
  "timing_ok now t \<longleftrightarrow>
     0 \<le> tm_endpoint_timeout t \<and> tm_endpoint_timeout t \<le> largest_delay
     \<and> 0 \<le> tm_max_duration t \<and> tm_max_duration t \<le> largest_delay
     \<and> (is_healthy t \<longleftrightarrow> tm_recovery_started t = None)
     \<and> (\<forall>s. tm_recovery_started t = Some s \<longrightarrow> s \<le> now)
     \<and> countdown_ok (is_healthy t) now (tm_recovery_elapsed t) (tm_endpoint t)
     \<and> countdown_ok (is_healthy t) now (tm_recovery_elapsed t) (tm_duration t)"

lemma stop_ok:
  assumes "countdown_ok h now rec c"
  shows "countdown_ok h' now' rec' (stop_countdown (now - rec) reset c)"
    and "stopwatch_of a (stop_countdown (now - rec) reset c) = (if reset then off else halted (stopwatch_of (now - rec) c))"
    and "cd_due (stop_countdown active reset c) = None"
  using assms
  by (auto simp: countdown_ok_def stop_countdown_def stopwatch_of_def off_def halted_def Let_def split: option.splits)

lemma stop_idle: "cd_due c = None \<Longrightarrow> stop_countdown active False c = c"
  by (simp add: stop_countdown_def)

lemma idle_ok: "countdown_ok h now rec c \<Longrightarrow> cd_due c = None \<Longrightarrow> countdown_ok h' now' rec' c"
  by (simp add: countdown_ok_def)

lemma idle_stopwatch: "cd_due c = None \<Longrightarrow> stopwatch_of a c = \<lparr>sw_left = cd_remaining c, sw_running = False\<rparr>"
  by (simp add: stopwatch_of_def)

lemma start_fresh:
  assumes "cd_due c = None" and "0 \<le> r" and "r \<le> largest_delay"
  shows "countdown_ok True now rec (start_countdown now (now - rec) (c\<lparr>cd_remaining := Some r\<rparr>))"
    and "stopwatch_of (now - rec) (start_countdown now (now - rec) (c\<lparr>cd_remaining := Some r\<rparr>)) = running_from r"
  using assms by (auto simp: countdown_ok_def start_countdown_def stopwatch_of_def running_from_def set_timeout_def largest_delay_def)

lemma start_default:
  assumes "countdown_ok True now rec c" and "0 \<le> r" and "r \<le> largest_delay"
  shows "countdown_ok True now rec (start_countdown now (now - rec) (default_remaining r c))"
    and "stopwatch_of (now - rec) (start_countdown now (now - rec) (default_remaining r c)) = resumed r (stopwatch_of (now - rec) c)"
  using assms
  by (auto simp: countdown_ok_def start_countdown_def default_remaining_def stopwatch_of_def running_from_def resumed_def
      set_timeout_def largest_delay_def split: option.splits)

lemma ready_used_up: "countdown_ok h now rec c \<Longrightarrow> timer_ready now c \<Longrightarrow> h \<and> used_up (stopwatch_of (now - rec) c)"
  by (auto simp: countdown_ok_def timer_ready_def used_up_def stopwatch_of_def split: option.splits)

lemma timing_tick:
  assumes "timing_ok before t" and "before \<le> now"
  shows "timing_ok now t" and "watch_of now t = tick (now - before) (watch_of before t)"
proof -
  show "timing_ok now t" using assms by (fastforce simp: timing_ok_def countdown_ok_def)
  have passed: "active_now now t = (if is_healthy t then active_now before t + (now - before) else active_now before t)"
    using assms by (auto simp: timing_ok_def active_now_def split: option.splits)
  have ticked: "stopwatch_of (active_now before t + (now - before)) c = tick_stopwatch (now - before) (stopwatch_of (active_now before t) c)"
    if "countdown_ok True before (tm_recovery_elapsed t) c" "is_healthy t" for c
    using that assms
    by (auto simp: timing_ok_def countdown_ok_def stopwatch_of_def tick_stopwatch_def active_now_def option.map_comp o_def
        split: option.splits)
  show "watch_of now t = tick (now - before) (watch_of before t)"
    using assms(1) ticked by (auto simp: watch_of_def tick_def passed timing_ok_def)
qed

lemma healthy_active: "tm_recovery_started t = None \<Longrightarrow> active_now now t = now - tm_recovery_elapsed t"
  by (simp add: active_now_def)

lemma unhealthy_idle: "countdown_ok False now rec c \<Longrightarrow> cd_due c = None"
  by (cases "cd_due c") (auto simp: countdown_ok_def)

lemma timing_ok_healthy:
  assumes "timing_ok now t" and "is_healthy t"
  shows "tm_recovery_started t = None" and "active_now now t = now - tm_recovery_elapsed t"
    and "countdown_ok True now (tm_recovery_elapsed t) (tm_endpoint t)"
    and "countdown_ok True now (tm_recovery_elapsed t) (tm_duration t)"
  using assms by (simp_all add: timing_ok_def active_now_def)

lemma timing_ok_unhealthy:
  assumes "timing_ok now t" and "\<not> is_healthy t"
  obtains s where "tm_recovery_started t = Some s" and "s \<le> now" and "cd_due (tm_endpoint t) = None"
    and "cd_due (tm_duration t) = None"
  using assms by (auto simp: timing_ok_def unhealthy_idle)

lemma cancel_step:
  assumes "timing_ok now t"
  shows "timing_ok now (cancel_endpoint_timer now t)"
    and "watch_of now (cancel_endpoint_timer now t) = (watch_of now t)\<lparr>ws_endpoint := off\<rparr>"
    and "timing_ok now (cancel_endpoint_timers now t)"
    and "watch_of now (cancel_endpoint_timers now t) = (watch_of now t)\<lparr>ws_endpoint := off, ws_duration := off\<rparr>"
proof -
  have off: "stopwatch_of a (stop_countdown b True c) = off" for a b c
    by (simp add: stopwatch_of_def stop_countdown_def off_def Let_def split: option.splits)
  have fine: "countdown_ok h n rec (stop_countdown b True c)" for h n rec b c
    by (simp add: countdown_ok_def stop_countdown_def Let_def split: option.splits)
  note defs = cancel_endpoint_timer_def cancel_endpoint_timers_def stop_endpoint_timer_def stop_duration_timer_def
    timing_ok_def watch_of_def is_healthy_def active_now_def off fine
  show "timing_ok now (cancel_endpoint_timer now t)" "timing_ok now (cancel_endpoint_timers now t)"
    "watch_of now (cancel_endpoint_timer now t) = (watch_of now t)\<lparr>ws_endpoint := off\<rparr>"
    "watch_of now (cancel_endpoint_timers now t) = (watch_of now t)\<lparr>ws_endpoint := off, ws_duration := off\<rparr>"
    using assms by (auto simp: defs)
qed

lemma arm_step:
  assumes "timing_ok now t"
  shows "timing_ok now (arm_endpoint_timers now b t)
    \<and> Some (watch_of now (arm_endpoint_timers now b t))
      = watch_event (tm_endpoint_timeout t) (tm_max_duration t) (ArmTimers b) False (watch_of now t)"
proof (cases "b \<and> is_healthy t")
  case True
  note h = timing_ok_healthy [OF assms conjunct2 [OF True]]
  have limits: "0 \<le> tm_endpoint_timeout t" "tm_endpoint_timeout t \<le> largest_delay" "0 \<le> tm_max_duration t" "tm_max_duration t \<le> largest_delay"
    using assms by (simp_all add: timing_ok_def)
  show ?thesis using True h limits
    by (simp add: arm_endpoint_timers_def schedule_timers_def stop_endpoint_timer_def is_healthy_def timing_ok_def watch_of_def
        active_now_def Let_def start_fresh stop_ok(3) start_default)
next
  case False
  then show ?thesis using assms by (auto simp: arm_endpoint_timers_def watch_of_def)
qed

lemma state_step:
  assumes "timing_ok now t"
  shows "timing_ok now (set_timing_state now s b t)
    \<and> Some (watch_of now (set_timing_state now s b t))
      = watch_event (tm_endpoint_timeout t) (tm_max_duration t) (SetTimingState s b) False (watch_of now t)"
proof (cases "is_healthy t")
  case True
  note h = timing_ok_healthy [OF assms True]
  show ?thesis
  proof (cases "s = TmHealthy")
    case True
    then show ?thesis using assms \<open>is_healthy t\<close> by (simp add: set_timing_state_def is_healthy_def watch_of_def)
  next
    case False
    then show ?thesis using assms \<open>is_healthy t\<close> h
      by (simp add: set_timing_state_def is_healthy_def watch_of_def pause_timers_def stop_endpoint_timer_def
          stop_duration_timer_def active_now_def timing_ok_def Let_def stop_ok)
  qed
next
  case False
  obtain r where r: "tm_recovery_started t = Some r" "r \<le> now" "cd_due (tm_endpoint t) = None" "cd_due (tm_duration t) = None"
    using timing_ok_unhealthy [OF assms False] by metis
  have ok: "countdown_ok h n rec (tm_endpoint t)" "countdown_ok h n rec (tm_duration t)" for h n rec
    using assms r by (auto simp: timing_ok_def intro: idle_ok)
  have limits: "0 \<le> tm_endpoint_timeout t" "tm_endpoint_timeout t \<le> largest_delay" "0 \<le> tm_max_duration t" "tm_max_duration t \<le> largest_delay"
    using assms by (simp_all add: timing_ok_def)
  have idle: "stopwatch_of a (tm_endpoint t) = stopwatch_of a' (tm_endpoint t)" "stopwatch_of a (tm_duration t) = stopwatch_of a' (tm_duration t)" for a a'
    using r by (simp_all add: idle_stopwatch)
  show ?thesis
  proof (cases "s = TmHealthy")
    case True
    have act: "now - (tm_recovery_elapsed t + (now - r)) = active_now now t" using r by (simp add: active_now_def)
    let ?rec = "tm_recovery_elapsed t + (now - r)"
    note started = start_default [OF ok(1) limits(1,2), of now ?rec] start_default [OF ok(2) limits(3,4), of now ?rec]
    show ?thesis using True False r ok limits started
      by (auto simp: set_timing_state_def is_healthy_def watch_of_def schedule_timers_def timing_ok_def Let_def
          active_now_def intro: idle arg_cong [OF idle(1)] arg_cong [OF idle(2)])
  next
    case False
    then show ?thesis using assms \<open>\<not> is_healthy t\<close> r
      by (auto simp: set_timing_state_def is_healthy_def watch_of_def pause_timers_def stop_endpoint_timer_def
          stop_duration_timer_def stop_idle timing_ok_def active_now_def Let_def)
  qed
qed

lemma step_limits:
  "tm_endpoint_timeout (fst (timing_step now e t)) = tm_endpoint_timeout t"
  "tm_max_duration (fst (timing_step now e t)) = tm_max_duration t"
  by (cases e; simp add: set_timing_state_def arm_endpoint_timers_def schedule_timers_def pause_timers_def
      stop_endpoint_timer_def stop_duration_timer_def cancel_endpoint_timer_def cancel_endpoint_timers_def
      endpoint_callback_def duration_callback_def Let_def)+

lemma watch_of_fields:
  "ws_healthy (watch_of now t) = is_healthy t" "ws_endpoint (watch_of now t) = stopwatch_of (active_now now t) (tm_endpoint t)"
  "ws_duration (watch_of now t) = stopwatch_of (active_now now t) (tm_duration t)"
  by (simp_all add: watch_of_def)

lemma timing_step_watch:
  assumes "timing_ok now t" and "timing_step now e t = (t', called)"
  shows "timing_ok now t' \<and> Some (watch_of now t') = watch_event (tm_endpoint_timeout t) (tm_max_duration t) e called (watch_of now t)"
proof (cases e)
  case (SetTimingState s b)
  then have "t' = set_timing_state now s b t" "called = False" using assms(2) by simp_all
  then show ?thesis unfolding SetTimingState using state_step [OF assms(1)] by blast
next
  case (ArmTimers b)
  then have "t' = arm_endpoint_timers now b t" "called = False" using assms(2) by simp_all
  then show ?thesis unfolding ArmTimers using arm_step [OF assms(1)] by blast
next
  case EndpointTimer
  have "countdown_ok (is_healthy t) now (tm_recovery_elapsed t) (tm_endpoint t)" using assms(1) unfolding timing_ok_def by blast
  from ready_used_up [OF this] EndpointTimer assms show ?thesis
    by (auto simp: endpoint_callback_def watch_of_fields cancel_step timing_ok_healthy(2) split: if_splits)
next
  case DurationTimer
  have "countdown_ok (is_healthy t) now (tm_recovery_elapsed t) (tm_duration t)" using assms(1) unfolding timing_ok_def by blast
  from ready_used_up [OF this] DurationTimer assms show ?thesis
    by (auto simp: duration_callback_def watch_of_fields cancel_step timing_ok_healthy(2) split: if_splits)
qed (use assms cancel_step in auto)

lemma run_timing_watch:
  assumes "timing_ok before t" and "sorted (before # map fst steps)" and "run_timing steps t = (calls, t')"
  shows "timing_ok (last (before # map fst steps)) t'
    \<and> watch_run (tm_endpoint_timeout t) (tm_max_duration t) before steps calls (watch_of before t)
      = Some (watch_of (last (before # map fst steps)) t')"
  using assms
proof (induction steps arbitrary: before t calls)
  case (Cons s steps)
  obtain now e where s: "s = (now, e)" by (cases s)
  obtain t1 called where step: "timing_step now e t = (t1, called)" by fastforce
  obtain calls' where calls: "calls = called # calls'" "run_timing steps t1 = (calls', t')"
    using Cons.prems(3) by (auto simp: s step split: prod.splits)
  have later: "before \<le> now" "sorted (now # map fst steps)" using Cons.prems(2) by (simp_all add: s)
  note ticked = timing_tick [OF Cons.prems(1) later(1)]
  note stepped = timing_step_watch [OF ticked(1) step]
  have limits: "tm_endpoint_timeout t1 = tm_endpoint_timeout t" "tm_max_duration t1 = tm_max_duration t"
    using step_limits [of now e t] by (simp_all add: step)
  have event: "watch_event (tm_endpoint_timeout t) (tm_max_duration t) e called (tick (now - before) (watch_of before t))
      = Some (watch_of now t1)"
    using stepped ticked(2) by simp
  from Cons.IH [OF conjunct1 [OF stepped] later(2) calls(2)]
  show ?case by (simp add: s calls(1) limits event del: watch_event.simps)
qed simp

definition new_watch :: "int \<Rightarrow> silence_watch" where
  "new_watch now = \<lparr>ws_healthy = True, ws_active = now, ws_endpoint = off, ws_duration = off\<rparr>"

lemma new_timing_watch:
  "0 \<le> e \<Longrightarrow> e \<le> largest_delay \<Longrightarrow> 0 \<le> m \<Longrightarrow> m \<le> largest_delay \<Longrightarrow> timing_ok now (new_timing e m)"
  "watch_of now (new_timing e m) = new_watch now"
  by (simp_all add: timing_ok_def new_timing_def is_healthy_def countdown_ok_def no_countdown_def watch_of_def new_watch_def
      active_now_def stopwatch_of_def off_def)



text \<open>A recovery of eight seconds in the middle of a silence of three.\<close>

definition silent_recovery :: "(int \<times> timing_event) list" where
  "silent_recovery = [(0, ArmTimers True), (1000, SetTimingState TmRecovering True), (5000, EndpointTimer),
     (8000, SetTimingState TmOpening True), (9000, SetTimingState TmHealthy True), (10999, EndpointTimer), (11000, EndpointTimer)]"

lemma silent_recovery_run:
  "fst (run_timing silent_recovery (new_timing 3000 30000)) = [False, False, False, False, False, False, True]"
  by code_simp


definition armed_timing :: timing where
  "armed_timing = snd (run_timing [(0, ArmTimers True)] (new_timing 3000 30000))"


end
