(* ===== verification/Stt_Commands.thy ===== *)
theory Stt_Commands
  imports Stt_Policy Text_Encoding "HOL-Library.Sublist"
begin

text \<open>
  The serial command controller of a plain speech-to-text stream, runtime/src/stt-command-controller.ts:
  the bounded queue, the worker that hands audio and commits to the provider one at a time, the
  chain of context updates beside it, and the ways it ends.

  Everything between two awaits is one step. A promise a caller waits for is a number; the first
  settlement of it counts and is recorded. A call of the provider is made in a microtask after the worker
  decided it, so it is a step of its own. The usage callback is taken not to throw; its
  later failure is a step.
\<close>

section \<open>State\<close>

datatype command =
    AudioCommand "8 word list"
  | ContextCommand js_string nat
  | CommitCommand nat

datatype provider_call = CallAudio "8 word list" | CallCommit | CallContext js_string

text \<open>
  The worker waits for work, or is about to go on with its loop, or has handed a command to the provider and
  waits for the outcome, or has the outcome of a command and is about to go on, or has returned.
\<close>

datatype worker =
    WorkerWaits
  | WorkerWoken
  | WorkerAwaits "nat option"
  | WorkerSettled "nat option" "js_error option"
  | WorkerReturned

text \<open>A context update that left the queue: not yet dispatched, dispatched, or given to the provider.\<close>

datatype write_phase = WriteChained | WriteDispatched | WriteCalled

record controller =
  sc_max_bytes :: int
  sc_max_commands :: int
  sc_updates_context :: bool
  sc_commits :: bool
  sc_commands :: "command list"
  sc_bytes :: int
  sc_accepting :: bool
  sc_terminal :: bool
  sc_draining :: bool
  sc_drained :: bool
  sc_pending :: "nat list"
  sc_writes :: "(nat \<times> js_string \<times> write_phase) list"
  sc_chained :: bool
  sc_worker :: worker
  sc_call :: "provider_call option"
  sc_active_commit :: "nat option"
  sc_abort_reason :: "js_error option"
  sc_failure :: "js_error option"
  sc_stream_closing :: bool
  sc_waiters :: nat
  sc_settled :: "(nat \<times> js_error option) list"
  sc_calls :: "provider_call list"

definition bounded_limit :: "int \<Rightarrow> js_string \<Rightarrow> int result" where
  "bounded_limit value name =
     (if \<not> is_safe_integer value \<or> value < 1 then Inl (RangeError (name @ js '' must be a positive safe integer'')) else Inr value)"

definition default_limits :: "int \<times> int" where
  "default_limits = (320000, 512)"

definition limit_or :: "int option \<Rightarrow> int \<Rightarrow> int" where
  "limit_or value fallback = (case value of None \<Rightarrow> fallback | Some n \<Rightarrow> n)"

text \<open>The worker starts in the constructor, finds nothing and waits. The timeouts are left to the environment.\<close>

definition new_controller :: "int option \<Rightarrow> int option \<Rightarrow> bool \<Rightarrow> bool \<Rightarrow> controller result" where
  "new_controller bytes commands updates_context commits =
     rbind (bounded_limit (limit_or bytes (fst default_limits)) (js ''maxBufferedBytes'')) (\<lambda>max_bytes.
     rbind (bounded_limit (limit_or commands (snd default_limits)) (js ''maxBufferedCommands'')) (\<lambda>max_commands.
     Inr \<lparr>sc_max_bytes = max_bytes, sc_max_commands = max_commands, sc_updates_context = updates_context,
          sc_commits = commits, sc_commands = [], sc_bytes = 0, sc_accepting = True, sc_terminal = False,
          sc_draining = False, sc_drained = False, sc_pending = [], sc_writes = [], sc_chained = False,
          sc_worker = WorkerWaits, sc_call = None, sc_active_commit = None, sc_abort_reason = None,
          sc_failure = None, sc_stream_closing = False, sc_waiters = 0, sc_settled = [], sc_calls = []\<rparr>))"

definition controller_closed :: js_error where
  "controller_closed = TvicThrowableError (js ''stt.reconnect.closed'')"

definition controller_overflow :: js_error where
  "controller_overflow = TvicThrowableError (js ''stt.reconnect.buffer_overflow'')"

section \<open>Settling and failing\<close>

definition settle_waiter :: "nat \<Rightarrow> js_error option \<Rightarrow> controller \<Rightarrow> controller" where
  "settle_waiter w e st = (if w \<in> fst ` set (sc_settled st) then st else st\<lparr>sc_settled := sc_settled st @ [(w, e)]\<rparr>)"

definition settle_waiters :: "nat list \<Rightarrow> js_error option \<Rightarrow> controller \<Rightarrow> controller" where
  "settle_waiters ws e st = fold (\<lambda>w. settle_waiter w e) ws st"

definition settle_agent_context :: "nat \<Rightarrow> js_error option \<Rightarrow> controller \<Rightarrow> controller" where
  "settle_agent_context w e st =
     (if w \<notin> set (sc_pending st) then st
      else settle_waiter w e (st\<lparr>sc_pending := filter (\<lambda>p. p \<noteq> w) (sc_pending st)\<rparr>))"

fun waiter_of :: "command \<Rightarrow> nat option" where
  "waiter_of (AudioCommand b) = None"
| "waiter_of (ContextCommand ctx w) = Some w"
| "waiter_of (CommitCommand w) = Some w"

definition signal_work :: "controller \<Rightarrow> controller" where
  "signal_work st = (if sc_worker st = WorkerWaits then st\<lparr>sc_worker := WorkerWoken\<rparr> else st)"

definition reject_queued :: "js_error \<Rightarrow> controller \<Rightarrow> controller" where
  "reject_queued e st =
     (let st1 = settle_waiters (List.map_filter waiter_of (sc_commands st)) (Some e) (st\<lparr>sc_bytes := 0, sc_commands := []\<rparr>);
          st2 = fold (\<lambda>w. settle_agent_context w (Some e)) (sc_pending st1) st1
      in signal_work st2)"

text \<open>The abort signal ends the race the worker waits in; the reason of the first abort stays.\<close>

definition abort_signal :: "js_error \<Rightarrow> controller \<Rightarrow> controller" where
  "abort_signal e st =
     (if sc_abort_reason st \<noteq> None then st
      else st\<lparr>sc_abort_reason := Some e,
              sc_worker := (case sc_worker st of WorkerAwaits w \<Rightarrow> WorkerSettled w (Some e) | other \<Rightarrow> other)\<rparr>)"

definition reject_active_commit :: "js_error \<Rightarrow> controller \<Rightarrow> controller" where
  "reject_active_commit e st =
     (case sc_active_commit st of None \<Rightarrow> st | Some w \<Rightarrow> settle_waiter w (Some e) (st\<lparr>sc_active_commit := None\<rparr>))"

definition close_provider_stream :: "controller \<Rightarrow> controller" where
  "close_provider_stream st = st\<lparr>sc_stream_closing := True\<rparr>"

definition reject_failure :: "js_error \<Rightarrow> controller \<Rightarrow> controller" where
  "reject_failure e st = (if sc_failure st = None then st\<lparr>sc_failure := Some e\<rparr> else st)"

definition stop_accepting :: "controller \<Rightarrow> controller" where
  "stop_accepting st = st\<lparr>sc_accepting := False, sc_terminal := True\<rparr>"

definition fail_controller :: "js_error \<Rightarrow> controller \<Rightarrow> controller" where
  "fail_controller e st =
     (if sc_terminal st then st
      else close_provider_stream (reject_failure e (reject_queued e (reject_active_commit e (abort_signal e (stop_accepting st))))))"

definition abort_controller :: "js_error \<Rightarrow> controller \<Rightarrow> controller" where
  "abort_controller e st =
     close_provider_stream (signal_work (reject_queued e (reject_active_commit e (abort_signal e (stop_accepting st)))))"

section \<open>Admission\<close>

datatype reply = NoReply | Resolved | Rejected js_error | Promised nat

definition admit_audio :: "8 word list \<Rightarrow> controller \<Rightarrow> reply \<times> controller" where
  "admit_audio chunk st =
     (if sc_terminal st \<or> \<not> sc_accepting st then (Rejected controller_closed, st)
      else (let bytes = int (length chunk) in
        if sc_max_commands st \<le> int (length (sc_commands st)) \<or> sc_max_bytes st < sc_bytes st + bytes
        then (Rejected controller_overflow, fail_controller controller_overflow st)
        else (Resolved, signal_work (st\<lparr>sc_commands := sc_commands st @ [AudioCommand chunk], sc_bytes := sc_bytes st + bytes\<rparr>))))"

definition admit_commit :: "controller \<Rightarrow> reply \<times> controller" where
  "admit_commit st =
     (if sc_terminal st \<or> \<not> sc_accepting st then (Rejected controller_closed, st)
      else if sc_max_commands st \<le> int (length (sc_commands st))
      then (Rejected controller_overflow, fail_controller controller_overflow st)
      else (Promised (sc_waiters st),
            signal_work (st\<lparr>sc_waiters := sc_waiters st + 1, sc_commands := sc_commands st @ [CommitCommand (sc_waiters st)]\<rparr>)))"

definition max_context_characters :: nat where
  "max_context_characters = 1500"

text \<open>The number of characters of a string; a lone surrogate is one.\<close>

fun count_code_points :: "js_string \<Rightarrow> nat" where
  "count_code_points [] = 0"
| "count_code_points (u # us) =
     (case us of
        v # rest \<Rightarrow> if is_high u \<and> is_low v then 1 + count_code_points rest else 1 + count_code_points us
      | [] \<Rightarrow> 1)"

fun coalesce_context :: "js_string \<Rightarrow> command list \<Rightarrow> (nat \<times> command list) option" where
  "coalesce_context ctx [] = None"
| "coalesce_context ctx (ContextCommand old w # cs) = Some (w, ContextCommand ctx w # cs)"
| "coalesce_context ctx (c # cs) = map_option (\<lambda>(w, cs'). (w, c # cs')) (coalesce_context ctx cs)"

definition admit_agent_context :: "js_string \<Rightarrow> controller \<Rightarrow> reply \<times> controller" where
  "admit_agent_context ctx st =
     (if sc_terminal st \<or> \<not> sc_accepting st then (Rejected controller_closed, st)
      else if max_context_characters < count_code_points ctx
      then (Rejected (TvicThrowableError (js ''provider.invalid_request'')), st)
      else if \<not> sc_updates_context st then (Rejected (TvicThrowableError (js ''stt.context_update_failed'')), st)
      else (case coalesce_context ctx (sc_commands st) of
          Some (w, commands) \<Rightarrow> (Promised w, st\<lparr>sc_commands := commands\<rparr>)
        | None \<Rightarrow>
            if sc_max_commands st \<le> int (length (sc_commands st) + length (sc_pending st))
            then (Rejected controller_overflow, fail_controller controller_overflow st)
            else (Promised (sc_waiters st),
                  signal_work (st\<lparr>sc_waiters := sc_waiters st + 1,
                                  sc_commands := sc_commands st @ [ContextCommand ctx (sc_waiters st)]\<rparr>))))"

section \<open>The worker\<close>

text \<open>
  A context update leaves the queue without holding the worker up: the updates form a chain of their own, and the first
  of all is dispatched at once.
\<close>

definition start_context_write :: "js_string \<Rightarrow> nat \<Rightarrow> controller \<Rightarrow> controller" where
  "start_context_write ctx w st =
     st\<lparr>sc_pending := sc_pending st @ [w], sc_chained := True,
        sc_writes := sc_writes st @ [(w, ctx, if sc_chained st then WriteChained else WriteDispatched)]\<rparr>"

function worker_loop :: "controller \<Rightarrow> controller" where
  "worker_loop st =
     (if sc_terminal st then st\<lparr>sc_worker := WorkerReturned\<rparr>
      else (case sc_commands st of
          [] \<Rightarrow> st\<lparr>sc_worker := (if sc_draining st then WorkerReturned else WorkerWaits)\<rparr>
        | AudioCommand b # cs \<Rightarrow>
            st\<lparr>sc_commands := cs, sc_bytes := sc_bytes st - int (length b), sc_call := Some (CallAudio b),
               sc_worker := WorkerAwaits None\<rparr>
        | ContextCommand ctx w # cs \<Rightarrow> worker_loop (start_context_write ctx w (st\<lparr>sc_commands := cs\<rparr>))
        | CommitCommand w # cs \<Rightarrow>
            if \<not> sc_commits st then worker_loop (settle_waiter w None (st\<lparr>sc_commands := cs\<rparr>))
            else st\<lparr>sc_commands := cs, sc_active_commit := Some w, sc_call := Some CallCommit,
                    sc_worker := WorkerAwaits (Some w)\<rparr>))"
  by pat_completeness auto
termination
  by (relation "measure (length \<circ> sc_commands)") (auto simp: start_context_write_def settle_waiter_def)

declare worker_loop.simps [simp del]

text \<open>What the worker does with the outcome of a command before its loop goes on.\<close>

definition finish_command :: "nat option \<Rightarrow> js_error option \<Rightarrow> controller \<Rightarrow> controller" where
  "finish_command commit outcome st =
     (case commit of
        None \<Rightarrow> (case outcome of None \<Rightarrow> st | Some e \<Rightarrow> fail_controller e st)
      | Some w \<Rightarrow>
          (case outcome of
             None \<Rightarrow> settle_waiter w None st
           | Some e \<Rightarrow> fail_controller e (settle_waiter w (Some e) st))\<lparr>sc_active_commit := None\<rparr>)"

definition worker_runs :: "controller \<Rightarrow> controller" where
  "worker_runs st =
     (case sc_worker st of
        WorkerWoken \<Rightarrow> worker_loop st
      | WorkerSettled commit outcome \<Rightarrow>
          if sc_call st = None then worker_loop (finish_command commit outcome st) else st
      | _ \<Rightarrow> st)"

section \<open>Runs\<close>

datatype control_event =
    AdmitAudio "8 word list"
  | AdmitCommit
  | AdmitContext js_string
  | DrainRequested
  | DrainCompleted
  | DrainTimedOut js_error
  | Aborted js_error
  | WorkerRuns
  | ProviderCalled
  | CommandOutcome "js_error option"
  | UsageFailed js_error
  | ContextDispatches
  | ContextCalled
  | ContextOutcome "js_error option"

definition request_drain :: "controller \<Rightarrow> controller" where
  "request_drain st = (if sc_draining st then st else signal_work (st\<lparr>sc_accepting := False, sc_draining := True\<rparr>))"

definition complete_drain :: "controller \<Rightarrow> controller" where
  "complete_drain st =
     (if sc_draining st \<and> \<not> sc_drained st \<and> sc_worker st = WorkerReturned \<and> sc_writes st = []
      then close_provider_stream (st\<lparr>sc_drained := True\<rparr>) else st)"

definition time_out_drain :: "js_error \<Rightarrow> controller \<Rightarrow> controller" where
  "time_out_drain e st =
     (if sc_draining st \<and> \<not> sc_drained st
      then abort_controller e (reject_failure e (st\<lparr>sc_drained := True\<rparr>)) else st)"

definition make_call :: "controller \<Rightarrow> controller" where
  "make_call st = (case sc_call st of None \<Rightarrow> st | Some c \<Rightarrow> st\<lparr>sc_call := None, sc_calls := sc_calls st @ [c]\<rparr>)"

definition settle_command :: "js_error option \<Rightarrow> controller \<Rightarrow> controller" where
  "settle_command outcome st =
     (case (sc_worker st, sc_call st) of
        (WorkerAwaits commit, None) \<Rightarrow> st\<lparr>sc_worker := WorkerSettled commit outcome\<rparr>
      | _ \<Rightarrow> st)"

text \<open>The head of the chain: its dispatch, the deferred call of the provider, and the outcome.\<close>

definition dispatch_context :: "controller \<Rightarrow> controller" where
  "dispatch_context st =
     (case sc_writes st of
        (w, ctx, WriteChained) # ws \<Rightarrow>
          if w \<notin> set (sc_pending st) then st\<lparr>sc_writes := ws\<rparr>
          else (case sc_abort_reason st of
              Some e \<Rightarrow> settle_agent_context w (Some e) (st\<lparr>sc_writes := ws\<rparr>)
            | None \<Rightarrow> st\<lparr>sc_writes := (w, ctx, WriteDispatched) # ws\<rparr>)
      | _ \<Rightarrow> st)"

definition call_context :: "controller \<Rightarrow> controller" where
  "call_context st =
     (case sc_writes st of
        (w, ctx, WriteDispatched) # ws \<Rightarrow>
          st\<lparr>sc_writes := (w, ctx, WriteCalled) # ws, sc_calls := sc_calls st @ [CallContext ctx]\<rparr>
      | _ \<Rightarrow> st)"

definition finish_context :: "js_error option \<Rightarrow> controller \<Rightarrow> controller" where
  "finish_context outcome st =
     (case sc_writes st of
        (w, ctx, WriteCalled) # ws \<Rightarrow>
          settle_agent_context w
            (case outcome of None \<Rightarrow> None | Some e \<Rightarrow> Some (case sc_abort_reason st of Some r \<Rightarrow> r | None \<Rightarrow> e))
            (st\<lparr>sc_writes := ws\<rparr>)
      | _ \<Rightarrow> st)"

fun control_step :: "control_event \<Rightarrow> controller \<Rightarrow> reply \<times> controller" where
  "control_step (AdmitAudio chunk) st = admit_audio chunk st"
| "control_step AdmitCommit st = admit_commit st"
| "control_step (AdmitContext ctx) st = admit_agent_context ctx st"
| "control_step DrainRequested st = (NoReply, request_drain st)"
| "control_step DrainCompleted st = (NoReply, complete_drain st)"
| "control_step (DrainTimedOut e) st = (NoReply, time_out_drain e st)"
| "control_step (Aborted e) st = (NoReply, abort_controller e st)"
| "control_step WorkerRuns st = (NoReply, worker_runs st)"
| "control_step ProviderCalled st = (NoReply, make_call st)"
| "control_step (CommandOutcome outcome) st = (NoReply, settle_command outcome st)"
| "control_step (UsageFailed e) st = (NoReply, fail_controller e st)"
| "control_step ContextDispatches st = (NoReply, dispatch_context st)"
| "control_step ContextCalled st = (NoReply, call_context st)"
| "control_step (ContextOutcome outcome) st = (NoReply, finish_context outcome st)"

fun run_controller :: "control_event list \<Rightarrow> controller \<Rightarrow> reply list \<times> controller" where
  "run_controller [] st = ([], st)"
| "run_controller (e # es) st =
     (let (r, st1) = control_step e st; (rs, st2) = run_controller es st1 in (r # rs, st2))"

text \<open>The audio and the commits that were admitted, in order, and the calls they stand for.\<close>

datatype operation = OpAudio "8 word list" | OpCommit nat

fun admitted_by :: "control_event \<Rightarrow> reply \<Rightarrow> operation list" where
  "admitted_by (AdmitAudio chunk) Resolved = [OpAudio chunk]"
| "admitted_by AdmitCommit (Promised w) = [OpCommit w]"
| "admitted_by e r = []"

definition admitted :: "control_event list \<Rightarrow> reply list \<Rightarrow> operation list" where
  "admitted es rs = concat (map2 admitted_by es rs)"

fun call_for :: "bool \<Rightarrow> operation \<Rightarrow> provider_call list" where
  "call_for commits (OpAudio chunk) = [CallAudio chunk]"
| "call_for commits (OpCommit w) = (if commits then [CallCommit] else [])"

definition calls_for :: "bool \<Rightarrow> operation list \<Rightarrow> provider_call list" where
  "calls_for commits ops = concat (map (call_for commits) ops)"

fun is_context_call :: "provider_call \<Rightarrow> bool" where
  "is_context_call (CallContext ctx) = True"
| "is_context_call c = False"

definition serial_calls :: "controller \<Rightarrow> provider_call list" where
  "serial_calls st = filter (\<lambda>c. \<not> is_context_call c) (sc_calls st)"

section \<open>Settlements and endings in closed form\<close>

definition put_outcome :: "js_error option \<Rightarrow> nat \<Rightarrow> (nat \<times> js_error option) list \<Rightarrow> (nat \<times> js_error option) list" where
  "put_outcome e w xs = (if w \<in> fst ` set xs then xs else xs @ [(w, e)])"

definition put_outcomes :: "js_error option \<Rightarrow> nat list \<Rightarrow> (nat \<times> js_error option) list \<Rightarrow> (nat \<times> js_error option) list" where
  "put_outcomes e ws xs = fold (put_outcome e) ws xs"

lemma put_outcome_mem:
  "fst ` set (put_outcome e w xs) = insert w (fst ` set xs)"
  "x \<in> set (put_outcome e w xs) \<longleftrightarrow> x \<in> set xs \<or> x = (w, e) \<and> w \<notin> fst ` set xs"
  "distinct (map fst xs) \<Longrightarrow> distinct (map fst (put_outcome e w xs))"
  by (auto simp: put_outcome_def)

lemma put_outcomes_mem:
  "fst ` set (put_outcomes e ws xs) = set ws \<union> fst ` set xs"
  "x \<in> set xs \<Longrightarrow> x \<in> set (put_outcomes e ws xs)"
  "distinct (map fst xs) \<Longrightarrow> distinct (map fst (put_outcomes e ws xs))"
  unfolding put_outcomes_def by (induction ws arbitrary: xs) (auto simp: put_outcome_mem)

lemma put_outcomes_None: "(w, None) \<in> set (put_outcomes (Some e) ws xs) \<longleftrightarrow> (w, None) \<in> set xs"
  unfolding put_outcomes_def by (induction ws arbitrary: xs) (auto simp: put_outcome_mem)

lemma settle_waiter_eq: "settle_waiter w e st = st\<lparr>sc_settled := put_outcome e w (sc_settled st)\<rparr>"
  by (simp add: settle_waiter_def put_outcome_def)

lemma settle_waiters_eq: "settle_waiters ws e st = st\<lparr>sc_settled := put_outcomes e ws (sc_settled st)\<rparr>"
  unfolding settle_waiters_def put_outcomes_def
  by (induction ws arbitrary: st) (simp_all add: settle_waiter_eq)

lemma settle_agent_context_eq:
  "settle_agent_context w e st = st\<lparr>sc_pending := filter (\<lambda>p. p \<noteq> w) (sc_pending st),
     sc_settled := (if w \<in> set (sc_pending st) then put_outcome e w (sc_settled st) else sc_settled st)\<rparr>"
proof (cases "w \<in> set (sc_pending st)")
  case False
  then have "filter (\<lambda>p. p \<noteq> w) (sc_pending st) = sc_pending st" by (intro filter_True) auto
  with False show ?thesis by (simp add: settle_agent_context_def)
qed (simp add: settle_agent_context_def settle_waiter_eq)

lemma settle_pending_eq:
  "distinct ws \<Longrightarrow> sc_pending st = ws \<Longrightarrow>
    fold (\<lambda>w. settle_agent_context w e) ws st = st\<lparr>sc_pending := [], sc_settled := put_outcomes e ws (sc_settled st)\<rparr>"
proof (induction ws arbitrary: st)
  case Nil
  then show ?case by (simp add: put_outcomes_def)
next
  case (Cons w ws)
  have "filter (\<lambda>p. p \<noteq> w) (w # ws) = ws" using Cons.prems(1) by (auto intro: filter_True)
  then show ?case using Cons.prems Cons.IH [of "settle_agent_context w e st"]
    by (simp add: settle_agent_context_eq put_outcomes_def)
qed

definition woken :: "worker \<Rightarrow> worker" where
  "woken k = (if k = WorkerWaits then WorkerWoken else k)"

fun raced :: "js_error option \<Rightarrow> js_error \<Rightarrow> worker \<Rightarrow> worker" where
  "raced None e (WorkerAwaits w) = WorkerSettled w (Some e)"
| "raced r e k = k"

definition queue_waiters :: "controller \<Rightarrow> nat list" where
  "queue_waiters st = List.map_filter waiter_of (sc_commands st)"


lemma signal_work_eq: "signal_work st = st\<lparr>sc_worker := woken (sc_worker st)\<rparr>"
  by (simp add: signal_work_def woken_def)

lemma woken_woken [simp]: "woken (woken k) = woken k"
  by (simp add: woken_def)

lemma put_outcomes_append: "put_outcomes e (ws @ vs) xs = put_outcomes e vs (put_outcomes e ws xs)"
  by (simp add: put_outcomes_def)

lemma reject_queued_eq:
  assumes "distinct (sc_pending st)"
  shows "reject_queued e st = st\<lparr>sc_bytes := 0, sc_commands := [], sc_pending := [],
    sc_settled := put_outcomes (Some e) (queue_waiters st @ sc_pending st) (sc_settled st), sc_worker := woken (sc_worker st)\<rparr>"
  using assms
  by (simp add: reject_queued_def Let_def settle_waiters_eq settle_pending_eq signal_work_eq put_outcomes_append queue_waiters_def)

text \<open>All the ways to end do this: nothing is left queued, pending or active, and every waiter is settled.\<close>

definition ended :: "js_error \<Rightarrow> controller \<Rightarrow> controller" where
  "ended e st = st\<lparr>sc_accepting := False, sc_terminal := True,
     sc_abort_reason := Some (case sc_abort_reason st of None \<Rightarrow> e | Some r \<Rightarrow> r),
     sc_worker := woken (raced (sc_abort_reason st) e (sc_worker st)), sc_active_commit := None,
     sc_commands := [], sc_bytes := 0, sc_pending := [],
     sc_settled := put_outcomes (Some e)
       ((case sc_active_commit st of None \<Rightarrow> [] | Some w \<Rightarrow> [w]) @ queue_waiters st @ sc_pending st) (sc_settled st)\<rparr>"

lemma reject_ended:
  assumes "distinct (sc_pending st)"
  shows "reject_queued e (reject_active_commit e (abort_signal e (stop_accepting st))) = ended e st"
proof -
  have abort: "abort_signal e (stop_accepting st) = (stop_accepting st)
      \<lparr>sc_abort_reason := Some (case sc_abort_reason st of None \<Rightarrow> e | Some r \<Rightarrow> r),
       sc_worker := raced (sc_abort_reason st) e (sc_worker st)\<rparr>"
    by (auto simp: abort_signal_def stop_accepting_def split: worker.splits option.splits)
  show ?thesis using assms unfolding abort
    by (simp add: reject_active_commit_def reject_queued_eq ended_def settle_waiter_eq stop_accepting_def
        queue_waiters_def put_outcomes_def split: option.splits)
qed

lemma fail_controller_eq:
  "distinct (sc_pending st) \<Longrightarrow> fail_controller e st = (if sc_terminal st then st
     else (ended e st)\<lparr>sc_failure := Some (case sc_failure st of None \<Rightarrow> e | Some f \<Rightarrow> f), sc_stream_closing := True\<rparr>)"
  by (simp add: fail_controller_def reject_ended close_provider_stream_def reject_failure_def ended_def split: option.splits)

lemma abort_controller_eq:
  "distinct (sc_pending st) \<Longrightarrow> abort_controller e st = (ended e st)\<lparr>sc_stream_closing := True\<rparr>"
  by (simp add: abort_controller_def reject_ended close_provider_stream_def signal_work_eq ended_def)

section \<open>Invariants\<close>

fun audio_bytes :: "command \<Rightarrow> int" where
  "audio_bytes (AudioCommand b) = int (length b)"
| "audio_bytes c = 0"

fun is_context :: "command \<Rightarrow> bool" where
  "is_context (ContextCommand ctx w) = True"
| "is_context c = False"

fun operation_of :: "command \<Rightarrow> operation list" where
  "operation_of (AudioCommand b) = [OpAudio b]"
| "operation_of (CommitCommand w) = [OpCommit w]"
| "operation_of (ContextCommand ctx w) = []"

definition queued_operations :: "command list \<Rightarrow> operation list" where
  "queued_operations cs = concat (map operation_of cs)"

text \<open>The bounds: the counted bytes are those queued, and the queue and the updates in flight have room.\<close>

definition bounds_ok :: "controller \<Rightarrow> bool" where
  "bounds_ok st \<longleftrightarrow> sc_bytes st = sum_list (map audio_bytes (sc_commands st)) \<and> sc_bytes st \<le> sc_max_bytes st
     \<and> 1 \<le> sc_max_bytes st \<and> int (length (sc_commands st)) \<le> sc_max_commands st \<and> 1 \<le> sc_max_commands st
     \<and> length (filter is_context (sc_commands st)) \<le> 1
     \<and> int (length (sc_pending st) + length (filter is_context (sc_commands st))) \<le> sc_max_commands st"

text \<open>Where the waiters are: settled, queued, active or pending.\<close>

definition waiters_ok :: "controller \<Rightarrow> bool" where
  "waiters_ok st \<longleftrightarrow> distinct (map fst (sc_settled st)) \<and> distinct (queue_waiters st @ sc_pending st)
     \<and> fst ` set (sc_settled st) \<union> set (queue_waiters st) \<union> set_option (sc_active_commit st) \<union> set (sc_pending st) = {..<sc_waiters st}
     \<and> set (sc_pending st) \<subseteq> fst ` set (sc_writes st)"

text \<open>What the phases mean.\<close>

fun busy :: "worker \<Rightarrow> bool" where
  "busy (WorkerAwaits w) = True"
| "busy (WorkerSettled w r) = (r \<noteq> None)"
| "busy k = False"

definition phases_ok :: "controller \<Rightarrow> bool" where
  "phases_ok st \<longleftrightarrow>
     (\<forall>w. sc_active_commit st = Some w \<longrightarrow> sc_worker st = WorkerAwaits (Some w) \<or> (\<exists>r. sc_worker st = WorkerSettled (Some w) r))
     \<and> (if sc_terminal st then sc_commands st = [] \<and> sc_pending st = [] \<and> sc_active_commit st = None \<and> \<not> sc_accepting st
        else sc_abort_reason st = None)
     \<and> (sc_draining st \<longrightarrow> \<not> sc_accepting st)
     \<and> (sc_worker st = WorkerReturned \<and> \<not> sc_terminal st \<longrightarrow> sc_commands st = [] \<and> sc_draining st)
     \<and> (sc_call st \<noteq> None \<longrightarrow> busy (sc_worker st))"

text \<open>
  The admitted operations are those whose calls were made, the one whose call is about to be made, and the rest, which
  is the queue as long as the controller has not failed. A commit is resolved only once its call was made.
\<close>

fun current_ok :: "bool \<Rightarrow> provider_call option \<Rightarrow> operation list \<Rightarrow> bool" where
  "current_ok commits None current = (current = [])"
| "current_ok commits (Some c) current = (\<not> is_context_call c \<and> (\<exists>x. current = [x] \<and> call_for commits x = [c]))"

definition progress_ok :: "controller \<Rightarrow> operation list \<Rightarrow> operation list \<Rightarrow> operation list \<Rightarrow> bool" where
  "progress_ok st made current rest \<longleftrightarrow>
     calls_for (sc_commits st) made = serial_calls st \<and> current_ok (sc_commits st) (sc_call st) current
     \<and> (\<not> sc_terminal st \<longrightarrow> rest = queued_operations (sc_commands st))
     \<and> (\<forall>w. (w, None) \<in> set (sc_settled st) \<longrightarrow> OpCommit w \<in> set (made @ current @ rest) \<longrightarrow> OpCommit w \<in> set made)
     \<and> (\<forall>w r. sc_worker st = WorkerAwaits (Some w) \<or> sc_worker st = WorkerSettled (Some w) r \<longrightarrow> OpCommit w \<in> set (made @ current))
     \<and> (\<forall>w. sc_worker st = WorkerSettled (Some w) None \<longrightarrow> OpCommit w \<in> set made)"

definition order_ok :: "operation list \<Rightarrow> controller \<Rightarrow> bool" where
  "order_ok adm st \<longleftrightarrow> (\<exists>made current rest. adm = made @ current @ rest \<and> progress_ok st made current rest)"

text \<open>A waiter names one operation: at most one commit, or a context update.\<close>

fun commit_ids :: "operation \<Rightarrow> nat list" where
  "commit_ids (OpCommit w) = [w]"
| "commit_ids (OpAudio b) = []"

definition names_ok :: "operation list \<Rightarrow> controller \<Rightarrow> bool" where
  "names_ok adm st \<longleftrightarrow> distinct (concat (map commit_ids adm))
     \<and> (\<forall>w. OpCommit w \<in> set adm \<longrightarrow> w < sc_waiters st \<and> w \<notin> set (sc_pending st))
     \<and> (\<forall>ctx w. ContextCommand ctx w \<in> set (sc_commands st) \<longrightarrow> OpCommit w \<notin> set adm)"

definition controller_ok :: "operation list \<Rightarrow> controller \<Rightarrow> bool" where
  "controller_ok adm st \<longleftrightarrow> bounds_ok st \<and> waiters_ok st \<and> phases_ok st \<and> order_ok adm st \<and> names_ok adm st"

lemma woken_raced:
  "woken (raced r e k) = WorkerAwaits w \<Longrightarrow> k = WorkerAwaits w"
  "woken (raced r e k) = WorkerSettled w None \<Longrightarrow> k = WorkerSettled w None"
  "woken (raced r e k) = WorkerSettled w r' \<Longrightarrow> k = WorkerAwaits w \<or> k = WorkerSettled w r'"
  "k = WorkerAwaits w \<Longrightarrow> woken (raced r e k) = WorkerAwaits w \<or> woken (raced r e k) = WorkerSettled w (Some e)"
  "k = WorkerSettled w r' \<Longrightarrow> woken (raced r e k) = k"
  "busy k \<Longrightarrow> busy (woken (raced r e k))"
  by (cases r; cases k; auto simp: woken_def split: if_splits)+

lemma ended_ok:
  assumes "controller_ok adm st"
  shows "controller_ok adm (ended e st)"
proof -
  have b: "bounds_ok st" and w: "waiters_ok st" and p: "phases_ok st" and n: "names_ok adm st"
    using assms by (simp_all add: controller_ok_def)
  obtain made current rest where adm: "adm = made @ current @ rest" and o1: "progress_ok st made current rest"
    using assms by (auto simp: controller_ok_def order_ok_def)
  have "bounds_ok (ended e st)" using b by (simp add: bounds_ok_def ended_def)
  moreover have "waiters_ok (ended e st)" using w
    by (auto simp: waiters_ok_def ended_def queue_waiters_def put_outcomes_mem map_filter_simps split: option.splits)
  moreover have "phases_ok (ended e st)" using p by (auto simp: phases_ok_def ended_def woken_raced(6))
  moreover have "progress_ok (ended e st) made current rest" using o1
    by (auto simp: progress_ok_def ended_def serial_calls_def put_outcomes_None dest: woken_raced(1-3))
  moreover have "names_ok adm (ended e st)" using n by (simp add: names_ok_def ended_def)
  ultimately show ?thesis using adm by (auto simp: controller_ok_def order_ok_def)
qed

lemmas controller_ok_defs = controller_ok_def bounds_ok_def waiters_ok_def phases_ok_def order_ok_def progress_ok_def names_ok_def

lemma controller_ok_flags [simp]:
  "controller_ok adm (st\<lparr>sc_failure := f\<rparr>) = controller_ok adm st"
  "controller_ok adm (st\<lparr>sc_stream_closing := c\<rparr>) = controller_ok adm st"
  "controller_ok adm (st\<lparr>sc_drained := c\<rparr>) = controller_ok adm st"
  by (simp_all add: controller_ok_defs queue_waiters_def serial_calls_def)

lemma controller_ok_pending: "controller_ok adm st \<Longrightarrow> distinct (sc_pending st)"
  by (simp add: controller_ok_def waiters_ok_def)

lemma fail_ok: "controller_ok adm st \<Longrightarrow> controller_ok adm (fail_controller e st)"
  by (simp add: fail_controller_eq controller_ok_pending ended_ok)

lemma abort_ok: "controller_ok adm st \<Longrightarrow> controller_ok adm (abort_controller e st)"
  by (simp add: abort_controller_eq controller_ok_pending ended_ok)

definition loop_ready :: "operation list \<Rightarrow> controller \<Rightarrow> bool" where
  "loop_ready adm st \<longleftrightarrow> controller_ok adm (st\<lparr>sc_worker := WorkerWoken\<rparr>) \<and> sc_active_commit st = None \<and> sc_call st = None"

lemma queue_waiters_simps [simp]:
  "queue_waiters (st\<lparr>sc_worker := k\<rparr>) = queue_waiters st"
  "queue_waiters (st\<lparr>sc_settled := s\<rparr>) = queue_waiters st"
  "queue_waiters (st\<lparr>sc_commands := []\<rparr>) = []"
  "queue_waiters (st\<lparr>sc_commands := AudioCommand b # cs\<rparr>) = queue_waiters (st\<lparr>sc_commands := cs\<rparr>)"
  "queue_waiters (st\<lparr>sc_commands := CommitCommand w # cs\<rparr>) = w # queue_waiters (st\<lparr>sc_commands := cs\<rparr>)"
  "queue_waiters (st\<lparr>sc_commands := ContextCommand ctx w # cs\<rparr>) = w # queue_waiters (st\<lparr>sc_commands := cs\<rparr>)"
  by (simp_all add: queue_waiters_def map_filter_simps)

lemma queued_operations_simps [simp]:
  "queued_operations [] = []" "queued_operations (c # cs) = operation_of c @ queued_operations cs"
  "queued_operations (cs @ ds) = queued_operations cs @ queued_operations ds"
  by (simp_all add: queued_operations_def)

lemma calls_for_simps [simp]:
  "calls_for b [] = []" "calls_for b (x # xs) = call_for b x @ calls_for b xs" "calls_for b (xs @ ys) = calls_for b xs @ calls_for b ys"
  by (simp_all add: calls_for_def)

lemma sum_audio_nonneg: "0 \<le> sum_list (map audio_bytes cs)"
proof (induction cs)
  case (Cons c cs)
  then show ?case by (cases c) simp_all
qed simp

lemma loop_readyE:
  assumes "loop_ready adm st"
  obtains made rest where "adm = made @ rest" and "progress_ok (st\<lparr>sc_worker := WorkerWoken\<rparr>) made [] rest"
    and "sc_active_commit st = None" and "sc_call st = None" and "bounds_ok st" and "waiters_ok st" and "names_ok adm st"
    and "if sc_terminal st then sc_commands st = [] \<and> sc_pending st = [] \<and> \<not> sc_accepting st else sc_abort_reason st = None"
    and "sc_draining st \<longrightarrow> \<not> sc_accepting st"
proof -
  have ok: "controller_ok adm (st\<lparr>sc_worker := WorkerWoken\<rparr>)" "sc_active_commit st = None" "sc_call st = None"
    using assms by (simp_all add: loop_ready_def)
  obtain made current rest where adm: "adm = made @ current @ rest" and pr: "progress_ok (st\<lparr>sc_worker := WorkerWoken\<rparr>) made current rest"
    using ok(1) by (auto simp: controller_ok_def order_ok_def)
  have "current = []" using pr ok(3) by (simp add: progress_ok_def)
  moreover have "bounds_ok st" "waiters_ok st" "names_ok adm st" using ok(1)
    by (simp_all add: controller_ok_def bounds_ok_def waiters_ok_def names_ok_def)
  moreover have "if sc_terminal st then sc_commands st = [] \<and> sc_pending st = [] \<and> \<not> sc_accepting st else sc_abort_reason st = None"
    "sc_draining st \<longrightarrow> \<not> sc_accepting st"
    using ok(1) by (auto simp: controller_ok_def phases_ok_def split: if_splits)
  ultimately show ?thesis using that [of made rest] adm pr ok(2,3) by simp
qed

lemma order_okI: "adm = made @ current @ rest \<Longrightarrow> progress_ok st made current rest \<Longrightarrow> order_ok adm st"
  by (auto simp: order_ok_def)

lemma loop_returns:
  assumes "loop_ready adm st" and "sc_terminal st \<or> sc_commands st = []"
  shows "controller_ok adm (st\<lparr>sc_worker := (if sc_terminal st \<or> sc_draining st then WorkerReturned else WorkerWaits)\<rparr>)"
    (is "controller_ok adm ?st'")
  using assms(1)
proof (rule loop_readyE)
  fix made rest
  assume *: "adm = made @ rest" "progress_ok (st\<lparr>sc_worker := WorkerWoken\<rparr>) made [] rest" "sc_active_commit st = None"
    "sc_call st = None" "bounds_ok st" "waiters_ok st" "names_ok adm st" "sc_draining st \<longrightarrow> \<not> sc_accepting st"
    "if sc_terminal st then sc_commands st = [] \<and> sc_pending st = [] \<and> \<not> sc_accepting st else sc_abort_reason st = None"
  have "progress_ok ?st' made [] rest" using *(2,4) by (auto simp: progress_ok_def serial_calls_def)
  then have "order_ok adm ?st'" by (rule order_okI [rotated]) (simp add: *(1))
  moreover have "bounds_ok ?st'" "waiters_ok ?st'" "names_ok adm ?st'"
    using * by (simp_all add: bounds_ok_def waiters_ok_def names_ok_def)
  moreover have "phases_ok ?st'" using * assms(2) by (auto simp: phases_ok_def)
  ultimately show ?thesis by (simp add: controller_ok_def)
qed

lemma loop_audio:
  assumes "loop_ready adm st" and "\<not> sc_terminal st" and "sc_commands st = AudioCommand b # cs"
  shows "controller_ok adm (st\<lparr>sc_commands := cs, sc_bytes := sc_bytes st - int (length b), sc_call := Some (CallAudio b),
      sc_worker := WorkerAwaits None\<rparr>)" (is "controller_ok adm ?st'")
  using assms(1)
proof (rule loop_readyE)
  fix made rest
  assume *: "adm = made @ rest" "progress_ok (st\<lparr>sc_worker := WorkerWoken\<rparr>) made [] rest" "sc_active_commit st = None"
    "sc_call st = None" "bounds_ok st" "waiters_ok st" "names_ok adm st" "sc_draining st \<longrightarrow> \<not> sc_accepting st"
    "if sc_terminal st then sc_commands st = [] \<and> sc_pending st = [] \<and> \<not> sc_accepting st else sc_abort_reason st = None"
  have rest: "rest = OpAudio b # queued_operations cs" using *(2) assms(2,3) by (simp add: progress_ok_def)
  have "progress_ok ?st' made [OpAudio b] (queued_operations cs)" using *(2,4) rest by (simp add: progress_ok_def serial_calls_def)
  then have "order_ok adm ?st'" by (rule order_okI [rotated]) (simp add: *(1) rest)
  moreover have "bounds_ok ?st'" "phases_ok ?st'" "names_ok adm ?st'"
    using * assms(2,3) by (simp_all add: bounds_ok_def phases_ok_def names_ok_def)
  moreover have "waiters_ok ?st'" using *(6) assms(3) by (simp add: waiters_ok_def queue_waiters_def map_filter_simps)
  ultimately show ?thesis by (simp add: controller_ok_def)
qed

lemma loop_commit:
  assumes "loop_ready adm st" and "\<not> sc_terminal st" and "sc_commands st = CommitCommand w # cs" and "sc_commits st"
  shows "controller_ok adm (st\<lparr>sc_commands := cs, sc_active_commit := Some w, sc_call := Some CallCommit,
      sc_worker := WorkerAwaits (Some w)\<rparr>)" (is "controller_ok adm ?st'")
  using assms(1)
proof (rule loop_readyE)
  fix made rest
  assume *: "adm = made @ rest" "progress_ok (st\<lparr>sc_worker := WorkerWoken\<rparr>) made [] rest" "sc_active_commit st = None"
    "sc_call st = None" "bounds_ok st" "waiters_ok st" "names_ok adm st" "sc_draining st \<longrightarrow> \<not> sc_accepting st"
    "if sc_terminal st then sc_commands st = [] \<and> sc_pending st = [] \<and> \<not> sc_accepting st else sc_abort_reason st = None"
  have rest: "rest = OpCommit w # queued_operations cs" using *(2) assms(2,3) by (simp add: progress_ok_def)
  have "progress_ok ?st' made [OpCommit w] (queued_operations cs)" using *(2,4) rest assms(4) by (simp add: progress_ok_def serial_calls_def)
  then have "order_ok adm ?st'" by (rule order_okI [rotated]) (simp add: *(1) rest)
  moreover have "bounds_ok ?st'" "phases_ok ?st'" "names_ok adm ?st'"
    using * assms(2,3) by (simp_all add: bounds_ok_def phases_ok_def names_ok_def)
  moreover have "waiters_ok ?st'" using *(3,6) assms(3) by (simp add: waiters_ok_def queue_waiters_def map_filter_simps)
  ultimately show ?thesis by (simp add: controller_ok_def)
qed

lemma loop_skips_commit:
  assumes "loop_ready adm st" and "\<not> sc_terminal st" and "sc_commands st = CommitCommand w # cs" and "\<not> sc_commits st"
  shows "loop_ready adm (settle_waiter w None (st\<lparr>sc_commands := cs\<rparr>))" (is "loop_ready adm ?st'")
  using assms(1)
proof (rule loop_readyE)
  fix made rest
  assume *: "adm = made @ rest" "progress_ok (st\<lparr>sc_worker := WorkerWoken\<rparr>) made [] rest" "sc_active_commit st = None"
    "sc_call st = None" "bounds_ok st" "waiters_ok st" "names_ok adm st" "sc_draining st \<longrightarrow> \<not> sc_accepting st"
    "if sc_terminal st then sc_commands st = [] \<and> sc_pending st = [] \<and> \<not> sc_accepting st else sc_abort_reason st = None"
  let ?go = "?st'\<lparr>sc_worker := WorkerWoken\<rparr>"
  have rest: "rest = OpCommit w # queued_operations cs" using *(2) assms(2,3) by (simp add: progress_ok_def)
  have "progress_ok ?go (made @ [OpCommit w]) [] (queued_operations cs)" using *(2,4) rest assms(4)
    by (auto simp: progress_ok_def serial_calls_def settle_waiter_eq put_outcome_mem)
  then have "order_ok adm ?go" by (rule order_okI [rotated]) (simp add: *(1) rest)
  moreover have "bounds_ok ?go" "phases_ok ?go" "names_ok adm ?go"
    using * assms(2,3) by (simp_all add: bounds_ok_def phases_ok_def names_ok_def settle_waiter_eq)
  moreover have "waiters_ok ?go" using *(3,6) assms(3)
    by (simp add: waiters_ok_def queue_waiters_def map_filter_simps settle_waiter_eq put_outcome_mem)
  ultimately show ?thesis using * by (simp add: loop_ready_def controller_ok_def settle_waiter_eq)
qed

lemma loop_context:
  assumes "loop_ready adm st" and "\<not> sc_terminal st" and "sc_commands st = ContextCommand ctx w # cs"
  shows "loop_ready adm (start_context_write ctx w (st\<lparr>sc_commands := cs\<rparr>))" (is "loop_ready adm ?st'")
  using assms(1)
proof (rule loop_readyE)
  fix made rest
  assume *: "adm = made @ rest" "progress_ok (st\<lparr>sc_worker := WorkerWoken\<rparr>) made [] rest" "sc_active_commit st = None"
    "sc_call st = None" "bounds_ok st" "waiters_ok st" "names_ok adm st" "sc_draining st \<longrightarrow> \<not> sc_accepting st"
    "if sc_terminal st then sc_commands st = [] \<and> sc_pending st = [] \<and> \<not> sc_accepting st else sc_abort_reason st = None"
  let ?go = "?st'\<lparr>sc_worker := WorkerWoken\<rparr>"
  have "progress_ok ?go made [] rest" using *(2,4) assms(3) by (auto simp: progress_ok_def serial_calls_def start_context_write_def)
  then have "order_ok adm ?go" by (rule order_okI [rotated]) (simp add: *(1))
  moreover have "bounds_ok ?go" "phases_ok ?go"
    using * assms(2,3) by (simp_all add: bounds_ok_def phases_ok_def start_context_write_def)
  moreover have "names_ok adm ?go" using *(7) assms(3) by (auto simp: names_ok_def start_context_write_def)
  moreover have "waiters_ok ?go" using *(6) assms(3)
    by (auto simp: waiters_ok_def queue_waiters_def map_filter_simps start_context_write_def)
  ultimately show ?thesis using * by (simp add: loop_ready_def controller_ok_def start_context_write_def)
qed

lemma worker_loop_ok: "loop_ready adm st \<Longrightarrow> controller_ok adm (worker_loop st)"
proof (induction st rule: worker_loop.induct)
  case (1 st)
  show ?case
  proof (cases "sc_terminal st")
    case True
    then show ?thesis using loop_returns [OF 1(3)] by (subst worker_loop.simps) simp
  next
    case False
    show ?thesis
    proof (cases "sc_commands st")
      case Nil
      then show ?thesis using loop_returns [OF 1(3)] False by (subst worker_loop.simps) simp
    next
      case (Cons c cs)
      then show ?thesis using 1 False loop_audio loop_commit loop_skips_commit loop_context
        by (subst worker_loop.simps) (cases c; simp)
    qed
  qed
qed

lemma controller_ok_progress:
  assumes "controller_ok adm st"
  obtains made current rest where "adm = made @ current @ rest" and "progress_ok st made current rest"
  using assms by (auto simp: controller_ok_def order_ok_def)

lemma loop_readyI:
  assumes "controller_ok adm st" and "sc_active_commit st = None" and "sc_call st = None"
  shows "loop_ready adm st"
  using assms(1)
proof (rule controller_ok_progress)
  fix made current rest
  assume adm: "adm = made @ current @ rest" and pr: "progress_ok st made current rest"
  have "progress_ok (st\<lparr>sc_worker := WorkerWoken\<rparr>) made current rest" using pr by (simp add: progress_ok_def serial_calls_def)
  then have "order_ok adm (st\<lparr>sc_worker := WorkerWoken\<rparr>)" using adm by (auto simp: order_ok_def)
  moreover have "bounds_ok (st\<lparr>sc_worker := WorkerWoken\<rparr>)" "waiters_ok (st\<lparr>sc_worker := WorkerWoken\<rparr>)" "names_ok adm (st\<lparr>sc_worker := WorkerWoken\<rparr>)"
    using assms(1) by (simp_all add: controller_ok_def bounds_ok_def waiters_ok_def names_ok_def)
  moreover have "phases_ok (st\<lparr>sc_worker := WorkerWoken\<rparr>)" using assms by (auto simp: controller_ok_def phases_ok_def)
  ultimately show ?thesis using assms by (simp add: loop_ready_def controller_ok_def)
qed

lemma settle_error_ok:
  assumes "controller_ok adm st" and "w < sc_waiters st"
  shows "controller_ok adm (settle_waiter w (Some e) st)"
  using assms(1)
proof (rule controller_ok_progress)
  fix made current rest
  assume adm: "adm = made @ current @ rest" and pr: "progress_ok st made current rest"
  let ?st' = "settle_waiter w (Some e) st"
  have "progress_ok ?st' made current rest" using pr by (auto simp: progress_ok_def serial_calls_def settle_waiter_eq put_outcome_mem)
  then have "order_ok adm ?st'" using adm by (auto simp: order_ok_def)
  moreover have "bounds_ok ?st'" "phases_ok ?st'" "names_ok adm ?st'"
    using assms(1) by (simp_all add: controller_ok_def bounds_ok_def phases_ok_def names_ok_def settle_waiter_eq)
  moreover have "waiters_ok ?st'" using assms
    unfolding controller_ok_def waiters_ok_def by (auto simp: settle_waiter_eq put_outcome_mem)
  ultimately show ?thesis by (simp add: controller_ok_def)
qed

lemma fail_fields:
  assumes "controller_ok adm st"
  shows "sc_active_commit (fail_controller e st) = None" "sc_call (fail_controller e st) = sc_call st"
proof -
  have "sc_terminal st \<Longrightarrow> sc_active_commit st = None" using assms by (simp add: controller_ok_def phases_ok_def)
  then show "sc_active_commit (fail_controller e st) = None" "sc_call (fail_controller e st) = sc_call st"
    unfolding fail_controller_eq [OF controller_ok_pending [OF assms]] by (simp_all add: ended_def)
qed

lemma drop_active:
  assumes "sc_active_commit st = None" shows "st\<lparr>sc_active_commit := None\<rparr> = st"
  using assms by (simp add: controller.equality)

lemma finish_command_ready:
  assumes ok: "controller_ok adm st" and worker: "sc_worker st = WorkerSettled commit outcome" and call: "sc_call st = None"
    and known: "\<And>w. commit = Some w \<Longrightarrow> w < sc_waiters st"
  shows "loop_ready adm (finish_command commit outcome st)"
proof (cases commit)
  case None
  then have "sc_active_commit st = None" using ok worker by (auto simp: controller_ok_def phases_ok_def)
  then show ?thesis using None ok call
    by (cases outcome) (auto simp: finish_command_def fail_ok fail_fields intro!: loop_readyI)
next
  case (Some w)
  show ?thesis
  proof (cases outcome)
    case (Some e)
    have settled: "controller_ok adm (settle_waiter w (Some e) st)" by (rule settle_error_ok [OF ok known [OF \<open>commit = Some w\<close>]])
    then show ?thesis using Some \<open>commit = Some w\<close> call
      by (simp add: finish_command_def drop_active fail_fields fail_ok loop_readyI settle_waiter_def)
  next
    case None
    let ?st' = "(settle_waiter w None st)\<lparr>sc_active_commit := None\<rparr>"
    obtain made current rest where adm: "adm = made @ current @ rest" and pr: "progress_ok st made current rest"
      by (rule controller_ok_progress [OF ok])
    have "OpCommit w \<in> set made" using pr worker Some None by (simp add: progress_ok_def)
    then have "progress_ok ?st' made current rest" using pr
      by (auto simp: progress_ok_def serial_calls_def settle_waiter_eq put_outcome_mem)
    then have "order_ok adm ?st'" using adm by (auto simp: order_ok_def)
    moreover have "bounds_ok ?st'" "names_ok adm ?st'"
      using ok by (simp_all add: controller_ok_def bounds_ok_def names_ok_def settle_waiter_eq)
    moreover have "phases_ok ?st'" using ok by (auto simp: controller_ok_def phases_ok_def settle_waiter_eq split: if_splits)
    moreover have "waiters_ok ?st'"
    proof -
      have "set_option (sc_active_commit st) \<subseteq> {w}" using ok worker Some by (auto simp: controller_ok_def phases_ok_def)
      then show ?thesis using ok known [OF Some] unfolding controller_ok_def waiters_ok_def
        by (auto simp: settle_waiter_eq put_outcome_mem queue_waiters_def)
    qed
    ultimately have "controller_ok adm ?st'" by (simp add: controller_ok_def)
    then show ?thesis using Some None call by (simp add: finish_command_def loop_readyI settle_waiter_eq)
  qed
qed

lemma worker_waiter:
  assumes "controller_ok adm st" and "sc_worker st = WorkerAwaits (Some w) \<or> sc_worker st = WorkerSettled (Some w) r"
  shows "w < sc_waiters st"
  using assms(1)
proof (rule controller_ok_progress)
  fix made current rest
  assume "adm = made @ current @ rest" and "progress_ok st made current rest"
  then have "OpCommit w \<in> set adm" using assms(2) by (auto simp: progress_ok_def)
  then show ?thesis using assms(1) by (simp add: controller_ok_def names_ok_def)
qed

lemma worker_runs_ok:
  assumes "controller_ok adm st"
  shows "controller_ok adm (worker_runs st)"
proof (cases "sc_worker st")
  case WorkerWoken
  then have "sc_active_commit st = None" "sc_call st = None" using assms by (auto simp: controller_ok_def phases_ok_def)
  then show ?thesis using WorkerWoken by (simp add: worker_runs_def worker_loop_ok loop_readyI assms)
next
  case (WorkerSettled commit outcome)
  then show ?thesis using assms finish_command_ready [OF assms WorkerSettled] worker_waiter [OF assms]
    by (auto simp: worker_runs_def intro!: worker_loop_ok)
qed (use assms in \<open>simp_all add: worker_runs_def\<close>)

lemma signal_ok:
  assumes "controller_ok adm st"
  shows "controller_ok adm (signal_work st)"
  using assms
proof (rule controller_ok_progress)
  fix made current rest
  assume adm: "adm = made @ current @ rest" and pr: "progress_ok st made current rest"
  have "progress_ok (signal_work st) made current rest" using pr by (auto simp: progress_ok_def serial_calls_def signal_work_def)
  then have "order_ok adm (signal_work st)" using adm by (auto simp: order_ok_def)
  moreover have "bounds_ok (signal_work st)" "waiters_ok (signal_work st)" "names_ok adm (signal_work st)" "phases_ok (signal_work st)"
    using assms by (auto simp: controller_ok_def bounds_ok_def waiters_ok_def names_ok_def phases_ok_def signal_work_def)
  ultimately show ?thesis by (simp add: controller_ok_def)
qed

lemma queue_waiters_append: "queue_waiters (st\<lparr>sc_commands := cs @ ds\<rparr>) = queue_waiters (st\<lparr>sc_commands := cs\<rparr>) @ List.map_filter waiter_of ds"
  by (simp add: queue_waiters_def List.map_filter_def)

lemma commands_same [simp]: "st\<lparr>sc_commands := sc_commands st\<rparr> = st"
  by simp

lemma admit_audio_ok:
  assumes "controller_ok adm st" and "admit_audio chunk st = (r, st')"
  shows "controller_ok (adm @ admitted_by (AdmitAudio chunk) r) st'"
proof (cases "r = Resolved")
  case False
  then show ?thesis using assms by (auto simp: admit_audio_def Let_def fail_ok split: if_splits)
next
  case True
  let ?put = "st\<lparr>sc_commands := sc_commands st @ [AudioCommand chunk], sc_bytes := sc_bytes st + int (length chunk)\<rparr>"
  have alive: "\<not> sc_terminal st" "sc_accepting st" "int (length (sc_commands st)) < sc_max_commands st"
      "sc_bytes st + int (length chunk) \<le> sc_max_bytes st" and st': "st' = signal_work ?put"
    using True assms(2) by (auto simp: admit_audio_def Let_def split: if_splits)
  obtain made current rest where adm: "adm = made @ current @ rest" and pr: "progress_ok st made current rest"
    by (rule controller_ok_progress [OF assms(1)])
  have "progress_ok ?put made current (rest @ [OpAudio chunk])" using pr alive by (simp add: progress_ok_def serial_calls_def)
  then have "order_ok (adm @ [OpAudio chunk]) ?put" using adm by (auto simp: order_ok_def)
  moreover have "bounds_ok ?put" using assms(1) alive by (simp add: controller_ok_def bounds_ok_def)
  moreover have "waiters_ok ?put" using assms(1)
    by (simp add: controller_ok_def waiters_ok_def queue_waiters_def List.map_filter_def)
  moreover have "names_ok (adm @ [OpAudio chunk]) ?put" using assms(1) by (auto simp: controller_ok_def names_ok_def)
  moreover have "phases_ok ?put" using assms(1) alive by (auto simp: controller_ok_def phases_ok_def)
  ultimately have "controller_ok (adm @ [OpAudio chunk]) ?put" by (simp add: controller_ok_def)
  from signal_ok [OF this] show ?thesis using True st' by simp
qed

lemma admit_commit_ok:
  assumes "controller_ok adm st" and "admit_commit st = (r, st')"
  shows "controller_ok (adm @ admitted_by AdmitCommit r) st'"
proof (cases "\<exists>w. r = Promised w")
  case False
  then show ?thesis using assms by (auto simp: admit_commit_def fail_ok split: if_splits)
next
  case True
  let ?w = "sc_waiters st"
  let ?put = "st\<lparr>sc_waiters := ?w + 1, sc_commands := sc_commands st @ [CommitCommand ?w]\<rparr>"
  have alive: "\<not> sc_terminal st" "sc_accepting st" "int (length (sc_commands st)) < sc_max_commands st"
      and st': "r = Promised ?w" "st' = signal_work ?put"
    using True assms(2) by (auto simp: admit_commit_def split: if_splits)
  obtain made current rest where adm: "adm = made @ current @ rest" and pr: "progress_ok st made current rest"
    by (rule controller_ok_progress [OF assms(1)])
  have ids: "fst ` set (sc_settled st) \<subseteq> {..<?w}" "set (queue_waiters st) \<subseteq> {..<?w}" "set (sc_pending st) \<subseteq> {..<?w}"
    using assms(1) by (auto simp: controller_ok_def waiters_ok_def)
  have fresh: "(?w, x) \<notin> set (sc_settled st)" for x using ids(1) by force
  have "progress_ok ?put made current (rest @ [OpCommit ?w])" using pr alive fresh by (auto simp: progress_ok_def serial_calls_def)
  then have "order_ok (adm @ [OpCommit ?w]) ?put" using adm by (auto simp: order_ok_def)
  moreover have "bounds_ok ?put" using assms(1) alive by (simp add: controller_ok_def bounds_ok_def)
  moreover have "waiters_ok ?put"
  proof -
    have "queue_waiters ?put = queue_waiters st @ [?w]" by (simp add: queue_waiters_def List.map_filter_def)
    then show ?thesis using assms(1) ids unfolding controller_ok_def waiters_ok_def by (auto simp: lessThan_Suc)
  qed
  moreover have "names_ok (adm @ [OpCommit ?w]) ?put"
  proof -
    have "w \<in> set (queue_waiters st)" if "ContextCommand ctx w \<in> set (sc_commands st)" for ctx w
      using that by (force simp: queue_waiters_def List.map_filter_def)
    moreover have "w \<in> set (commit_ids x) \<Longrightarrow> x = OpCommit w" for w x by (cases x) auto
    ultimately show ?thesis using assms(1) ids by (fastforce simp: controller_ok_def names_ok_def)
  qed
  moreover have "phases_ok ?put" using assms(1) alive by (auto simp: controller_ok_def phases_ok_def)
  ultimately have "controller_ok (adm @ [OpCommit ?w]) ?put" by (simp add: controller_ok_def)
  from signal_ok [OF this] show ?thesis using st' by simp
qed

lemma progress_cong:
  assumes "progress_ok st made current rest" and "sc_commits st' = sc_commits st" and "sc_calls st' = sc_calls st"
    and "sc_call st' = sc_call st" and "sc_terminal st' = sc_terminal st"
    and "queued_operations (sc_commands st') = queued_operations (sc_commands st)"
    and "sc_worker st' = sc_worker st" and "\<And>w. OpCommit w \<in> set (made @ current @ rest) \<Longrightarrow> (w, None) \<in> set (sc_settled st') \<Longrightarrow> (w, None) \<in> set (sc_settled st)"
  shows "progress_ok st' made current rest"
  using assms(1,8) unfolding progress_ok_def serial_calls_def assms(2-7) by blast

lemma order_cong:
  assumes "order_ok adm st" and "sc_commits st' = sc_commits st" and "sc_calls st' = sc_calls st"
    and "sc_call st' = sc_call st" and "sc_terminal st' = sc_terminal st"
    and "queued_operations (sc_commands st') = queued_operations (sc_commands st)"
    and "sc_worker st' = sc_worker st" and "\<And>w. OpCommit w \<in> set adm \<Longrightarrow> (w, None) \<in> set (sc_settled st') \<Longrightarrow> (w, None) \<in> set (sc_settled st)"
  shows "order_ok adm st'"
proof -
  obtain made current rest where "adm = made @ current @ rest" "progress_ok st made current rest"
    using assms(1) by (auto simp: order_ok_def)
  with progress_cong [OF this(2) assms(2-7)] assms(8) show ?thesis by (metis order_okI)
qed

lemma coalesce_facts:
  "coalesce_context ctx cs = Some (w, cs') \<Longrightarrow>
    length cs' = length cs \<and> map audio_bytes cs' = map audio_bytes cs \<and> map is_context cs' = map is_context cs
    \<and> map waiter_of cs' = map waiter_of cs \<and> map operation_of cs' = map operation_of cs"
  by (induction ctx cs arbitrary: cs' rule: coalesce_context.induct) auto

lemma coalesce_None: "coalesce_context ctx cs = None \<longleftrightarrow> filter is_context cs = []"
  by (induction ctx cs rule: coalesce_context.induct) auto

lemma filter_length_map: "map P xs = map P ys \<Longrightarrow> length (filter P xs) = length (filter P ys)"
  by (induction xs ys rule: list_induct2') simp_all

lemma map_filter_map: "map f xs = map f ys \<Longrightarrow> List.map_filter f xs = List.map_filter f ys"
  by (induction xs ys rule: list_induct2') (simp_all add: map_filter_simps split: option.split)

lemma map_pair: "map f xs = map f ys \<Longrightarrow> map g xs = map g ys \<Longrightarrow> map (\<lambda>x. (f x, g x)) xs = map (\<lambda>x. (f x, g x)) ys"
  by (induction xs ys rule: list_induct2') simp_all

lemma context_named: "(\<exists>ctx. ContextCommand ctx w \<in> set cs) \<longleftrightarrow> (True, Some w) \<in> set (map (\<lambda>c. (is_context c, waiter_of c)) cs)"
proof (induction cs)
  case (Cons c cs)
  then show ?case by (cases c) auto
qed simp

lemma coalesced_ok:
  assumes "controller_ok adm st" and "coalesce_context ctx (sc_commands st) = Some (w, cs)"
  shows "controller_ok adm (st\<lparr>sc_commands := cs\<rparr>)"
proof -
  let ?st' = "st\<lparr>sc_commands := cs\<rparr>"
  note facts = coalesce_facts [OF assms(2)]
  have named: "(\<exists>ctx. ContextCommand ctx w \<in> set cs) = (\<exists>ctx. ContextCommand ctx w \<in> set (sc_commands st))" for w
  proof -
    have "map (\<lambda>c. (is_context c, waiter_of c)) cs = map (\<lambda>c. (is_context c, waiter_of c)) (sc_commands st)"
      using facts by (intro map_pair) simp_all
    then show ?thesis by (simp only: context_named)
  qed
  have nil: "cs = [] \<longleftrightarrow> sc_commands st = []" using facts by auto
  have "order_ok adm ?st'" by (rule order_cong [of adm st]) (use assms(1) facts in \<open>simp_all add: controller_ok_def queued_operations_def\<close>)
  moreover have "bounds_ok ?st'" using assms(1) facts filter_length_map [of is_context cs "sc_commands st"] by (simp add: controller_ok_def bounds_ok_def)
  moreover have "waiters_ok ?st'"
  proof -
    have "queue_waiters ?st' = queue_waiters st" using map_filter_map [of waiter_of cs "sc_commands st"] facts by (simp add: queue_waiters_def)
    then show ?thesis using assms(1) by (simp add: controller_ok_def waiters_ok_def)
  qed
  moreover have "names_ok adm ?st'" using assms(1) named unfolding controller_ok_def names_ok_def by simp blast
  moreover have "phases_ok ?st'" using assms(1) nil by (auto simp: controller_ok_def phases_ok_def)
  ultimately show ?thesis by (simp add: controller_ok_def)
qed

lemma admit_context_ok:
  assumes "controller_ok adm st" and "admit_agent_context ctx st = (r, st')"
  shows "controller_ok adm st'"
proof (cases "st' = fail_controller controller_overflow st \<or> st' = st")
  case True
  then show ?thesis using assms(1) fail_ok by auto
next
  case False
  let ?w = "sc_waiters st"
  let ?put = "st\<lparr>sc_waiters := ?w + 1, sc_commands := sc_commands st @ [ContextCommand ctx ?w]\<rparr>"
  from False assms(2) have alive: "\<not> sc_terminal st" "sc_accepting st" by (auto simp: admit_agent_context_def split: if_splits)
  show ?thesis
  proof (cases "coalesce_context ctx (sc_commands st)")
    case (Some a)
    then show ?thesis using False assms coalesced_ok [OF assms(1)]
      by (cases a) (auto simp: admit_agent_context_def split: if_splits)
  next
    case None
    have room: "int (length (sc_commands st) + length (sc_pending st)) < sc_max_commands st" and st': "st' = signal_work ?put"
      using None False assms(2) by (auto simp: admit_agent_context_def split: if_splits)
    have none: "filter is_context (sc_commands st) = []" using None by (simp add: coalesce_None)
    have ids: "fst ` set (sc_settled st) \<subseteq> {..<?w}" "set (queue_waiters st) \<subseteq> {..<?w}" "set (sc_pending st) \<subseteq> {..<?w}"
      using assms(1) by (auto simp: controller_ok_def waiters_ok_def)
    have "order_ok adm ?put" by (rule order_cong [of adm st]) (use assms(1) in \<open>simp_all add: controller_ok_def\<close>)
    moreover have "bounds_ok ?put" using assms(1) room none by (simp add: controller_ok_def bounds_ok_def)
    moreover have "waiters_ok ?put"
    proof -
      have "queue_waiters ?put = queue_waiters st @ [?w]" by (simp add: queue_waiters_def List.map_filter_def)
      then show ?thesis using assms(1) ids unfolding controller_ok_def waiters_ok_def by (auto simp: lessThan_Suc)
    qed
    moreover have "names_ok adm ?put" using assms(1) by (auto simp: controller_ok_def names_ok_def)
    moreover have "phases_ok ?put" using assms(1) alive by (auto simp: controller_ok_def phases_ok_def)
    ultimately have "controller_ok adm ?put" by (simp add: controller_ok_def)
    from signal_ok [OF this] show ?thesis using st' by simp
  qed
qed

lemma make_call_ok:
  assumes "controller_ok adm st"
  shows "controller_ok adm (make_call st)"
proof (cases "sc_call st")
  case (Some c)
  let ?st' = "make_call st"
  obtain made current rest where adm: "adm = made @ current @ rest" and pr: "progress_ok st made current rest"
    by (rule controller_ok_progress [OF assms])
  obtain x where x: "current = [x]" "call_for (sc_commits st) x = [c]" "\<not> is_context_call c" using pr Some by (auto simp: progress_ok_def)
  have "progress_ok ?st' (made @ current) [] rest" using pr Some x by (auto simp: progress_ok_def make_call_def serial_calls_def)
  then have "order_ok adm ?st'" by (rule order_okI [rotated]) (simp add: adm)
  moreover have "bounds_ok ?st'" "names_ok adm ?st'" "phases_ok ?st'" "waiters_ok ?st'" using assms Some
    by (simp_all add: controller_ok_def bounds_ok_def names_ok_def phases_ok_def waiters_ok_def make_call_def queue_waiters_def)
  ultimately show ?thesis by (simp add: controller_ok_def)
qed (use assms in \<open>simp add: make_call_def\<close>)

lemma settle_command_ok:
  assumes "controller_ok adm st"
  shows "controller_ok adm (settle_command outcome st)"
proof (cases "\<exists>w. sc_worker st = WorkerAwaits w \<and> sc_call st = None")
  case True
  then obtain w where w: "sc_worker st = WorkerAwaits w" "sc_call st = None" by blast
  let ?st' = "settle_command outcome st"
  have st': "?st' = st\<lparr>sc_worker := WorkerSettled w outcome\<rparr>" using w by (simp add: settle_command_def)
  obtain made current rest where adm: "adm = made @ current @ rest" and pr: "progress_ok st made current rest"
    by (rule controller_ok_progress [OF assms])
  have "progress_ok ?st' made current rest" using pr w by (auto simp: progress_ok_def st' serial_calls_def)
  then have "order_ok adm ?st'" by (rule order_okI [OF adm])
  moreover have "bounds_ok ?st'" "names_ok adm ?st'" "phases_ok ?st'" "waiters_ok ?st'" using assms w
    by (auto simp: controller_ok_def bounds_ok_def names_ok_def phases_ok_def waiters_ok_def st')
  ultimately show ?thesis by (simp add: controller_ok_def)
qed (use assms in \<open>auto simp: settle_command_def split: worker.splits option.splits\<close>)

lemma settle_context_ok:
  assumes "controller_ok adm st" and "sc_writes st = (w, ctx, phase) # ws"
  shows "controller_ok adm (settle_agent_context w x (st\<lparr>sc_writes := ws\<rparr>))"
proof -
  let ?st' = "settle_agent_context w x (st\<lparr>sc_writes := ws\<rparr>)"
  have free: "OpCommit w \<in> set adm \<Longrightarrow> w \<notin> set (sc_pending st)" using assms(1) by (simp add: controller_ok_def names_ok_def)
  have "order_ok adm ?st'"
    by (rule order_cong [of adm st])
      (use assms(1) free in \<open>auto simp: controller_ok_def settle_agent_context_eq put_outcome_mem split: if_splits\<close>)
  moreover have "bounds_ok ?st'"
  proof -
    have "int (length (sc_pending st)) + int (length (filter is_context (sc_commands st))) \<le> sc_max_commands st"
      using assms(1) by (simp add: controller_ok_def bounds_ok_def)
    moreover have "int (length (filter (\<lambda>p. p \<noteq> w) (sc_pending st))) \<le> int (length (sc_pending st))" by simp
    ultimately have "int (length (filter (\<lambda>p. p \<noteq> w) (sc_pending st))) + int (length (filter is_context (sc_commands st)))
        \<le> sc_max_commands st" by linarith
    then show ?thesis using assms(1) by (simp add: controller_ok_def bounds_ok_def settle_agent_context_eq)
  qed
  moreover have "names_ok adm ?st'" using assms(1) by (auto simp: controller_ok_def names_ok_def settle_agent_context_eq)
  moreover have "phases_ok ?st'" using assms(1) by (auto simp: controller_ok_def phases_ok_def settle_agent_context_eq)
  moreover have "waiters_ok ?st'"
  proof -
    have "queue_waiters ?st' = queue_waiters st" by (simp add: queue_waiters_def settle_agent_context_eq)
    then show ?thesis using assms unfolding controller_ok_def waiters_ok_def
      by (auto simp: settle_agent_context_eq put_outcome_mem)
  qed
  ultimately show ?thesis by (simp add: controller_ok_def)
qed

lemma chain_ok:
  assumes "controller_ok adm st" and "fst ` set ws = fst ` set (sc_writes st)" and "filter (\<lambda>c. \<not> is_context_call c) calls = serial_calls st"
  shows "controller_ok adm (st\<lparr>sc_writes := ws, sc_calls := calls\<rparr>)"
proof -
  let ?st' = "st\<lparr>sc_writes := ws, sc_calls := calls\<rparr>"
  obtain made current rest where adm: "adm = made @ current @ rest" and pr: "progress_ok st made current rest"
    by (rule controller_ok_progress [OF assms(1)])
  have "serial_calls ?st' = serial_calls st" using assms(3) by (simp add: serial_calls_def)
  then have "progress_ok ?st' made current rest" using pr by (simp add: progress_ok_def)
  then have "order_ok adm ?st'" by (rule order_okI [OF adm])
  moreover have "bounds_ok ?st'" "names_ok adm ?st'" "phases_ok ?st'" "waiters_ok ?st'" using assms(1,2)
    by (simp_all add: controller_ok_def bounds_ok_def names_ok_def phases_ok_def waiters_ok_def queue_waiters_def)
  ultimately show ?thesis by (simp add: controller_ok_def)
qed

lemma dispatch_context_ok:
  assumes "controller_ok adm st"
  shows "controller_ok adm (dispatch_context st)"
proof (cases "\<exists>w ctx ws. sc_writes st = (w, ctx, WriteChained) # ws")
  case True
  then obtain w ctx ws where ws: "sc_writes st = (w, ctx, WriteChained) # ws" by blast
  have settled: "controller_ok adm (settle_agent_context w x (st\<lparr>sc_writes := ws\<rparr>))" for x
    by (rule settle_context_ok [OF assms ws])
  have idle: "settle_agent_context w x (st\<lparr>sc_writes := ws\<rparr>) = st\<lparr>sc_writes := ws\<rparr>" if "w \<notin> set (sc_pending st)" for x
    using that by (simp add: settle_agent_context_def)
  have chained: "controller_ok adm (st\<lparr>sc_writes := (w, ctx, WriteDispatched) # ws\<rparr>)"
    using chain_ok [OF assms, of "(w, ctx, WriteDispatched) # ws" "sc_calls st"] ws by (simp add: serial_calls_def)
  show ?thesis using settled idle chained ws by (auto simp: dispatch_context_def split: option.split)
qed (use assms in \<open>auto simp: dispatch_context_def split: list.splits write_phase.splits\<close>)

lemma call_context_ok:
  assumes "controller_ok adm st"
  shows "controller_ok adm (call_context st)"
proof (cases "\<exists>w ctx ws. sc_writes st = (w, ctx, WriteDispatched) # ws")
  case True
  then obtain w ctx ws where ws: "sc_writes st = (w, ctx, WriteDispatched) # ws" by blast
  then show ?thesis using chain_ok [OF assms, of "(w, ctx, WriteCalled) # ws" "sc_calls st @ [CallContext ctx]"]
    by (simp add: call_context_def serial_calls_def)
qed (use assms in \<open>auto simp: call_context_def split: list.splits write_phase.splits\<close>)

lemma finish_context_ok:
  assumes "controller_ok adm st"
  shows "controller_ok adm (finish_context outcome st)"
  using assms by (auto simp: finish_context_def split: list.splits write_phase.splits intro: settle_context_ok)

lemma drain_ok:
  assumes "controller_ok adm st"
  shows "controller_ok adm (request_drain st)" "controller_ok adm (complete_drain st)" "controller_ok adm (time_out_drain e st)"
proof -
  let ?st' = "st\<lparr>sc_accepting := False, sc_draining := True\<rparr>"
  have "order_ok adm ?st'" by (rule order_cong [of adm st]) (use assms in \<open>simp_all add: controller_ok_def\<close>)
  moreover have "bounds_ok ?st'" "names_ok adm ?st'" "phases_ok ?st'" "waiters_ok ?st'" using assms
    by (auto simp: controller_ok_def bounds_ok_def names_ok_def phases_ok_def waiters_ok_def queue_waiters_def)
  ultimately have "controller_ok adm ?st'" by (simp add: controller_ok_def)
  then show "controller_ok adm (request_drain st)" using assms by (simp add: request_drain_def signal_ok)
  show "controller_ok adm (complete_drain st)" using assms by (simp add: complete_drain_def close_provider_stream_def)
  show "controller_ok adm (time_out_drain e st)" using assms
    by (simp add: time_out_drain_def reject_failure_def abort_ok)
qed

lemma control_step_ok:
  assumes "controller_ok adm st" and "control_step e st = (r, st')"
  shows "controller_ok (adm @ admitted_by e r) st'"
proof (cases e)
  case (AdmitAudio chunk)
  then show ?thesis using admit_audio_ok [OF assms(1)] assms(2) by simp
next
  case AdmitCommit
  then show ?thesis using admit_commit_ok [OF assms(1)] assms(2) by simp
next
  case (AdmitContext ctx)
  then show ?thesis using admit_context_ok [OF assms(1)] assms(2) by simp
qed (use assms in \<open>auto simp: drain_ok abort_ok fail_ok worker_runs_ok make_call_ok settle_command_ok dispatch_context_ok
    call_context_ok finish_context_ok\<close>)

lemma run_controller_ok:
  assumes "controller_ok adm st" and "run_controller es st = (rs, st')"
  shows "controller_ok (adm @ admitted es rs) st'"
  using assms
proof (induction es arbitrary: adm st rs)
  case (Cons e es)
  obtain r st1 where step: "control_step e st = (r, st1)" by fastforce
  obtain rs' where rs: "rs = r # rs'" "run_controller es st1 = (rs', st')"
    using Cons.prems(2) by (auto simp: step split: prod.splits)
  from Cons.IH [OF control_step_ok [OF Cons.prems(1) step] rs(2)] show ?case by (simp add: rs(1) admitted_def)
qed (simp add: admitted_def)

lemma new_controller_ok: "new_controller bytes commands updates commits = Inr st \<Longrightarrow> controller_ok [] st"
  by (auto simp: new_controller_def bounded_limit_def controller_ok_def bounds_ok_def waiters_ok_def phases_ok_def order_ok_def
      progress_ok_def names_ok_def queue_waiters_def serial_calls_def map_filter_simps split: if_splits)

lemma run_new_ok:
  assumes "new_controller bytes commands updates commits = Inr st0" and "run_controller es st0 = (rs, st)"
  shows "controller_ok (admitted es rs) st"
  using run_controller_ok [OF new_controller_ok [OF assms(1)] assms(2)] by simp

text \<open>The limits and the abilities of the stream never change.\<close>

definition settings :: "controller \<Rightarrow> int \<times> int \<times> bool" where
  "settings st = (sc_max_bytes st, sc_max_commands st, sc_commits st)"

lemma settings_updates [simp]:
  "settings (signal_work st) = settings st" "settings (settle_waiter w x st) = settings st"
  "settings (settle_agent_context w x st) = settings st" "settings (start_context_write ctx w st) = settings st"
  "settings (st\<lparr>sc_commands := cs\<rparr>) = settings st" "settings (st\<lparr>sc_active_commit := a\<rparr>) = settings st"
  "settings (st\<lparr>sc_writes := ws\<rparr>) = settings st" "settings (st\<lparr>sc_drained := d\<rparr>) = settings st"
  by (simp_all add: settings_def signal_work_def settle_waiter_def settle_agent_context_def start_context_write_def)

lemma settings_fail [simp]: "settings (fail_controller e st) = settings st" "settings (abort_controller e st) = settings st"
proof -
  have waiters: "settings (settle_waiters ws x st) = settings st" for ws x st
    by (simp add: settle_waiters_eq settings_def)
  have contexts: "settings (fold (\<lambda>w. settle_agent_context w x) ws st) = settings st" for ws x st
    by (induction ws arbitrary: st) simp_all
  have queued: "settings (reject_queued e st) = settings st" for st
    unfolding reject_queued_def Let_def by (simp add: contexts waiters) (simp add: settings_def)
  have rest: "settings (reject_active_commit e st) = settings st" "settings (abort_signal e st) = settings st"
    "settings (stop_accepting st) = settings st" "settings (close_provider_stream st) = settings st"
    "settings (reject_failure e st) = settings st" for st
    by (simp_all add: reject_active_commit_def abort_signal_def stop_accepting_def close_provider_stream_def reject_failure_def
        settings_def settle_waiter_def split: option.split)
  show "settings (fail_controller e st) = settings st" "settings (abort_controller e st) = settings st"
    by (simp_all add: fail_controller_def abort_controller_def queued rest)
qed

lemma fail_settings [simp]:
  "sc_max_bytes (fail_controller e st) = sc_max_bytes st" "sc_max_commands (fail_controller e st) = sc_max_commands st"
  "sc_commits (fail_controller e st) = sc_commits st"
  using settings_fail(1) [of e st] by (simp_all add: settings_def)

lemma settings_loop [simp]: "settings (worker_loop st) = settings st"
proof (induction st rule: worker_loop.induct)
  case (1 st)
  then show ?case
    by (subst worker_loop.simps) (auto simp: settings_def [of "_\<lparr>sc_worker := _\<rparr>"] settings_def [of st] split: list.split command.split)
qed

lemma settings_step: "settings (snd (control_step e st)) = settings st"
proof (cases e)
  case WorkerRuns
  have "settings (finish_command c x st) = settings st" for c x by (simp add: finish_command_def split: option.split)
  then show ?thesis using WorkerRuns by (simp add: worker_runs_def split: worker.split)
next
  case (ContextOutcome x)
  then show ?thesis by (simp add: finish_context_def split: list.split write_phase.split)
next
  case ContextDispatches
  then show ?thesis by (simp add: dispatch_context_def split: list.split write_phase.split option.split)
next
  case (DrainTimedOut e)
  then show ?thesis by (simp add: time_out_drain_def reject_failure_def) (simp add: settings_def)
qed (simp_all add: admit_audio_def admit_commit_def admit_agent_context_def request_drain_def complete_drain_def
    make_call_def settle_command_def call_context_def close_provider_stream_def Let_def,
    simp_all add: settings_def signal_work_def split: option.split list.split worker.split write_phase.split)

lemma settings_run: "settings (snd (run_controller es st)) = settings st"
  by (induction es arbitrary: st) (auto simp: Let_def split_beta settings_step)

section \<open>Theorems\<close>

lemma ids_split:
  assumes "distinct (concat (map commit_ids (before @ OpCommit w # after)))" and "before @ OpCommit w # after = made @ rest"
    and "OpCommit w \<in> set made"
  shows "\<exists>more. made = before @ OpCommit w # more"
proof (rule ccontr)
  assume no: "\<not> ?thesis"
  from assms(2) consider (short) us where "before = made @ us" | (long) us where "made = before @ us" "OpCommit w # after = us @ rest"
    by (auto simp: append_eq_append_conv2)
  then show False
  proof cases
    case short
    then have "OpCommit w \<in> set before" using assms(3) by simp
    then have "w \<in> set (concat (map commit_ids before))" by force
    then show False using assms(1) by simp
  next
    case long
    then show False using no assms(3) assms(1) by (cases us) (force+)
  qed
qed


text \<open>
  The queue never holds more than the configured bytes of audio or number of commands, and no more
  context updates are in flight than the number of commands.
\<close>

theorem controller_queue_bounded:
  assumes "new_controller bytes commands updates commits = Inr st0" and "run_controller es st0 = (rs, st)"
  shows "sum_list (map audio_bytes (sc_commands st)) \<le> limit_or bytes 320000
    \<and> int (length (sc_commands st)) \<le> limit_or commands 512 \<and> int (length (sc_pending st)) \<le> limit_or commands 512"
proof -
  have "bounds_ok st" using run_new_ok [OF assms] by (simp add: controller_ok_def)
  moreover have "settings st = (limit_or bytes 320000, limit_or commands 512, commits)"
    using settings_run [of es st0] assms by (auto simp: settings_def new_controller_def bounded_limit_def default_limits_def split: if_splits)
  ultimately show ?thesis by (simp add: bounds_ok_def settings_def)
qed

text \<open>
  Property C33: nobody waits for ever. Once the controller failed or was aborted, and also once a drain
  found the worker returned and the chain of context updates empty, every promise it ever returned is settled;
  no promise is settled twice.
\<close>

theorem no_waiter_left:
  assumes "new_controller bytes commands updates commits = Inr st0" and "run_controller es st0 = (rs, st)"
    and "sc_terminal st \<or> (sc_worker st = WorkerReturned \<and> sc_writes st = [])"
  shows "fst ` set (sc_settled st) = {..<sc_waiters st} \<and> distinct (map fst (sc_settled st))"
proof -
  have ok: "waiters_ok st" "phases_ok st" using run_new_ok [OF assms(1,2)] by (simp_all add: controller_ok_def)
  have "sc_commands st = [] \<and> sc_pending st = [] \<and> sc_active_commit st = None"
  proof (cases "sc_terminal st")
    case False
    then have "sc_worker st = WorkerReturned" "sc_writes st = []" using assms(3) by simp_all
    then show ?thesis using ok False by (auto simp: phases_ok_def waiters_ok_def)
  qed (use ok(2) in \<open>simp add: phases_ok_def\<close>)
  then show ?thesis using ok(1) by (simp add: waiters_ok_def queue_waiters_def map_filter_simps)
qed

section \<open>Examples\<close>

definition fresh_controller :: controller where
  "fresh_controller = (case new_controller (Some 10) (Some 4) True True of Inr st \<Rightarrow> st | Inl e \<Rightarrow> undefined)"

lemma fresh: "new_controller (Some 10) (Some 4) True True = Inr fresh_controller"
  by (simp add: fresh_controller_def new_controller_def bounded_limit_def limit_or_def is_safe_integer_def max_safe_integer_def)

lemmas fresh_eq = fresh [unfolded new_controller_def bounded_limit_def limit_or_def is_safe_integer_def max_safe_integer_def, simplified, symmetric]

definition orderly :: "control_event list" where
  "orderly = [AdmitAudio [1, 2], AdmitCommit, WorkerRuns, ProviderCalled, AdmitAudio [3], CommandOutcome None, WorkerRuns,
     ProviderCalled, CommandOutcome None, WorkerRuns]"

definition failing :: "control_event list" where
  "failing = [AdmitAudio [1, 2], AdmitCommit, AdmitCommit, WorkerRuns, ProviderCalled, CommandOutcome (Some controller_closed), WorkerRuns]"

lemmas control_defs = admit_audio_def admit_commit_def signal_work_def worker_runs_def make_call_def settle_command_def
  finish_command_def settle_waiter_def Let_def fail_controller_def stop_accepting_def abort_signal_def reject_active_commit_def
  reject_queued_def settle_waiters_def close_provider_stream_def reject_failure_def worker_loop.simps

lemma orderly_run:
  "fst (run_controller orderly fresh_controller) = [Resolved, Promised 0, NoReply, NoReply, Resolved, NoReply, NoReply, NoReply, NoReply, NoReply]"
  "sc_settled (snd (run_controller orderly fresh_controller)) = [(0, None)]"
  "serial_calls (snd (run_controller orderly fresh_controller)) = [CallAudio [1, 2], CallCommit]"
  by (simp_all add: orderly_def fresh_eq control_defs serial_calls_def)

lemma failing_run: "sc_terminal (snd (run_controller failing fresh_controller))" "sc_waiters (snd (run_controller failing fresh_controller)) = 2"
  by (simp_all add: failing_def fresh_eq control_defs controller_closed_def map_filter_simps)


theorem controller_queue_bounded_witness:
  "sum_list (map audio_bytes (sc_commands (snd (run_controller orderly fresh_controller)))) \<le> 10"
proof -
  obtain rs st where run: "run_controller orderly fresh_controller = (rs, st)" by fastforce
  from controller_queue_bounded [OF fresh this] show ?thesis by (simp add: run limit_or_def)
qed

theorem no_waiter_left_witness:
  "fst ` set (sc_settled (snd (run_controller failing fresh_controller))) = {0, 1}"
proof -
  obtain rs st where run: "run_controller failing fresh_controller = (rs, st)" by fastforce
  have "sc_terminal st" "sc_waiters st = 2" using failing_run by (simp_all add: run)
  then have "fst ` set (sc_settled st) = {..<2}" using no_waiter_left [OF fresh run] by simp
  then show ?thesis by (auto simp: run)
qed

end
