(* ===== verification/Output_Budgets.thy ===== *)
theory Output_Budgets
  imports Text_Encoding Complex_Main "HOL-Library.Sublist"
begin

text \<open>
  The budgets of what a provider sends: the accumulator of a language model stream
  (runtime/src/pipeline-llm-accumulator.ts), the truncated payloads of events
  (runtime/src/pipeline-payload-budgets.ts) and the alignment of spoken text
  (runtime/src/turn-alignment.ts).

  A value that a provider hands over is what the code can learn of it: what \<open>JSON.stringify\<close> returns for it
  and whether the stable serialization accepts it. A value the code keeps after parsing a text is named by
  that text.
\<close>

section \<open>Limits\<close>

definition max_llm_output_bytes :: int where "max_llm_output_bytes = 4194304"
definition max_llm_events :: int where "max_llm_events = 16384"
definition max_llm_tool_calls :: int where "max_llm_tool_calls = 128"
definition max_llm_argument_bytes :: int where "max_llm_argument_bytes = 1048576"
definition max_llm_field_bytes :: int where "max_llm_field_bytes = 4096"

definition resource_limit_error :: js_error where
  "resource_limit_error = TvicThrowableError (js ''provider.stream_buffer_overflow'')"

section \<open>The accumulator of a language model stream\<close>

datatype stringified = StringifyThrows | StringifyUndefined | StringifyText js_string

record provider_value =
  pv_json :: stringified
  pv_stable :: bool

text \<open>What is kept as the input of a call: the value parsed from a text, or the placeholder.\<close>

datatype kept_input = ParsedInput js_string | RedactedInput

record inline_call =
  ic_ref :: js_string
  ic_name :: js_string
  ic_input :: provider_value

record kept_call =
  kc_ref :: js_string
  kc_name :: js_string
  kc_input :: kept_input

record llm_stream =
  ls_text :: js_string
  ls_text_bytes :: int
  ls_events :: int
  ls_argument_bytes :: int
  ls_calls :: "kept_call list"
  ls_seen :: "js_string list"
  ls_cancels :: nat
  ls_emitted :: "js_string list"

definition new_llm_stream :: llm_stream where
  "new_llm_stream = \<lparr>ls_text = [], ls_text_bytes = 0, ls_events = 0, ls_argument_bytes = 0, ls_calls = [],
     ls_seen = [], ls_cancels = 0, ls_emitted = []\<rparr>"

definition redacted_text :: js_string where
  "redacted_text = js ''{'' @ [34] @ js ''$tvic'' @ [34] @ js '':'' @ [34] @ js ''input_unavailable'' @ [34] @ js '',''
     @ [34] @ js ''reason'' @ [34] @ js '':'' @ [34] @ js ''not_serializable'' @ [34] @ js ''}''"

definition safe_json_stringify :: "provider_value \<Rightarrow> js_string" where
  "safe_json_stringify v =
     (case pv_json v of StringifyText s \<Rightarrow> s | StringifyUndefined \<Rightarrow> js ''null'' | StringifyThrows \<Rightarrow> redacted_text)"

text \<open>
  Every operation has the outcome of the callbacks it may await: what \<open>cancel\<close> and \<open>onText\<close> reject with, if they
  do. A refusal cancels the provider first, whose error then hides the refusal.
\<close>

record callbacks =
  cb_cancel :: "js_error option"
  cb_text :: "js_error option"

definition refuse :: "callbacks \<Rightarrow> js_error \<Rightarrow> llm_stream \<Rightarrow> unit result \<times> llm_stream" where
  "refuse cb e st = (Inl (case cb_cancel cb of None \<Rightarrow> e | Some c \<Rightarrow> c), st\<lparr>ls_cancels := ls_cancels st + 1\<rparr>)"

definition record_event :: "callbacks \<Rightarrow> llm_stream \<Rightarrow> unit result \<times> llm_stream" where
  "record_event cb st =
     (let st1 = st\<lparr>ls_events := ls_events st + 1\<rparr>
      in if max_llm_events < ls_events st1 then refuse cb resource_limit_error st1 else (Inr (), st1))"

definition append_text :: "callbacks \<Rightarrow> js_string \<Rightarrow> llm_stream \<Rightarrow> unit result \<times> llm_stream" where
  "append_text cb value st =
     (let bytes = utf8_length value
      in if \<not> is_safe_integer bytes \<or> max_llm_output_bytes < ls_text_bytes st + bytes then refuse cb resource_limit_error st
         else (case cb_text cb of None \<Rightarrow> Inr () | Some e \<Rightarrow> Inl e,
               st\<lparr>ls_text := ls_text st @ value, ls_text_bytes := ls_text_bytes st + bytes, ls_emitted := ls_emitted st @ [value]\<rparr>))"

definition add_tool_call :: "callbacks \<Rightarrow> inline_call \<Rightarrow> llm_stream \<Rightarrow> unit result \<times> llm_stream" where
  "add_tool_call cb call st =
     (let ref_bytes = utf8_length (ic_ref call);
          name_bytes = utf8_length (ic_name call);
          encoded = safe_json_stringify (ic_input call);
          input_bytes = utf8_length encoded
      in if \<not> is_safe_integer ref_bytes \<or> \<not> is_safe_integer name_bytes
            \<or> max_llm_field_bytes < ref_bytes \<or> max_llm_field_bytes < name_bytes
         then refuse cb resource_limit_error st
         else if \<not> is_safe_integer input_bytes \<or> max_llm_argument_bytes < input_bytes
            \<or> max_llm_argument_bytes < ls_argument_bytes st + input_bytes
         then refuse cb resource_limit_error st
         else if ic_ref call \<in> set (ls_seen st) then (Inr (), st)
         else if max_llm_tool_calls \<le> int (length (ls_calls st)) then refuse cb resource_limit_error st
         else (Inr (), st\<lparr>
           ls_calls := ls_calls st @ [\<lparr>kc_ref = ic_ref call, kc_name = ic_name call,
             kc_input = (if pv_stable (ic_input call) then ParsedInput encoded else RedactedInput)\<rparr>],
           ls_seen := ls_seen st @ [ic_ref call], ls_argument_bytes := ls_argument_bytes st + input_bytes\<rparr>))"

fun add_tool_calls :: "callbacks \<Rightarrow> inline_call list \<Rightarrow> llm_stream \<Rightarrow> unit result \<times> llm_stream" where
  "add_tool_calls cb [] st = (Inr (), st)"
| "add_tool_calls cb (c # cs) st =
     (case add_tool_call cb c st of (Inl e, st1) \<Rightarrow> (Inl e, st1) | (Inr u, st1) \<Rightarrow> add_tool_calls cb cs st1)"

definition complete_stream :: "callbacks \<Rightarrow> js_string \<Rightarrow> inline_call list \<Rightarrow> llm_stream \<Rightarrow> unit result \<times> llm_stream" where
  "complete_stream cb text_value calls st =
     (if max_llm_output_bytes < utf8_length text_value then refuse cb resource_limit_error st
      else (case (if ls_text st = [] \<and> text_value \<noteq> [] then append_text cb text_value st else (Inr (), st)) of
          (Inl e, st1) \<Rightarrow> (Inl e, st1)
        | (Inr u, st1) \<Rightarrow> add_tool_calls cb calls st1))"

datatype llm_op =
    RecordEvent
  | AppendText js_string
  | AddToolCall inline_call
  | CompleteStream js_string "inline_call list"

fun llm_step :: "callbacks \<Rightarrow> llm_op \<Rightarrow> llm_stream \<Rightarrow> unit result \<times> llm_stream" where
  "llm_step cb RecordEvent st = record_event cb st"
| "llm_step cb (AppendText s) st = append_text cb s st"
| "llm_step cb (AddToolCall c) st = add_tool_call cb c st"
| "llm_step cb (CompleteStream s cs) st = complete_stream cb s cs st"

fun llm_run :: "(callbacks \<times> llm_op) list \<Rightarrow> llm_stream \<Rightarrow> llm_stream" where
  "llm_run [] st = st"
| "llm_run ((cb, p) # ps) st = llm_run ps (snd (llm_step cb p st))"

lemma utf8_length_append: "utf8_length (s @ t) \<le> utf8_length s + utf8_length t"
proof (induction s rule: utf8_length.induct)
  case (2 u us)
  have "t \<noteq> [] \<Longrightarrow> is_low (hd t) \<Longrightarrow> utf8_length t = 3 + utf8_length (tl t)"
    by (cases t) (auto simp: is_low_def is_high_def)
  with 2 show ?case by (cases us) auto
qed simp

text \<open>
  What the stream holds is within the budgets, the calls are named apart, and a kept input was counted.
\<close>

definition kept_bytes :: "kept_call \<Rightarrow> int" where
  "kept_bytes c = (case kc_input c of ParsedInput s \<Rightarrow> utf8_length s | RedactedInput \<Rightarrow> 0)"

definition llm_within :: "llm_stream \<Rightarrow> bool" where
  "llm_within st \<longleftrightarrow> concat (ls_emitted st) = ls_text st \<and> utf8_length (ls_text st) \<le> ls_text_bytes st
     \<and> ls_text_bytes st \<le> max_llm_output_bytes
     \<and> int (length (ls_calls st)) \<le> max_llm_tool_calls \<and> distinct (map kc_ref (ls_calls st))
     \<and> ls_seen st = map kc_ref (ls_calls st)
     \<and> list_all (\<lambda>c. utf8_length (kc_ref c) \<le> max_llm_field_bytes \<and> utf8_length (kc_name c) \<le> max_llm_field_bytes) (ls_calls st)
     \<and> sum_list (map kept_bytes (ls_calls st)) \<le> ls_argument_bytes st \<and> ls_argument_bytes st \<le> max_llm_argument_bytes"

lemma refuse_within: "llm_within st \<Longrightarrow> llm_within (snd (refuse cb e st))"
  by (simp add: refuse_def llm_within_def)

lemma append_within: "llm_within st \<Longrightarrow> llm_within (snd (append_text cb s st))"
  using utf8_length_append [of "ls_text st" s]
  by (auto simp: append_text_def Let_def refuse_within) (auto simp: llm_within_def)

lemma add_call_within: "llm_within st \<Longrightarrow> llm_within (snd (add_tool_call cb c st))"
  using utf8_length_nonneg [of "safe_json_stringify (ic_input c)"]
  by (auto simp: add_tool_call_def Let_def refuse_within) (auto simp: llm_within_def kept_bytes_def)

lemma add_calls_within: "llm_within st \<Longrightarrow> llm_within (snd (add_tool_calls cb cs st))"
proof (induction cs arbitrary: st)
  case (Cons c cs)
  from add_call_within [OF Cons.prems, of cb c] Cons.IH show ?case
    by (auto split: prod.splits sum.splits)
qed simp

lemma complete_within: "llm_within st \<Longrightarrow> llm_within (snd (complete_stream cb s cs st))"
  using append_within [of st cb s] add_calls_within
  by (auto simp: complete_stream_def refuse_within split: prod.splits sum.splits)

lemma event_within: "llm_within st \<Longrightarrow> llm_within (snd (record_event cb st))"
  by (simp add: record_event_def refuse_def llm_within_def Let_def)

lemma llm_step_within: "llm_within st \<Longrightarrow> llm_within (snd (llm_step cb p st))"
  by (cases p) (simp_all add: event_within append_within add_call_within complete_within)

lemma llm_run_within: "llm_within st \<Longrightarrow> llm_within (llm_run ps st)"
  by (induction ps st rule: llm_run.induct) (simp_all add: llm_step_within)

text \<open>
  Whatever a provider sends, in whatever order and with whatever callbacks fail, a stream holds no
  more than the budgets allow: the text is what was passed on to the caller and has at most four megabytes, there are at most
  128 tool calls with names of their own, and their inputs have at most a megabyte together.
\<close>

theorem llm_stream_bounded:
  "ls_text (llm_run ps new_llm_stream) = concat (ls_emitted (llm_run ps new_llm_stream))
    \<and> utf8_length (ls_text (llm_run ps new_llm_stream)) \<le> 4194304
    \<and> length (ls_calls (llm_run ps new_llm_stream)) \<le> 128
    \<and> distinct (map kc_ref (ls_calls (llm_run ps new_llm_stream)))
    \<and> sum_list (map kept_bytes (ls_calls (llm_run ps new_llm_stream))) \<le> 1048576"
proof -
  have "llm_within (llm_run ps new_llm_stream)"
    by (rule llm_run_within) (simp add: llm_within_def new_llm_stream_def max_llm_output_bytes_def max_llm_tool_calls_def max_llm_argument_bytes_def)
  then show ?thesis
    by (simp add: llm_within_def max_llm_output_bytes_def max_llm_tool_calls_def max_llm_argument_bytes_def)
qed

text \<open>A step fails only by cancelling the provider, or with the failure of \<open>onText\<close>.\<close>

lemma append_failure: "fst (append_text cb s st) = Inl e \<Longrightarrow> ls_cancels (snd (append_text cb s st)) = ls_cancels st + 1 \<or> cb_text cb = Some e"
  by (auto simp: append_text_def refuse_def Let_def split: if_splits option.splits)

lemma append_success: "fst (append_text cb s st) = Inr u \<Longrightarrow> ls_cancels (snd (append_text cb s st)) = ls_cancels st"
  by (auto simp: append_text_def refuse_def Let_def split: if_splits option.splits)

lemma add_call_cancels: "ls_cancels (snd (add_tool_call cb c st)) = ls_cancels st + (if is_ok (fst (add_tool_call cb c st)) then 0 else 1)"
  by (auto simp: add_tool_call_def refuse_def Let_def)

lemma add_calls_cancels: "ls_cancels (snd (add_tool_calls cb cs st)) = ls_cancels st + (if is_ok (fst (add_tool_calls cb cs st)) then 0 else 1)"
proof (induction cs arbitrary: st)
  case (Cons c cs)
  show ?case using add_call_cancels [of cb c st] Cons.IH by (auto split: prod.splits sum.splits)
qed simp

theorem llm_failure_cancels:
  assumes "fst (llm_step cb p st) = Inl e"
  shows "ls_cancels (snd (llm_step cb p st)) = ls_cancels st + 1 \<or> cb_text cb = Some e"
proof (cases p)
  case RecordEvent
  then show ?thesis using assms by (auto simp: record_event_def refuse_def Let_def split: if_splits)
next
  case (AppendText s)
  then show ?thesis using assms append_failure by simp
next
  case (AddToolCall c)
  then show ?thesis using assms add_call_cancels [of cb c st] by simp
next
  case (CompleteStream s cs)
  obtain r st1 where fallback: "append_text cb s st = (r, st1)" by fastforce
  have "cb_text cb = Some e' \<or> ls_cancels st1 = ls_cancels st + 1" if "r = Inl e'" for e'
    using append_failure [of cb s st e'] that fallback by auto
  moreover have "ls_cancels st1 = ls_cancels st" if "r = Inr u" for u
    using append_success [of cb s st u] that fallback by simp
  ultimately show ?thesis using assms CompleteStream fallback add_calls_cancels [of cb cs st] add_calls_cancels [of cb cs st1]
    by (auto simp: complete_stream_def refuse_def split: if_splits sum.splits)
qed

section \<open>Truncated payloads of events\<close>

definition max_error_cause_bytes :: int where "max_error_cause_bytes = 4096"
definition max_tool_input_bytes :: int where "max_tool_input_bytes = 65536"
definition max_tool_output_bytes :: int where "max_tool_output_bytes = 8192"
definition max_preview_bytes :: nat where "max_preview_bytes = 256"

text \<open>\<open>TextEncoder\<close>: a lone surrogate is written as U+FFFD.\<close>

fun scalar_values :: "js_string \<Rightarrow> nat list" where
  "scalar_values [] = []"
| "scalar_values (u # us) =
     (if is_high u \<and> us \<noteq> [] \<and> is_low (hd us)
      then (0x10000 + (unat u - 0xD800) * 0x400 + (unat (hd us) - 0xDC00)) # scalar_values (tl us)
      else if is_high u \<or> is_low u then 0xFFFD # scalar_values us
      else unat u # scalar_values us)"

definition utf8_encode :: "js_string \<Rightarrow> nat list" where
  "utf8_encode s = concat (map utf8 (scalar_values s))"

text \<open>\<open>TextDecoder\<close> with \<open>fatal\<close>: only well-formed UTF-8 is accepted, and a leading byte order mark is dropped.\<close>

definition continuation :: "nat \<Rightarrow> bool" where
  "continuation b \<longleftrightarrow> 0x80 \<le> b \<and> b < 0xC0"

fun decode_utf8 :: "nat list \<Rightarrow> nat list option" where
  "decode_utf8 [] = Some []"
| "decode_utf8 (a # bs) =
     (if a < 0x80 then map_option (Cons a) (decode_utf8 bs)
      else if 0xC2 \<le> a \<and> a < 0xE0 then
        (case bs of b # rest \<Rightarrow>
             if continuation b then map_option (Cons ((a - 0xC0) * 0x40 + (b - 0x80))) (decode_utf8 rest) else None
           | _ \<Rightarrow> None)
      else if 0xE0 \<le> a \<and> a < 0xF0 then
        (case bs of b # c # rest \<Rightarrow>
             if continuation b \<and> continuation c \<and> (a = 0xE0 \<longrightarrow> 0xA0 \<le> b) \<and> (a = 0xED \<longrightarrow> b < 0xA0)
             then map_option (Cons ((a - 0xE0) * 0x1000 + (b - 0x80) * 0x40 + (c - 0x80))) (decode_utf8 rest) else None
           | _ \<Rightarrow> None)
      else if 0xF0 \<le> a \<and> a < 0xF5 then
        (case bs of b # c # d # rest \<Rightarrow>
             if continuation b \<and> continuation c \<and> continuation d \<and> (a = 0xF0 \<longrightarrow> 0x90 \<le> b) \<and> (a = 0xF4 \<longrightarrow> b < 0x90)
             then map_option (Cons ((a - 0xF0) * 0x40000 + (b - 0x80) * 0x1000 + (c - 0x80) * 0x40 + (d - 0x80))) (decode_utf8 rest)
             else None
           | _ \<Rightarrow> None)
      else None)"

definition fatal_decode :: "nat list \<Rightarrow> js_string option" where
  "fatal_decode bytes =
     map_option (\<lambda>cs. concat (map units (case cs of c # rest \<Rightarrow> if c = 0xFEFF then rest else cs | [] \<Rightarrow> []))) (decode_utf8 bytes)"

function decode_utf8_boundary :: "nat list \<Rightarrow> js_string" where
  "decode_utf8_boundary bytes =
     (if bytes = [] then []
      else (case fatal_decode bytes of Some s \<Rightarrow> s | None \<Rightarrow> decode_utf8_boundary (butlast bytes)))"
  by pat_completeness auto
termination by (relation "measure length") auto

declare decode_utf8_boundary.simps [simp del]

datatype kept_cause = NoCause | CauseKept | CauseUnserializable | CauseTruncated int js_string

definition truncate_error_cause :: "provider_value option \<Rightarrow> kept_cause" where
  "truncate_error_cause cause =
     (case cause of
        None \<Rightarrow> NoCause
      | Some v \<Rightarrow>
          (case pv_json v of
             StringifyThrows \<Rightarrow> CauseUnserializable
           | StringifyUndefined \<Rightarrow> CauseUnserializable
           | StringifyText s \<Rightarrow>
               if int (length (utf8_encode s)) \<le> max_error_cause_bytes then CauseKept
               else CauseTruncated (int (length (utf8_encode s))) (decode_utf8_boundary (take max_preview_bytes (utf8_encode s)))))"

datatype kept_payload = PayloadKept | PayloadNotSerializable | PayloadTruncated int

definition truncate_payload :: "int \<Rightarrow> provider_value \<Rightarrow> kept_payload" where
  "truncate_payload budget v =
     (case pv_json v of
        StringifyThrows \<Rightarrow> PayloadNotSerializable
      | StringifyUndefined \<Rightarrow> PayloadNotSerializable
      | StringifyText s \<Rightarrow>
          if int (length (utf8_encode s)) \<le> budget then PayloadKept else PayloadTruncated (int (length (utf8_encode s))))"

definition truncate_tool_input :: "provider_value \<Rightarrow> kept_payload" where
  "truncate_tool_input v = truncate_payload max_tool_input_bytes v"

definition truncate_tool_output :: "provider_value \<Rightarrow> kept_payload" where
  "truncate_tool_output v = truncate_payload max_tool_output_bytes v"

subsection \<open>The preview ends between two characters\<close>

definition scalar :: "nat \<Rightarrow> bool" where
  "scalar c \<longleftrightarrow> c < 0xD800 \<or> 0xE000 \<le> c \<and> c < 0x110000"

lemma decode_two: "2 \<le> a \<Longrightarrow> a < 32 \<Longrightarrow> r < 64 \<Longrightarrow>
    decode_utf8 ((0xC0 + a) # (0x80 + r) # rest) = map_option (Cons (a * 64 + r)) (decode_utf8 rest)"
  by (simp add: continuation_def)

lemma decode_three: "a < 16 \<Longrightarrow> b < 64 \<Longrightarrow> r < 64 \<Longrightarrow> (a = 0 \<Longrightarrow> 32 \<le> b) \<Longrightarrow> (a = 13 \<Longrightarrow> b < 32) \<Longrightarrow>
    decode_utf8 ((0xE0 + a) # (0x80 + b) # (0x80 + r) # rest) = map_option (Cons (a * 4096 + b * 64 + r)) (decode_utf8 rest)"
  by (simp add: continuation_def)

lemma decode_four: "a < 5 \<Longrightarrow> b < 64 \<Longrightarrow> d < 64 \<Longrightarrow> r < 64 \<Longrightarrow> (a = 0 \<Longrightarrow> 16 \<le> b) \<Longrightarrow> (a = 4 \<Longrightarrow> b < 16) \<Longrightarrow>
    decode_utf8 ((0xF0 + a) # (0x80 + b) # (0x80 + d) # (0x80 + r) # rest)
      = map_option (Cons (a * 262144 + b * 4096 + d * 64 + r)) (decode_utf8 rest)"
  by (simp add: continuation_def)

lemma utf8_cases:
  "c < 0x80 \<Longrightarrow> utf8 c = [c]"
  "0x80 \<le> c \<Longrightarrow> c < 0x800 \<Longrightarrow> utf8 c = [0xC0 + c div 0x40, 0x80 + c mod 0x40]"
  "0x800 \<le> c \<Longrightarrow> c < 0x10000 \<Longrightarrow> utf8 c = [0xE0 + c div 0x1000, 0x80 + c div 0x40 mod 0x40, 0x80 + c mod 0x40]"
  "0x10000 \<le> c \<Longrightarrow> utf8 c = [0xF0 + c div 0x40000, 0x80 + c div 0x1000 mod 0x40, 0x80 + c div 0x40 mod 0x40, 0x80 + c mod 0x40]"
  by (simp_all add: utf8_def)

lemma scalar_cases:
  assumes "scalar c"
  obtains "c < 0x80" "utf8 c = [c]"
  | a r where "utf8 c = [0xC0 + a, 0x80 + r]" "c = a * 64 + r" "2 \<le> a" "a < 32" "r < 64"
  | a b r where "utf8 c = [0xE0 + a, 0x80 + b, 0x80 + r]" "c = a * 4096 + b * 64 + r" "a < 16" "b < 64" "r < 64"
      "a = 0 \<Longrightarrow> 32 \<le> b" "a = 13 \<Longrightarrow> b < 32"
  | a b d r where "utf8 c = [0xF0 + a, 0x80 + b, 0x80 + d, 0x80 + r]" "c = a * 262144 + b * 4096 + d * 64 + r"
      "a < 5" "b < 64" "d < 64" "r < 64" "a = 0 \<Longrightarrow> 16 \<le> b" "a = 4 \<Longrightarrow> b < 16"
proof -
  consider "c < 0x80" | "0x80 \<le> c" "c < 0x800" | "0x800 \<le> c" "c < 0x10000" | "0x10000 \<le> c" by linarith
  then show thesis
  proof cases
    case 1
    show thesis by (rule that(1) [OF 1 utf8_cases(1) [OF 1]])
  next
    case 2
    have "2 \<le> c div 0x40" "c div 0x40 < 32" using 2 by auto
    then show thesis using that(2) [OF utf8_cases(2) [OF 2]] split_64(1) [of c] by simp
  next
    case 3
    let ?a = "c div 0x1000" and ?b = "c div 0x40 mod 0x40" and ?r = "c mod 0x40"
    have parts: "?a * 4096 + ?b * 64 + ?r = c" "?b < 64" "?r < 64" using split_64(2) [of c] by simp_all
    have a: "?a < 16" using 3 by auto
    have "?a = 0 \<Longrightarrow> 32 \<le> ?b" "?a = 13 \<Longrightarrow> ?b < 32"
      using 3 assms parts unfolding scalar_def by linarith+
    then show thesis by (rule that(3) [OF utf8_cases(3) [OF 3] parts(1) [symmetric] a parts(2,3)])
  next
    case 4
    let ?a = "c div 0x40000" and ?b = "c div 0x1000 mod 0x40" and ?d = "c div 0x40 mod 0x40" and ?r = "c mod 0x40"
    have parts: "?a * 262144 + ?b * 4096 + ?d * 64 + ?r = c" "?b < 64" "?d < 64" "?r < 64" using split_64(3) [of c] by simp_all
    have top: "c < 0x110000" using assms 4 by (auto simp: scalar_def)
    then have a: "?a < 5" using parts by linarith
    have "?a = 0 \<Longrightarrow> 16 \<le> ?b" "?a = 4 \<Longrightarrow> ?b < 16" using 4 top parts by linarith+
    then show thesis by (rule that(4) [OF utf8_cases(4) [OF 4] parts(1) [symmetric] a parts(2-4)])
  qed
qed

lemma decode_scalar: "scalar c \<Longrightarrow> decode_utf8 (utf8 c @ rest) = map_option (Cons c) (decode_utf8 rest)"
  by (erule scalar_cases) (simp_all only: append_Cons append_Nil decode_two decode_three decode_four, simp)

lemma decode_partial:
  assumes "scalar c" and "0 < m" and "m < length (utf8 c)"
  shows "decode_utf8 (take m (utf8 c)) = None"
  using assms(1)
proof (rule scalar_cases)
  fix a b d r
  assume u: "utf8 c = [0xF0 + a, 0x80 + b, 0x80 + d, 0x80 + r]"
  then have "m = 1 \<or> m = 2 \<or> m = 3" using assms(2,3) by auto
  then show ?thesis by (elim disjE) (simp_all add: u numeral_eq_Suc)
next
  fix a b r
  assume u: "utf8 c = [0xE0 + a, 0x80 + b, 0x80 + r]" "a < 16"
  then have "m = 1 \<or> m = 2" using assms(2,3) by auto
  then show ?thesis using u(2) by (elim disjE) (simp_all add: u numeral_eq_Suc)
next
  fix a r
  assume u: "utf8 c = [0xC0 + a, 0x80 + r]" "a < 32"
  then have "m = 1" using assms(2,3) by auto
  then show ?thesis using u(2) by (simp add: u)
qed (use assms in simp)

lemma decode_scalars: "list_all scalar cs \<Longrightarrow> decode_utf8 (concat (map utf8 cs) @ rest) = map_option ((@) cs) (decode_utf8 rest)"
  by (induction cs) (simp_all add: decode_scalar option.map_comp o_def fun_eq_iff map_option_case split: option.split)

lemma take_characters_bytes:
  "\<exists>k m. k \<le> length cs \<and> take n (concat (map utf8 cs)) = concat (map utf8 (take k cs)) @ (if m = 0 then [] else take m (utf8 (cs ! k)))
    \<and> (m = 0 \<or> k < length cs \<and> m < length (utf8 (cs ! k)))
    \<and> (k = length cs \<or> n < length (concat (map utf8 (take (Suc k) cs))))"
proof (induction cs arbitrary: n)
  case (Cons c cs)
  show ?case
  proof (cases "n < length (utf8 c)")
    case True
    then show ?thesis by (intro exI [of _ 0] exI [of _ n]) auto
  next
    case False
    from Cons.IH [of "n - length (utf8 c)"] obtain k m where *: "k \<le> length cs"
      "take (n - length (utf8 c)) (concat (map utf8 cs)) = concat (map utf8 (take k cs)) @ (if m = 0 then [] else take m (utf8 (cs ! k)))"
      "m = 0 \<or> k < length cs \<and> m < length (utf8 (cs ! k))"
      "k = length cs \<or> n - length (utf8 c) < length (concat (map utf8 (take (Suc k) cs)))" by blast
    then show ?thesis using False
      by (intro exI [of _ "Suc k"] exI [of _ m]) auto
  qed
qed auto

lemma boundary_of_characters:
  assumes "list_all scalar cs" and "cs = [] \<or> hd cs \<noteq> 0xFEFF" and "scalar c"
  shows "m < length (utf8 c) \<Longrightarrow> decode_utf8_boundary (concat (map utf8 cs) @ take m (utf8 c)) = concat (map units cs)"
proof (induction m)
  case 0
  have "decode_utf8 (concat (map utf8 cs)) = Some cs" using decode_scalars [OF assms(1), of "[]"] by simp
  then show ?case using assms(2)
    by (subst decode_utf8_boundary.simps) (cases cs; auto simp: fatal_decode_def utf8_def)
next
  case (Suc m)
  have part: "take (Suc m) (utf8 c) = take m (utf8 c) @ [utf8 c ! m]" using Suc.prems by (simp add: take_Suc_conv_app_nth)
  have "decode_utf8 (concat (map utf8 cs) @ take (Suc m) (utf8 c)) = None"
    using Suc.prems assms(1,3) by (simp add: decode_scalars decode_partial)
  then have "decode_utf8_boundary (concat (map utf8 cs) @ take (Suc m) (utf8 c)) = decode_utf8_boundary (concat (map utf8 cs) @ take m (utf8 c))"
    by (subst decode_utf8_boundary.simps) (simp add: fatal_decode_def part butlast_append)
  then show ?case using Suc by simp
qed

lemma code_points_scalar: "code_points s = Some cs \<Longrightarrow> list_all scalar cs \<and> scalar_values s = cs"
proof (induction s arbitrary: cs rule: code_points.induct)
  case (2 u us)
  show ?case
  proof (cases "is_high u")
    case True
    then obtain v rest ds where s: "us = v # rest" "is_low v" "code_points rest = Some ds"
        "cs = (0x10000 + (unat u - 0xD800) * 0x400 + (unat v - 0xDC00)) # ds"
      using 2(3) by (auto split: list.splits if_splits)
    then show ?thesis using 2(1) [OF True s(1,2,3)] True by (auto simp: is_high_def is_low_def scalar_def)
  next
    case False
    then obtain ds where "\<not> is_low u" "code_points us = Some ds" "cs = unat u # ds"
      using 2(3) by (auto split: if_splits)
    then show ?thesis using 2(2) [OF False] False unat_16 [of u] by (auto simp: scalar_def is_high_def is_low_def)
  qed
qed simp

lemma scalar_values_units:
  assumes "scalar c"
  shows "scalar_values (units c @ rest) = c # scalar_values rest"
proof (cases "c < 0x10000")
  case True
  then have "unat (of_nat c :: 16 word) = c" by (simp add: unat_of_nat take_bit_eq_mod)
  then show ?thesis using True assms by (auto simp: units_def is_high_def is_low_def scalar_def)
next
  case False
  let ?h = "(c - 0x10000) div 0x400" and ?l = "(c - 0x10000) mod 0x400"
  have "?h < 0x400" using False assms by (auto simp: scalar_def)
  then have h: "unat (of_nat (0xD800 + ?h) :: 16 word) = 0xD800 + ?h" by (simp add: unat_of_nat take_bit_eq_mod del: of_nat_add)
  have "?l < 0x400" by simp
  then have l: "unat (of_nat (0xDC00 + ?l) :: 16 word) = 0xDC00 + ?l" by (simp add: unat_of_nat take_bit_eq_mod del: of_nat_add)
  have "0x10000 + ?h * 0x400 + ?l = c" using False div_mult_mod_eq [of "c - 0x10000" "0x400"] by linarith
  then show ?thesis using False h l \<open>?h < 0x400\<close> \<open>?l < 0x400\<close> by (simp add: units_def is_high_def is_low_def del: of_nat_add)
qed

lemma encode_units: "list_all scalar cs \<Longrightarrow> utf8_encode (concat (map units cs)) = concat (map utf8 cs)"
proof -
  assume "list_all scalar cs"
  then have "scalar_values (concat (map units cs)) = cs" by (induction cs) (simp_all add: scalar_values_units)
  then show ?thesis by (simp add: utf8_encode_def)
qed

text \<open>
  Property C34: the preview of an oversized error cause is the longest run of whole characters of its text that fits in
  256 bytes: no character is cut and none is replaced. The text is what \<open>JSON.stringify\<close> returned, so
  well-formed and without a byte order mark.
\<close>

theorem cause_preview_is_longest:
  assumes "pv_json v = StringifyText s" and "code_points s = Some cs" and "s = [] \<or> hd s \<noteq> 0xFEFF"
    and "truncate_error_cause (Some v) = CauseTruncated n preview"
  shows "\<exists>k < length cs. preview = concat (map units (take k cs)) \<and> prefix preview s
    \<and> length (utf8_encode preview) \<le> 256 \<and> 256 < length (utf8_encode (concat (map units (take (Suc k) cs))))"
proof -
  have good: "list_all scalar cs" "scalar_values s = cs" using code_points_scalar [OF assms(2)] by simp_all
  have enc: "utf8_encode s = concat (map utf8 cs)" by (simp add: utf8_encode_def good(2))
  have n: "preview = decode_utf8_boundary (take 256 (concat (map utf8 cs)))" "4096 < int (length (concat (map utf8 cs)))"
    using assms(1,4) by (auto simp: truncate_error_cause_def enc max_preview_bytes_def max_error_cause_bytes_def split: if_splits)
  obtain k m where *: "k \<le> length cs"
    "take 256 (concat (map utf8 cs)) = concat (map utf8 (take k cs)) @ (if m = 0 then [] else take m (utf8 (cs ! k)))"
    "m = 0 \<or> k < length cs \<and> m < length (utf8 (cs ! k))"
    "k = length cs \<or> 256 < length (concat (map utf8 (take (Suc k) cs)))" using take_characters_bytes by blast
  have k: "k < length cs"
  proof (rule ccontr)
    assume "\<not> k < length cs"
    then have "length (take 256 (concat (map utf8 cs))) = length (concat (map utf8 cs))" using * by auto
    then show False using n(2) by simp
  qed
  have some: "list_all scalar (take k cs)" "list_all scalar (take (Suc k) cs)" "scalar (cs ! k)"
    using good(1) k by (auto simp: list_all_iff dest: in_set_takeD)
  have bytes: "take 256 (concat (map utf8 cs)) = concat (map utf8 (take k cs)) @ take m (utf8 (cs ! k))" "m < length (utf8 (cs ! k))"
    using * by (auto simp: utf8_def split: if_splits)
  have "take k cs = [] \<or> hd (take k cs) \<noteq> 0xFEFF"
  proof (cases cs)
    case (Cons c ds)
    have "hd s \<noteq> 0xFEFF" using assms(2,3) Cons by (cases s) auto
    then have "c \<noteq> 0xFEFF"
      using code_points_units [OF assms(2)] Cons by (auto simp: units_def)
    then show ?thesis using Cons by (cases k) simp_all
  qed simp
  from boundary_of_characters [OF some(1) this some(3) bytes(2)] have preview: "preview = concat (map units (take k cs))"
    using n(1) bytes(1) by simp
  have "s = preview @ concat (map units (drop k cs))"
    unfolding preview using code_points_units [OF assms(2)] by (metis append_take_drop_id concat_append map_append)
  then have "prefix preview s" by (simp add: prefix_def)
  moreover have "length (concat (map utf8 (take k cs))) \<le> 256"
  proof -
    have "length (concat (map utf8 (take k cs)) @ take m (utf8 (cs ! k))) \<le> 256" unfolding bytes(1) [symmetric] by simp
    then show ?thesis by simp
  qed
  ultimately show ?thesis using k preview * some by (auto simp: encode_units)
qed

section \<open>Alignment of spoken text\<close>

definition max_alignment_tokens :: nat where "max_alignment_tokens = 16384"
definition max_alignment_token_bytes :: int where "max_alignment_token_bytes = 1048576"
definition max_alignment_entries :: nat where "max_alignment_entries = 16384"

datatype alignment_unit = CharacterUnit | WordUnit

text \<open>The aligned tokens of a turn, the start times of its characters, and the bytes of the tokens.\<close>

record alignment =
  al_tokens :: "js_string list"
  al_starts :: "rat list"
  al_bytes :: int

definition nth_start :: "rat list \<Rightarrow> nat \<Rightarrow> rat option" where
  "nth_start starts i = (if i < length starts then Some (starts ! i) else None)"

fun character_additions :: "rat list \<Rightarrow> rat list \<Rightarrow> nat \<Rightarrow> js_string list \<Rightarrow> rat list \<Rightarrow> js_string list \<times> rat list" where
  "character_additions known starts i [] seen = ([], seen)"
| "character_additions known starts i (token # tokens) seen =
     (case nth_start starts i of
        None \<Rightarrow> (let (added, seen') = character_additions known starts (i + 1) tokens seen in (token # added, seen'))
      | Some s \<Rightarrow>
          if s \<in> set known \<or> s \<in> set seen then character_additions known starts (i + 1) tokens seen
          else (let (added, seen') = character_additions known starts (i + 1) tokens (seen @ [s]) in (token # added, seen')))"

text \<open>The longest run of tokens that ends the target and starts the event, tried from the longest on.\<close>

fun overlap_loop :: "js_string list \<Rightarrow> js_string list \<Rightarrow> nat \<Rightarrow> nat" where
  "overlap_loop target incoming 0 = 0"
| "overlap_loop target incoming (Suc k) =
     (if drop (length target - Suc k) target = take (Suc k) incoming then Suc k else overlap_loop target incoming k)"

definition word_additions :: "js_string list \<Rightarrow> js_string list \<Rightarrow> js_string list" where
  "word_additions target incoming = drop (overlap_loop target incoming (min (length target) (length incoming))) incoming"

fun count_bytes_loop :: "nat \<Rightarrow> int \<Rightarrow> int \<Rightarrow> js_string list \<Rightarrow> int result" where
  "count_bytes_loop total_tokens current added [] = Inr added"
| "count_bytes_loop total_tokens current added (token # tokens) =
     (let token_bytes = utf8_length token; added' = added + token_bytes
      in if \<not> is_safe_integer token_bytes \<or> \<not> is_safe_integer added' \<or> max_alignment_tokens < total_tokens
            \<or> max_alignment_token_bytes < current + added'
         then Inl resource_limit_error
         else count_bytes_loop total_tokens current added' tokens)"

definition append_aligned_tokens ::
  "js_string list \<Rightarrow> alignment_unit \<Rightarrow> rat list \<Rightarrow> alignment \<Rightarrow> unit result \<times> alignment" where
  "append_aligned_tokens incoming unit starts al =
     (if max_alignment_entries < length incoming \<or> max_alignment_entries < length starts then (Inl resource_limit_error, al)
      else if max_alignment_tokens < length (al_tokens al) \<or> \<not> is_safe_integer (al_bytes al) \<or> max_alignment_token_bytes < al_bytes al
      then (Inl resource_limit_error, al)
      else
        (let (additions, new_starts) =
               (if unit = CharacterUnit then character_additions (al_starts al) starts 0 incoming []
                else (word_additions (al_tokens al) incoming, []))
         in case count_bytes_loop (length additions + length (al_tokens al)) (al_bytes al) 0 additions of
              Inl e \<Rightarrow> (Inl e, al)
            | Inr added \<Rightarrow> (Inr (), al\<lparr>al_starts := al_starts al @ new_starts, al_tokens := al_tokens al @ additions,
                                        al_bytes := al_bytes al + added\<rparr>)))"

fun align_run :: "(js_string list \<times> alignment_unit \<times> rat list) list \<Rightarrow> alignment \<Rightarrow> alignment" where
  "align_run [] al = al"
| "align_run ((incoming, unit, starts) # es) al = align_run es (snd (append_aligned_tokens incoming unit starts al))"

definition new_alignment :: alignment where
  "new_alignment = \<lparr>al_tokens = [], al_starts = [], al_bytes = 0\<rparr>"

definition alignment_ok :: "alignment \<Rightarrow> bool" where
  "alignment_ok al \<longleftrightarrow> al_bytes al = sum_list (map utf8_length (al_tokens al)) \<and> al_bytes al \<le> max_alignment_token_bytes
     \<and> length (al_tokens al) \<le> max_alignment_tokens \<and> distinct (al_starts al)"

lemma count_bytes_loop_Inr:
  "count_bytes_loop n current added ts = Inr b \<Longrightarrow>
    b = added + sum_list (map utf8_length ts) \<and> (ts \<noteq> [] \<longrightarrow> n \<le> max_alignment_tokens \<and> current + b \<le> max_alignment_token_bytes)"
proof (induction n current added ts rule: count_bytes_loop.induct)
  case (2 n current added token tokens)
  then show ?case by (cases tokens) (auto simp: Let_def split: if_splits)
qed simp

lemma character_additions_distinct:
  "distinct (known @ seen) \<Longrightarrow> distinct (known @ snd (character_additions known starts i ts seen))"
  by (induction known starts i ts seen rule: character_additions.induct)
    (auto simp: split_beta Let_def split: option.split)

lemma append_aligned_cases:
  obtains e where "append_aligned_tokens incoming unit starts al = (Inl e, al)"
  | additions new_starts added where
      "append_aligned_tokens incoming unit starts al = (Inr (), al\<lparr>al_starts := al_starts al @ new_starts,
         al_tokens := al_tokens al @ additions, al_bytes := al_bytes al + added\<rparr>)"
      "count_bytes_loop (length additions + length (al_tokens al)) (al_bytes al) 0 additions = Inr added"
      "(additions, new_starts) = (if unit = CharacterUnit then character_additions (al_starts al) starts 0 incoming []
        else (word_additions (al_tokens al) incoming, []))"
proof -
  obtain additions new_starts where parts: "(if unit = CharacterUnit then character_additions (al_starts al) starts 0 incoming []
        else (word_additions (al_tokens al) incoming, [])) = (additions, new_starts)" by fastforce
  let ?count = "count_bytes_loop (length additions + length (al_tokens al)) (al_bytes al) 0 additions"
  have "append_aligned_tokens incoming unit starts al = (Inl resource_limit_error, al)
    \<or> append_aligned_tokens incoming unit starts al = (case ?count of Inl e \<Rightarrow> (Inl e, al)
        | Inr added \<Rightarrow> (Inr (), al\<lparr>al_starts := al_starts al @ new_starts, al_tokens := al_tokens al @ additions,
                                  al_bytes := al_bytes al + added\<rparr>))"
    unfolding append_aligned_tokens_def parts Let_def prod.case by presburger
  then show thesis using that(1) that(2) [OF _ _ parts [symmetric]] by (cases ?count) auto
qed

lemma append_aligned_ok:
  assumes ok: "alignment_ok al"
  shows "alignment_ok (snd (append_aligned_tokens incoming unit starts al))"
proof (cases rule: append_aligned_cases [of incoming unit starts al])
  case (2 additions new_starts added)
  have "distinct (al_starts al @ snd (character_additions (al_starts al) starts 0 incoming []))"
    by (rule character_additions_distinct) (use ok in \<open>simp add: alignment_ok_def\<close>)
  then have "distinct (al_starts al @ new_starts)" using arg_cong [OF 2(3), of snd] ok by (simp add: alignment_ok_def split: if_splits)
  then show ?thesis using ok count_bytes_loop_Inr [OF 2(2)] unfolding 2(1) by (cases "additions = []") (auto simp: alignment_ok_def)
qed (use ok in simp)

lemma overlap_loop_spec:
  "overlap_loop target incoming n \<le> n"
  "drop (length target - overlap_loop target incoming n) target = take (overlap_loop target incoming n) incoming \<or> overlap_loop target incoming n = 0"
  "overlap_loop target incoming n < j \<Longrightarrow> j \<le> n \<Longrightarrow> drop (length target - j) target \<noteq> take j incoming"
  by (induction n) (auto simp: le_Suc_eq split: if_splits)

lemma suffix_take_iff: "j \<le> length xs \<Longrightarrow> suffix (take j xs) ts \<longleftrightarrow> j \<le> length ts \<and> drop (length ts - j) ts = take j xs"
proof
  assume j: "j \<le> length xs" and "suffix (take j xs) ts"
  then obtain us where "ts = us @ take j xs" by (auto simp: suffix_def)
  then show "j \<le> length ts \<and> drop (length ts - j) ts = take j xs" using j by simp
next
  assume "j \<le> length ts \<and> drop (length ts - j) ts = take j xs"
  then show "suffix (take j xs) ts" by (metis append_take_drop_id suffix_def)
qed

text \<open>
  An alignment event in words continues the text exactly where it ends. What is already there, the longest run of the event's
  first words that the text ends with, is skipped, and the rest is appended in order.
\<close>

theorem aligned_words_continue:
  assumes "append_aligned_tokens incoming WordUnit starts al = (Inr (), al')"
  shows "\<exists>k \<le> length incoming. al_tokens al' = al_tokens al @ drop k incoming \<and> suffix (take k incoming) (al_tokens al)
    \<and> (\<forall>j \<le> length incoming. k < j \<longrightarrow> \<not> suffix (take j incoming) (al_tokens al))"
proof (cases rule: append_aligned_cases [of incoming WordUnit starts al])
  case (2 additions new_starts added)
  let ?n = "min (length (al_tokens al)) (length incoming)"
  let ?k = "overlap_loop (al_tokens al) incoming ?n"
  note spec = overlap_loop_spec [of "al_tokens al" incoming ?n]
  have tokens: "al_tokens al' = al_tokens al @ drop ?k incoming" using 2 assms by (auto simp: word_additions_def)
  have k: "?k \<le> length incoming" "?k \<le> length (al_tokens al)" using spec(1) by linarith+
  then have "suffix (take ?k incoming) (al_tokens al)" using spec(2) by (auto simp: suffix_take_iff)
  moreover have "\<not> suffix (take j incoming) (al_tokens al)" if "j \<le> length incoming" "?k < j" for j
    using that spec(3) [of j] by (auto simp: suffix_take_iff)
  ultimately show ?thesis using tokens k by blast
qed (use assms in simp)

text \<open>
  The alignment of a turn never exceeds its token and byte budgets, its byte counter is the size of its tokens, and no
  start time of a character is taken twice.
\<close>

theorem alignment_bounded:
  "al_bytes (align_run es new_alignment) = sum_list (map utf8_length (al_tokens (align_run es new_alignment)))
    \<and> al_bytes (align_run es new_alignment) \<le> 1048576 \<and> length (al_tokens (align_run es new_alignment)) \<le> 16384
    \<and> distinct (al_starts (align_run es new_alignment))"
proof -
  have run: "alignment_ok al \<Longrightarrow> alignment_ok (align_run es al)" for al
    by (induction es al rule: align_run.induct) (simp_all add: append_aligned_ok)
  have "alignment_ok (align_run es new_alignment)"
    by (rule run) (simp add: alignment_ok_def new_alignment_def max_alignment_token_bytes_def)
  then show ?thesis by (simp add: alignment_ok_def max_alignment_token_bytes_def max_alignment_tokens_def)
qed

section \<open>Examples\<close>

lemmas alignment_defs = append_aligned_tokens_def word_additions_def is_safe_integer_def max_safe_integer_def
  max_alignment_entries_def max_alignment_tokens_def max_alignment_token_bytes_def

definition greeting :: alignment where
  "greeting = \<lparr>al_tokens = [[115], [119], [103]], al_starts = [], al_bytes = 3\<rparr>"

lemma greeting_continues:
  "append_aligned_tokens [[119], [103], [111]] WordUnit [] greeting
    = (Inr (), greeting\<lparr>al_tokens := [[115], [119], [103], [111]], al_bytes := 4\<rparr>)"
  by (simp add: alignment_defs greeting_def)

theorem aligned_words_continue_witness:
  "\<exists>k. [[115], [119], [103], [111]] = [[115], [119], [103]] @ drop k [[119], [103], [111 :: 16 word]]"
  using aligned_words_continue [OF greeting_continues] by (auto simp: greeting_def)

text \<open>
  A word that is said twice is lost from the text when the second time comes in an event of its own: the
  overlap is taken for a repetition of the event.
\<close>

lemma repeated_word_is_lost:
  "al_tokens (align_run [([[110]], WordUnit, []), ([[110]], WordUnit, []), ([[115]], WordUnit, [])] new_alignment) = [[110], [115]]"
  by (simp add: alignment_defs new_alignment_def)

definition long_cause :: provider_value where
  "long_cause = \<lparr>pv_json = StringifyText (replicate 5000 97), pv_stable = True\<rparr>"

lemma ascii_replicate:
  "code_points (replicate n 97) = Some (replicate n 97)" "utf8_encode (replicate n 97) = replicate n 97"
  "concat (map units (replicate n 97)) = replicate n 97"
proof -
  have "scalar_values (replicate n 97) = replicate n 97" "concat (map utf8 (replicate n 97)) = replicate n 97"
    by (induction n) (simp_all add: is_high_def is_low_def utf8_def)
  then show "utf8_encode (replicate n 97) = replicate n 97" by (simp only: utf8_encode_def)
  show "code_points (replicate n 97) = Some (replicate n 97)" "concat (map units (replicate n 97)) = replicate n 97"
    by (induction n) (simp_all add: is_high_def is_low_def units_def)
qed

lemma long_cause_truncated:
  "truncate_error_cause (Some long_cause) = CauseTruncated 5000 (decode_utf8_boundary (take 256 (replicate 5000 97)))"
  unfolding truncate_error_cause_def long_cause_def provider_value.simps option.case stringified.case ascii_replicate
  by (simp add: max_error_cause_bytes_def max_preview_bytes_def del: take_replicate)

theorem cause_preview_is_longest_witness:
  "truncate_error_cause (Some long_cause) = CauseTruncated 5000 (replicate 256 97)"
proof -
  let ?preview = "decode_utf8_boundary (take 256 (replicate 5000 97))"
  have json: "pv_json long_cause = StringifyText (replicate 5000 97)" by (simp add: long_cause_def)
  have no_mark: "replicate 5000 97 = ([] :: js_string) \<or> hd (replicate 5000 (97 :: 16 word)) \<noteq> 0xFEFF" by simp
  from cause_preview_is_longest [OF json ascii_replicate(1) no_mark long_cause_truncated] obtain k where k:
    "k < length (replicate 5000 (97 :: nat))" "?preview = concat (map units (take k (replicate 5000 97)))"
    "length (utf8_encode ?preview) \<le> 256" "256 < length (utf8_encode (concat (map units (take (Suc k) (replicate 5000 97)))))"
    by blast
  have cut: "take j (replicate 5000 x) = replicate j x" if "j \<le> 5000" for j and x :: nat using that by (simp add: min_def)
  have le: "k \<le> 5000" "Suc k \<le> 5000" using k(1) by simp_all
  have preview: "?preview = replicate k 97" using k(2) unfolding cut [OF le(1)] ascii_replicate .
  have "k \<le> 256" using k(3) unfolding preview ascii_replicate by simp
  moreover have "256 < Suc k" using k(4) unfolding cut [OF le(2)] ascii_replicate by simp
  ultimately have "k = 256" by simp
  with preview show ?thesis unfolding long_cause_truncated by simp
qed

end
