(* ===== verification/Stable_Text.thy ===== *)
theory Stable_Text
  imports Schema_Validation "HOL-Library.AList"
begin

text \<open>
  The stable serialization of tool values: tools/src/serialization.ts, with the serialization
  of values that are shaped like a normalized error, core/src/error-serialization.ts and
  core/src/errors.ts. The values are plain JSON data, the entries of an object in the order
  they are enumerated; they have no cycles, accessors, symbols or prototypes of their own.
\<close>

section \<open>Values shaped like an error\<close>

text \<open>A code is two or more words joined by dots; a word is a lower case letter, then lower case letters, digits and underscores.\<close>

definition lower_letter :: "16 word \<Rightarrow> bool" where
  "lower_letter u \<longleftrightarrow> 97 \<le> unat u \<and> unat u \<le> 122"

definition word_character :: "16 word \<Rightarrow> bool" where
  "word_character u \<longleftrightarrow> lower_letter u \<or> 48 \<le> unat u \<and> unat u \<le> 57 \<or> u = 95"

text \<open>The rest of a code, inside a word; the flag tells whether a dot was seen.\<close>

fun code_rest :: "bool \<Rightarrow> js_string \<Rightarrow> bool" where
  "code_rest dotted [] = dotted"
| "code_rest dotted (u # us) =
     (if word_character u then code_rest dotted us
      else u = 46 \<and> (case us of v # rest \<Rightarrow> lower_letter v \<and> code_rest True rest | [] \<Rightarrow> False))"

definition is_valid_error_code :: "js_string \<Rightarrow> bool" where
  "is_valid_error_code s \<longleftrightarrow> length s \<le> 128 \<and> (case s of u # us \<Rightarrow> lower_letter u \<and> code_rest False us | [] \<Rightarrow> False)"

definition error_names_by_category :: "(js_string \<times> js_string list) list" where
  "error_names_by_category =
     [(js ''validation'', [js ''ValidationError'', js ''InvalidRequestError'']),
      (js ''auth'', [js ''AuthError'', js ''SignatureError'']),
      (js ''provider'', [js ''ProviderError'']),
      (js ''network'', [js ''ConnectionError'']),
      (js ''timeout'', [js ''TimeoutError'']),
      (js ''rate_limit'', [js ''RateLimitError'']),
      (js ''cancelled'', [js ''CancelledError'']),
      (js ''interrupted'', [js ''InterruptedError'']),
      (js ''tool'', [js ''ToolError'']),
      (js ''media'', [js ''MediaError'']),
      (js ''internal'', [js ''InternalError'', js ''UnknownError''])]"

fun string_of :: "js_value option \<Rightarrow> js_string option" where
  "string_of (Some (JString s)) = Some s"
| "string_of v = None"

definition names_of_category :: "js_value option \<Rightarrow> js_string list" where
  "names_of_category v =
     (case string_of v of None \<Rightarrow> [] | Some c \<Rightarrow> (case map_of error_names_by_category c of None \<Rightarrow> [] | Some names \<Rightarrow> names))"

text \<open>\<open>isNormalizedError\<close> of an object's entries. A name of a category is one of the known names.\<close>

definition error_shaped :: "(js_string \<times> js_value) list \<Rightarrow> bool" where
  "error_shaped kvs \<longleftrightarrow>
     (case string_of (map_of kvs (js ''name'')) of None \<Rightarrow> False | Some n \<Rightarrow> n \<in> set (names_of_category (map_of kvs (js ''category''))))
     \<and> (case string_of (map_of kvs (js ''code'')) of None \<Rightarrow> False | Some c \<Rightarrow> is_valid_error_code c)
     \<and> (case string_of (map_of kvs (js ''message'')) of None \<Rightarrow> False | Some m \<Rightarrow> m \<noteq> [])
     \<and> (case map_of kvs (js ''retriable'') of Some (JBool b) \<Rightarrow> True | _ \<Rightarrow> False)
     \<and> (case map_of kvs (js ''provider'') of None \<Rightarrow> True | Some (JString s) \<Rightarrow> True | _ \<Rightarrow> False)
     \<and> (case map_of kvs (js ''metadata'') of None \<Rightarrow> True | Some (JObject m) \<Rightarrow> True | _ \<Rightarrow> False)"

section \<open>Bounded serialization of an error\<close>

definition max_cause_depth :: nat where "max_cause_depth = 8"
definition max_cause_nodes :: nat where "max_cause_nodes = 256"
definition max_cause_array :: nat where "max_cause_array = 256"
definition max_cause_string :: nat where "max_cause_string = 256"

fun make_well_formed :: "js_string \<Rightarrow> js_string" where
  "make_well_formed [] = []"
| "make_well_formed (u # us) =
     (if is_high u then
        (case us of
           v # rest \<Rightarrow> if is_low v then u # v # make_well_formed rest else 0xFFFD # make_well_formed us
         | [] \<Rightarrow> [0xFFFD])
      else if is_low u then 0xFFFD # make_well_formed us
      else u # make_well_formed us)"

definition truncated_mark :: js_string where
  "truncated_mark = js ''[Truncated]''"

definition bounded_json_string :: "js_string \<Rightarrow> js_string" where
  "bounded_json_string s =
     (let w = make_well_formed s; stop = max_cause_string - length truncated_mark
      in if length w \<le> max_cause_string then w
         else take (if is_high (w ! (stop - 1)) then stop - 1 else stop) w @ truncated_mark)"

definition error_summary :: "(js_string \<times> js_value) list \<Rightarrow> js_value" where
  "error_summary kvs =
     JObject (List.map_filter (\<lambda>(k, f). map_option (\<lambda>s. (k, JString (f s))) (string_of (map_of kvs k)))
       [(js ''name'', id), (js ''code'', id), (js ''message'', bounded_json_string)])"

text \<open>\<open>Object.defineProperty\<close> for one entry after the other.\<close>

definition define_all :: "(js_string \<times> js_value) list \<Rightarrow> (js_string \<times> js_value) list" where
  "define_all kvs = fold (\<lambda>(k, v) obj. AList.update k v obj) kvs []"

text \<open>
  \<open>serializeJsonValue\<close>: the number of nodes so far is passed on. An array is cut after 256 elements, an object
  where the nodes are used up, and a value nested too deep is replaced.
\<close>

fun serialize_value :: "bool \<Rightarrow> nat \<Rightarrow> nat \<Rightarrow> js_value \<Rightarrow> js_value \<times> nat"
  and serialize_items :: "bool \<Rightarrow> nat \<Rightarrow> nat \<Rightarrow> nat \<Rightarrow> js_value list \<Rightarrow> js_value list \<times> nat"
  and serialize_entries :: "bool \<Rightarrow> nat \<Rightarrow> nat \<Rightarrow> (js_string \<times> js_value) list \<Rightarrow> (js_string \<times> js_value) list \<times> nat" where
  "serialize_value summarize depth nodes v =
     (if max_cause_depth \<le> depth then (JString (js ''[MaxDepth]''), nodes)
      else if max_cause_nodes \<le> nodes then (JString (js ''[MaxNodes]''), nodes)
      else (case v of
          JString s \<Rightarrow> (JString (bounded_json_string s), nodes + 1)
        | JArray vs \<Rightarrow>
            (let (items, nodes') = serialize_items summarize (depth + 1) (nodes + 1) max_cause_array vs
             in (JArray (items @ (if max_cause_array < length vs then [JString truncated_mark] else [])), nodes'))
        | JObject kvs \<Rightarrow>
            if summarize \<and> error_shaped kvs then (error_summary kvs, nodes + 1)
            else (let (entries, nodes') = serialize_entries summarize (depth + 1) (nodes + 1) kvs in (JObject (define_all entries), nodes'))
        | _ \<Rightarrow> (v, nodes + 1)))"
| "serialize_items summarize depth nodes room [] = ([], nodes)"
| "serialize_items summarize depth nodes room (v # vs) =
     (if room = 0 then ([], nodes)
      else if max_cause_nodes \<le> nodes then ([JString (js ''[MaxNodes]'')], nodes)
      else (let (v', n1) = serialize_value summarize depth nodes v;
                (vs', n2) = serialize_items summarize depth n1 (room - 1) vs
            in (v' # vs', n2)))"
| "serialize_entries summarize depth nodes [] = ([], nodes)"
| "serialize_entries summarize depth nodes ((k, v) # kvs) =
     (if max_cause_nodes \<le> nodes then ([(truncated_mark, JString (js ''[MaxNodes]''))], nodes)
      else if max_cause_string < length k then serialize_entries summarize depth (nodes + 1) kvs
      else (let (v', n1) = serialize_value summarize depth (nodes + 1) v;
                (kvs', n2) = serialize_entries summarize depth n1 kvs
            in ((k, v') # kvs', n2)))"

declare serialize_value.simps [simp del]

definition serializable_error :: "(js_string \<times> js_value) list \<Rightarrow> (js_string \<times> js_value) list" where
  "serializable_error kvs =
     List.map_filter (\<lambda>(k, f). map_option (\<lambda>v. (k, f v)) (map_of kvs k))
       [(js ''name'', id), (js ''code'', id), (js ''category'', id),
        (js ''message'', \<lambda>v. case v of JString s \<Rightarrow> JString (bounded_json_string s) | _ \<Rightarrow> v),
        (js ''retriable'', id),
        (js ''provider'', \<lambda>v. case v of JString s \<Rightarrow> JString (bounded_json_string s) | _ \<Rightarrow> v),
        (js ''cause'', \<lambda>v. fst (serialize_value True 0 0 v)),
        (js ''metadata'', \<lambda>v. case fst (serialize_value False 0 0 v) of JObject m \<Rightarrow> JObject m | _ \<Rightarrow> JObject [])]"

fun height :: "js_value \<Rightarrow> nat" where
  "height (JArray vs) = Suc (foldr max (map height vs) 0)"
| "height (JObject kvs) = Suc (foldr max (map (\<lambda>(k, v). height v) kvs) 0)"
| "height v = 0"

lemma foldr_max_le: "foldr max ns (0 :: nat) \<le> m \<longleftrightarrow> (\<forall>n \<in> set ns. n \<le> m)"
  by (induction ns) auto

lemma height_array: "height (JArray vs) \<le> Suc m \<longleftrightarrow> (\<forall>v \<in> set vs. height v \<le> m)"
  by (simp add: foldr_max_le)

lemma height_object: "height (JObject kvs) \<le> Suc m \<longleftrightarrow> (\<forall>v \<in> snd ` set kvs. height v \<le> m)"
  by (auto simp: foldr_max_le)

lemma height_entry: "(k, v) \<in> set kvs \<Longrightarrow> height v < height (JObject kvs)"
  using height_object [of kvs "foldr max (map (\<lambda>(k, v). height v) kvs) 0"] by (force simp: less_Suc_eq_le)

lemma height_item: "v \<in> set vs \<Longrightarrow> height v < height (JArray vs)"
  using height_array [of vs "foldr max (map height vs) 0"] by (force simp: less_Suc_eq_le)

lemma define_all_values: "set (define_all kvs) \<subseteq> set kvs"
proof -
  have "set (fold (\<lambda>(k, v) obj. AList.update k v obj) kvs obj) \<subseteq> set obj \<union> set kvs" for obj
  proof (induction kvs arbitrary: obj)
    case (Cons kv kvs)
    have "set (AList.update k v obj) \<subseteq> insert (k, v) (set obj)" for k v and obj :: "(js_string \<times> js_value) list"
      by (induction obj) auto
    with Cons [of "AList.update (fst kv) (snd kv) obj"] show ?case by (fastforce simp: split_beta)
  qed simp
  from this [of "[]"] show ?thesis by (simp add: define_all_def)
qed

lemma summary_height: "height (error_summary kvs) \<le> 1"
  by (auto simp: error_summary_def List.map_filter_def foldr_max_le)

lemma serialize_height:
  "height (fst (serialize_value b d n v)) \<le> height v"
  "(\<forall>v \<in> set vs. height v \<le> m) \<Longrightarrow> \<forall>w \<in> set (fst (serialize_items b d n r vs)). height w \<le> m"
  "(\<forall>v \<in> snd ` set kvs. height v \<le> m) \<Longrightarrow> \<forall>w \<in> snd ` set (fst (serialize_entries b d n kvs)). height w \<le> m"
proof (induction b d n v and b d n r vs and b d n kvs arbitrary: and m and m
    rule: serialize_value_serialize_items_serialize_entries.induct)
  case (1 b d n v)
  show ?case
  proof (cases v)
    case (JArray vs)
    let ?m = "foldr max (map height vs) 0"
    have below: "\<forall>w \<in> set vs. height w \<le> ?m" using height_array [of vs ?m] by simp
    show ?thesis
    proof (cases "max_cause_depth \<le> d \<or> max_cause_nodes \<le> n")
      case False
      then have "\<forall>w \<in> set (fst (serialize_items b (d + 1) (n + 1) max_cause_array vs)). height w \<le> ?m"
        using 1(1) [OF _ _ JArray below] by simp
      then show ?thesis using False JArray
        by (subst serialize_value.simps) (auto simp: split_beta foldr_max_le)
    qed (subst serialize_value.simps, auto)
  next
    case (JObject kvs)
    let ?m = "foldr max (map (\<lambda>(k, v). height v) kvs) 0"
    have below: "\<forall>w \<in> snd ` set kvs. height w \<le> ?m" using height_object [of kvs ?m] by simp
    show ?thesis
    proof (cases "max_cause_depth \<le> d \<or> max_cause_nodes \<le> n \<or> b \<and> error_shaped kvs")
      case False
      then have "\<forall>w \<in> snd ` set (fst (serialize_entries b (d + 1) (n + 1) kvs)). height w \<le> ?m"
        using 1(2) [OF _ _ JObject _ below] by simp
      then have "\<forall>w \<in> snd ` set (define_all (fst (serialize_entries b (d + 1) (n + 1) kvs))). height w \<le> ?m"
        using define_all_values by fast
      then show ?thesis using False JObject
        by (subst serialize_value.simps) (auto simp: split_beta foldr_max_le)
    qed (subst serialize_value.simps, use summary_height [of kvs] JObject in auto)
  qed (subst serialize_value.simps, simp)+
next
  case (3 b d n r v vs)
  obtain v' n1 where e: "serialize_value b d n v = (v', n1)" by fastforce
  have "height v' \<le> m" if "r \<noteq> 0" "\<not> max_cause_nodes \<le> n" using 3(1) [OF that] 3(3) by (simp add: e)
  moreover have "\<forall>w \<in> set (fst (serialize_items b d n1 (r - 1) vs)). height w \<le> m" if "r \<noteq> 0" "\<not> max_cause_nodes \<le> n"
    using 3(2) [OF that e [symmetric]] 3(3) by simp
  ultimately show ?case by (simp add: e split_beta)
next
  case (5 b d n k v kvs)
  obtain v' n1 where e: "serialize_value b d (n + 1) v = (v', n1)" by fastforce
  have skip: "\<forall>w \<in> snd ` set (fst (serialize_entries b d (n + 1) kvs)). height w \<le> m" if "\<not> max_cause_nodes \<le> n" "max_cause_string < length k"
    using 5(1) [OF that] 5(4) by simp
  have one: "height v' \<le> m" if "\<not> max_cause_nodes \<le> n" "\<not> max_cause_string < length k" using 5(2) [OF that] 5(4) by (simp add: e [simplified])
  have rest: "\<forall>w \<in> snd ` set (fst (serialize_entries b d n1 kvs)). height w \<le> m" if "\<not> max_cause_nodes \<le> n" "\<not> max_cause_string < length k"
    using 5(3) [OF that e [symmetric]] 5(4) by simp
  show ?case
  proof (cases "max_cause_nodes \<le> n \<or> max_cause_string < length k")
    case True
    then show ?thesis using skip by (auto simp: not_le)
  next
    case False
    then show ?thesis using one rest by (simp add: e [simplified] split_beta)
  qed
qed simp_all

lemma metadata_is_object: "\<exists>m'. fst (serialize_value False 0 0 (JObject m)) = JObject m'"
  by (subst serialize_value.simps) (simp add: max_cause_depth_def max_cause_nodes_def split_beta)

lemma in_map_filter: "y \<in> set (List.map_filter f xs) \<longleftrightarrow> (\<exists>x \<in> set xs. f x = Some y)"
  by (force simp: List.map_filter_def)

lemma serializable_height:
  assumes "error_shaped kvs" and "(k, w) \<in> set (serializable_error kvs)"
  shows "height w < height (JObject kvs)"
proof -
  have entry: "height v < height (JObject kvs)" if "map_of kvs k = Some v" for k v
    using map_of_SomeD [OF that] by (rule height_entry)
  have string: "height (case v of JString s \<Rightarrow> JString (f s) | _ \<Rightarrow> v) = height v" for f v
    by (cases v) simp_all
  have cause: "height (fst (serialize_value True 0 0 v)) \<le> height v" for v by (rule serialize_height(1))
  have metadata: "height (case fst (serialize_value False 0 0 v) of JObject m \<Rightarrow> JObject m | _ \<Rightarrow> JObject []) \<le> height v"
    if "map_of kvs (js ''metadata'') = Some v" for v
  proof -
    note found = that
    have "case map_of kvs (js ''metadata'') of None \<Rightarrow> True | Some (JObject m) \<Rightarrow> True | _ \<Rightarrow> False"
      using assms(1) unfolding error_shaped_def by blast
    then obtain m where v: "v = JObject m" unfolding found by (cases v) simp_all
    with metadata_is_object [of m] serialize_height(1) [of False 0 0 v] show ?thesis by (auto split: js_value.split)
  qed
  have "\<exists>v. map_of kvs k = Some v \<and> height w \<le> height v"
    using assms(2) cause metadata unfolding serializable_error_def in_map_filter by (auto simp: string)
  then show ?thesis using le_less_trans entry by blast
qed

function (sequential) stable_text :: "js_value \<Rightarrow> js_string" where
  "stable_text (JArray vs) = [91] @ join [44] (map stable_text vs) @ [93]"
| "stable_text (JObject kvs) =
     (let entries = (if error_shaped kvs then serializable_error kvs else kvs)
      in [123] @ join [44] (map (\<lambda>(k, v). json_quote k @ [58] @ stable_text v) (sort_key fst entries)) @ [125])"
| "stable_text v = json_text v"
  by pat_completeness auto
termination
proof (relation "measure height")
  show "wf (measure height)" by simp
next
  fix vs :: "js_value list" and v
  assume "v \<in> set vs"
  then show "(v, JArray vs) \<in> measure height" by (simp only: in_measure height_item)
next
  fix kvs entries :: "(js_string \<times> js_value) list" and kv k v
  assume "entries = (if error_shaped kvs then serializable_error kvs else kvs)" "kv \<in> set (sort_key fst entries)" "(k, v) = kv"
  then show "(v, JObject kvs) \<in> measure height"
    using serializable_height [of kvs k v] height_entry [of k v kvs] by (simp only: in_measure set_sort) (metis)
qed

declare stable_text.simps [simp del]

text \<open>
  Plain data has no object that is shaped like an error, no object has a key twice, and a number is given by its
  shortest digits.
\<close>

fun plain_data :: "js_value \<Rightarrow> bool" where
  "plain_data (JArray vs) = list_all plain_data vs"
| "plain_data (JObject kvs) = (\<not> error_shaped kvs \<and> distinct (map fst kvs) \<and> list_all (\<lambda>(k, v). plain_data v) kvs)"
| "plain_data (JNumber negative s n) = (s = 0 \<or> s mod 10 \<noteq> 0)"
| "plain_data v = True"

section \<open>A text names one value\<close>

subsection \<open>Numbers\<close>

lemma decimal_digits: "list_all is_digit (decimal n)"
proof (induction n rule: decimal.induct)
  case (1 n)
  have "is_digit (of_nat (48 + d))" if "d < 10" for d
    using that unat_digit [OF that] by (simp add: is_digit_def del: of_nat_add)
  then have "is_digit (of_nat (48 + n mod 10))" "n < 10 \<Longrightarrow> is_digit (of_nat (48 + n))" by simp_all
  then show ?case using 1 by (subst decimal.simps) auto
qed

lemma decimal_nonempty: "decimal n \<noteq> []"
  by (subst decimal.simps) simp

lemma digit_not: "is_digit u \<Longrightarrow> u \<noteq> 46 \<and> u \<noteq> 101 \<and> u \<noteq> 45 \<and> u \<noteq> 43"
  by (auto simp: is_digit_def)

lemma digits_append: "decimal_value (ds @ es) = decimal_value ds * 10 ^ length es + decimal_value es"
proof (induction es rule: rev_induct)
  case (snoc e es)
  then show ?case by (simp add: decimal_value_snoc algebra_simps flip: append_assoc)
qed (simp add: decimal_value_def)

lemma zeros_value: "decimal_value (replicate m 48) = 0"
proof (induction m)
  case (Suc m)
  then show ?case using digits_append [of "[48]" "replicate m 48"] by (simp add: decimal_value_def)
qed (simp add: decimal_value_def)

text \<open>Reading a number: the digits with the point removed, scaled by the place of the point and the exponent.\<close>

definition after_mark :: "16 word \<Rightarrow> js_string \<Rightarrow> js_string" where
  "after_mark u s = drop 1 (dropWhile (\<lambda>v. v \<noteq> u) s)"

definition before_mark :: "16 word \<Rightarrow> js_string \<Rightarrow> js_string" where
  "before_mark u s = takeWhile (\<lambda>v. v \<noteq> u) s"

definition read_exponent :: "js_string \<Rightarrow> int" where
  "read_exponent s = (if s = [] then 0 else (if hd s = 45 then -1 else 1) * decimal_value (tl s))"

definition read_mantissa :: "js_string \<Rightarrow> rat" where
  "read_mantissa s = of_int (decimal_value (before_mark 46 s @ after_mark 46 s)) / 10 ^ length (after_mark 46 s)"

definition read_unsigned :: "js_string \<Rightarrow> rat" where
  "read_unsigned s = read_mantissa (before_mark 101 s) * power_int 10 (read_exponent (after_mark 101 s))"

definition read_number :: "js_string \<Rightarrow> rat" where
  "read_number s = (if s \<noteq> [] \<and> hd s = 45 then - read_unsigned (tl s) else read_unsigned s)"

lemma marks_absent:
  assumes "\<forall>v \<in> set s. v \<noteq> u"
  shows "before_mark u s = s" "after_mark u s = []"
proof -
  show "before_mark u s = s" unfolding before_mark_def using assms by (simp add: takeWhile_eq_all_conv)
  show "after_mark u s = []" 
  proof -
    have "dropWhile (\<lambda>v. v \<noteq> u) s = []" using assms by (simp only: dropWhile_eq_Nil_conv)
    then show ?thesis unfolding after_mark_def by (metis drop_Nil)
  qed
qed

lemma marks_found:
  assumes "\<forall>v \<in> set s. v \<noteq> u"
  shows "before_mark u (s @ u # t) = s" "after_mark u (s @ u # t) = t"
proof -
  have "takeWhile (\<lambda>v. v \<noteq> u) (s @ u # t) = s @ takeWhile (\<lambda>v. v \<noteq> u) (u # t)" using assms by (intro takeWhile_append2) auto
  moreover have "dropWhile (\<lambda>v. v \<noteq> u) (s @ u # t) = dropWhile (\<lambda>v. v \<noteq> u) (u # t)" using assms by (intro dropWhile_append2) auto
  ultimately show "before_mark u (s @ u # t) = s" "after_mark u (s @ u # t) = t" by (simp_all add: before_mark_def after_mark_def)
qed

lemma digits_free: "list_all is_digit ds \<Longrightarrow> \<forall>v \<in> set ds. v \<noteq> 46" "list_all is_digit ds \<Longrightarrow> \<forall>v \<in> set ds. v \<noteq> 101"
  using digit_not by (auto simp: list_all_iff)

lemma read_whole: "list_all is_digit ds \<Longrightarrow> read_mantissa ds = of_int (decimal_value ds)"
  by (simp add: read_mantissa_def marks_absent [OF digits_free(1)])

lemma read_point: "list_all is_digit ds \<Longrightarrow> read_mantissa (ds @ 46 # es) = of_int (decimal_value (ds @ es)) / 10 ^ length es"
  by (simp add: read_mantissa_def marks_found [OF digits_free(1)])

lemma read_plain: "\<forall>v \<in> set s. v \<noteq> 101 \<Longrightarrow> read_unsigned s = read_mantissa s"
  by (simp add: read_unsigned_def marks_absent read_exponent_def)

lemma read_scientific: "\<forall>v \<in> set s. v \<noteq> 101 \<Longrightarrow> read_unsigned (s @ 101 # u # ds) =
    read_mantissa s * power_int 10 ((if u = 45 then -1 else 1) * decimal_value ds)"
  by (simp add: read_unsigned_def marks_found read_exponent_def)

lemma number_value_power: "number_value negative s n = (if negative then -1 else 1) * of_nat s * power_int 10 (n - int (length (decimal s)))"
  by (simp add: number_value_def power_int_def field_simps)

lemma split_decimal: "list_all is_digit (take m (decimal s))" "list_all is_digit (drop m (decimal s))"
  using decimal_digits [of s] by (auto simp: list_all_iff dest: in_set_takeD in_set_dropD)

definition unsigned_text :: "nat \<Rightarrow> int \<Rightarrow> js_string" where
  "unsigned_text s n =
     (let ds = decimal s; k = int (length ds); zeros = (\<lambda>m. replicate (nat m) (48 :: 16 word)) in
      if s = 0 then [48]
       else if k \<le> n \<and> n \<le> 21 then ds @ zeros (n - k)
       else if 0 < n \<and> n \<le> 21 then take (nat n) ds @ [46] @ drop (nat n) ds
       else if - 6 < n \<and> n \<le> 0 then [48, 46] @ zeros (- n) @ ds
       else take 1 ds @ (if k = 1 then [] else [46] @ drop 1 ds) @ [101]
         @ (if n - 1 < 0 then [45] else [43]) @ decimal (nat \<bar>n - 1\<bar>))"

lemma number_text_eq: "number_text negative s n = (if negative \<and> s \<noteq> 0 then [45] else []) @ unsigned_text s n"
  by (simp only: number_text_def unsigned_text_def Let_def)

lemma read_unsigned_text: "read_unsigned (unsigned_text s n) = of_nat s * power_int 10 (n - int (length (decimal s)))"
proof -
  let ?ds = "decimal s" and ?k = "int (length (decimal s))"
  have zeros: "list_all is_digit (replicate m 48)" for m by (simp add: list_all_iff is_digit_def)
  have ds: "list_all is_digit ?ds" by (rule decimal_digits)
  have power: "(10 :: rat) ^ m / 10 ^ j = power_int 10 (int m - int j)" for m j by (simp add: power_int_diff)
  consider (zero) "s = 0" | (whole) "s \<noteq> 0" "?k \<le> n" "n \<le> 21" | (point) "s \<noteq> 0" "\<not> ?k \<le> n" "0 < n" "n \<le> 21"
    | (small) "s \<noteq> 0" "- 6 < n" "n \<le> 0" | (scientific) "s \<noteq> 0" "\<not> (?k \<le> n \<and> n \<le> 21)" "\<not> (0 < n \<and> n \<le> 21)" "\<not> (- 6 < n \<and> n \<le> 0)"
    by linarith
  then show ?thesis
  proof cases
    case zero
    have "list_all is_digit [48]" by (simp add: is_digit_def)
    from read_plain [OF digits_free(2) [OF this]] read_whole [OF this] zero show ?thesis
      by (simp add: unsigned_text_def decimal_value_def)
  next
    case whole
    then have t: "unsigned_text s n = ?ds @ replicate (nat (n - ?k)) 48" by (simp add: unsigned_text_def Let_def)
    have digits: "list_all is_digit (?ds @ replicate (nat (n - ?k)) 48)" using ds zeros by simp
    show ?thesis using whole unfolding t read_plain [OF digits_free(2) [OF digits]] read_whole [OF digits]
      by (simp add: digits_append zeros_value decimal_value_decimal power_int_def)
  next
    case point
    then have t: "unsigned_text s n = take (nat n) ?ds @ 46 # drop (nat n) ?ds" by (simp add: unsigned_text_def Let_def)
    have "\<forall>v \<in> set (take (nat n) ?ds @ 46 # drop (nat n) ?ds). v \<noteq> 101"
      using split_decimal digits_free(2) by fastforce
    then show ?thesis using point power [of 0 "length ?ds - nat n"]
      unfolding t by (simp add: read_plain read_point split_decimal decimal_value_decimal of_nat_diff field_simps)
  next
    case small
    have k: "0 < ?k" using decimal_nonempty [of s] by simp
    then have "\<not> ?k \<le> n" using small(3) by linarith
    then have t: "unsigned_text s n = [48] @ 46 # (replicate (nat (- n)) 48 @ ?ds)" using small by (simp add: unsigned_text_def Let_def)
    have z: "list_all is_digit [48]" by (simp add: is_digit_def)
    let ?X = "replicate (nat (- n)) 48 @ ?ds"
    have free: "\<forall>v \<in> set ([48] @ 46 # ?X). v \<noteq> 101" using digits_free(2) [OF ds] by auto
    have "decimal_value (replicate (Suc (nat (- n))) 48 @ ?ds) = int s"
      by (simp only: digits_append zeros_value decimal_value_decimal mult_zero_left add_0)
    then have digits: "decimal_value ([48] @ ?X) = int s" by simp
    have "read_unsigned (unsigned_text s n) = of_int (decimal_value ([48] @ ?X)) / 10 ^ length ?X"
      unfolding t read_plain [OF free] by (rule read_point [OF z])
    also have "\<dots> = of_nat s * (10 ^ 0 / 10 ^ length ?X)" unfolding digits by simp
    also have "\<dots> = of_nat s * power_int 10 (n - ?k)"
    proof -
      have "int 0 - int (length ?X) = n - ?k" using small by simp
      then show ?thesis by (simp only: power)
    qed
    finally show ?thesis .
  next
    case scientific
    let ?m = "take 1 ?ds @ (if ?k = 1 then [] else [46] @ drop 1 ?ds)"
    let ?u = "if n - 1 < 0 then 45 else 43 :: 16 word"
    have far: "\<not> (?k \<le> n \<and> n \<le> 21)" "\<not> (0 < n \<and> n \<le> 21)" "\<not> (- 6 < n \<and> n \<le> 0)" using scientific by auto
    have t: "unsigned_text s n = ?m @ 101 # ?u # decimal (nat \<bar>n - 1\<bar>)"
      unfolding unsigned_text_def Let_def if_not_P [OF scientific(1)] if_not_P [OF far(1)] if_not_P [OF far(2)] if_not_P [OF far(3)] by simp
    have "101 \<notin> set ?ds" using digits_free(2) [OF ds] by blast
    then have free: "\<forall>v \<in> set ?m. v \<noteq> 101" by (auto dest: in_set_takeD in_set_dropD)
    have k: "0 < length ?ds" using decimal_nonempty [of s] by simp
    have mantissa: "read_mantissa ?m = of_nat s * power_int 10 (1 - ?k)"
    proof (cases "?k = 1")
      case True
      then have "take 1 ?ds = ?ds" by simp
      then show ?thesis using True ds by (simp add: read_whole decimal_value_decimal)
    next
      case False
      have "read_mantissa ?m = of_nat s * (10 ^ 0 / 10 ^ (length ?ds - 1))"
        using False by (simp add: read_point split_decimal decimal_value_decimal)
      moreover have "int 0 - int (length ?ds - 1) = 1 - ?k" using k by linarith
      ultimately show ?thesis by (simp only: power)
    qed
    have exponent: "(if ?u = 45 then -1 else 1) * decimal_value (decimal (nat \<bar>n - 1\<bar>)) = n - 1"
      by (simp add: decimal_value_decimal)
    show ?thesis unfolding t read_scientific [OF free] mantissa exponent
      by (simp add: power_int_add [symmetric] algebra_simps)
  qed
qed

lemma unsigned_text_chars: "unsigned_text s n \<noteq> [] \<and> is_digit (hd (unsigned_text s n))
    \<and> (\<forall>u \<in> set (unsigned_text s n). is_digit u \<or> u = 43 \<or> u = 45 \<or> u = 46 \<or> u = 101)"
proof -
  have ds: "\<forall>u \<in> set (decimal s). is_digit u" "\<forall>u \<in> set (decimal (nat \<bar>n - 1\<bar>)). is_digit u" "decimal s \<noteq> []"
    using decimal_digits decimal_nonempty by (auto simp: list_all_iff)
  then have first: "is_digit (hd (decimal s))" by simp
  have zero: "is_digit 48" by (simp add: is_digit_def)
  have taken: "hd (take (nat n) (decimal s)) = hd (decimal s)" if "0 < n" using that by (simp add: hd_take)
  show ?thesis unfolding unsigned_text_def Let_def using ds first zero taken
    by (auto simp: hd_append dest: in_set_takeD in_set_dropD)
qed

lemma read_number_text: "read_number (number_text negative s n) = number_value negative s n"
proof -
  have "hd (unsigned_text s n) \<noteq> 45" "unsigned_text s n \<noteq> []" using unsigned_text_chars [of s n] digit_not by blast+
  then show ?thesis
    by (auto simp: number_text_eq read_number_def read_unsigned_text number_value_power)
qed

lemma number_text_value: "number_text p s n = number_text q t m \<Longrightarrow> number_value p s n = number_value q t m"
  by (metis read_number_text)

lemma number_text_chars: "number_text p s n \<noteq> [] \<and> (is_digit (hd (number_text p s n)) \<or> hd (number_text p s n) = 45)
    \<and> (\<forall>u \<in> set (number_text p s n). is_digit u \<or> u = 43 \<or> u = 45 \<or> u = 46 \<or> u = 101)"
  using unsigned_text_chars [of s n] by (auto simp: number_text_eq)

subsection \<open>Strings\<close>

definition hex_read :: "16 word \<Rightarrow> nat" where
  "hex_read u = (if unat u < 58 then unat u - 48 else unat u - 87)"

definition unescaped :: "16 word \<Rightarrow> 16 word" where
  "unescaped c = (if c = 98 then 8 else if c = 102 then 12 else if c = 110 then 10 else if c = 114 then 13 else if c = 116 then 9 else c)"

fun read_string :: "js_string \<Rightarrow> js_string \<times> js_string" where
  "read_string (u # us) =
     (if u = 34 then ([], us)
      else if u = 92 then
        (case us of
           c # rest \<Rightarrow>
             if c = 117 then
               (case rest of
                  a # b # d # e # rest' \<Rightarrow>
                    (let (s, r) = read_string rest'
                     in (of_nat (hex_read a * 4096 + hex_read b * 256 + hex_read d * 16 + hex_read e) # s, r))
                | _ \<Rightarrow> ([], []))
             else (let (s, r) = read_string rest in (unescaped c # s, r))
         | [] \<Rightarrow> ([], []))
      else (let (s, r) = read_string us in (u # s, r)))"
| "read_string [] = ([], [])"

lemma hex_read_digit: "d < 16 \<Longrightarrow> hex_read (lower_hex_digit d) = d"
  by (auto simp: hex_read_def lower_hex_digit_def unat_of_nat take_bit_eq_mod simp del: of_nat_add)

lemma read_unicode: "read_string (unicode_escape u @ s) = (let (t, r) = read_string s in (u # t, r))"
proof -
  have parts: "unat u div 4096 < 16" "unat u div 256 mod 16 < 16" "unat u div 16 mod 16 < 16" "unat u mod 16 < 16"
    using unat_16 [of u] by auto
  have "unat u div 4096 * 4096 + unat u div 256 mod 16 * 256 + unat u div 16 mod 16 * 16 + unat u mod 16 = unat u"
  proof -
    have "unat u div 4096 * 16 + unat u div 256 mod 16 = unat u div 256" "unat u div 256 * 16 + unat u div 16 mod 16 = unat u div 16"
      using div_mult_mod_eq [of "unat u div 256" 16] div_mult_mod_eq [of "unat u div 16" 16] by (simp_all add: div_mult2_eq [symmetric])
    then show ?thesis using div_mult_mod_eq [of "unat u" 16] by linarith
  qed
  then have "of_nat (unat u div 4096 * 4096 + unat u div 256 mod 16 * 256 + unat u div 16 mod 16 * 16 + unat u mod 16) = u" by simp
  then show ?thesis using parts by (simp add: unicode_escape_def hex_read_digit split_beta del: of_nat_add of_nat_mult)
qed

lemma read_escape: "read_string (json_escape s @ 34 # r) = (s, r)"
proof (induction s rule: length_induct)
  case (1 s)
  show ?case
  proof (cases s)
    case Nil
    then show ?thesis by (simp add: json_escape.simps)
  next
    case (Cons u us)
    then have us: "read_string (json_escape us @ 34 # r) = (us, r)" using 1 by simp
    have rest: "read_string (json_escape rest @ 34 # r) = (rest, r)" if "us = v # rest" for v rest using 1 Cons that by simp
    have surrogates: "is_high w \<Longrightarrow> w \<noteq> 34 \<and> w \<noteq> 92" "is_low w \<Longrightarrow> w \<noteq> 34 \<and> w \<noteq> 92" for w
      by (auto simp: is_high_def is_low_def)
    show ?thesis
    proof (cases "is_high u \<and> us \<noteq> [] \<and> is_low (hd us)")
      case True
      then obtain v rest' where us': "us = v # rest'" "is_high u" "is_low v" by (cases us) auto
      have "u \<noteq> 34 \<and> u \<noteq> 92 \<and> u \<noteq> 8 \<and> u \<noteq> 12 \<and> u \<noteq> 10 \<and> u \<noteq> 13 \<and> u \<noteq> 9 \<and> \<not> unat u < 32"
        using us'(2) by (auto simp: is_high_def)
      then have "json_escape s = u # v # json_escape rest'" using Cons us'
        by (simp add: json_escape.simps(2) [of u "v # rest'"])
      then show ?thesis using rest [OF us'(1)] surrogates us' Cons by simp
    next
      case False
      have "json_escape s = unicode_escape u @ json_escape us
        \<or> json_escape s = u # json_escape us \<and> u \<noteq> 34 \<and> u \<noteq> 92
        \<or> (\<exists>c. json_escape s = 92 # c # json_escape us \<and> c \<noteq> 117 \<and> unescaped c = u)"
        using False Cons by (cases us) (auto simp: json_escape.simps(2) [of u us] json_escape.simps unescaped_def)
      then show ?thesis using us Cons by (auto simp: read_unicode)
    qed
  qed
qed

lemma json_quote_inj:
  assumes "json_quote s @ r = json_quote t @ r'"
  shows "s = t \<and> r = r'"
proof -
  have "json_escape s @ 34 # r = json_escape t @ 34 # r'" using assms by (simp add: json_quote_def)
  then have "read_string (json_escape s @ 34 # r) = read_string (json_escape t @ 34 # r')" by (rule arg_cong)
  then show ?thesis unfolding read_escape by simp
qed

subsection \<open>Values\<close>

definition ends_value :: "js_string \<Rightarrow> bool" where
  "ends_value r \<longleftrightarrow> r = [] \<or> hd r = 44 \<or> hd r = 93 \<or> hd r = 125"

lemma split_at_end:
  assumes "A @ r = B @ r'" and "\<forall>u \<in> set A. u \<noteq> 44 \<and> u \<noteq> 93 \<and> u \<noteq> 125" and "\<forall>u \<in> set B. u \<noteq> 44 \<and> u \<noteq> 93 \<and> u \<noteq> 125"
    and "ends_value r" and "ends_value r'"
  shows "A = B \<and> r = r'"
proof -
  let ?P = "\<lambda>u :: 16 word. u \<noteq> 44 \<and> u \<noteq> 93 \<and> u \<noteq> 125"
  have "takeWhile ?P (A @ r) = A" "takeWhile ?P (B @ r') = B"
    using assms(2-5) by (cases r; cases r'; auto simp: ends_value_def takeWhile_append takeWhile_eq_all_conv)+
  then have "A = B" using assms(1) by metis
  then show ?thesis using assms(1) by simp
qed

lemma join_Cons: "join [44] (map f (x # xs)) @ c # r = f x @ (if xs = [] then c # r else 44 # join [44] (map f xs) @ c # r)"
  by (cases xs) simp_all

lemma join_inj:
  assumes "\<And>x y r r'. x \<in> set xs \<Longrightarrow> y \<in> set ys \<Longrightarrow> ends_value r \<Longrightarrow> ends_value r' \<Longrightarrow> f x @ r = f y @ r' \<Longrightarrow> R x y \<and> r = r'"
    and "\<And>x. f x \<noteq> [] \<and> \<not> ends_value (f x)"
    and "c = 93 \<or> c = 125"
    and "join [44] (map f xs) @ c # r = join [44] (map f ys) @ c # r'"
  shows "list_all2 R xs ys \<and> r = r'"
  using assms(1,4)
proof (induction xs arbitrary: ys)
  case Nil
  show ?case
  proof (cases ys)
    case (Cons y ys')
    have "hd (f y) = c" using Nil(2) assms(2) [of y] unfolding Cons join_Cons by (cases "f y") auto
    then show ?thesis using assms(2) [of y] assms(3) by (auto simp: ends_value_def)
  qed (use Nil in simp)
next
  case (Cons x xs)
  show ?case
  proof (cases ys)
    case Nil
    have "hd (f x) = c" using Cons.prems(2) assms(2) [of x] unfolding Nil join_Cons by (cases "f x") auto
    then show ?thesis using assms(2) [of x] assms(3) by (auto simp: ends_value_def)
  next
    case ys: (Cons y ys')
    let ?tail = "\<lambda>zs r. if zs = [] then c # r else 44 # join [44] (map f zs) @ c # r"
    have "ends_value (?tail zs r)" for zs r using assms(3) by (auto simp: ends_value_def)
    then have xy: "R x y" "?tail xs r = ?tail ys' r'"
      using Cons.prems(1) [of x y "?tail xs r" "?tail ys' r'"] Cons.prems(2) unfolding ys join_Cons by auto
    have "join [44] (map f xs) @ c # r = join [44] (map f ys') @ c # r'"
      using xy(2) assms(3) by (auto split: if_splits)
    then have "list_all2 R xs ys' \<and> r = r'"
      by (rule Cons.IH [rotated]) (rule Cons.prems(1); simp add: ys)
    then show ?thesis using xy(1) ys by simp
  qed
qed

lemma stable_scalars:
  "stable_text JNull = [110, 117, 108, 108]" "stable_text (JBool True) = [116, 114, 117, 101]"
  "stable_text (JBool False) = [102, 97, 108, 115, 101]" "stable_text (JNumber p s n) = number_text p s n"
  "stable_text (JString t) = json_quote t"
  by (simp_all add: stable_text.simps js_def)

fun first_of :: "js_value \<Rightarrow> 16 word \<Rightarrow> bool" where
  "first_of JNull u = (u = 110)"
| "first_of (JBool b) u = (u = (if b then 116 else 102))"
| "first_of (JNumber p s n) u = (is_digit u \<or> u = 45)"
| "first_of (JString s) u = (u = 34)"
| "first_of (JArray vs) u = (u = 91)"
| "first_of (JObject kvs) u = (u = 123)"

lemma stable_first: "stable_text v \<noteq> [] \<and> first_of v (hd (stable_text v))"
proof (cases v)
  case (JBool b)
  then show ?thesis by (cases b) (simp_all add: stable_scalars)
next
  case (JNumber p s n)
  then show ?thesis using number_text_chars [of p s n] by (simp add: stable_scalars)
qed (simp_all add: stable_scalars json_quote_def stable_text.simps Let_def)

lemma first_ends: "first_of v u \<Longrightarrow> u \<noteq> 44 \<and> u \<noteq> 93 \<and> u \<noteq> 125"
  by (cases v) (auto simp: is_digit_def split: if_splits)

definition stable_entry :: "js_string \<times> js_value \<Rightarrow> js_string" where
  "stable_entry kv = json_quote (fst kv) @ [58] @ stable_text (snd kv)"

lemma stable_object: "\<not> error_shaped kvs \<Longrightarrow> stable_text (JObject kvs) = [123] @ join [44] (map stable_entry (sort_key fst kvs)) @ [125]"
proof -
  assume "\<not> error_shaped kvs"
  moreover have "stable_entry = (\<lambda>(k, v). json_quote k @ [58] @ stable_text v)" by (auto simp: stable_entry_def)
  ultimately show ?thesis by (simp add: stable_text.simps(2) Let_def)
qed

lemma distinct_sort_key: "distinct (map fst kvs) \<Longrightarrow> distinct (map fst (sort_key fst kvs))"
  by (simp add: distinct_map)

lemma map_of_sort_key: "distinct (map fst kvs) \<Longrightarrow> map_of (sort_key fst kvs) = map_of kvs"
  by (simp add: map_of_inject_set distinct_sort_key)

lemma list_all2_map_of: "list_all2 (\<lambda>(k, v) (l, w). k = l \<and> R v w) es fs \<Longrightarrow> rel_option R (map_of es k) (map_of fs k)"
  by (induction rule: list_all2_induct) auto

lemma same_first: "stable_text v @ r = stable_text w @ r' \<Longrightarrow> \<exists>u. first_of v u \<and> first_of w u"
  by (metis hd_append2 stable_first)

lemma stable_text_names:
  "plain_data v \<Longrightarrow> plain_data w \<Longrightarrow> ends_value r \<Longrightarrow> ends_value r' \<Longrightarrow> stable_text v @ r = stable_text w @ r' \<Longrightarrow> same_json v w \<and> r = r'"
proof (induction v arbitrary: w r r')
  case (JNumber p s n)
  obtain q t m where w: "w = JNumber q t m"
    using same_first [OF JNumber.prems(5)] by (cases w) (auto simp: is_digit_def split: if_splits)
  have free: "\<forall>u \<in> set (number_text p s n). u \<noteq> 44 \<and> u \<noteq> 93 \<and> u \<noteq> 125" for p s n
    using number_text_chars [of p s n] by (auto simp: is_digit_def)
  have "number_text p s n = number_text q t m \<and> r = r'"
    by (rule split_at_end [OF _ free free JNumber.prems(3,4)]) (use JNumber.prems(5) in \<open>simp add: w stable_scalars\<close>)
  then show ?case by (auto simp: w same_json_simps dest: number_text_value)
next
  case (JArray vs)
  obtain ws where w: "w = JArray ws"
    using same_first [OF JArray.prems(5)] by (cases w) (auto simp: is_digit_def split: if_splits)
  have "join [44] (map stable_text vs) @ 93 # r = join [44] (map stable_text ws) @ 93 # r'"
    using JArray.prems(5) by (simp add: w stable_text.simps)
  then have "list_all2 same_json vs ws \<and> r = r'"
  proof (rule join_inj [rotated 3])
    fix x y t t'
    assume "x \<in> set vs" "y \<in> set ws" "ends_value t" "ends_value t'" "stable_text x @ t = stable_text y @ t'"
    moreover have "plain_data x" "plain_data y" using calculation(1,2) JArray.prems(1,2) by (simp_all add: w list_all_iff)
    ultimately show "same_json x y \<and> t = t'" using JArray.IH by blast
  next
    show "stable_text x \<noteq> [] \<and> \<not> ends_value (stable_text x)" for x using stable_first [of x] first_ends [of x] by (auto simp: ends_value_def)
  qed simp
  then show ?case by (simp add: w same_json_simps)
next
  case (JObject kvs)
  obtain lvs where w: "w = JObject lvs"
    using same_first [OF JObject.prems(5)] by (cases w) (auto simp: is_digit_def split: if_splits)
  have plain: "\<not> error_shaped kvs" "\<not> error_shaped lvs" "distinct (map fst kvs)" "distinct (map fst lvs)"
    using JObject.prems(1,2) by (simp_all add: w)
  have "join [44] (map stable_entry (sort_key fst kvs)) @ 125 # r = join [44] (map stable_entry (sort_key fst lvs)) @ 125 # r'"
    using JObject.prems(5) by (simp add: w stable_object plain)
  moreover have "(case x of (k, v) \<Rightarrow> \<lambda>(l, w). k = l \<and> same_json v w) y \<and> t = t'"
    if xy: "x \<in> set (sort_key fst kvs)" "y \<in> set (sort_key fst lvs)" "ends_value t" "ends_value t'" "stable_entry x @ t = stable_entry y @ t'" for x y t t'
  proof -
    obtain k v l u where xy': "x = (k, v)" "y = (l, u)" by fastforce
    have "json_quote k @ 58 # stable_text v @ t = json_quote l @ 58 # stable_text u @ t'" using xy(5) by (simp add: xy' stable_entry_def)
    from json_quote_inj [OF this] have "k = l" "stable_text v @ t = stable_text u @ t'" by simp_all
    moreover have "plain_data v" "plain_data u" using xy(1,2) JObject.prems(1,2) by (auto simp: xy' w list_all_iff)
    ultimately show ?thesis using JObject.IH [of "(k, v)" v u t t'] xy by (auto simp: xy')
  qed
  moreover have "stable_entry x \<noteq> [] \<and> \<not> ends_value (stable_entry x)" for x by (simp add: stable_entry_def json_quote_def ends_value_def)
  ultimately have "list_all2 (\<lambda>(k, v) (l, w). k = l \<and> same_json v w) (sort_key fst kvs) (sort_key fst lvs) \<and> r = r'"
    using join_inj [of "sort_key fst kvs" "sort_key fst lvs" stable_entry "\<lambda>(k, v) (l, w). k = l \<and> same_json v w" 125 r r'] by simp
  then show ?case using list_all2_map_of [of same_json] by (auto simp: w same_json_simps simp flip: map_of_sort_key [OF plain(3)] map_of_sort_key [OF plain(4)])
next
  case JNull
  then have "w = JNull" using same_first [OF JNull.prems(5)] by (cases w) (auto simp: is_digit_def split: if_splits)
  then show ?case using JNull.prems(5) by (simp add: same_json_simps)
next
  case (JBool b)
  then obtain c where w: "w = JBool c" using same_first [OF JBool.prems(5)] by (cases w) (auto simp: is_digit_def split: if_splits)
  then show ?case using JBool.prems(5) by (cases b; cases c) (simp_all add: stable_scalars same_json_simps)
next
  case (JString s)
  obtain t where w: "w = JString t" using same_first [OF JString.prems(5)] by (cases w) (auto simp: is_digit_def split: if_splits)
  from json_quote_inj [of s r t r'] JString.prems(5) show ?case by (simp add: w stable_scalars same_json_simps)
qed

lemma shortest_unique:
  fixes a b :: int and s t :: nat
  assumes "of_nat s * power_int (10 :: rat) a = of_nat t * power_int 10 b" and "s mod 10 \<noteq> 0" and "a \<le> b"
  shows "a = b \<and> s = t"
proof -
  have "(of_nat s :: rat) = of_nat t * (power_int 10 b / power_int 10 a)" using assms(1) by (simp add: field_simps)
  also have "power_int (10 :: rat) b / power_int 10 a = power_int 10 (b - a)" by (simp add: power_int_diff)
  also have "\<dots> = 10 ^ nat (b - a)" using assms(3) by (simp add: power_int_def)
  finally have "(of_nat s :: rat) = of_nat (t * 10 ^ nat (b - a))" by simp
  then have s: "s = t * 10 ^ nat (b - a)" by (simp only: of_nat_eq_iff)
  have "a = b"
  proof (rule ccontr)
    assume "a \<noteq> b"
    then obtain d where "nat (b - a) = Suc d" using assms(3) by (metis diff_gt_0_iff_gt gr0_implies_Suc order_le_less zero_less_nat_eq)
    then show False using s assms(2) by simp
  qed
  with s show ?thesis by simp
qed

lemma number_value_text:
  assumes "number_value p s n = number_value q t m" and "s = 0 \<or> s mod 10 \<noteq> 0" and "t = 0 \<or> t mod 10 \<noteq> 0"
  shows "number_text p s n = number_text q t m"
proof (cases "s = 0 \<or> t = 0")
  case True
  then have "s = 0" "t = 0" using assms(1) by (auto simp: number_value_power split: if_splits)
  then show ?thesis by (simp add: number_text_def)
next
  case False
  let ?a = "n - int (length (decimal s))" and ?b = "m - int (length (decimal t))"
  have pos: "0 < of_nat s * power_int (10 :: rat) ?a" "0 < of_nat t * power_int (10 :: rat) ?b" using False by simp_all
  have same: "p = q" "of_nat s * power_int (10 :: rat) ?a = of_nat t * power_int 10 ?b"
    using assms(1) pos by (auto simp: number_value_power split: if_splits)
  have "?a = ?b \<and> s = t"
    using shortest_unique [OF same(2)] shortest_unique [OF same(2) [symmetric]] assms(2,3) False by (metis linear)
  then show ?thesis using same(1) by auto
qed

lemma entries_by_key: "distinct (map fst es) \<Longrightarrow> map f es = map (\<lambda>k. f (k, the (map_of es k))) (map fst es)"
proof -
  assume distinct: "distinct (map fst es)"
  have "f e = f (fst e, the (map_of es (fst e)))" if "e \<in> set es" for e
    using map_of_is_SomeI [OF distinct, of "fst e" "snd e"] that by simp
  then show ?thesis by simp
qed

lemma same_json_stable: "same_json v w \<Longrightarrow> plain_data v \<Longrightarrow> plain_data w \<Longrightarrow> stable_text v = stable_text w"
proof (induction v arbitrary: w)
  case (JNumber p s n)
  then obtain q t m where w: "w = JNumber q t m" "number_value p s n = number_value q t m" by (auto simp: same_json_simps)
  have "number_text p s n = number_text q t m"
    by (rule number_value_text [OF w(2)]) (use JNumber.prems(2,3) w(1) in simp_all)
  then show ?case by (simp add: w(1) stable_scalars)
next
  case (JArray vs)
  then obtain ws where w: "w = JArray ws" "list_all2 same_json vs ws" by (auto simp: same_json_simps)
  have "stable_text x = stable_text y" if "(x, y) \<in> set (zip vs ws)" for x y
  proof (rule JArray.IH)
    show "x \<in> set vs" using that by (rule set_zip_leftD)
    show "same_json x y" using w(2) that by (auto simp: list_all2_iff)
    show "plain_data x" "plain_data y" using JArray.prems(2,3) w(1) set_zip_leftD [OF that] set_zip_rightD [OF that]
      by (simp_all add: list_all_iff)
  qed
  then have "list_all2 (\<lambda>x y. stable_text x = stable_text y) vs ws"
    using list_all2_lengthD [OF w(2)] by (auto simp only: list_all2_iff)
  then have "list_all2 (=) (map stable_text vs) (map stable_text ws)" by (simp only: list.rel_map)
  then have "map stable_text vs = map stable_text ws" by (simp only: list.rel_eq)
  then show ?case by (simp add: w stable_text.simps(1))
next
  case (JObject kvs)
  then obtain lvs where w: "w = JObject lvs" and same: "\<And>k. rel_option same_json (map_of kvs k) (map_of lvs k)"
    by (auto simp: same_json_simps)
  have plain: "\<not> error_shaped kvs" "\<not> error_shaped lvs" "distinct (map fst kvs)" "distinct (map fst lvs)"
    using JObject.prems(2,3) by (simp_all add: w)
  let ?ks = "sort_key fst kvs" and ?ls = "sort_key fst lvs"
  have key_set: "fst ` set kvs = fst ` set lvs"
  proof -
    have "map_of kvs k = None \<longleftrightarrow> map_of lvs k = None" for k using same [of k] by (cases "map_of kvs k"; cases "map_of lvs k") auto
    then show ?thesis unfolding map_of_eq_None_iff by blast
  qed
  then have keys: "map fst ?ks = map fst ?ls"
    by (intro sorted_distinct_set_unique) (simp_all add: distinct_sort_key plain sorted_sort_key)
  have "stable_entry (k, the (map_of kvs k)) = stable_entry (k, the (map_of lvs k))" if "k \<in> fst ` set lvs" for k
  proof -
    obtain v where v: "map_of kvs k = Some v" using \<open>k \<in> fst ` set lvs\<close> unfolding key_set [symmetric] by (metis map_of_eq_None_iff option.exhaust)
    then obtain u where u: "map_of lvs k = Some u" "same_json v u" using same [of k] by (auto simp: option_rel_Some1)
    have "plain_data v" "plain_data u" using JObject.prems(2,3) w map_of_SomeD [OF v] map_of_SomeD [OF u(1)] by (auto simp: list_all_iff)
    then have "stable_text v = stable_text u" using JObject.IH [of "(k, v)" v u] u(2) map_of_SomeD [OF v] by simp
    then show ?thesis using v u by (simp add: stable_entry_def)
  qed
  then have "map stable_entry ?ks = map stable_entry ?ls"
    using entries_by_key [OF distinct_sort_key [OF plain(3)], of stable_entry] entries_by_key [OF distinct_sort_key [OF plain(4)], of stable_entry] keys
    by (simp add: map_of_sort_key plain)
  then show ?case by (simp add: w stable_object plain)
next
  case (JNull)
  then show ?case by (simp add: same_json_simps)
next
  case (JBool b)
  then show ?case by (simp add: same_json_simps)
next
  case (JString s)
  then show ?case by (simp add: same_json_simps)
qed

text \<open>
  Property C35: the stable text of a value decides what the value is. Two plain values get the same text exactly when they are
  the same data: the same numbers, strings and lists, and objects with the same entries in whatever order.
\<close>

theorem stable_text_decides:
  assumes "plain_data v" and "plain_data w"
  shows "stable_text v = stable_text w \<longleftrightarrow> same_json v w"
  using stable_text_names [OF assms, of "[]" "[]"] same_json_stable [OF _ assms] by (auto simp: ends_value_def)

section \<open>Examples\<close>

definition order_one :: js_value where
  "order_one = JObject [([97], JNumber False 1 1), ([98], JArray [JBool True, JString [120]])]"

definition order_two :: js_value where
  "order_two = JObject [([98], JArray [JBool True, JString [120]]), ([97], JNumber False 1 1)]"

lemma orders_plain: "plain_data order_one" "plain_data order_two"
  by (simp_all add: order_one_def order_two_def error_shaped_def js_def)

lemma orders_same: "same_json order_one order_two"
  by (auto simp: order_one_def order_two_def same_json_simps)

theorem stable_text_decides_witness:
  "stable_text order_one = stable_text order_two"
  using stable_text_decides [OF orders_plain] orders_same by simp

text \<open>
  An object that is shaped like an error is written as that error: an entry beside those of an error
  leaves no trace in the text, so two different inputs get one text.
\<close>

lemma extra_entry_ignored:
  assumes "error_shaped kvs"
    and "k \<notin> {js ''name'', js ''code'', js ''category'', js ''message'', js ''retriable'', js ''provider'', js ''cause'', js ''metadata''}"
  shows "stable_text (JObject ((k, v) # kvs)) = stable_text (JObject kvs)"
proof -
  have same: "map_of ((k, v) # kvs) l = map_of kvs l"
    if "l \<in> {js ''name'', js ''code'', js ''category'', js ''message'', js ''retriable'', js ''provider'', js ''cause'', js ''metadata''}" for l
    using that assms(2) by auto
  have "error_shaped ((k, v) # kvs) = error_shaped kvs" by (simp only: error_shaped_def same insert_iff refl simp_thms)
  moreover have "serializable_error ((k, v) # kvs) = serializable_error kvs"
    by (simp only: serializable_error_def map_filter_simps prod.case same insert_iff refl simp_thms)
  ultimately show ?thesis using assms(1) by (simp add: stable_text.simps(2))
qed

end
