(* ===== verification/Request_Identity.thy ===== *)
theory Request_Identity
  imports Stable_Text "HOL-Library.Sublist" "HOL-Library.List_Lexorder"
begin

text \<open>
  The identity under which a tool call is claimed and replayed, tools/src/idempotency.ts: the key that names the call and the hash of
  the request that guards it. The SHA-256 digest is an argument; two different texts
  with one digest are what the properties exclude for the texts at hand.
\<close>

section \<open>Requests\<close>

record tool_tenant =
  tt_user :: "js_string option"
  tt_organization :: "js_string option"
  tt_workflow :: "js_string option"
  tt_scopes :: "js_string list option"

record identity_request =
  ir_input :: js_value
  ir_session :: js_string
  ir_turn :: js_string
  ir_tool :: js_string
  ir_version :: js_string
  ir_tenant :: "tool_tenant option"
  ir_enabled :: bool
  ir_template :: "js_string option"
  ir_legacy :: bool

definition tenant_entries :: "tool_tenant \<Rightarrow> (js_string \<times> js_value) list" where
  "tenant_entries t =
     (case tt_user t of None \<Rightarrow> [] | Some u \<Rightarrow> [(js ''userId'', JString u)])
     @ (case tt_organization t of None \<Rightarrow> [] | Some g \<Rightarrow> [(js ''organizationId'', JString g)])
     @ (case tt_workflow t of None \<Rightarrow> [] | Some w \<Rightarrow> [(js ''workflowId'', JString w)])
     @ (case tt_scopes t of None \<Rightarrow> [] | Some ss \<Rightarrow> [(js ''scopes'', JArray (map JString (sort ss)))])"

definition tenant_identity :: "tool_tenant option \<Rightarrow> js_value" where
  "tenant_identity tenant =
     (case tenant of None \<Rightarrow> JNull | Some t \<Rightarrow> if tenant_entries t = [] then JNull else JObject (tenant_entries t))"

section \<open>Keys from a template\<close>

text \<open>
  \<open>replaceAll\<close> with strings: the replacement has the patterns of \<open>GetSubstitution\<close>, a dollar sign with a dollar sign, an
  ampersand, a backtick or an apostrophe; the match, what comes before it and what comes after it are those of the original string.
\<close>

fun substitution :: "js_string \<Rightarrow> js_string \<Rightarrow> js_string \<Rightarrow> js_string \<Rightarrow> js_string" where
  "substitution matched before after (d # c # rest) =
     (if d = 36 \<and> c = 36 then 36 # substitution matched before after rest
      else if d = 36 \<and> c = 38 then matched @ substitution matched before after rest
      else if d = 36 \<and> c = 96 then before @ substitution matched before after rest
      else if d = 36 \<and> c = 39 then after @ substitution matched before after rest
      else d # substitution matched before after (c # rest))"
| "substitution matched before after s = s"

function replace_from :: "js_string \<Rightarrow> js_string \<Rightarrow> js_string \<Rightarrow> js_string \<Rightarrow> js_string" where
  "replace_from pat repl before s =
     (if s = [] \<or> pat = [] then s
      else if take (length pat) s = pat then
        substitution pat before (drop (length pat) s) repl @ replace_from pat repl (before @ pat) (drop (length pat) s)
      else hd s # replace_from pat repl (before @ [hd s]) (tl s))"
  by pat_completeness auto
termination by (relation "measure (\<lambda>(pat, repl, before, s). length s)") auto

declare replace_from.simps [simp del]

definition replace_all :: "js_string \<Rightarrow> js_string \<Rightarrow> js_string \<Rightarrow> js_string" where
  "replace_all pat repl s = replace_from pat repl [] s"

definition idempotency_logical_key :: "identity_request \<Rightarrow> js_string \<Rightarrow> js_string" where
  "idempotency_logical_key r fragment =
     (case ir_template r of
        None \<Rightarrow> fragment
      | Some t \<Rightarrow>
          if t = [] then fragment
          else replace_all (js ''{input}'') fragment
            (replace_all (js ''{toolVersion}'') (ir_version r)
            (replace_all (js ''{toolId}'') (ir_tool r)
            (replace_all (js ''{turnId}'') (ir_turn r)
            (replace_all (js ''{sessionId}'') (ir_session r) t)))))"

section \<open>The identity\<close>

record call_identity =
  ci_key :: js_string
  ci_hash :: js_string
  ci_legacy :: "(js_string \<times> js_string) option"

definition member :: "string \<Rightarrow> js_string" where
  "member name = [34] @ js name @ [34, 58]"

definition request_material :: "identity_request \<Rightarrow> js_string" where
  "request_material r =
     [123] @ member ''input'' @ stable_text (ir_input r) @ [44] @ member ''sessionId'' @ json_quote (ir_session r) @ [44]
     @ member ''tenant'' @ stable_text (tenant_identity (ir_tenant r)) @ [44] @ member ''toolId'' @ json_quote (ir_tool r) @ [44]
     @ member ''toolVersion'' @ json_quote (ir_version r) @ [125]"

definition legacy_identity :: "identity_request \<Rightarrow> js_string \<times> js_string" where
  "legacy_identity r =
     (let serialized = stable_text (ir_input r)
      in (ir_tool r @ js ''@'' @ ir_version r @ js '':'' @ idempotency_logical_key r serialized,
          [123] @ member ''input'' @ serialized @ [44] @ member ''toolId'' @ json_quote (ir_tool r) @ [44]
          @ member ''toolVersion'' @ json_quote (ir_version r) @ [125]))"

definition key_material :: "(js_string \<Rightarrow> js_string) \<Rightarrow> identity_request \<Rightarrow> js_string" where
  "key_material digest r =
     stable_text (JObject [(js ''toolId'', JString (ir_tool r)), (js ''sessionId'', JString (ir_session r)),
       (js ''logicalKey'', JString (idempotency_logical_key r (digest (stable_text (ir_input r)))))])"

definition idempotency_identity :: "(js_string \<Rightarrow> js_string) \<Rightarrow> identity_request \<Rightarrow> call_identity option" where
  "idempotency_identity digest r =
     (if \<not> ir_enabled r then None
      else Some \<lparr>ci_key = js ''tvic:v3:'' @ digest (key_material digest r), ci_hash = digest (request_material r),
                 ci_legacy = (if ir_legacy r then Some (legacy_identity r) else None)\<rparr>)"

definition legacy_for_recovery :: "identity_request \<Rightarrow> (js_string \<times> js_string) option" where
  "legacy_for_recovery r = (if \<not> ir_enabled r then None else Some (legacy_identity r))"

definition idempotency_key :: "(js_string \<Rightarrow> js_string) \<Rightarrow> identity_request \<Rightarrow> js_string option" where
  "idempotency_key digest r = map_option ci_key (idempotency_identity digest r)"

definition idempotency_request_hash :: "(js_string \<Rightarrow> js_string) \<Rightarrow> identity_request \<Rightarrow> js_string" where
  "idempotency_request_hash digest r = (case idempotency_identity digest r of None \<Rightarrow> [] | Some i \<Rightarrow> ci_hash i)"

section \<open>What an identity names\<close>

lemma not_error_shaped: "map_of kvs (js ''name'') = None \<Longrightarrow> \<not> error_shaped kvs"
  by (simp add: error_shaped_def)

lemma tenant_lookup:
  "map_of (tenant_entries t) (js ''userId'') = map_option JString (tt_user t)"
  "map_of (tenant_entries t) (js ''organizationId'') = map_option JString (tt_organization t)"
  "map_of (tenant_entries t) (js ''workflowId'') = map_option JString (tt_workflow t)"
  "map_of (tenant_entries t) (js ''scopes'') = map_option (\<lambda>ss. JArray (map JString (sort ss))) (tt_scopes t)"
  "map_of (tenant_entries t) (js ''name'') = None"
  "distinct (map fst (tenant_entries t))"
  by (simp_all add: tenant_entries_def js_def split: option.split)

lemma tenant_entries_plain: "list_all (\<lambda>(k, v). plain_data v) (tenant_entries t)"
  by (auto simp: tenant_entries_def list_all_iff split: option.split)

lemma tenant_plain: "plain_data (tenant_identity t)"
  using tenant_lookup(6) tenant_entries_plain not_error_shaped [OF tenant_lookup(5)] by (auto simp: tenant_identity_def split: option.split)

lemma strings_same: "list_all2 same_json (map JString ss) (map JString ts) \<longleftrightarrow> ss = ts"
  by (induction ss ts rule: list_induct2') (auto simp: same_json_simps)

lemma tenant_same:
  assumes "same_json (tenant_identity t) (tenant_identity t')"
  shows "tenant_identity t = tenant_identity t'"
proof -
  have eq: "tenant_entries u = tenant_entries u'" if "\<And>k. rel_option same_json (map_of (tenant_entries u) k) (map_of (tenant_entries u') k)" for u u'
  proof -
    have "tt_user u = tt_user u'" using that [of "js ''userId''"] unfolding tenant_lookup
      by (cases "tt_user u"; cases "tt_user u'") (simp_all add: same_json_simps)
    moreover have "tt_organization u = tt_organization u'" using that [of "js ''organizationId''"] unfolding tenant_lookup
      by (cases "tt_organization u"; cases "tt_organization u'") (simp_all add: same_json_simps)
    moreover have "tt_workflow u = tt_workflow u'" using that [of "js ''workflowId''"] unfolding tenant_lookup
      by (cases "tt_workflow u"; cases "tt_workflow u'") (simp_all add: same_json_simps)
    moreover have "map_option sort (tt_scopes u) = map_option sort (tt_scopes u')" using that [of "js ''scopes''"] unfolding tenant_lookup
      by (cases "tt_scopes u"; cases "tt_scopes u'") (simp_all add: same_json_simps strings_same)
    ultimately show ?thesis by (cases "tt_scopes u"; cases "tt_scopes u'") (simp_all add: tenant_entries_def)
  qed
  show ?thesis using assms
    by (auto simp: tenant_identity_def same_json_simps intro: eq split: option.splits if_splits)
qed

lemma same_json_refl: "same_json v v"
proof (induction v)
  case (JArray vs)
  then show ?case by (simp add: same_json_simps list_all2_same)
next
  case (JObject kvs)
  have "rel_option same_json (map_of kvs k) (map_of kvs k)" for k
  proof (cases "map_of kvs k")
    case (Some v)
    then show ?thesis using JObject.IH [OF map_of_SomeD [OF Some], of v] by simp
  qed simp
  then show ?case by (simp add: same_json_simps)
qed (simp_all add: same_json_simps)

lemma comma_ends: "ends_value ([44] @ r)"
  by (simp add: ends_value_def)

lemma stable_text_iff: "plain_data v \<Longrightarrow> plain_data w \<Longrightarrow> stable_text v = stable_text w \<longleftrightarrow> same_json v w"
  using stable_text_names [of v w "[]" "[]"] same_json_stable [of v w] by (auto simp: ends_value_def)

definition same_request :: "identity_request \<Rightarrow> identity_request \<Rightarrow> bool" where
  "same_request r r' \<longleftrightarrow> same_json (ir_input r) (ir_input r') \<and> ir_session r = ir_session r' \<and> ir_tool r = ir_tool r'
     \<and> ir_version r = ir_version r' \<and> tenant_identity (ir_tenant r) = tenant_identity (ir_tenant r')"

lemma request_material_eq:
  assumes "plain_data (ir_input r)" and "plain_data (ir_input r')"
  shows "request_material r = request_material r' \<longleftrightarrow> same_request r r'"
proof
  assume "request_material r = request_material r'"
  then have "stable_text (ir_input r) @ ([44] @ member ''sessionId'' @ json_quote (ir_session r) @ [44]
     @ member ''tenant'' @ stable_text (tenant_identity (ir_tenant r)) @ [44] @ member ''toolId'' @ json_quote (ir_tool r) @ [44]
     @ member ''toolVersion'' @ json_quote (ir_version r) @ [125])
   = stable_text (ir_input r') @ ([44] @ member ''sessionId'' @ json_quote (ir_session r') @ [44]
     @ member ''tenant'' @ stable_text (tenant_identity (ir_tenant r')) @ [44] @ member ''toolId'' @ json_quote (ir_tool r') @ [44]
     @ member ''toolVersion'' @ json_quote (ir_version r') @ [125])"
    by (simp add: request_material_def)
  from stable_text_names [OF assms comma_ends comma_ends this] have input: "same_json (ir_input r) (ir_input r')" and
    "json_quote (ir_session r) @ ([44]
     @ member ''tenant'' @ stable_text (tenant_identity (ir_tenant r)) @ [44] @ member ''toolId'' @ json_quote (ir_tool r) @ [44]
     @ member ''toolVersion'' @ json_quote (ir_version r) @ [125])
   = json_quote (ir_session r') @ ([44]
     @ member ''tenant'' @ stable_text (tenant_identity (ir_tenant r')) @ [44] @ member ''toolId'' @ json_quote (ir_tool r') @ [44]
     @ member ''toolVersion'' @ json_quote (ir_version r') @ [125])"
    by blast+
  from json_quote_inj [OF this(2)] have session: "ir_session r = ir_session r'" and
    "stable_text (tenant_identity (ir_tenant r)) @ ([44] @ member ''toolId'' @ json_quote (ir_tool r) @ [44]
     @ member ''toolVersion'' @ json_quote (ir_version r) @ [125])
   = stable_text (tenant_identity (ir_tenant r')) @ ([44] @ member ''toolId'' @ json_quote (ir_tool r') @ [44]
     @ member ''toolVersion'' @ json_quote (ir_version r') @ [125])" by simp_all
  from stable_text_names [OF tenant_plain tenant_plain comma_ends comma_ends this(2)] have tenant: "tenant_identity (ir_tenant r) = tenant_identity (ir_tenant r')"
    and rest: "json_quote (ir_tool r) @ ([44] @ member ''toolVersion'' @ json_quote (ir_version r) @ [125])
      = json_quote (ir_tool r') @ ([44] @ member ''toolVersion'' @ json_quote (ir_version r') @ [125])"
    by (blast intro: tenant_same)+
  from json_quote_inj [OF rest] have tool: "ir_tool r = ir_tool r'" and
    "json_quote (ir_version r) @ [125] = json_quote (ir_version r') @ [125]" by simp_all
  from json_quote_inj [OF this(2)] have "ir_version r = ir_version r'" by simp
  with input session tenant tool show "same_request r r'" by (simp add: same_request_def)
next
  assume same: "same_request r r'"
  then have "stable_text (ir_input r) = stable_text (ir_input r')" by (intro same_json_stable) (simp_all add: same_request_def assms)
  moreover have "ir_session r = ir_session r'" "ir_tool r = ir_tool r'" "ir_version r = ir_version r'"
    "tenant_identity (ir_tenant r) = tenant_identity (ir_tenant r')" using same by (simp_all only: same_request_def)
  ultimately show "request_material r = request_material r'" by (simp only: request_material_def)
qed

lemma key_material_eq:
  "key_material digest r = key_material digest r' \<longleftrightarrow> ir_tool r = ir_tool r' \<and> ir_session r = ir_session r'
     \<and> idempotency_logical_key r (digest (stable_text (ir_input r))) = idempotency_logical_key r' (digest (stable_text (ir_input r')))"
proof -
  let ?v = "\<lambda>r. JObject [(js ''toolId'', JString (ir_tool r)), (js ''sessionId'', JString (ir_session r)),
       (js ''logicalKey'', JString (idempotency_logical_key r (digest (stable_text (ir_input r)))))]"
  have plain: "plain_data (?v r)" for r
    by (simp add: js_def not_error_shaped)
  have "key_material digest r = key_material digest r' \<longleftrightarrow> same_json (?v r) (?v r')"
    unfolding key_material_def by (rule stable_text_iff [OF plain plain])
  also have "\<dots> \<longleftrightarrow> ir_tool r = ir_tool r' \<and> ir_session r = ir_session r'
     \<and> idempotency_logical_key r (digest (stable_text (ir_input r))) = idempotency_logical_key r' (digest (stable_text (ir_input r')))"
  proof
    assume "same_json (?v r) (?v r')"
    then have "rel_option same_json (map_of [(js ''toolId'', JString (ir_tool r)), (js ''sessionId'', JString (ir_session r)),
        (js ''logicalKey'', JString (idempotency_logical_key r (digest (stable_text (ir_input r)))))] k)
      (map_of [(js ''toolId'', JString (ir_tool r')), (js ''sessionId'', JString (ir_session r')),
        (js ''logicalKey'', JString (idempotency_logical_key r' (digest (stable_text (ir_input r')))))] k)" for k
      by (simp only: same_json_simps js_value.inject) blast
    from this [of "js ''toolId''"] this [of "js ''sessionId''"] this [of "js ''logicalKey''"]
    show "ir_tool r = ir_tool r' \<and> ir_session r = ir_session r'
     \<and> idempotency_logical_key r (digest (stable_text (ir_input r))) = idempotency_logical_key r' (digest (stable_text (ir_input r')))"
      by (simp add: js_def same_json_simps)
  next
    assume "ir_tool r = ir_tool r' \<and> ir_session r = ir_session r'
     \<and> idempotency_logical_key r (digest (stable_text (ir_input r))) = idempotency_logical_key r' (digest (stable_text (ir_input r')))"
    then show "same_json (?v r) (?v r')" by (simp only: same_json_refl)
  qed
  finally show ?thesis .
qed



section \<open>Examples\<close>

text \<open>One call made twice, with the entries of its input and the scopes of its tenant in another order.\<close>

definition first_call :: identity_request where
  "first_call = \<lparr>ir_input = order_one, ir_session = [115], ir_turn = [116], ir_tool = [112], ir_version = [49],
     ir_tenant = Some \<lparr>tt_user = Some [117], tt_organization = None, tt_workflow = None, tt_scopes = Some [[97], [98]]\<rparr>,
     ir_enabled = True, ir_template = None, ir_legacy = False\<rparr>"

definition second_call :: identity_request where
  "second_call = first_call\<lparr>ir_input := order_two,
     ir_tenant := Some \<lparr>tt_user = Some [117], tt_organization = None, tt_workflow = None, tt_scopes = Some [[98], [97]]\<rparr>\<rparr>"

lemma calls_same: "same_request first_call second_call"
  using orders_same by (simp add: same_request_def first_call_def second_call_def tenant_identity_def tenant_entries_def)

lemma calls_fields:
  "ir_enabled first_call" "ir_enabled second_call" "ir_template first_call = None" "ir_template second_call = None"
  "plain_data (ir_input first_call)" "plain_data (ir_input second_call)"
  using orders_plain by (simp_all add: first_call_def second_call_def)



text \<open>What a template does with a session whose name has a replacement pattern in it: the pattern is expanded.\<close>

lemma pattern_in_session_expands:
  "replace_all [123, 125] [36, 38] [97, 123, 125, 98] = [97, 123, 125, 98]"
  by (simp add: replace_all_def replace_from.simps)

end
