(* ===== verification/Speech_Failover.thy ===== *)
theory Speech_Failover
  imports Stable_Text "HOL-Library.Sublist"
begin

text \<open>
  The speech synthesizer that fails over to a second provider, providers/src/tts-failover.ts: the
  decision to fall back, the stream that keeps what the first provider sent before its first audio
  back until it is safe, and the estimate of the size of what is kept back.

  The generator of the stream is a step machine: it waits for the next event of the provider, for the first
  provider to close, for the fallback to start, or at a \<open>yield\<close> for the consumer. What it waits for, and a cancellation
  at any time, come as events. The mapping of the request to the fallback is a parameter.
\<close>

section \<open>Events and their size\<close>

text \<open>An event that is not audio is plain data, or something else that has no JSON text.\<close>

datatype tts_event =
    AudioEvent "8 word list"
  | DataEvent js_value
  | OpaqueEvent nat

definition max_pre_audio_bytes :: int where "max_pre_audio_bytes = 1048576"
definition max_estimate_depth :: nat where "max_estimate_depth = 64"
definition max_estimate_nodes :: nat where "max_estimate_nodes = 65536"

text \<open>The bytes and the nodes so far, None once a limit was passed.\<close>

definition add_bytes :: "int \<Rightarrow> int \<times> nat \<Rightarrow> (int \<times> nat) option" where
  "add_bytes k s = (if fst s + k \<le> max_pre_audio_bytes then Some (fst s + k, snd s) else None)"

definition visit_node :: "int \<times> nat \<Rightarrow> (int \<times> nat) option" where
  "visit_node s = (if snd s + 1 \<le> max_estimate_nodes then Some (fst s, snd s + 1) else None)"

fun add_characters :: "js_string \<Rightarrow> int \<times> nat \<Rightarrow> (int \<times> nat) option" where
  "add_characters [] s = Some s"
| "add_characters (u # us) s =
     (if u = 34 \<or> u = 92 then Option.bind (add_bytes 2 s) (add_characters us)
      else if unat u < 32 then
        Option.bind (add_bytes (if u = 8 \<or> u = 9 \<or> u = 10 \<or> u = 12 \<or> u = 13 then 2 else 6) s) (add_characters us)
      else if is_high u then
        (if us \<noteq> [] \<and> is_low (hd us) then Option.bind (add_bytes 4 s) (add_characters (tl us))
         else Option.bind (add_bytes 6 s) (add_characters us))
      else if is_low u then Option.bind (add_bytes 6 s) (add_characters us)
      else Option.bind (add_bytes (if unat u < 128 then 1 else if unat u < 2048 then 2 else 3) s) (add_characters us))"

definition add_string :: "js_string \<Rightarrow> int \<times> nat \<Rightarrow> (int \<times> nat) option" where
  "add_string str s = Option.bind (add_bytes 2 s) (add_characters str)"

text \<open>A value whose node was counted; the elements of an array count their own, the entries of an object are counted before their key.\<close>

fun estimate_value :: "nat \<Rightarrow> js_value \<Rightarrow> int \<times> nat \<Rightarrow> (int \<times> nat) option"
  and estimate_items :: "nat \<Rightarrow> bool \<Rightarrow> js_value list \<Rightarrow> int \<times> nat \<Rightarrow> (int \<times> nat) option"
  and estimate_entries :: "nat \<Rightarrow> bool \<Rightarrow> (js_string \<times> js_value) list \<Rightarrow> int \<times> nat \<Rightarrow> (int \<times> nat) option" where
  "estimate_value depth JNull s = add_bytes 4 s"
| "estimate_value depth (JString str) s = add_string str s"
| "estimate_value depth (JBool b) s = add_bytes (if b then 4 else 5) s"
| "estimate_value depth (JNumber negative m n) s = add_bytes (int (length (number_text negative m n))) s"
| "estimate_value depth (JArray vs) s =
     (if max_estimate_depth \<le> depth then None
      else Option.bind (add_bytes 1 s) (\<lambda>s1. Option.bind (estimate_items depth True vs s1) (add_bytes 1)))"
| "estimate_value depth (JObject kvs) s =
     (if max_estimate_depth \<le> depth then None
      else Option.bind (add_bytes 1 s) (\<lambda>s1. Option.bind (estimate_entries depth True kvs s1) (add_bytes 1)))"
| "estimate_items depth first [] s = Some s"
| "estimate_items depth first (v # vs) s =
     Option.bind (if first then Some s else add_bytes 1 s) (\<lambda>s1.
     Option.bind (visit_node s1) (\<lambda>s2.
     Option.bind (estimate_value (depth + 1) v s2) (estimate_items depth False vs)))"
| "estimate_entries depth first [] s = Some s"
| "estimate_entries depth first ((k, v) # kvs) s =
     Option.bind (visit_node s) (\<lambda>s1.
     Option.bind (if first then Some s1 else add_bytes 1 s1) (\<lambda>s2.
     Option.bind (add_string k s2) (\<lambda>s3.
     Option.bind (add_bytes 1 s3) (\<lambda>s4.
     Option.bind (estimate_value (depth + 1) v s4) (estimate_entries depth False kvs)))))"

definition bounded_json_length :: "js_value \<Rightarrow> int" where
  "bounded_json_length v =
     (case Option.bind (visit_node (0, 0)) (estimate_value 0 v) of Some s \<Rightarrow> fst s | None \<Rightarrow> max_pre_audio_bytes + 1)"

definition estimate_event_bytes :: "tts_event \<Rightarrow> int" where
  "estimate_event_bytes e = (case e of DataEvent v \<Rightarrow> bounded_json_length v | _ \<Rightarrow> max_pre_audio_bytes + 1)"

section \<open>The estimate is exact\<close>

text \<open>The number of values in a value, and how deep containers are nested.\<close>

fun node_count :: "js_value \<Rightarrow> nat" where
  "node_count (JArray vs) = 1 + sum_list (map node_count vs)"
| "node_count (JObject kvs) = 1 + sum_list (map (\<lambda>(k, v). node_count v) kvs)"
| "node_count v = 1"

text \<open>What adding a number of bytes and nodes gives: the limits are only passed or not, whatever the order.\<close>

definition grown :: "int \<Rightarrow> nat \<Rightarrow> bool \<Rightarrow> int \<times> nat \<Rightarrow> (int \<times> nat) option" where
  "grown b n ok s = (if ok \<and> fst s + b \<le> max_pre_audio_bytes \<and> snd s + n \<le> max_estimate_nodes
     then Some (fst s + b, snd s + n) else None)"

definition fits :: "int \<times> nat \<Rightarrow> bool" where
  "fits s \<longleftrightarrow> fst s \<le> max_pre_audio_bytes \<and> snd s \<le> max_estimate_nodes"

lemma add_bytes_grown: "fits s \<Longrightarrow> add_bytes k s = grown k 0 True s"
  by (simp add: add_bytes_def grown_def fits_def)

lemma visit_node_grown: "fits s \<Longrightarrow> visit_node s = grown 0 1 True s"
  by (simp add: visit_node_def grown_def fits_def)

lemma grown_none: "fits s \<Longrightarrow> Some s = grown 0 0 True s"
  by (simp add: grown_def fits_def)

lemma grown_bind:
  assumes "0 \<le> b'" and "\<And>s'. fits s' \<Longrightarrow> f s' = grown b' n' ok' s'"
  shows "Option.bind (grown b n ok s) f = grown (b + b') (n + n') (ok \<and> ok') s"
proof (cases "ok \<and> fst s + b \<le> max_pre_audio_bytes \<and> snd s + n \<le> max_estimate_nodes")
  case True
  then have "f (fst s + b, snd s + n) = grown b' n' ok' (fst s + b, snd s + n)" by (intro assms(2)) (simp add: fits_def)
  then show ?thesis using True by (auto simp: grown_def add.assoc)
next
  case False
  then show ?thesis using assms(1) by (auto simp: grown_def)
qed

lemma escape_small: "unat u < 32 \<Longrightarrow> u \<noteq> 34 \<and> u \<noteq> 92 \<and> \<not> is_high u \<and> \<not> is_low u"
  by (auto simp: is_high_def is_low_def)

lemma utf8_unicode_escape: "utf8_length (unicode_escape u @ s) = 6 + utf8_length s"
proof -
  have "unat (lower_hex_digit d) < 128" if "d < 16" for d
    using that by (auto simp: lower_hex_digit_def unat_of_nat take_bit_eq_mod simp del: of_nat_add)
  moreover have "unat u div 4096 < 16" using unat_16 [of u] by auto
  ultimately show ?thesis by (simp add: unicode_escape_def)
qed

lemma add_characters_grown: "fits s \<Longrightarrow> add_characters us s = grown (utf8_length (json_escape us)) 0 True s"
proof (induction "length us" arbitrary: us s rule: less_induct)
  case less
  show ?case
  proof (cases us)
    case Nil
    then show ?thesis using less(2) by (simp add: grown_none json_escape.simps)
  next
    case (Cons u rest)
    have ih: "fits s' \<Longrightarrow> add_characters rest s' = grown (utf8_length (json_escape rest)) 0 True s'" for s'
      by (rule less(1)) (simp_all add: Cons)
    have step: "Option.bind (add_bytes k s) (add_characters rest) = grown (k + utf8_length (json_escape rest)) 0 True s" for k
      using grown_bind [of "utf8_length (json_escape rest)" "add_characters rest" 0 True k 0 True s] ih less(2)
      by (simp add: add_bytes_grown utf8_length_nonneg)
    have pair: "Option.bind (add_bytes 4 s) (add_characters (tl rest)) = grown (4 + utf8_length (json_escape (tl rest))) 0 True s"
      if "rest \<noteq> []"
    proof -
      have "fits s' \<Longrightarrow> add_characters (tl rest) s' = grown (utf8_length (json_escape (tl rest))) 0 True s'" for s'
        by (rule less(1)) (use Cons that in simp_all)
      then show ?thesis
        using grown_bind [of "utf8_length (json_escape (tl rest))" "add_characters (tl rest)" 0 True 4 0 True s] less(2)
        by (simp add: add_bytes_grown utf8_length_nonneg)
    qed
    show ?thesis
    proof (cases "is_high u \<and> rest \<noteq> [] \<and> is_low (hd rest)")
      case True
      then obtain v vs where vs: "rest = v # vs" by (cases rest) auto
      have "\<not> unat u < 2048" "u \<noteq> 34" "u \<noteq> 92" "\<not> unat u < 32" using True by (auto simp: is_high_def)
      moreover from this have "u \<noteq> 8" "u \<noteq> 9" "u \<noteq> 10" "u \<noteq> 12" "u \<noteq> 13" by auto
      ultimately show ?thesis using True Cons vs pair by (simp add: json_escape.simps(2) [of u])
    next
      case False
      have surrogate: "\<not> unat u < 32" "u \<noteq> 34" "u \<noteq> 92" "\<not> unat u < 2048" if "is_high u \<or> is_low u"
        using that by (auto simp: is_high_def is_low_def)
      show ?thesis
      proof (cases "is_high u \<or> is_low u")
        case True
        then show ?thesis using False surrogate Cons step [of 6]
          using utf8_unicode_escape [of u "[]"] by (cases rest) (auto simp: json_escape.simps(2) [of u] json_escape.simps(1) utf8_unicode_escape)
      next
        case plain: False
        then show ?thesis using False Cons step escape_small [of u]
          by (auto simp: json_escape.simps(2) [of u] utf8_unicode_escape)
      qed
    qed
  qed
qed

lemma utf8_length_join: "t = [] \<or> \<not> is_low (hd t) \<Longrightarrow> utf8_length (s @ t) = utf8_length s + utf8_length t"
proof (induction s rule: utf8_length.induct)
  case (2 u us)
  then show ?case by (cases us) (auto simp: is_high_def is_low_def)
qed simp

lemma add_string_grown: "fits s \<Longrightarrow> add_string str s = grown (utf8_length (json_quote str)) 0 True s"
proof -
  assume fits: "fits s"
  have "utf8_length (json_quote str) = 2 + utf8_length (json_escape str)"
    by (simp add: json_quote_def utf8_length_join is_low_def)
  then show ?thesis unfolding add_string_def using fits
    by (simp add: add_bytes_grown grown_bind [OF utf8_length_nonneg add_characters_grown])
qed

definition ascii :: "js_string \<Rightarrow> bool" where
  "ascii s \<longleftrightarrow> (\<forall>u \<in> set s. unat u < 128)"

lemma ascii_simps [simp]:
  "ascii []" "ascii (u # s) \<longleftrightarrow> unat u < 128 \<and> ascii s" "ascii (s @ t) \<longleftrightarrow> ascii s \<and> ascii t"
  by (auto simp: ascii_def)

lemma ascii_sub: "ascii s \<Longrightarrow> ascii (take n s)" "ascii s \<Longrightarrow> ascii (drop n s)" "unat u < 128 \<Longrightarrow> ascii (replicate m u)"
  by (auto simp: ascii_def dest: in_set_takeD in_set_dropD)

lemma ascii_length: "ascii s \<Longrightarrow> utf8_length s = int (length s)"
  by (induction s) auto

lemma ascii_decimal: "ascii (decimal n)"
  using decimal_digits [of n] by (auto simp: ascii_def list_all_iff is_digit_def)

lemma ascii_number: "ascii (number_text negative m n)"
  using ascii_decimal [of m] ascii_decimal [of "nat \<bar>n - 1\<bar>"] by (auto simp: number_text_def Let_def ascii_sub)

lemma json_text_start: "json_text v \<noteq> [] \<and> \<not> is_low (hd (json_text v))"
proof (cases v)
  case (JNumber negative m n)
  have "number_text negative m n \<noteq> []" using decimal_nonempty [of m]
    by (auto simp: number_text_def Let_def)
  moreover from this have "unat (hd (number_text negative m n)) < 128" using ascii_number [of negative m n] by (simp add: ascii_def)
  ultimately show ?thesis using JNumber by (simp add: is_low_def)
qed (auto simp: js_def json_quote_def is_low_def)

text \<open>What \<open>join\<close> writes, with the comma before each element but the first.\<close>

fun separated :: "bool \<Rightarrow> js_string list \<Rightarrow> js_string" where
  "separated first [] = []"
| "separated first (t # ts) = (if first then [] else [44]) @ t @ separated False ts"

lemma join_separated: "join [44] ts = separated True ts"
proof -
  have "join [44] (t # ts) = t @ separated False ts" for t ts by (induction ts arbitrary: t) simp_all
  then show ?thesis by (cases ts) simp_all
qed

definition entry_text :: "js_string \<times> js_value \<Rightarrow> js_string" where
  "entry_text kv = json_quote (fst kv) @ [58] @ json_text (snd kv)"

fun nesting :: "js_value \<Rightarrow> nat" where
  "nesting (JArray vs) = Suc (foldr max (map nesting vs) 0)"
| "nesting (JObject kvs) = Suc (foldr max (map (\<lambda>(k, v). nesting v) kvs) 0)"
| "nesting v = 0"

lemma utf8_separated_cons:
  assumes "t \<noteq> []" and "\<not> is_low (hd t)"
  shows "utf8_length (separated first (t # ts)) = (if first then 0 else 1) + utf8_length t + utf8_length (separated False ts)"
proof -
  have rest: "separated False ts = [] \<or> \<not> is_low (hd (separated False ts))" by (cases ts) (simp_all add: is_low_def)
  then have "utf8_length (t @ separated False ts) = utf8_length t + utf8_length (separated False ts)" by (rule utf8_length_join)
  then show ?thesis by simp
qed

lemma entry_text_length:
  "entry_text (k, v) \<noteq> []" "\<not> is_low (hd (entry_text (k, v)))"
  "utf8_length (entry_text (k, v)) = utf8_length (json_quote k) + 1 + utf8_length (json_text v)"
  using json_text_start [of v]
  by (simp_all add: entry_text_def utf8_length_join is_low_def) (simp_all add: json_quote_def)

text \<open>The estimate grows by the bytes of the text and the nodes of the value, unless it is nested too deep.\<close>

definition value_estimated :: "js_value \<Rightarrow> bool" where
  "value_estimated v \<longleftrightarrow> (\<forall>d s. d \<le> 64 \<longrightarrow> fits s \<longrightarrow>
     estimate_value d v s = grown (utf8_length (json_text v)) (node_count v - 1) (nesting v + d \<le> 64) s)"

lemma value_estimatedD: "value_estimated v \<Longrightarrow> d \<le> 64 \<Longrightarrow> fits s \<Longrightarrow>
    estimate_value d v s = grown (utf8_length (json_text v)) (node_count v - 1) (nesting v + d \<le> 64) s"
  by (simp only: value_estimated_def)

lemma node_count_pos: "1 \<le> node_count v"
  by (cases v) simp_all

lemma bind_eqI: "m = m' \<Longrightarrow> (\<And>x. m' = Some x \<Longrightarrow> f x = g x) \<Longrightarrow> Option.bind m f = Option.bind m' g"
  by (cases m') auto

lemma grown_fits: "grown b n ok s = Some s' \<Longrightarrow> fits s'"
  by (auto simp: grown_def fits_def split: if_splits)

lemma items_grown:
  assumes "\<forall>v \<in> set vs. value_estimated v" and "d < 64" and "fits s"
  shows "estimate_items d first vs s = grown (utf8_length (separated first (map json_text vs))) (sum_list (map node_count vs))
    (\<forall>v \<in> set vs. nesting v + d < 64) s"
  using assms
proof (induction vs arbitrary: first s)
  case Nil
  then show ?case by (simp add: grown_none)
next
  case (Cons v vs)
  have rest: "estimate_items d False vs s' = grown (utf8_length (separated False (map json_text vs))) (sum_list (map node_count vs))
      (\<forall>v \<in> set vs. nesting v + d < 64) s'" if "fits s'" for s'
    using Cons.IH [of s' False] Cons.prems(1,2) that by simp
  have one: "estimate_value (d + 1) v s' = grown (utf8_length (json_text v)) (node_count v - 1) (nesting v + d < 64) s'" if "fits s'" for s'
    using value_estimatedD [of v "d + 1" s'] Cons.prems(1,2) that by (simp add: less_eq_Suc_le)
  have item: "Option.bind (estimate_value (d + 1) v s') (estimate_items d False vs)
      = grown (utf8_length (json_text v) + utf8_length (separated False (map json_text vs)))
          (node_count v - 1 + sum_list (map node_count vs)) (nesting v + d < 64 \<and> (\<forall>v \<in> set vs. nesting v + d < 64)) s'" if "fits s'" for s'
    unfolding one [OF that] by (rule grown_bind [OF utf8_length_nonneg rest])
  have node: "Option.bind (visit_node s') (\<lambda>s2. Option.bind (estimate_value (d + 1) v s2) (estimate_items d False vs))
      = grown (0 + (utf8_length (json_text v) + utf8_length (separated False (map json_text vs))))
          (1 + (node_count v - 1 + sum_list (map node_count vs))) (True \<and> (nesting v + d < 64 \<and> (\<forall>v \<in> set vs. nesting v + d < 64))) s'"
    if "fits s'" for s'
    unfolding visit_node_grown [OF that] by (rule grown_bind [OF _ item]) (simp add: utf8_length_nonneg)
  have comma: "(if first then Some s else add_bytes 1 s) = grown (if first then 0 else 1) 0 True s"
    using Cons.prems(3) by (simp add: grown_none add_bytes_grown)
  have "estimate_items d first (v # vs) s
      = grown ((if first then 0 else 1) + (0 + (utf8_length (json_text v) + utf8_length (separated False (map json_text vs)))))
          (0 + (1 + (node_count v - 1 + sum_list (map node_count vs))))
          (True \<and> (True \<and> (nesting v + d < 64 \<and> (\<forall>v \<in> set vs. nesting v + d < 64)))) s"
    unfolding estimate_items.simps comma by (rule grown_bind [OF _ node]) (simp_all add: utf8_length_nonneg)
  moreover have "utf8_length (separated first (map json_text (v # vs)))
      = (if first then 0 else 1) + utf8_length (json_text v) + utf8_length (separated False (map json_text vs))"
    using utf8_separated_cons [of "json_text v" first "map json_text vs"] json_text_start [of v] by simp
  ultimately show ?case using node_count_pos [of v] by (simp add: add.assoc)
qed

lemma entries_grown:
  assumes "\<forall>kv \<in> set kvs. value_estimated (snd kv)" and "d < 64" and "fits s"
  shows "estimate_entries d first kvs s = grown (utf8_length (separated first (map entry_text kvs)))
    (sum_list (map (\<lambda>(k, v). node_count v) kvs)) (\<forall>kv \<in> set kvs. nesting (snd kv) + d < 64) s"
  using assms
proof (induction kvs arbitrary: first s)
  case Nil
  then show ?case by (simp add: grown_none)
next
  case (Cons kv kvs)
  obtain k v where kv: "kv = (k, v)" by fastforce
  let ?rest = "utf8_length (separated False (map entry_text kvs))" and ?nodes = "sum_list (map (\<lambda>(k, v). node_count v) kvs)"
    and ?deep = "\<forall>kv \<in> set kvs. nesting (snd kv) + d < 64"
  have rest: "estimate_entries d False kvs s' = grown ?rest ?nodes ?deep s'" if "fits s'" for s'
    using Cons.IH [of s' False] Cons.prems(1,2) that by simp
  have one: "estimate_value (d + 1) v s' = grown (utf8_length (json_text v)) (node_count v - 1) (nesting v + d < 64) s'" if "fits s'" for s'
    using value_estimatedD [of v "d + 1" s'] Cons.prems(1,2) that by (simp add: less_eq_Suc_le kv)
  have item: "Option.bind (estimate_value (d + 1) v s') (estimate_entries d False kvs)
      = grown (utf8_length (json_text v) + ?rest) (node_count v - 1 + ?nodes) (nesting v + d < 64 \<and> ?deep) s'" if "fits s'" for s'
    unfolding one [OF that] by (rule grown_bind [OF utf8_length_nonneg rest])
  have colon: "Option.bind (add_bytes 1 s') (\<lambda>s4. Option.bind (estimate_value (d + 1) v s4) (estimate_entries d False kvs))
      = grown (1 + (utf8_length (json_text v) + ?rest)) (0 + (node_count v - 1 + ?nodes)) (True \<and> (nesting v + d < 64 \<and> ?deep)) s'" if "fits s'" for s'
    unfolding add_bytes_grown [OF that] by (rule grown_bind [OF _ item]) (simp_all add: utf8_length_nonneg)
  have key: "Option.bind (add_string k s') (\<lambda>s3. Option.bind (add_bytes 1 s3) (\<lambda>s4. Option.bind (estimate_value (d + 1) v s4) (estimate_entries d False kvs)))
      = grown (utf8_length (json_quote k) + (1 + (utf8_length (json_text v) + ?rest))) (0 + (0 + (node_count v - 1 + ?nodes)))
          (True \<and> (True \<and> (nesting v + d < 64 \<and> ?deep))) s'" if "fits s'" for s'
    unfolding add_string_grown [OF that] by (rule grown_bind [OF _ colon]) (simp_all add: utf8_length_nonneg)
  have comma: "Option.bind (if first then Some s' else add_bytes 1 s') (\<lambda>s2. Option.bind (add_string k s2) (\<lambda>s3. Option.bind (add_bytes 1 s3)
        (\<lambda>s4. Option.bind (estimate_value (d + 1) v s4) (estimate_entries d False kvs))))
      = grown ((if first then 0 else 1) + (utf8_length (json_quote k) + (1 + (utf8_length (json_text v) + ?rest))))
          (0 + (0 + (0 + (node_count v - 1 + ?nodes)))) (True \<and> (True \<and> (True \<and> (nesting v + d < 64 \<and> ?deep)))) s'" if "fits s'" for s'
  proof -
    have "(if first then Some s' else add_bytes 1 s') = grown (if first then 0 else 1) 0 True s'"
      using that by (simp add: grown_none add_bytes_grown)
    then show ?thesis by (simp only:) (rule grown_bind [OF _ key], simp_all add: utf8_length_nonneg)
  qed
  have "estimate_entries d first ((k, v) # kvs) s
      = grown (0 + ((if first then 0 else 1) + (utf8_length (json_quote k) + (1 + (utf8_length (json_text v) + ?rest)))))
          (1 + (0 + (0 + (0 + (node_count v - 1 + ?nodes))))) (True \<and> (True \<and> (True \<and> (True \<and> (nesting v + d < 64 \<and> ?deep))))) s"
    unfolding estimate_entries.simps visit_node_grown [OF Cons.prems(3)] by (rule grown_bind [OF _ comma]) (simp_all add: utf8_length_nonneg)
  then show ?case using node_count_pos [of v] entry_text_length [of k v] utf8_separated_cons [of "entry_text (k, v)" first "map entry_text kvs"]
    by (simp add: kv add.assoc)
qed

lemma containers_text:
  "json_text (JArray vs) = [91] @ separated True (map json_text vs) @ [93]"
  "json_text (JObject kvs) = [123] @ separated True (map entry_text kvs) @ [125]"
  by (simp_all add: join_separated entry_text_def split_beta cong: map_cong)

lemma bracketed_length: "utf8_length ([91] @ t @ [93]) = 2 + utf8_length t" "utf8_length ([123] @ t @ [125]) = 2 + utf8_length t"
  by (simp_all add: utf8_length_join is_low_def)

lemma nesting_containers:
  "nesting (JArray vs) + d \<le> 64 \<longleftrightarrow> d < 64 \<and> (\<forall>v \<in> set vs. nesting v + d < 64)"
  "nesting (JObject kvs) + d \<le> 64 \<longleftrightarrow> d < 64 \<and> (\<forall>kv \<in> set kvs. nesting (snd kv) + d < 64)"
proof -
  have "foldr max ns 0 + d < 64 \<longleftrightarrow> d < 64 \<and> (\<forall>n \<in> set ns. n + d < 64)" for ns :: "nat list" and d
    by (induction ns) auto
  then show "nesting (JArray vs) + d \<le> 64 \<longleftrightarrow> d < 64 \<and> (\<forall>v \<in> set vs. nesting v + d < 64)"
    "nesting (JObject kvs) + d \<le> 64 \<longleftrightarrow> d < 64 \<and> (\<forall>kv \<in> set kvs. nesting (snd kv) + d < 64)"
    by (simp_all add: Suc_le_eq split_beta)
qed

lemma bracket_grown:
  assumes "\<And>s'. fits s' \<Longrightarrow> f s' = grown b n ok s'" and "0 \<le> b" and "fits s"
  shows "Option.bind (add_bytes 1 s) (\<lambda>s1. Option.bind (f s1) (add_bytes 1)) = grown (2 + b) n ok s"
proof -
  have close: "Option.bind (f s') (add_bytes 1) = grown (b + 1) (n + 0) (ok \<and> True) s'" if "fits s'" for s'
    unfolding assms(1) [OF that] by (rule grown_bind [OF _ add_bytes_grown]) simp_all
  have "Option.bind (add_bytes 1 s) (\<lambda>s1. Option.bind (f s1) (add_bytes 1)) = grown (1 + (b + 1)) (0 + (n + 0)) (True \<and> (ok \<and> True)) s"
    unfolding add_bytes_grown [OF assms(3)] by (rule grown_bind [OF _ close]) (use assms(2) in simp)
  then show ?thesis by (simp add: algebra_simps)
qed

lemma all_estimated: "value_estimated v"
proof (induction v)
  case (JArray vs)
  show ?case unfolding value_estimated_def
  proof (intro allI impI)
    fix d :: nat and s :: "int \<times> nat" assume d: "d \<le> 64" and fits: "fits s"
    have "Option.bind (add_bytes 1 s) (\<lambda>s1. Option.bind (estimate_items d True vs s1) (add_bytes 1))
        = grown (2 + utf8_length (separated True (map json_text vs))) (sum_list (map node_count vs)) (\<forall>v \<in> set vs. nesting v + d < 64) s" if "d < 64"
      by (rule bracket_grown [OF items_grown utf8_length_nonneg fits]) (use JArray that in simp_all)
    then show "estimate_value d (JArray vs) s
        = grown (utf8_length (json_text (JArray vs))) (node_count (JArray vs) - 1) (nesting (JArray vs) + d \<le> 64) s"
      unfolding containers_text nesting_containers bracketed_length
      by (cases "d < 64") (simp_all add: max_estimate_depth_def grown_def)
  qed
next
  case (JObject kvs)
  show ?case unfolding value_estimated_def
  proof (intro allI impI)
    fix d :: nat and s :: "int \<times> nat" assume d: "d \<le> 64" and fits: "fits s"
    have "Option.bind (add_bytes 1 s) (\<lambda>s1. Option.bind (estimate_entries d True kvs s1) (add_bytes 1))
        = grown (2 + utf8_length (separated True (map entry_text kvs))) (sum_list (map (\<lambda>(k, v). node_count v) kvs))
            (\<forall>kv \<in> set kvs. nesting (snd kv) + d < 64) s" if "d < 64"
      by (rule bracket_grown [OF entries_grown utf8_length_nonneg fits]) (use JObject that in force)+
    then show "estimate_value d (JObject kvs) s
        = grown (utf8_length (json_text (JObject kvs))) (node_count (JObject kvs) - 1) (nesting (JObject kvs) + d \<le> 64) s"
      unfolding containers_text nesting_containers bracketed_length
      by (cases "d < 64") (simp_all add: max_estimate_depth_def grown_def)
  qed
qed (auto simp: value_estimated_def add_bytes_grown add_string_grown ascii_length [OF ascii_number] js_def grown_def)

lemma estimate_exact:
  "bounded_json_length v =
    (if nesting v \<le> 64 \<and> node_count v \<le> 65536 \<and> utf8_length (json_text v) \<le> 1048576
     then utf8_length (json_text v) else 1048577)"
proof -
  have start: "fits (0, 0)" by (simp add: fits_def max_pre_audio_bytes_def)
  have "Option.bind (visit_node (0, 0)) (estimate_value 0 v)
      = grown (0 + utf8_length (json_text v)) (1 + (node_count v - 1)) (True \<and> nesting v + 0 \<le> 64) (0, 0)"
    unfolding visit_node_grown [OF start]
    by (rule grown_bind) (simp_all only: value_estimatedD [OF all_estimated] utf8_length_nonneg)
  then show ?thesis using node_count_pos [of v]
    by (simp add: bounded_json_length_def grown_def max_pre_audio_bytes_def max_estimate_nodes_def)
qed

section \<open>The decision to fall back\<close>

text \<open>The primary's failure as far as it is looked at, with what was added when the fallback could not be used.\<close>

record tts_failure =
  pf_code :: js_string
  pf_retriable :: bool
  pf_outcome_unknown :: bool
  pf_message :: js_string
  pf_provider :: "js_string option"
  pf_fallback_failure :: "(js_string \<times> js_string \<times> js_string option) option"

definition non_operational_errors :: "js_string list" where
  "non_operational_errors =
     [js ''provider.auth_failed'', js ''provider.invalid_request'', js ''provider.input_rejected'',
      js ''provider.model_unsupported'', js ''provider.voice_unsupported'', js ''provider.session_expired'',
      js ''provider.protocol_invalid'', js ''provider.identity_mismatch'', js ''provider.sequence_invalid'',
      js ''provider.stream_buffer_overflow'']"

definition default_should_fallback :: "tts_failure \<Rightarrow> bool" where
  "default_should_fallback e = (if pf_code e \<in> set non_operational_errors then False else pf_retriable e)"

definition request_cancelled :: tts_failure where
  "request_cancelled = \<lparr>pf_code = js ''provider.connection_cancelled'', pf_retriable = False, pf_outcome_unknown = False,
     pf_message = js ''TTS request was cancelled'', pf_provider = None, pf_fallback_failure = None\<rparr>"

text \<open>\<open>Array.from(s).slice(0, n)\<close>: the first characters of a string.\<close>

fun take_characters :: "nat \<Rightarrow> js_string \<Rightarrow> js_string" where
  "take_characters 0 s = []"
| "take_characters (Suc n) [] = []"
| "take_characters (Suc n) (u # us) =
     (if is_high u \<and> us \<noteq> [] \<and> is_low (hd us) then u # hd us # take_characters n (tl us) else u # take_characters n us)"

definition preserve_primary_failure :: "tts_failure \<Rightarrow> tts_failure \<Rightarrow> tts_failure" where
  "preserve_primary_failure primary e =
     primary\<lparr>pf_fallback_failure :=
       Some (pf_code e, take_characters 512 (pf_message e), map_option (take_characters 128) (pf_provider e))\<rparr>"

text \<open>
  What the code knows of the fallback: whether it cannot give the time stamps that were asked for, the host's decision,
  and the mapping of the request with all its checks. The last two may throw.
\<close>

record fallback_setup =
  fb_timestamps_missing :: bool
  fb_should :: "tts_failure \<Rightarrow> tts_failure + bool"
  fb_prepare :: "tts_failure \<Rightarrow> tts_failure + unit"

text \<open>The request may be aborted before each of the checks; the result is the error that is thrown, or the request is given to the fallback.\<close>

definition start_fallback :: "fallback_setup \<Rightarrow> (nat \<Rightarrow> bool) \<Rightarrow> tts_failure \<Rightarrow> tts_failure + unit" where
  "start_fallback host aborted original =
     (if fb_timestamps_missing host then Inl original
      else if pf_outcome_unknown original then Inl original
      else if aborted 0 then Inl request_cancelled
      else (case fb_should host original of
          Inl e \<Rightarrow> Inl (preserve_primary_failure original e)
        | Inr use \<Rightarrow>
            if \<not> use then Inl original
            else if aborted 1 then Inl request_cancelled
            else (case fb_prepare host original of
                Inl e \<Rightarrow> Inl (if aborted 2 then request_cancelled else preserve_primary_failure original e)
              | Inr u \<Rightarrow> if aborted 2 \<or> aborted 3 then Inl request_cancelled else Inr ())))"

lemma start_fallback_dispatches:
  "start_fallback host aborted e = Inr () \<longleftrightarrow> \<not> fb_timestamps_missing host \<and> \<not> pf_outcome_unknown e
    \<and> fb_should host e = Inr True \<and> fb_prepare host e = Inr ()
    \<and> \<not> aborted 0 \<and> \<not> aborted 1 \<and> \<not> aborted 2 \<and> \<not> aborted 3"
  by (auto simp: start_fallback_def split: sum.splits if_splits)

section \<open>The stream\<close>

datatype after_yield = AfterEvents | AfterDone

text \<open>
  The generator has not been asked for anything, waits for the next event of the active provider, waits for the primary
  to be closed, waits for the fallback to start, is suspended at a \<open>yield\<close> with events still to be given, or has ended,
  maybe with an error.
\<close>

datatype failover_phase =
    Unstarted
  | Reading
  | ClosingPrimary tts_failure
  | StartingFallback tts_failure
  | Yielding "tts_event list" after_yield
  | Ended "tts_failure option"

datatype tts_source = PrimarySource | FallbackSource

record failover =
  fo_fallback :: bool
  fo_saw_audio :: bool
  fo_committed :: bool
  fo_cancelled :: bool
  fo_completed :: bool
  fo_pending :: "tts_event list"
  fo_pending_bytes :: int
  fo_phase :: failover_phase
  fo_delivered :: "tts_event list"
  fo_cancels :: "tts_source list"
  fo_opened :: "tts_source list"
  fo_failures :: "tts_failure list"

definition new_failover :: failover where
  "new_failover = \<lparr>fo_fallback = False, fo_saw_audio = False, fo_committed = False, fo_cancelled = False, fo_completed = False,
     fo_pending = [], fo_pending_bytes = 0, fo_phase = Unstarted, fo_delivered = [], fo_cancels = [],
     fo_opened = [PrimarySource], fo_failures = []\<rparr>"

definition active_source :: "failover \<Rightarrow> tts_source" where
  "active_source st = (if fo_fallback st then FallbackSource else PrimarySource)"

text \<open>A stream is asked to cancel once.\<close>

definition cancel_source :: "tts_source \<Rightarrow> failover \<Rightarrow> failover" where
  "cancel_source p st = (if p \<in> set (fo_cancels st) then st else st\<lparr>fo_cancels := fo_cancels st @ [p]\<rparr>)"

text \<open>The \<open>finally\<close> block.\<close>

definition end_generator :: "tts_failure option \<Rightarrow> failover \<Rightarrow> failover" where
  "end_generator e st =
     (if \<not> fo_completed st \<and> \<not> fo_cancelled st then cancel_source (active_source st) st else st)\<lparr>fo_phase := Ended e\<rparr>"

definition next_read :: "failover \<Rightarrow> failover" where
  "next_read st = (if fo_cancelled st then end_generator None st else st\<lparr>fo_phase := Reading\<rparr>)"

definition yield_events :: "tts_event list \<Rightarrow> after_yield \<Rightarrow> failover \<Rightarrow> failover" where
  "yield_events es after st =
     (case es of
        [] \<Rightarrow> (case after of AfterEvents \<Rightarrow> next_read st | AfterDone \<Rightarrow> end_generator None (st\<lparr>fo_completed := True\<rparr>))
      | e # rest \<Rightarrow> st\<lparr>fo_delivered := fo_delivered st @ [e], fo_phase := Yielding rest after\<rparr>)"

definition clear_pending :: "failover \<Rightarrow> failover" where
  "clear_pending st = st\<lparr>fo_pending := [], fo_pending_bytes := 0\<rparr>"

fun audio_event :: "tts_event \<Rightarrow> bool" where
  "audio_event (AudioEvent b) = True"
| "audio_event e = False"

definition read_event :: "tts_event \<Rightarrow> failover \<Rightarrow> failover" where
  "read_event e st =
     (if fo_fallback st \<or> fo_saw_audio st then yield_events [e] AfterEvents (st\<lparr>fo_saw_audio := fo_saw_audio st \<or> audio_event e\<rparr>)
      else if audio_event e then yield_events (fo_pending st @ [e]) AfterEvents (clear_pending (st\<lparr>fo_saw_audio := True\<rparr>))
      else (let bytes = estimate_event_bytes e in
        if max_pre_audio_bytes < fo_pending_bytes st + bytes
        then yield_events (fo_pending st @ [e]) AfterEvents (clear_pending (st\<lparr>fo_committed := True\<rparr>))
        else next_read (st\<lparr>fo_pending := fo_pending st @ [e], fo_pending_bytes := fo_pending_bytes st + bytes\<rparr>)))"

definition read_done :: "failover \<Rightarrow> failover" where
  "read_done st = yield_events (fo_pending st) AfterDone (clear_pending st)"

definition read_failed :: "tts_failure \<Rightarrow> failover \<Rightarrow> failover" where
  "read_failed e st =
     (if fo_fallback st \<or> fo_saw_audio st \<or> fo_committed st \<or> fo_cancelled st then end_generator (Some e) st
      else (cancel_source PrimarySource (clear_pending st))\<lparr>fo_phase := ClosingPrimary e, fo_failures := fo_failures st @ [e]\<rparr>)"

definition primary_closed :: "tts_failure \<Rightarrow> failover \<Rightarrow> failover" where
  "primary_closed e st = (if fo_cancelled st then end_generator (Some e) st else st\<lparr>fo_phase := StartingFallback e\<rparr>)"

text \<open>The fallback refused or failed to start, or its stream is there; it is cancelled at once when the consumer is gone.\<close>

definition fallback_settled :: "tts_failure \<Rightarrow> tts_failure + unit \<Rightarrow> failover \<Rightarrow> failover" where
  "fallback_settled e outcome st =
     (case outcome of
        Inl e' \<Rightarrow> end_generator (Some e') st
      | Inr u \<Rightarrow>
          (let st1 = st\<lparr>fo_opened := fo_opened st @ [FallbackSource]\<rparr>
           in if fo_cancelled st then end_generator (Some e) (cancel_source FallbackSource st1)
              else next_read (st1\<lparr>fo_fallback := True\<rparr>)))"

definition cancel_failover :: "failover \<Rightarrow> failover" where
  "cancel_failover st = (if fo_cancelled st then st else cancel_source (active_source st) (st\<lparr>fo_cancelled := True\<rparr>))"

section \<open>Runs\<close>

text \<open>
  The consumer asks for the next event or stops (only when the generator is suspended), the stream is cancelled, or what the
  generator waits for settles. A fallback that starts does so by the decision above and the outcome of its synthesis.
\<close>

datatype failover_event =
    Pull
  | Stop
  | CancelStream
  | ReadEvent tts_event
  | ReadDone
  | ReadFailed tts_failure
  | PrimaryClosed
  | FallbackSettled "nat \<Rightarrow> bool" "tts_failure + unit"

definition failover_step :: "fallback_setup \<Rightarrow> failover_event \<Rightarrow> failover \<Rightarrow> failover" where
  "failover_step host ev st =
     (case (ev, fo_phase st) of
        (Pull, Unstarted) \<Rightarrow> next_read st
      | (Pull, Yielding es after) \<Rightarrow> yield_events es after st
      | (Stop, Unstarted) \<Rightarrow> st\<lparr>fo_phase := Ended None\<rparr>
      | (Stop, Yielding es after) \<Rightarrow> end_generator None st
      | (CancelStream, p) \<Rightarrow> cancel_failover st
      | (ReadEvent e, Reading) \<Rightarrow> read_event e st
      | (ReadDone, Reading) \<Rightarrow> read_done st
      | (ReadFailed e, Reading) \<Rightarrow> read_failed e st
      | (PrimaryClosed, ClosingPrimary e) \<Rightarrow> primary_closed e st
      | (FallbackSettled aborted outcome, StartingFallback e) \<Rightarrow>
          fallback_settled e (rbind (start_fallback host aborted e) (\<lambda>u. outcome)) st
      | _ \<Rightarrow> st)"

text \<open>With the events the generator read, and from whom.\<close>

definition read_of :: "failover_event \<Rightarrow> failover \<Rightarrow> (tts_source \<times> tts_event) list" where
  "read_of ev st = (case (ev, fo_phase st) of (ReadEvent e, Reading) \<Rightarrow> [(active_source st, e)] | _ \<Rightarrow> [])"

fun run_failover :: "fallback_setup \<Rightarrow> failover_event list \<Rightarrow> failover \<Rightarrow> (tts_source \<times> tts_event) list \<times> failover" where
  "run_failover host [] st = ([], st)"
| "run_failover host (ev # evs) st =
     (let (read, st') = run_failover host evs (failover_step host ev st) in (read_of ev st @ read, st'))"

definition heard_from :: "tts_source \<Rightarrow> (tts_source \<times> tts_event) list \<Rightarrow> tts_event list" where
  "heard_from p read = map snd (filter (\<lambda>r. fst r = p) read)"

section \<open>Invariants\<close>

definition may_fall_back :: "fallback_setup \<Rightarrow> tts_failure \<Rightarrow> bool" where
  "may_fall_back host e \<longleftrightarrow> \<not> fb_timestamps_missing host \<and> \<not> pf_outcome_unknown e
     \<and> fb_should host e = Inr True \<and> fb_prepare host e = Inr ()"

text \<open>What was delivered, is about to be delivered and is kept back is what was read from the active source.\<close>

fun phase_ok :: "failover_phase \<Rightarrow> failover \<Rightarrow> tts_event list \<Rightarrow> bool" where
  "phase_ok Unstarted st heard \<longleftrightarrow> heard = [] \<and> fo_delivered st = [] \<and> fo_pending st = [] \<and> \<not> fo_fallback st"
| "phase_ok Reading st heard \<longleftrightarrow> fo_delivered st @ fo_pending st = heard \<and> (fo_fallback st \<or> fo_saw_audio st \<longrightarrow> fo_pending st = [])
     \<and> (\<not> fo_fallback st \<and> \<not> fo_saw_audio st \<and> \<not> fo_committed st \<longrightarrow> fo_delivered st = [])"
| "phase_ok (ClosingPrimary e) st heard \<longleftrightarrow> fo_delivered st = [] \<and> fo_pending st = [] \<and> \<not> fo_fallback st \<and> fo_failures st = [e]"
| "phase_ok (StartingFallback e) st heard \<longleftrightarrow> fo_delivered st = [] \<and> fo_pending st = [] \<and> \<not> fo_fallback st \<and> fo_failures st = [e]"
| "phase_ok (Yielding es after) st heard \<longleftrightarrow> fo_delivered st @ es = heard \<and> fo_pending st = []
     \<and> (after = AfterEvents \<longrightarrow> fo_fallback st \<or> fo_saw_audio st \<or> fo_committed st)"
| "phase_ok (Ended e) st heard \<longleftrightarrow> prefix (fo_delivered st) heard \<and> (fo_completed st \<longrightarrow> fo_delivered st = heard)"

fun fails_over :: "failover_phase \<Rightarrow> bool" where
  "fails_over (ClosingPrimary e) = True"
| "fails_over (StartingFallback e) = True"
| "fails_over p = False"

fun has_ended :: "failover_phase \<Rightarrow> bool" where
  "has_ended (Ended e) = True"
| "has_ended p = False"

definition voice_ok :: "fallback_setup \<Rightarrow> (tts_source \<times> tts_event) list \<Rightarrow> failover \<Rightarrow> bool" where
  "voice_ok host read st \<longleftrightarrow> phase_ok (fo_phase st) st (heard_from (active_source st) read)
     \<and> (\<not> fo_fallback st \<longrightarrow> heard_from FallbackSource read = [])
     \<and> (\<not> has_ended (fo_phase st) \<longrightarrow> \<not> fo_completed st)
     \<and> (if fo_fallback st then \<exists>e. fo_failures st = [e] \<and> may_fall_back host e
        else fails_over (fo_phase st) \<or> has_ended (fo_phase st) \<or> fo_failures st = [])
     \<and> length (fo_failures st) \<le> 1"

definition kept_ok :: "failover \<Rightarrow> bool" where
  "kept_ok st \<longleftrightarrow> fo_pending_bytes st = sum_list (map estimate_event_bytes (fo_pending st)) \<and> fo_pending_bytes st \<le> max_pre_audio_bytes"

lemma heard_from_append [simp]: "heard_from p (xs @ ys) = heard_from p xs @ heard_from p ys"
  by (simp add: heard_from_def)

lemma heard_from_simps [simp]: "heard_from p [] = []" "heard_from p [(q, e)] = (if q = p then [e] else [])"
  by (simp_all add: heard_from_def)

lemma cancel_source_fields [simp]:
  "fo_fallback (cancel_source p st) = fo_fallback st" "fo_saw_audio (cancel_source p st) = fo_saw_audio st"
  "fo_committed (cancel_source p st) = fo_committed st" "fo_cancelled (cancel_source p st) = fo_cancelled st"
  "fo_completed (cancel_source p st) = fo_completed st" "fo_pending (cancel_source p st) = fo_pending st"
  "fo_pending_bytes (cancel_source p st) = fo_pending_bytes st" "fo_phase (cancel_source p st) = fo_phase st"
  "fo_delivered (cancel_source p st) = fo_delivered st" "fo_opened (cancel_source p st) = fo_opened st"
  "fo_failures (cancel_source p st) = fo_failures st" "set (fo_cancels (cancel_source p st)) = insert p (set (fo_cancels st))"
  by (auto simp: cancel_source_def)

lemma end_generator_fields [simp]:
  "fo_fallback (end_generator e st) = fo_fallback st" "fo_cancelled (end_generator e st) = fo_cancelled st"
  "fo_completed (end_generator e st) = fo_completed st" "fo_pending (end_generator e st) = fo_pending st"
  "fo_pending_bytes (end_generator e st) = fo_pending_bytes st" "fo_phase (end_generator e st) = Ended e"
  "fo_delivered (end_generator e st) = fo_delivered st" "fo_opened (end_generator e st) = fo_opened st"
  "fo_failures (end_generator e st) = fo_failures st"
  by (simp_all add: end_generator_def)

lemma active_fields [simp]:
  "active_source (cancel_source p st) = active_source st" "active_source (end_generator e st) = active_source st"
  by (simp_all add: active_source_def)

lemmas failover_defs = next_read_def yield_events_def clear_pending_def read_event_def read_done_def read_failed_def
  primary_closed_def fallback_settled_def cancel_failover_def

lemma prefix_of_append: "xs @ ys = zs \<Longrightarrow> prefix xs zs"
  by (auto simp: prefix_def)

lemma voice_next_read:
  assumes "phase_ok Reading st heard" and "heard = heard_from (active_source st) read" and "\<not> fo_fallback st \<longrightarrow> heard_from FallbackSource read = []"
    and "\<not> fo_completed st" and "if fo_fallback st then \<exists>e. fo_failures st = [e] \<and> may_fall_back host e else fo_failures st = []"
  shows "voice_ok host read (next_read st)"
  using assms prefix_of_append [of "fo_delivered st" "fo_pending st" heard]
  by (auto simp: voice_ok_def next_read_def active_source_def split: if_splits)

lemma voice_yields:
  assumes "fo_delivered st @ es = heard_from (active_source st) read" and "fo_pending st = []" and "\<not> fo_fallback st \<longrightarrow> heard_from FallbackSource read = []"
    and "after = AfterEvents \<longrightarrow> fo_fallback st \<or> fo_saw_audio st \<or> fo_committed st"
    and "\<not> fo_completed st" and "if fo_fallback st then \<exists>e. fo_failures st = [e] \<and> may_fall_back host e else fo_failures st = []"
  shows "voice_ok host read (yield_events es after st)"
proof (cases es)
  case Nil
  show ?thesis
  proof (cases after)
    case AfterEvents
    show ?thesis unfolding yield_events_def Nil AfterEvents list.case after_yield.case
      by (rule voice_next_read [where heard = "heard_from (active_source st) read"]) (use assms Nil AfterEvents in auto)
  next
    case AfterDone
    then show ?thesis using assms Nil
      by (auto simp: yield_events_def voice_ok_def end_generator_def active_source_def)
  qed
next
  case (Cons e rest)
  then show ?thesis using assms by (auto simp: yield_events_def voice_ok_def active_source_def)
qed

lemma voice_reading:
  assumes ok: "voice_ok host read st" and p: "fo_phase st = Reading"
  shows "voice_ok host (read @ [(active_source st, e)]) (read_event e st)" "voice_ok host read (read_done st)" "voice_ok host read (read_failed f st)"
proof -
  note facts = ok [unfolded voice_ok_def p, simplified]
  show "voice_ok host (read @ [(active_source st, e)]) (read_event e st)"
  proof (cases "fo_fallback st \<or> fo_saw_audio st")
    case True
    then show ?thesis unfolding read_event_def if_P [OF True] using facts
      by (intro voice_yields) (auto simp: active_source_def split: if_splits)
  next
    case False
    show ?thesis
    proof (cases "audio_event e \<or> max_pre_audio_bytes < fo_pending_bytes st + estimate_event_bytes e")
      case True
      then obtain b c where e: "read_event e st
          = yield_events (fo_pending st @ [e]) AfterEvents (clear_pending (st\<lparr>fo_saw_audio := b, fo_committed := c\<rparr>))" and bc: "b \<or> c"
      proof (cases "audio_event e")
        case True
        then have "read_event e st
            = yield_events (fo_pending st @ [e]) AfterEvents (clear_pending (st\<lparr>fo_saw_audio := True, fo_committed := fo_committed st\<rparr>))"
          using False by (simp add: read_event_def)
        then show thesis using that by blast
      next
        case other: False
        then have "read_event e st
            = yield_events (fo_pending st @ [e]) AfterEvents (clear_pending (st\<lparr>fo_saw_audio := fo_saw_audio st, fo_committed := True\<rparr>))"
          using False True by (cases st) (simp add: read_event_def Let_def)
        then show thesis using that by blast
      qed
      show ?thesis unfolding e
        by (rule voice_yields) (use facts False bc in \<open>auto simp: active_source_def clear_pending_def\<close>)
    next
      case kept: False
      have e: "read_event e st = next_read (st\<lparr>fo_pending := fo_pending st @ [e], fo_pending_bytes := fo_pending_bytes st + estimate_event_bytes e\<rparr>)"
        using False kept by (simp add: read_event_def Let_def)
      show ?thesis unfolding e
        by (rule voice_next_read [OF _ refl]) (use facts False in \<open>auto simp: active_source_def\<close>)
    qed
  qed
  show "voice_ok host read (read_done st)" unfolding read_done_def using facts
    by (intro voice_yields) (auto simp: active_source_def clear_pending_def split: if_splits)
  show "voice_ok host read (read_failed f st)" using facts prefix_of_append [of "fo_delivered st" "fo_pending st" "heard_from PrimarySource read"]
    by (auto simp: read_failed_def voice_ok_def active_source_def clear_pending_def)
qed

lemma voice_step:
  assumes "voice_ok host read st"
  shows "voice_ok host (read @ read_of ev st) (failover_step host ev st)"
proof -
  have cancelled: "voice_ok host read (cancel_failover st)"
    using assms by (cases "fo_phase st") (auto simp: cancel_failover_def voice_ok_def active_source_def)
  show ?thesis
  proof (cases "fo_phase st")
    case Unstarted
    have "voice_ok host read (next_read st)"
      by (rule voice_next_read [where heard = "[]"]) (use assms Unstarted in \<open>auto simp: voice_ok_def\<close>)
    then show ?thesis using assms Unstarted cancelled
      by (cases ev) (auto simp: failover_step_def read_of_def voice_ok_def active_source_def)
  next
    case Reading
    then show ?thesis using assms cancelled voice_reading [OF assms Reading]
      by (cases ev) (simp_all add: failover_step_def read_of_def)
  next
    case (ClosingPrimary e)
    then show ?thesis using assms cancelled
      by (cases ev) (auto simp: failover_step_def read_of_def voice_ok_def primary_closed_def active_source_def)
  next
    case (StartingFallback e)
    have "start_fallback host aborted e = Inr () \<Longrightarrow> may_fall_back host e" for aborted
      by (simp add: start_fallback_dispatches may_fall_back_def)
    then have "voice_ok host read (fallback_settled e (rbind (start_fallback host aborted e) (\<lambda>u. outcome)) st)" for aborted outcome
      using assms StartingFallback
      by (cases "start_fallback host aborted e"; cases outcome)
        (auto simp: voice_ok_def fallback_settled_def next_read_def active_source_def Let_def)
    then show ?thesis using assms StartingFallback cancelled
      by (cases ev) (simp_all add: failover_step_def read_of_def)
  next
    case (Yielding es after)
    have "voice_ok host read (yield_events es after st)"
      by (rule voice_yields) (use assms Yielding in \<open>auto simp: voice_ok_def split: if_splits\<close>)
    moreover have "voice_ok host read (end_generator None st)"
      using assms Yielding prefix_of_append [of "fo_delivered st" es] by (simp add: voice_ok_def)
    ultimately show ?thesis using assms Yielding cancelled
      by (cases ev) (simp_all add: failover_step_def read_of_def)
  next
    case (Ended e)
    then show ?thesis using assms cancelled
      by (cases ev) (simp_all add: failover_step_def read_of_def)
  qed
qed

lemma voice_run:
  assumes "voice_ok host before st" and "run_failover host evs st = (read, st')"
  shows "voice_ok host (before @ read) st'"
  using assms
proof (induction evs arbitrary: before st read)
  case (Cons ev evs)
  obtain later where later: "run_failover host evs (failover_step host ev st) = (later, st')" "read = read_of ev st @ later"
    using Cons.prems(2) by (auto split: prod.splits)
  show ?case using Cons.IH [OF voice_step [OF Cons.prems(1)] later(1)] later(2) by simp
qed simp

lemma new_voice: "voice_ok host [] new_failover"
  by (simp add: voice_ok_def new_failover_def)

text \<open>Failures of the primary that the stream caught were events of the run.\<close>

lemma failures_step:
  "set (fo_failures (failover_step host ev st)) \<subseteq> set (fo_failures st) \<union> {e. ev = ReadFailed e}"
proof -
  have yields: "fo_failures (yield_events es after st) = fo_failures st" for es after st
    by (auto simp: yield_events_def next_read_def split: list.split after_yield.split)
  show ?thesis
    by (cases ev; cases "fo_phase st")
      (auto simp: failover_step_def yields next_read_def read_event_def clear_pending_def read_done_def read_failed_def
        primary_closed_def fallback_settled_def cancel_failover_def Let_def split: sum.split)
qed

lemma failures_run:
  "run_failover host evs st = (read, st') \<Longrightarrow> set (fo_failures st') \<subseteq> set (fo_failures st) \<union> {e. ReadFailed e \<in> set evs}"
proof (induction evs arbitrary: st read)
  case (Cons ev evs)
  obtain later where later: "run_failover host evs (failover_step host ev st) = (later, st')"
    using Cons.prems by (auto split: prod.splits)
  show ?case using Cons.IH [OF later] failures_step [of host ev st] by auto
qed simp

text \<open>
  Property C36: the caller hears one voice. Whatever the providers send, however they fail and whenever the stream is cancelled or left,
  what was delivered is a beginning of what one of the two providers sent, in order and without a gap, and all of it when the stream
  completed. After a failover it is the fallback's, so nothing of the primary was let out before, and the primary had failed with an error
  that the host's policy lets fall back on, whose outcome is known, and for which the request could be mapped.
\<close>

theorem caller_hears_one_voice:
  assumes "run_failover host evs new_failover = (read, st)"
  shows "prefix (fo_delivered st) (heard_from (active_source st) read)
    \<and> (fo_completed st \<longrightarrow> fo_delivered st = heard_from (active_source st) read)
    \<and> (if fo_fallback st then \<exists>e. ReadFailed e \<in> set evs \<and> may_fall_back host e else heard_from FallbackSource read = [])"
proof -
  have ok: "voice_ok host read st" using voice_run [OF new_voice assms] by simp
  have "prefix (fo_delivered st) (heard_from (active_source st) read)"
    using ok by (cases "fo_phase st") (auto simp: voice_ok_def intro: prefix_of_append)
  moreover have "fo_delivered st = heard_from (active_source st) read" if "fo_completed st"
    using ok that by (cases "fo_phase st") (auto simp: voice_ok_def)
  moreover have "\<exists>e. ReadFailed e \<in> set evs \<and> may_fall_back host e" if "fo_fallback st"
    using ok that failures_run [OF assms] by (auto simp: voice_ok_def new_failover_def)
  moreover have "heard_from FallbackSource read = []" if "\<not> fo_fallback st"
    using ok that by (simp add: voice_ok_def)
  ultimately show ?thesis by simp
qed

section \<open>What is kept back, and what is left running\<close>

lemma yield_events_fields [simp]:
  "fo_pending (yield_events es after st) = fo_pending st" "fo_pending_bytes (yield_events es after st) = fo_pending_bytes st"
  "fo_opened (yield_events es after st) = fo_opened st"
  by (auto simp: yield_events_def next_read_def split: list.split after_yield.split)

lemma next_read_fields [simp]:
  "fo_pending (next_read st) = fo_pending st" "fo_pending_bytes (next_read st) = fo_pending_bytes st"
  "fo_opened (next_read st) = fo_opened st"
  by (auto simp: next_read_def)

lemma pending_step: "kept_ok st \<Longrightarrow> kept_ok (failover_step host ev st)"
  by (cases ev; cases "fo_phase st")
    (auto simp: kept_ok_def failover_step_def read_event_def clear_pending_def read_done_def read_failed_def
      primary_closed_def fallback_settled_def cancel_failover_def Let_def max_pre_audio_bytes_def split: sum.split)

text \<open>A stream that is no longer used was cancelled; one that is still used was not forgotten.\<close>

definition streams_ok :: "failover \<Rightarrow> bool" where
  "streams_ok st \<longleftrightarrow> (fo_cancelled st \<longrightarrow> active_source st \<in> set (fo_cancels st))
     \<and> (fo_fallback st \<or> fails_over (fo_phase st) \<longrightarrow> PrimarySource \<in> set (fo_cancels st))
     \<and> (FallbackSource \<in> set (fo_opened st) \<longrightarrow> fo_fallback st \<or> FallbackSource \<in> set (fo_cancels st))
     \<and> (has_ended (fo_phase st) \<longrightarrow> fo_completed st \<or> active_source st \<in> set (fo_cancels st))
     \<and> fo_phase st \<noteq> Unstarted"

lemma ends_streams:
  assumes "fo_cancelled st \<longrightarrow> active_source st \<in> set (fo_cancels st)"
    and "fo_fallback st \<longrightarrow> PrimarySource \<in> set (fo_cancels st)"
    and "FallbackSource \<in> set (fo_opened st) \<longrightarrow> fo_fallback st \<or> FallbackSource \<in> set (fo_cancels st)"
  shows "streams_ok (end_generator e st)" "streams_ok (next_read st)"
    "streams_ok (yield_events es after st)"
  using assms by (auto simp: streams_ok_def end_generator_def next_read_def yield_events_def active_source_def split: list.split after_yield.split)

lemma streams_step:
  assumes "streams_ok st"
  shows "streams_ok (failover_step host ev st)"
proof -
  have cancel: "streams_ok (cancel_failover st)"
    using assms by (auto simp: cancel_failover_def streams_ok_def active_source_def)
  have used: "fo_cancelled st \<longrightarrow> active_source st \<in> set (fo_cancels st)" "fo_fallback st \<longrightarrow> PrimarySource \<in> set (fo_cancels st)"
      "FallbackSource \<in> set (fo_opened st) \<longrightarrow> fo_fallback st \<or> FallbackSource \<in> set (fo_cancels st)"
    using assms by (simp_all add: streams_ok_def)
  note ends = ends_streams [OF used]
  have event: "streams_ok (read_event e st)" for e
    using used by (auto simp: read_event_def Let_def clear_pending_def active_source_def intro!: ends_streams)
  have finished: "streams_ok (read_done st)"
    using used by (auto simp: read_done_def clear_pending_def active_source_def intro!: ends_streams)
  have failed: "streams_ok (read_failed f st)" for f
  proof (cases "fo_fallback st \<or> fo_saw_audio st \<or> fo_committed st \<or> fo_cancelled st")
    case True
    show ?thesis unfolding read_failed_def if_P [OF True] by (rule ends(1))
  next
    case False
    show ?thesis unfolding read_failed_def if_not_P [OF False]
      using False used by (auto simp: streams_ok_def clear_pending_def active_source_def)
  qed
  have closing: "streams_ok (primary_closed e st)" if "fo_phase st = ClosingPrimary e" for e
  proof (cases "fo_cancelled st")
    case True
    show ?thesis unfolding primary_closed_def if_P [OF True] by (rule ends(1))
  next
    case False
    then show ?thesis using assms that by (auto simp: primary_closed_def streams_ok_def active_source_def)
  qed
  have starting: "streams_ok (fallback_settled e outcome st)" if "fo_phase st = StartingFallback e" for e outcome
  proof (cases outcome)
    case (Inl f)
    then show ?thesis using ends(1) by (simp add: fallback_settled_def)
  next
    case (Inr u)
    have "PrimarySource \<in> set (fo_cancels st)" "\<not> fo_cancelled st \<longrightarrow> fo_phase st \<noteq> Unstarted"
      using assms that by (simp_all add: streams_ok_def)
    then show ?thesis using Inr used
      by (auto simp: fallback_settled_def Let_def active_source_def intro!: ends_streams)
  qed
  show ?thesis
  proof (cases "fo_phase st")
    case Unstarted
    then show ?thesis using assms by (simp add: streams_ok_def)
  next
    case Reading
    then show ?thesis using assms cancel event finished failed by (cases ev) (simp_all add: failover_step_def)
  next
    case (ClosingPrimary e)
    then show ?thesis using assms cancel closing by (cases ev) (simp_all add: failover_step_def)
  next
    case (StartingFallback e)
    then show ?thesis using assms cancel starting by (cases ev) (simp_all add: failover_step_def)
  next
    case (Yielding es after)
    then show ?thesis using assms cancel ends by (cases ev) (simp_all add: failover_step_def)
  next
    case (Ended e)
    then show ?thesis using assms cancel by (cases ev) (simp_all add: failover_step_def)
  qed
qed

lemma run_keeps:
  assumes "\<And>st ev. P st \<Longrightarrow> P (failover_step host ev st)" and "P st" and "run_failover host evs st = (read, st')"
  shows "P st'"
  using assms(2,3)
proof (induction evs arbitrary: st read)
  case (Cons ev evs)
  obtain later where "run_failover host evs (failover_step host ev st) = (later, st')"
    using Cons.prems(2) by (auto split: prod.splits)
  then show ?case using Cons.IH assms(1) [OF Cons.prems(1)] by blast
qed simp


fun kept_size :: "tts_event \<Rightarrow> int option" where
  "kept_size (DataEvent v) = Some (utf8_length (json_text v))"
| "kept_size e = None"

lemma kept_estimate: "estimate_event_bytes e \<le> max_pre_audio_bytes \<Longrightarrow> kept_size e = Some (estimate_event_bytes e)"
  by (cases e) (auto simp: estimate_event_bytes_def estimate_exact max_pre_audio_bytes_def split: if_splits)

lemma estimate_nonneg: "0 \<le> estimate_event_bytes e"
  by (cases e) (simp_all add: estimate_event_bytes_def estimate_exact utf8_length_nonneg max_pre_audio_bytes_def)

lemma kept_members:
  assumes "kept_ok st" and "e \<in> set (fo_pending st)"
  shows "kept_size e = Some (estimate_event_bytes e)"
proof -
  have "estimate_event_bytes e \<le> sum_list (map estimate_event_bytes (fo_pending st))"
    using member_le_sum_list [of "estimate_event_bytes e" "map estimate_event_bytes (fo_pending st)"] assms(2) estimate_nonneg
    by (auto simp: sum_list_nonneg)
  then show ?thesis using assms(1) by (intro kept_estimate) (simp add: kept_ok_def)
qed

text \<open>
  Property C38: what is kept back of the primary before its first audio never exceeds a megabyte. The counter is the size of the JSON text of
  the events kept, byte for byte, and an event that has no such text, or one nested too deep, is never kept.
\<close>

theorem kept_back_bounded:
  assumes "run_failover host evs new_failover = (read, st)"
  shows "\<exists>sizes. map kept_size (fo_pending st) = map Some sizes \<and> sum_list sizes = fo_pending_bytes st \<and> sum_list sizes \<le> 1048576"
proof -
  have "kept_ok new_failover" by (simp add: kept_ok_def new_failover_def max_pre_audio_bytes_def)
  from run_keeps [where P = kept_ok, OF pending_step this assms] have ok: "kept_ok st" .
  have "map kept_size (fo_pending st) = map Some (map estimate_event_bytes (fo_pending st))"
    using kept_members [OF ok] by simp
  moreover have "sum_list (map estimate_event_bytes (fo_pending st)) = fo_pending_bytes st" "fo_pending_bytes st \<le> 1048576"
    using ok by (simp_all add: kept_ok_def max_pre_audio_bytes_def)
  ultimately show ?thesis by metis
qed

section \<open>Examples\<close>

text \<open>The primary fails after an event without audio, the default policy falls back, and the fallback speaks to the end.\<close>

definition outage :: tts_failure where
  "outage = \<lparr>pf_code = [], pf_retriable = True, pf_outcome_unknown = False, pf_message = [], pf_provider = None, pf_fallback_failure = None\<rparr>"

definition default_host :: fallback_setup where
  "default_host = \<lparr>fb_timestamps_missing = False, fb_should = (\<lambda>e. Inr (default_should_fallback e)), fb_prepare = (\<lambda>e. Inr ())\<rparr>"

definition failing_over :: "failover_event list" where
  "failing_over = [ReadEvent (DataEvent JNull), ReadFailed outage, PrimaryClosed, FallbackSettled (\<lambda>i. False) (Inr ()),
     ReadEvent (AudioEvent [1]), Pull, ReadDone]"

definition spoken_stream :: failover where
  "spoken_stream = snd (run_failover default_host (Pull # failing_over) new_failover)"

lemma default_allows: "may_fall_back default_host outage"
  by (simp add: may_fall_back_def default_host_def outage_def default_should_fallback_def non_operational_errors_def js_def)

lemma spoken_run:
  "run_failover default_host (Pull # failing_over) new_failover
    = ([(PrimarySource, DataEvent JNull), (FallbackSource, AudioEvent [1])], spoken_stream)"
  "fo_delivered spoken_stream = [AudioEvent [1]]" "fo_completed spoken_stream" "fo_phase spoken_stream = Ended None" "fo_fallback spoken_stream"
  "fo_opened spoken_stream = [PrimarySource, FallbackSource]" "fo_cancels spoken_stream = [PrimarySource]" "fo_pending spoken_stream = []"
proof -
  have start: "start_fallback default_host (\<lambda>i. False) outage = Inr ()"
    using default_allows by (simp add: start_fallback_dispatches may_fall_back_def)
  have size: "estimate_event_bytes (DataEvent JNull) = 4"
    by (simp add: estimate_event_bytes_def estimate_exact js_def)
  note defs = spoken_stream_def failing_over_def new_failover_def failover_step_def read_of_def failover_defs cancel_source_def
    end_generator_def active_source_def start size max_pre_audio_bytes_def Let_def
  show "run_failover default_host (Pull # failing_over) new_failover
    = ([(PrimarySource, DataEvent JNull), (FallbackSource, AudioEvent [1])], spoken_stream)" by (simp add: defs)
  show "fo_delivered spoken_stream = [AudioEvent [1]]" "fo_completed spoken_stream" "fo_phase spoken_stream = Ended None" "fo_fallback spoken_stream"
    "fo_opened spoken_stream = [PrimarySource, FallbackSource]" "fo_cancels spoken_stream = [PrimarySource]" "fo_pending spoken_stream = []"
    by (simp_all add: defs)
qed

theorem caller_hears_one_voice_witness:
  "fo_delivered spoken_stream = [AudioEvent [1]] \<and> prefix (fo_delivered spoken_stream) [AudioEvent [1]] \<and> fo_fallback spoken_stream"
  using caller_hears_one_voice [OF spoken_run(1)] spoken_run by (simp add: active_source_def heard_from_def)


theorem kept_back_bounded_witness: "\<exists>sizes. map kept_size (fo_pending spoken_stream) = map Some sizes \<and> sum_list sizes \<le> 1048576"
  using kept_back_bounded [OF spoken_run(1)] by blast

end
