(* ===== verification/Spec2Isabelle.thy ===== *)
theory Spec2Isabelle
  imports Prelude Audio_Codec Async_Queue Leases Record_Stores Durable_Store Idempotency_Store Tool_Execution
    Terminal_Arbiter Text_Encoding Memory_Store Json_Text Prompt_Context Memory_Paging Conversation_Policy
    Numbers Schema_Validation Typed_Tools Audio_Normalizer Audio_Resampling Tts_Input Stt_Journal Stt_Policy Stt_Stream Stt_Replay
    Recovery_Timing Stt_Commands Output_Budgets Stable_Text Request_Identity Speech_Failover
begin

text \<open>
  TVIC is a TypeScript runtime for voice agents. A call is a session of turns: audio of the caller is
  normalized and written to a speech recognizer, the transcript goes with the history and the stored
  memory of the caller to a language model, the model may call tools, and its text is cut into pieces
  for a speech synthesizer. Sessions, turns and tool calls are kept in stores, and a lease per session
  says which process owns it, so that another one can take over. This development models the parts
  that decide something, as executable functions and step relations, and proves what makes them
  correct. Paths below are under src/packages.

  \<^bold>\<open>Ground.\<close>
  \<^item> \<open>Prelude\<close>: JavaScript strings are lists of 16-bit code units, a thrown error is the left side of a
    sum, safe integers are \<open>int\<close> with their bounds checked; generic lemmas and hint collections.
  \<^item> \<open>Numbers\<close>, \<open>Text_Encoding\<close>, \<open>Json_Text\<close>: rationals for numbers with a fraction, UTF-16 and UTF-8,
    \<open>encodeURIComponent\<close>, white space, decimal numerals, \<open>JSON.stringify\<close> of plain data.

  \<^bold>\<open>Audio\<close> (media/src).
  \<^item> \<open>Audio_Codec\<close>, \<open>Audio_Resampling\<close>: audio-codec.ts and the formats of core/src/audio.ts. Mu-law
    both ways with its error bound, frames, the linear resampler, which stays within the signal.
  \<^item> \<open>Audio_Normalizer\<close>: audio-normalizer.ts. The record \<open>resampler\<close> is the class
    \<open>StreamingFirResampler\<close> with its sliding buffer, \<open>normalizer\<close> the class \<open>PcmAudioNormalizer\<close>. The
    relation \<open>represents\<close> says that the buffer is the end of the whole signal; from it follows that
    chunking is invisible and that segments do not drift.
  \<^item> \<open>Async_Queue\<close>: async-queue.ts, the bounded queue with one consumer; a contract of queues is a locale
    interpreted on it.

  \<^bold>\<open>Stores\<close> (dal/src, core/src/dal.ts).
  \<^item> \<open>Record_Stores\<close>, \<open>Leases\<close>: in-memory-stores.ts. Versions of records, and leases with holder, fence
    and expiry; fences name one grant, recovery pages visit every candidate once.
  \<^item> \<open>Durable_Store\<close>: in-memory-durable-runtime.ts. A transaction is a function from the store to a
    result and a store, with the snapshot and the rollback of the code; locales state the laws of
    the owner check, and failed transactions, lost leases and failed creations leave nothing behind.
  \<^item> \<open>Memory_Store\<close>: in-memory-memory.ts, with quotas, byte accounting and the deletion of a user.

  \<^bold>\<open>Tools\<close> (tools/src).
  \<^item> \<open>Idempotency_Store\<close>: idempotency-store.ts, claims and recorded outcomes.
  \<^item> \<open>Tool_Execution\<close>: index.ts and idempotency.ts, \<open>executeTool\<close> from the snapshot of the definition to
    the recorded result. The store is an argument, given by the locale of its laws and interpreted on
    \<open>Idempotency_Store\<close>; the tool, its timers and its aborts are events the environment gives for every
    attempt.
  \<^item> \<open>Schema_Validation\<close>, \<open>Typed_Tools\<close>: schema-validation.ts against the inductive \<open>conforms\<close>, and its
    composition with \<open>Tool_Execution\<close>.
  \<^item> \<open>Stable_Text\<close>: serialization.ts, with isNormalizedError and the bounded serialization of errors (core/src/errors.ts,
    core/src/error-serialization.ts). The stable text of plain data decides the data, whatever the order of the entries.
  \<^item> \<open>Request_Identity\<close>: the rest of idempotency.ts, the key and the request hash of a call, with templates and the
    legacy identity. The SHA-256 digest is an argument; the properties ask that it keeps the few texts at hand apart.

  \<^bold>\<open>Context and conversation\<close> (runtime/src).
  \<^item> \<open>Prompt_Context\<close>, \<open>Memory_Paging\<close>: memory-loader.ts, the rendering of untrusted values within a
    budget and the loader over pages; the locale of a paged memory is interpreted on \<open>Memory_Store\<close>.
  \<^item> \<open>Conversation_Policy\<close>: conversation-policy.ts, history, trimming and requests.

  \<^bold>\<open>The turn\<close> (runtime/src).
  \<^item> \<open>Terminal_Arbiter\<close>: terminal-arbitration.ts and pipeline-terminal-boundary.ts. Microtasks are explicit;
    the choice of the end of a turn refines a function of the offered candidates.
  \<^item> \<open>Stt_Policy\<close>, \<open>Stt_Journal\<close>, \<open>Stt_Stream\<close>, \<open>Stt_Replay\<close>: the resilient recognizer stream
    (resilient-stt*.ts). \<open>stream_step\<close> is one atomic piece of the asynchronous code, \<open>stream_reaches\<close> all
    their interleavings; the replay theorems are invariants by rule induction.
  \<^item> \<open>Stt_Commands\<close>: stt-command-controller.ts, the queue in front of a plain recognizer stream. The worker, the chain of
    context updates and the endings are steps of \<open>control_step\<close>; order, bounds and the settling of every promise are invariants.
  \<^item> \<open>Recovery_Timing\<close>: recovery-timing.ts, endpoint timers that stand still during recovery, against two stopwatches.
  \<^item> \<open>Output_Budgets\<close>: pipeline-llm-accumulator.ts, pipeline-payload-budgets.ts and turn-alignment.ts, what a provider's
    output may cost, previews that end between two characters, and the alignment of spoken words.
  \<^item> \<open>Tts_Input\<close>: incremental-tts-input.ts, text to speech batches and the operation queue.
  \<^item> \<open>Speech_Failover\<close>: tts-failover.ts of providers/src. The generator of the stream is the step function \<open>failover_step\<close>;
    the caller hears one provider only, nothing is left running, and the estimate of what is kept back is exact.

  \<^bold>\<open>Asynchronous code.\<close> A piece of code between two awaits is one function; what an await yields comes from
  an argument (an event, a list of results, an environment per attempt), so a theorem over all runs
  covers every interleaving and every failure. Shared state that changes during an await is re-read
  from the state, as in the code.

  \<^bold>\<open>Loops and bounds.\<close> Loops are structural or have a measure; the loops of \<open>produce_from\<close> and of the
  frame split carry a guard that every accepted format passes, and \<open>split_text_into_batches\<close>, which
  need not end, is a partial function whose result is proved to exist for batches of two code units
  or more. No fuel is used in a statement about the result of a loop unless the lemma beside it shows
  that the fuel is enough.

  \<^bold>\<open>Parameters.\<close> Unicode classes and the sentence segmenter of the locale, collation, hashing, the copying
  of tool values, timers, and the calls into providers and tools are arguments; hypotheses state
  only documented laws of them (the segments of a text make up the text), with witnesses that they
  can hold.

  \<^bold>\<open>Findings.\<close> A fractional maximal delay shortens the claim of a tool call below its own timeout
  (\<open>fractional_delay_shortens_claim\<close>); inherited names pass the schema validator
  (\<open>inherited_names_are_not_checked\<close>); a batch size of one code unit makes the speech input loop on a
  pair of surrogates (\<open>split_pair_never\<close>); a tool input that is shaped like an error loses entries in its stable text
  (\<open>extra_entry_ignored\<close>); a word said twice is lost at the border of two alignment events (\<open>repeated_word_is_lost\<close>).

  \<^bold>\<open>Not modelled.\<close> The pipeline loop, session life cycle and managed runtime compose the parts above with
  timers, transports and callbacks of the host; provider adapters are clients of external services, and of the failover
  the mapping of requests and the merging of capabilities is left out;
  the Redis, Postgres and composite adapters run in Lua and SQL on external databases; observation and
  usage only record. Doubles are modelled by exact numbers, so rounding of double arithmetic is not
  covered; base64 and object-graph copying are calls of the platform.
\<close>

end
